(* ===== verification/Prelude.thy ===== *)
theory Prelude
  imports Main "HOL-Library.Multiset"
begin

text \<open>
  The prelude of the development: Go's fixed-width integers as integers with the wrap-around
  written out, the entropy source behind the games' random numbers, indexed access to Go
  slices with the out-of-range panic as \<open>None\<close>, and the generic lemmas on lists that
  several components share.  The collections \<open>wrap_simps\<close> (wrapped arithmetic that stays
  in range) and \<open>slice_simps\<close> (slice accesses) are filled here and used by every
  component's proofs.
\<close>

named_theorems wrap_simps \<open>wrapped arithmetic on values that stay in range\<close>
named_theorems slice_simps \<open>reads and writes of Go slices\<close>

section \<open>Fixed-width integers\<close>

text \<open>
  A Go \<open>int32\<close> or \<open>int64\<close> is an \<open>int\<close> in the signed range; every arithmetic
  operation of the source that could leave the range is wrapped by \<open>i32\<close> or \<open>i64\<close>, which
  reduce modulo \<open>2 ^ 32\<close> or \<open>2 ^ 64\<close> into the signed range, as Go defines overflow.
\<close>

definition i32 :: "int \<Rightarrow> int" where
  "i32 x = (x + 2147483648) mod 4294967296 - 2147483648"

definition i64 :: "int \<Rightarrow> int" where
  "i64 x = (x + 9223372036854775808) mod 18446744073709551616 - 9223372036854775808"

lemma i32_id: "-2147483648 \<le> x \<Longrightarrow> x < 2147483648 \<Longrightarrow> i32 x = x"
  by (simp add: i32_def)

lemma i32_nonneg_id [wrap_simps]: "0 \<le> x \<Longrightarrow> x < 2147483648 \<Longrightarrow> i32 x = x"
  by (simp add: i32_def)

lemma i64_id: "-9223372036854775808 \<le> x \<Longrightarrow> x < 9223372036854775808 \<Longrightarrow> i64 x = x"
  by (simp add: i64_def)

lemma i64_nonneg_id [wrap_simps]: "0 \<le> x \<Longrightarrow> x < 9223372036854775808 \<Longrightarrow> i64 x = x"
  by (simp add: i64_def)

lemma i32_range: "-2147483648 \<le> i32 x" "i32 x < 2147483648"
  by (simp_all add: i32_def)

lemma i64_range: "-9223372036854775808 \<le> i64 x" "i64 x < 9223372036854775808"
  by (simp_all add: i64_def)

lemma i32_add_left: "i32 (i32 x + y) = i32 (x + y)"
  using mod_add_left_eq [of "x + 2147483648" 4294967296 y] by (simp add: i32_def algebra_simps)

lemma i32_mod: "i32 x mod 4294967296 = x mod 4294967296"
  unfolding i32_def by (metis add_diff_cancel mod_diff_left_eq)

text \<open>Go's \<open>/\<close> and \<open>%\<close> on signed integers truncate towards zero.\<close>

definition go_div :: "int \<Rightarrow> int \<Rightarrow> int" where
  "go_div a b = sgn a * sgn b * (\<bar>a\<bar> div \<bar>b\<bar>)"

definition go_mod :: "int \<Rightarrow> int \<Rightarrow> int" where
  "go_mod a b = a - go_div a b * b"

lemma go_div_nonneg [simp]: "0 \<le> a \<Longrightarrow> 0 < b \<Longrightarrow> go_div a b = a div b"
  by (cases "a = 0") (simp_all add: go_div_def)

lemma go_mod_nonneg [simp]: "0 \<le> a \<Longrightarrow> 0 < b \<Longrightarrow> go_mod a b = a mod b"
  by (simp add: go_mod_def minus_div_mult_eq_mod)

section \<open>Slices\<close>

text \<open>\<open>xs[i]\<close> with an \<open>int\<close> index: \<open>None\<close> is Go's index-out-of-range panic.\<close>

definition slice_get :: "'a list \<Rightarrow> int \<Rightarrow> 'a option" where
  "slice_get xs i = (if 0 \<le> i \<and> i < int (length xs) then Some (xs ! nat i) else None)"

lemma slice_get_nat [slice_simps]: "n < length xs \<Longrightarrow> slice_get xs (int n) = Some (xs ! n)"
  by (simp add: slice_get_def)

lemma slice_get_Some: "slice_get xs i = Some x \<Longrightarrow> x \<in> set xs"
  by (auto simp: slice_get_def split: if_splits)

text \<open>\<open>c := d[0]; d = d[1:]\<close>, which every game's \<open>draw\<close> does: \<open>None\<close> on an empty deck.\<close>

fun draw :: "'a list \<Rightarrow> ('a \<times> 'a list) option" where
  "draw [] = None"
| "draw (c # d) = Some (c, d)"

lemma draw_Some_iff: "draw d = Some (c, d') \<longleftrightarrow> d = c # d'"
  by (cases d) auto

lemma draw_nonempty: "d \<noteq> [] \<Longrightarrow> draw d = Some (hd d, tl d)"
  by (cases d) auto

section \<open>Sums over lists\<close>

lemma sum_list_update:
  fixes f :: "'a \<Rightarrow> int"
  assumes "k < length xs"
  shows "sum_list (map f (xs[k := x])) = sum_list (map f xs) - f (xs ! k) + f x"
  using assms
proof (induction xs arbitrary: k)
  case Nil
  then show ?case by simp
next
  case (Cons y ys)
  then show ?case by (cases k) simp_all
qed

lemma sum_list_nonneg_elem_le:
  fixes f :: "'a \<Rightarrow> int"
  assumes "\<forall>x \<in> set xs. 0 \<le> f x" and "x \<in> set xs"
  shows "f x \<le> sum_list (map f xs)"
  using assms
proof (induction xs)
  case Nil
  then show ?case by simp
next
  case (Cons y ys)
  have "0 \<le> sum_list (map f ys)" using Cons.prems(1) by (auto intro!: sum_list_nonneg)
  with Cons show ?case by (cases "x = y") fastforce+
qed

lemma nth_sum_list_le:
  fixes f :: "'a \<Rightarrow> int"
  assumes "\<forall>x \<in> set xs. 0 \<le> f x" and "k < length xs"
  shows "f (xs ! k) \<le> sum_list (map f xs)"
  using assms by (intro sum_list_nonneg_elem_le) simp_all

lemma sum_list_map_add:
  fixes f g :: "'a \<Rightarrow> int"
  shows "sum_list (map (\<lambda>x. f x + g x) xs) = sum_list (map f xs) + sum_list (map g xs)"
  by (induction xs) simp_all

section \<open>Distinct lists as multisets\<close>

lemma distinct_count_le: "distinct xs \<longleftrightarrow> (\<forall>a. count (mset xs) a \<le> 1)"
proof (induction xs)
  case Nil
  then show ?case by simp
next
  case (Cons x xs)
  have "x \<notin> set xs \<longleftrightarrow> count (mset xs) x = 0"
    by (metis count_eq_zero_iff set_mset_mset)
  with Cons show ?case by (auto simp: le_Suc_eq split: if_splits)
qed

lemma distinct_submset: "mset xs \<subseteq># mset ys \<Longrightarrow> distinct ys \<Longrightarrow> distinct xs"
  unfolding distinct_count_le by (meson mset_subset_eq_count order_trans)

lemma set_submset: "mset xs \<subseteq># mset ys \<Longrightarrow> x \<in> set xs \<Longrightarrow> x \<in> set ys"
  by (metis mset_subset_eqD set_mset_mset)

end
