(* ===== verification/Rng.thy ===== *)
theory Rng
  imports Prelude "HOL-Library.Word"
begin

text \<open>
  The random number source of the door games (\<open>internal/doors/rng.go\<close>).

  \<open>CryptoRng.Intn\<close> reads eight fresh bytes from the operating system on every call.  The
  entropy is a parameter of the model: a stream of 64-bit words, one for each
  \<open>binary.LittleEndian.Uint64\<close> of a successful \<open>rand.Read\<close> (in the Go release the module
  requires, \<open>rand.Read\<close> never returns an error, so the panic after it is not reachable).

  The interface the games rely on is the locale \<open>rng\<close>: a draw from \<open>Intn(n)\<close> lies in
  \<open>[0, n)\<close>.  \<open>rng_full\<close> adds that every value of the range can be drawn.  Both are
  interpreted on \<open>crypto_intn\<close>.
\<close>

type_synonym entropy = "nat \<Rightarrow> 64 word"

definition crypto_intn :: "entropy \<Rightarrow> int \<Rightarrow> int \<times> entropy" where
  "crypto_intn r n =
     (if n \<le> 0 then (0, r) else (i64 (uint (r 0) mod n), \<lambda>i. r (Suc i)))"

text \<open>One more word in front of a stream.\<close>

definition feed :: "64 word \<Rightarrow> entropy \<Rightarrow> entropy" where
  "feed w r = (\<lambda>i. case i of 0 \<Rightarrow> w | Suc k \<Rightarrow> r k)"

fun feed_all :: "64 word list \<Rightarrow> entropy \<Rightarrow> entropy" where
  "feed_all [] r = r"
| "feed_all (w # ws) r = feed w (feed_all ws r)"

lemma feed_0 [simp]: "feed w r 0 = w"
  by (simp add: feed_def)

lemma feed_tail [simp]: "(\<lambda>i. feed w r (Suc i)) = r"
  by (simp add: feed_def)

lemma crypto_intn_feed:
  "0 < n \<Longrightarrow> n < 9223372036854775808 \<Longrightarrow> crypto_intn (feed w r) n = (uint w mod n, r)"
  using pos_mod_bound [of n "uint w"] pos_mod_sign [of n "uint w"]
  by (simp add: crypto_intn_def i64_id del: pos_mod_bound pos_mod_sign)

locale rng =
  fixes intn :: "'s \<Rightarrow> int \<Rightarrow> int \<times> 's"
  assumes intn_range:
    "0 < n \<Longrightarrow> n < 9223372036854775808 \<Longrightarrow> 0 \<le> fst (intn s n) \<and> fst (intn s n) < n"
begin

lemma intn_cases:
  assumes "0 < n" and "n < 9223372036854775808"
  obtains k s' where "intn s n = (k, s')" and "0 \<le> k" and "k < n"
  using intn_range [OF assms, of s] by (cases "intn s n") auto

end

locale rng_full = rng +
  assumes intn_onto:
    "0 \<le> k \<Longrightarrow> k < n \<Longrightarrow> n < 9223372036854775808 \<Longrightarrow> \<exists>s'. intn s' n = (k, s)"

interpretation crypto: rng_full crypto_intn
proof unfold_locales
  fix n :: int and s :: entropy
  assume n: "0 < n" "n < 9223372036854775808"
  have "0 \<le> uint (s 0) mod n" "uint (s 0) mod n < n"
    using n(1) by simp_all
  with n show "0 \<le> fst (crypto_intn s n) \<and> fst (crypto_intn s n) < n"
    by (simp add: crypto_intn_def i64_id)
next
  fix k n :: int and s :: entropy
  assume k: "0 \<le> k" "k < n" "n < 9223372036854775808"
  then have "uint (word_of_int k :: 64 word) = k"
    by (simp add: uint_word_of_int)
  with k have "crypto_intn (feed (word_of_int k) s) n = (k, s)"
    by (simp add: crypto_intn_feed)
  then show "\<exists>s'. crypto_intn s' n = (k, s)" by blast
qed

end
