(* ===== verification/Slots.thy ===== *)
theory Slots
  imports Rng
begin

text \<open>
  The slot machine (\<open>internal/doors/slots/slots.go\<close>): the weighted symbol draw, the
  classification of a spin, the payout, and the machine's exact return.  A \<open>Symbol\<close> is the
  source's integer index; indexing a table out of range is the panic \<open>None\<close>.
\<close>

definition symbolNames :: "string list" where
  "symbolNames =
     [[CHR 0xF0, CHR 0x9F, CHR 0x8D, CHR 0x92], [CHR 0xF0, CHR 0x9F, CHR 0x8D, CHR 0x8B],
      [CHR 0xF0, CHR 0x9F, CHR 0x8D, CHR 0x8A], [CHR 0xF0, CHR 0x9F, CHR 0x8D, CHR 0x87],
      [CHR 0xF0, CHR 0x9F, CHR 0x94, CHR 0x94], ''BAR'', ''7'']"

text \<open>The five pictograms are their UTF-8 bytes, as the source file holds them.\<close>

definition symbol_name :: "int \<Rightarrow> string" where
  "symbol_name s =
     (if s < 0 \<or> s \<ge> int (length symbolNames) then ''?'' else symbolNames ! nat s)"

definition weights :: "int list" where
  "weights = [30, 22, 18, 14, 10, 5, 1]"

definition threeOfAKind :: "int list" where
  "threeOfAKind = [5, 10, 15, 25, 50, 100, 250]"

definition twoOfAKind :: "int list" where
  "twoOfAKind = [2, 2, 2, 3, 3, 5, 10]"

record spin =
  Reels :: "int list"
  Multiplier :: int
  Winning :: bool

text \<open>The loop \<open>for sym, w := range weights\<close>, falling through to \<open>Cherry\<close>.\<close>

fun symbol_loop :: "int \<Rightarrow> int \<Rightarrow> int \<Rightarrow> int list \<Rightarrow> int" where
  "symbol_loop n cum y [] = 0"
| "symbol_loop n cum y (w # ws) =
     (if n < cum + w then y else symbol_loop n (cum + w) (y + 1) ws)"

definition symbol_at :: "int \<Rightarrow> int" where
  "symbol_at n = symbol_loop n 0 0 weights"

definition drawSymbol :: "('s \<Rightarrow> int \<Rightarrow> int \<times> 's) \<Rightarrow> 's \<Rightarrow> int \<times> 's" where
  "drawSymbol intn s = (case intn s 100 of (n, s') \<Rightarrow> (symbol_at n, s'))"

text \<open>The part of \<open>Draw\<close> after the reels have stopped at \<open>a\<close>, \<open>b\<close>, \<open>c\<close>.\<close>

definition classify :: "int \<Rightarrow> int \<Rightarrow> int \<Rightarrow> spin option" where
  "classify a b c =
     (if a = b \<and> b = c then
        map_option (\<lambda>m. \<lparr>Reels = [a, b, c], Multiplier = m, Winning = m > 0\<rparr>)
          (slice_get threeOfAKind a)
      else if a = b \<or> b = c \<or> a = c then
        (let y = (if a = b then a else if b = c then b else a) in
         map_option (\<lambda>m. \<lparr>Reels = [a, b, c], Multiplier = m, Winning = m > 0\<rparr>)
          (slice_get twoOfAKind y))
      else Some \<lparr>Reels = [a, b, c], Multiplier = 0, Winning = False\<rparr>)"

definition spin_draw :: "('s \<Rightarrow> int \<Rightarrow> int \<times> 's) \<Rightarrow> 's \<Rightarrow> spin option \<times> 's" where
  "spin_draw intn s =
     (case drawSymbol intn s of (a, s1) \<Rightarrow>
      case drawSymbol intn s1 of (b, s2) \<Rightarrow>
      case drawSymbol intn s2 of (c, s3) \<Rightarrow> (classify a b c, s3))"

definition payout :: "int \<Rightarrow> spin \<Rightarrow> int" where
  "payout bet sp = (if \<not> Winning sp then 0 else i32 (bet * i32 (Multiplier sp)))"

section \<open>Drawn symbols and multipliers are in range\<close>

lemma symbol_at_cases:
  "0 \<le> n \<Longrightarrow> n < 100 \<Longrightarrow> symbol_at n =
    (if n < 30 then 0 else if n < 52 then 1 else if n < 70 then 2 else if n < 84 then 3
     else if n < 94 then 4 else if n < 99 then 5 else 6)"
  by (simp add: symbol_at_def weights_def)

lemma symbol_at_range: "0 \<le> symbol_at n \<and> symbol_at n \<le> 6"
  by (simp add: symbol_at_def weights_def)

lemma slice_get_7:
  assumes "length xs = 7" and "0 \<le> k" and "k \<le> 6"
  shows "slice_get xs k = Some (xs ! nat k)"
  using assms by (simp add: slice_get_def)

lemma symbol_index_cases:
  "0 \<le> (k::int) \<Longrightarrow> k \<le> 6 \<Longrightarrow> k = 0 \<or> k = 1 \<or> k = 2 \<or> k = 3 \<or> k = 4 \<or> k = 5 \<or> k = 6"
  by arith

lemma classify_Some:
  assumes "0 \<le> a \<and> a \<le> 6" and "0 \<le> b \<and> b \<le> 6"
  shows "\<exists>sp. classify a b c = Some sp \<and> Reels sp = [a, b, c]
    \<and> 0 \<le> Multiplier sp \<and> Multiplier sp \<le> 250 \<and> (Winning sp \<longleftrightarrow> 0 < Multiplier sp)
    \<and> (Winning sp \<longleftrightarrow> a = b \<or> b = c \<or> a = c)"
proof -
  have three: "\<exists>m. slice_get threeOfAKind k = Some m \<and> 0 < m \<and> m \<le> 250"
    if "0 \<le> k" "k \<le> 6" for k
    using symbol_index_cases [OF that] by (auto simp: slice_get_def threeOfAKind_def)
  have two: "\<exists>m. slice_get twoOfAKind k = Some m \<and> 0 < m \<and> m \<le> 250"
    if "0 \<le> k" "k \<le> 6" for k
    using symbol_index_cases [OF that] by (auto simp: slice_get_def twoOfAKind_def)
  consider "a = b" "b = c" | "\<not> (a = b \<and> b = c)" "a = b \<or> b = c \<or> a = c"
    | "a \<noteq> b" "b \<noteq> c" "a \<noteq> c" by blast
  then show ?thesis
  proof cases
    case 1
    with three [of a] assms show ?thesis by (auto simp: classify_def)
  next
    case 2
    with two [of "if a = b then a else if b = c then b else a"] assms show ?thesis
      by (auto simp: classify_def Let_def)
  next
    case 3
    then show ?thesis by (auto simp: classify_def)
  qed
qed

lemma drawSymbol_range: "drawSymbol intn s = (k, s') \<Longrightarrow> 0 \<le> k \<and> k \<le> 6"
  using symbol_at_range by (auto simp: drawSymbol_def split: prod.splits)

lemma spin_draw_Some:
  "\<exists>sp s'. spin_draw intn s = (Some sp, s') \<and> 0 \<le> Multiplier sp \<and> Multiplier sp \<le> 250
     \<and> (Winning sp \<longleftrightarrow> 0 < Multiplier sp) \<and> length (Reels sp) = 3"
proof -
  obtain a s1 where a: "drawSymbol intn s = (a, s1)" by fastforce
  obtain b s2 where b: "drawSymbol intn s1 = (b, s2)" by fastforce
  obtain c s3 where c: "drawSymbol intn s2 = (c, s3)" by fastforce
  have "spin_draw intn s = (classify a b c, s3)"
    by (simp add: spin_draw_def a b c)
  moreover obtain sp where sp: "classify a b c = Some sp" "Reels sp = [a, b, c]"
      "0 \<le> Multiplier sp" "Multiplier sp \<le> 250" "Winning sp \<longleftrightarrow> 0 < Multiplier sp"
    using classify_Some [OF drawSymbol_range [OF a] drawSymbol_range [OF b], of c] by blast
  ultimately show ?thesis by (auto intro!: exI [of _ sp])
qed

section \<open>The exact return\<close>

text \<open>
  A spin consumes three draws of \<open>Intn(100)\<close>.  \<open>spin_return bet a b c\<close> is the payout of
  the spin whose draws are \<open>a\<close>, \<open>b\<close> and \<open>c\<close>, run through \<open>spin_draw\<close> on the production
  random source fed with these three words.
\<close>

definition spin_return :: "int \<Rightarrow> int \<Rightarrow> int \<Rightarrow> int \<Rightarrow> int" where
  "spin_return bet a b c =
     (case fst (spin_draw crypto_intn
             (feed_all [word_of_int a, word_of_int b, word_of_int c] (\<lambda>_. 0))) of
        None \<Rightarrow> 0 | Some sp \<Rightarrow> payout bet sp)"

definition symbol_return :: "int \<Rightarrow> int \<Rightarrow> int \<Rightarrow> int" where
  "symbol_return x y z = (case classify x y z of None \<Rightarrow> 0 | Some sp \<Rightarrow> Multiplier sp)"

definition weighted :: "(int \<Rightarrow> int) \<Rightarrow> int" where
  "weighted f = 30 * f 0 + 22 * f 1 + 18 * f 2 + 14 * f 3 + 10 * f 4 + 5 * f 5 + f 6"

lemma draw_fed:
  assumes "0 \<le> a" and "a < 100"
  shows "drawSymbol crypto_intn (feed (word_of_int a) r) = (symbol_at a, r)"
  using assms by (simp add: drawSymbol_def crypto_intn_feed uint_word_of_int)

lemma spin_return_symbols:
  assumes "0 \<le> a \<and> a < 100" and "0 \<le> b \<and> b < 100" and "0 \<le> c \<and> c < 100"
    and bet: "0 \<le> bet" "bet \<le> 8000000"
  shows "spin_return bet a b c = bet * symbol_return (symbol_at a) (symbol_at b) (symbol_at c)"
proof -
  have "fst (spin_draw crypto_intn
             (feed_all [word_of_int a, word_of_int b, word_of_int c] (\<lambda>_. 0)))
      = classify (symbol_at a) (symbol_at b) (symbol_at c)"
    using assms by (simp add: spin_draw_def draw_fed)
  moreover obtain sp where sp: "classify (symbol_at a) (symbol_at b) (symbol_at c) = Some sp"
      "0 \<le> Multiplier sp" "Multiplier sp \<le> 250" "Winning sp \<longleftrightarrow> 0 < Multiplier sp"
    using classify_Some [OF symbol_at_range symbol_at_range] by blast
  moreover have "payout bet sp = bet * Multiplier sp"
  proof -
    have "bet * Multiplier sp \<le> 8000000 * 250"
      using bet sp by (intro mult_mono) simp_all
    then have "i32 (bet * i32 (Multiplier sp)) = bet * Multiplier sp"
      using bet sp by (simp add: i32_nonneg_id)
    then show ?thesis using sp by (auto simp: payout_def)
  qed
  ultimately show ?thesis by (simp add: spin_return_def symbol_return_def)
qed

lemma sum_by_symbol: "(\<Sum>n = 0..<100. f (symbol_at n)) = weighted f"
proof -
  let ?g = "\<lambda>n. f (symbol_at n)"
  have const: "(\<Sum>n = l..<u. ?g n) = (u - l) * f k"
    if "l \<le> u" "\<And>n. l \<le> n \<Longrightarrow> n < u \<Longrightarrow> symbol_at n = k" for l u k :: int
    using that by (simp add: sum.cong [of "{l..<u}" "{l..<u}" ?g "\<lambda>_. f k"])
  have split: "(\<Sum>n = l..<m. ?g n) + (\<Sum>n = m..<u. ?g n) = (\<Sum>n = l..<u. ?g n)"
    if "l \<le> m" "m \<le> u" for l m u :: int
    using that by (simp add: sum.atLeastLessThan_concat ivl_disj_un_two flip: sum.union_disjoint)
  have "(\<Sum>n = 0..<30. ?g n) = 30 * f 0" "(\<Sum>n = 30..<52. ?g n) = 22 * f 1"
    "(\<Sum>n = 52..<70. ?g n) = 18 * f 2" "(\<Sum>n = 70..<84. ?g n) = 14 * f 3"
    "(\<Sum>n = 84..<94. ?g n) = 10 * f 4" "(\<Sum>n = 94..<99. ?g n) = 5 * f 5"
    "(\<Sum>n = 99..<100. ?g n) = 1 * f 6"
    by (rule const [THEN trans]; simp add: symbol_at_cases)+
  then show ?thesis
    using split [of 0 30 100] split [of 30 52 100] split [of 52 70 100] split [of 70 84 100]
      split [of 84 94 100] split [of 94 99 100] by (simp add: weighted_def)
qed

lemma weighted_returns: "weighted (\<lambda>x. weighted (\<lambda>y. weighted (symbol_return x y))) = 1495529"
  by code_simp

lemma total_symbols:
  "(\<Sum>a = 0..<100. \<Sum>b = 0..<100. \<Sum>c = 0..<100.
      symbol_return (symbol_at a) (symbol_at b) (symbol_at c)) = 1495529"
proof -
  have "(\<Sum>a = 0..<100. \<Sum>b = 0..<100. \<Sum>c = 0..<100.
      symbol_return (symbol_at a) (symbol_at b) (symbol_at c)) =
    (\<Sum>a = 0..<100. \<Sum>b = 0..<100. weighted (symbol_return (symbol_at a) (symbol_at b)))"
    by (simp only: sum_by_symbol)
  also have "\<dots> = (\<Sum>a = 0..<100. weighted (\<lambda>y. weighted (symbol_return (symbol_at a) y)))"
    by (simp only: sum_by_symbol [of "\<lambda>y. weighted (symbol_return (symbol_at a) y)" for a])
  also have "\<dots> = weighted (\<lambda>x. weighted (\<lambda>y. weighted (symbol_return x y)))"
    by (simp only: sum_by_symbol [of "\<lambda>x. weighted (\<lambda>y. weighted (symbol_return x y))"])
  also have "\<dots> = 1495529" by (rule weighted_returns)
  finally show ?thesis .
qed

section \<open>Properties\<close>


text \<open>
  over the million equally likely triples of draws a bet returns 1.495529 times its
  stake on average: the machine pays out half as much again as it takes.
\<close>
theorem slot_return_rate:
  assumes "0 \<le> bet" and "bet \<le> 8000000"
  shows "(\<Sum>a = 0..<100. \<Sum>b = 0..<100. \<Sum>c = 0..<100. spin_return bet a b c) = bet * 1495529"
proof -
  have "(\<Sum>a = 0..<100. \<Sum>b = 0..<100. \<Sum>c = 0..<100. spin_return bet a b c) =
    (\<Sum>a = 0..<100. \<Sum>b = 0..<100. \<Sum>c = 0..<100.
       bet * symbol_return (symbol_at a) (symbol_at b) (symbol_at c))"
    using assms by (intro sum.cong refl) (simp add: spin_return_symbols)
  also have "\<dots> = bet * 1495529"
    by (simp only: total_symbols flip: sum_distrib_left)
  finally show ?thesis .
qed

theorem slot_return_rate_witness:
  "(\<Sum>a = 0..<100. \<Sum>b = 0..<100. \<Sum>c = 0..<100. spin_return 10 a b c) = 14955290"
  using slot_return_rate [of 10] by simp

end
