(* ===== verification/Cards.thy ===== *)
theory Cards
  imports Rng "HOL-Library.Word"
begin

unbundle bit_operations_syntax

text \<open>
  The shared deck and hand evaluator (\<open>internal/doors/cards/cards.go\<close>): the deck and its
  Fisher-Yates shuffle, the five-card evaluator, the tie-break packing and the search for the
  best five of six or seven cards.  A card's rank and suit are Go \<open>int\<close>s, because the zero
  card \<open>Card{}\<close> (an empty seat's hole) is a value of the type.
\<close>

section \<open>Cards, decks and hand ranks\<close>

record card =
  rank :: int
  suit :: int

abbreviation mk_card :: "int \<Rightarrow> int \<Rightarrow> card" where
  "mk_card r s \<equiv> \<lparr>rank = r, suit = s\<rparr>"

definition zero_card :: card where
  "zero_card = \<lparr>rank = 0, suit = 0\<rparr>"

definition valid_card :: "card \<Rightarrow> bool" where
  "valid_card c \<longleftrightarrow> 2 \<le> rank c \<and> rank c \<le> 14 \<and> 0 \<le> suit c \<and> suit c \<le> 3"

definition new_deck :: "card list" where
  "new_deck = concat (map (\<lambda>s. map (\<lambda>r. mk_card r s) [2..14]) [0..3])"

datatype hand_rank =
    HighCard | JacksOrBetter | TwoPair | ThreeOfAKind | Straight | Flush | FullHouse
  | FourOfAKind | StraightFlush | RoyalFlush

fun hand_rank_ord :: "hand_rank \<Rightarrow> nat" where
  "hand_rank_ord HighCard = 0"
| "hand_rank_ord JacksOrBetter = 1"
| "hand_rank_ord TwoPair = 2"
| "hand_rank_ord ThreeOfAKind = 3"
| "hand_rank_ord Straight = 4"
| "hand_rank_ord Flush = 5"
| "hand_rank_ord FullHouse = 6"
| "hand_rank_ord FourOfAKind = 7"
| "hand_rank_ord StraightFlush = 8"
| "hand_rank_ord RoyalFlush = 9"

lemma hand_rank_ord_inj: "hand_rank_ord a = hand_rank_ord b \<Longrightarrow> a = b"
  by (cases a; cases b) simp_all

instantiation hand_rank :: linorder
begin

definition less_eq_hand_rank :: "hand_rank \<Rightarrow> hand_rank \<Rightarrow> bool" where
  "a \<le> b \<longleftrightarrow> hand_rank_ord a \<le> hand_rank_ord b"

definition less_hand_rank :: "hand_rank \<Rightarrow> hand_rank \<Rightarrow> bool" where
  "a < b \<longleftrightarrow> hand_rank_ord a < hand_rank_ord b"

instance
  by standard (auto simp: less_eq_hand_rank_def less_hand_rank_def intro: hand_rank_ord_inj)

end

lemma HighCard_least [simp]: "HighCard \<le> h"
  by (simp add: less_eq_hand_rank_def)

lemma not_less_HighCard [simp]: "\<not> h < HighCard"
  by (simp add: less_hand_rank_def)

fun hand_rank_string :: "hand_rank \<Rightarrow> string" where
  "hand_rank_string JacksOrBetter = ''Jacks or Better''"
| "hand_rank_string TwoPair = ''Two Pair''"
| "hand_rank_string ThreeOfAKind = ''Three of a Kind''"
| "hand_rank_string Straight = ''Straight''"
| "hand_rank_string Flush = ''Flush''"
| "hand_rank_string FullHouse = ''Full House''"
| "hand_rank_string FourOfAKind = ''Four of a Kind''"
| "hand_rank_string StraightFlush = ''Straight Flush''"
| "hand_rank_string RoyalFlush = ''Royal Flush''"
| "hand_rank_string HighCard = ''''"

text \<open>
  \<open>Card.String\<close>: the rank glyph, \<open>None\<close> being the panic of indexing \<open>rankStr\<close> or the suit
  runes out of range; the suit glyph is given by its position in \<open>suitStr\<close>, whose four
  runes are outside the 8-bit characters.
\<close>

definition card_string :: "card \<Rightarrow> (char \<times> nat) option" where
  "card_string c =
     (case slice_get ''  23456789TJQKA'' (rank c) of
        None \<Rightarrow> None
      | Some r \<Rightarrow> map_option (\<lambda>s. (r, s)) (slice_get [0x2663, 0x2666, 0x2665, 0x2660] (suit c)))"

lemma new_deck_length: "length new_deck = 52"
  by code_simp

lemma new_deck_distinct: "distinct new_deck"
  by code_simp

lemma new_deck_valid: "c \<in> set new_deck \<Longrightarrow> valid_card c"
  by (auto simp: new_deck_def valid_card_def)

lemma new_deck_complete: "valid_card c \<Longrightarrow> c \<in> set new_deck"
proof -
  assume v: "valid_card c"
  then have "rank c \<in> set [2..14]" and "suit c \<in> set [0..3]"
    by (simp_all only: valid_card_def set_upto atLeastAtMost_iff)
  moreover have "c = mk_card (rank c) (suit c)" by simp
  ultimately show ?thesis unfolding new_deck_def by (metis (no_types, lifting) UN_I image_eqI set_concat set_map)
qed

section \<open>Shuffling\<close>

text \<open>
  \<open>shuffle_loop intn i deck s\<close> is the loop \<open>for i := \<dots>; i > 0; i--\<close> entered at \<open>i\<close>; the
  random source is a parameter so that its law is stated once.
\<close>

fun shuffle_loop ::
  "('s \<Rightarrow> int \<Rightarrow> int \<times> 's) \<Rightarrow> nat \<Rightarrow> 'a list \<Rightarrow> 's \<Rightarrow> 'a list \<times> 's" where
  "shuffle_loop intn 0 deck s = (deck, s)"
| "shuffle_loop intn (Suc i) deck s =
     (case intn s (int (Suc i) + 1) of (j, s') \<Rightarrow>
        shuffle_loop intn i (deck[Suc i := deck ! nat j, nat j := deck ! Suc i]) s')"

definition shuffle ::
  "('s \<Rightarrow> int \<Rightarrow> int \<times> 's) \<Rightarrow> 'a list \<Rightarrow> 's \<Rightarrow> 'a list \<times> 's" where
  "shuffle intn deck s = shuffle_loop intn (length deck - 1) deck s"

lemma mset_take_swap:
  assumes "i < n" and "j < n" and "n \<le> length xs"
  shows "mset (take n (xs[i := xs ! j, j := xs ! i])) = mset (take n xs)"
proof -
  have "take n (xs[i := xs ! j, j := xs ! i]) =
      (take n xs)[i := take n xs ! j, j := take n xs ! i]"
    using assms by (simp add: take_update_swap)
  then show ?thesis
    using assms mset_swap [of j "take n xs" i] by simp
qed

lemma mset_take_Suc:
  "k < length xs \<Longrightarrow> mset (take (Suc k) xs) = add_mset (xs ! k) (mset (take k xs))"
  by (simp add: take_Suc_conv_app_nth)

context rng
begin

lemma shuffle_loop_mset:
  "i < length deck \<Longrightarrow> int (length deck) < 9223372036854775808 \<Longrightarrow>
   mset (fst (shuffle_loop intn i deck s)) = mset deck \<and>
   length (fst (shuffle_loop intn i deck s)) = length deck"
proof (induction i arbitrary: deck s)
  case 0
  then show ?case by simp
next
  case (Suc i)
  obtain j s' where j: "intn s (int (Suc i) + 1) = (j, s')" "0 \<le> j" "j < int (Suc i) + 1"
    using Suc.prems by (rule_tac intn_cases [of "int (Suc i) + 1" s]) auto
  let ?d = "deck[Suc i := deck ! nat j, nat j := deck ! Suc i]"
  have "mset ?d = mset deck"
    using Suc.prems j mset_swap [of "nat j" deck "Suc i"] by simp
  moreover have "mset (fst (shuffle_loop intn i ?d s')) = mset ?d"
    using Suc.IH [of ?d s'] Suc.prems by simp
  moreover have "length (fst (shuffle_loop intn i ?d s')) = length ?d"
    using Suc.IH [of ?d s'] Suc.prems by simp
  ultimately show ?case using j(1) by simp
qed

lemma shuffle_mset:
  assumes "int (length deck) < 9223372036854775808"
  shows "mset (fst (shuffle intn deck s)) = mset deck"
proof (cases deck)
  case Nil
  then show ?thesis by (simp add: shuffle_def)
next
  case (Cons c d)
  then show ?thesis
    using shuffle_loop_mset [of "length deck - 1" deck s] assms by (simp add: shuffle_def)
qed

end

context rng_full
begin

lemma shuffle_loop_onto:
  assumes "i < length deck" and "length p = length deck"
    and "int (length deck) < 9223372036854775808"
    and "mset (take (Suc i) p) = mset (take (Suc i) deck)"
    and "drop (Suc i) p = drop (Suc i) deck"
  shows "\<exists>s'. shuffle_loop intn i deck s' = (p, s)"
  using assms
proof (induction i arbitrary: deck)
  case 0
  then have "p = deck"
    by (cases p; cases deck) auto
  then show ?case by auto
next
  case (Suc i)
  have "p ! Suc i \<in> set (take (Suc (Suc i)) p)"
    using Suc.prems by (metis in_set_conv_nth length_take lessI min_less_iff_conj nth_take)
  then have "p ! Suc i \<in> set (take (Suc (Suc i)) deck)"
    using Suc.prems(4) by (metis set_mset_mset)
  then obtain j where j: "j < Suc (Suc i)" "deck ! j = p ! Suc i"
    using Suc.prems(1) by (metis in_set_conv_nth length_take min_less_iff_conj nth_take)
  let ?d = "deck[Suc i := deck ! j, j := deck ! Suc i]"
  have at: "?d ! Suc i = p ! Suc i"
    using j Suc.prems(1) by (cases "j = Suc i") simp_all
  have pre: "mset (take (Suc (Suc i)) ?d) = mset (take (Suc (Suc i)) p)"
    using mset_take_swap [of "Suc i" "Suc (Suc i)" j deck] j Suc.prems(1,4) by simp
  have m: "mset (take (Suc i) p) = mset (take (Suc i) ?d)"
    using pre at Suc.prems(1,2) mset_take_Suc [of "Suc i" p] mset_take_Suc [of "Suc i" ?d]
    by simp
  have tl: "drop (Suc i) p = drop (Suc i) ?d"
  proof -
    have "drop (Suc (Suc i)) ?d = drop (Suc (Suc i)) deck"
      using j by simp
    with Suc.prems(5) have "drop (Suc (Suc i)) p = drop (Suc (Suc i)) ?d" by simp
    moreover have "drop (Suc i) p = p ! Suc i # drop (Suc (Suc i)) p"
      using Suc.prems(1,2) by (simp add: Cons_nth_drop_Suc)
    moreover have "drop (Suc i) ?d = ?d ! Suc i # drop (Suc (Suc i)) ?d"
      using Suc.prems(1) by (simp add: Cons_nth_drop_Suc del: drop_update_cancel)
    ultimately show ?thesis using at by simp
  qed
  obtain s1 where s1: "shuffle_loop intn i ?d s1 = (p, s)"
    using Suc.IH [of ?d] Suc.prems(1,2,3) m tl by auto
  obtain s' where "intn s' (int (Suc i) + 1) = (int j, s1)"
    using intn_onto [of "int j" "int (Suc i) + 1" s1] j(1) Suc.prems(1,3) by auto
  with s1 show ?case
    by (intro exI [of _ s']) simp
qed

lemma shuffle_onto:
  assumes "mset p = mset deck" and "int (length deck) < 9223372036854775808"
  shows "\<exists>s'. shuffle intn deck s' = (p, s)"
proof (cases deck)
  case Nil
  with assms show ?thesis by (auto simp: shuffle_def)
next
  case (Cons c d)
  moreover have "length p = length deck"
    using assms(1) mset_eq_length by blast
  ultimately show ?thesis
    using shuffle_loop_onto [of "length deck - 1" deck p s] assms by (simp add: shuffle_def)
qed

end


section \<open>The five-card evaluator\<close>

record tally =
  pairs :: nat
  trips :: nat
  quads :: nat
  pairHigh :: int

definition tally0 :: tally where
  "tally0 = \<lparr>pairs = 0, trips = 0, quads = 0, pairHigh = 0\<rparr>"

fun isStraight :: "int list \<Rightarrow> bool" where
  "isStraight (x # y # zs) = (if y \<noteq> x + 1 then False else isStraight (y # zs))"
| "isStraight _ = True"

text \<open>One pass of the loop over the map \<open>counts\<close>: \<open>r\<close> is the key, its count the value.\<close>

definition tally_step :: "int list \<Rightarrow> tally \<Rightarrow> int \<Rightarrow> tally" where
  "tally_step ranks t r =
     (let c = count_list ranks r in
      if c = 4 then t\<lparr>quads := quads t + 1\<rparr>
      else if c = 3 then t\<lparr>trips := trips t + 1\<rparr>
      else if c = 2 then t\<lparr>pairs := pairs t + 1,
                          pairHigh := (if r > pairHigh t then r else pairHigh t)\<rparr>
      else t)"

text \<open>
  \<open>evaluate_keys keys hand\<close> is \<open>Evaluate(hand)\<close> where Go's map iteration visits the ranks in
  the order \<open>keys\<close>; the language leaves that order open.  \<open>evaluate\<close> takes one of the orders,
  and \<open>evaluate_keys_any\<close> below shows that the order is immaterial.
\<close>

definition evaluate_keys :: "int list \<Rightarrow> card list \<Rightarrow> hand_rank" where
  "evaluate_keys keys hand =
     (if length hand \<noteq> 5 then HighCard
      else
        let ranks = sort (map rank hand);
            suits = map suit hand;
            flush = list_all (\<lambda>s. s = suits ! 0) (tl suits);
            wheel = ranks ! 0 = 2 \<and> ranks ! 1 = 3 \<and> ranks ! 2 = 4 \<and> ranks ! 3 = 5 \<and> ranks ! 4 = 14;
            straight = (if wheel then True else isStraight ranks);
            t = foldl (tally_step ranks) tally0 keys
        in if flush \<and> straight \<and> ranks ! 0 = 10 then RoyalFlush
           else if flush \<and> straight then StraightFlush
           else if quads t = 1 then FourOfAKind
           else if trips t = 1 \<and> pairs t = 1 then FullHouse
           else if flush then Flush
           else if straight then Straight
           else if trips t = 1 then ThreeOfAKind
           else if pairs t = 2 then TwoPair
           else if pairs t = 1 \<and> pairHigh t \<ge> 11 then JacksOrBetter
           else HighCard)"

definition evaluate :: "card list \<Rightarrow> hand_rank" where
  "evaluate hand = evaluate_keys (remdups (map rank hand)) hand"

lemma tally_step_fields:
  "quads (tally_step rs t r) = quads t + (if count_list rs r = 4 then 1 else 0)"
  "trips (tally_step rs t r) = trips t + (if count_list rs r = 3 then 1 else 0)"
  "pairs (tally_step rs t r) = pairs t + (if count_list rs r = 2 then 1 else 0)"
  "pairHigh (tally_step rs t r) =
     (if count_list rs r = 2 then max r (pairHigh t) else pairHigh t)"
  by (auto simp: tally_step_def Let_def max_def)

lemma tally_foldl:
  "quads (foldl (tally_step rs) t ks) = quads t + length (filter (\<lambda>r. count_list rs r = 4) ks)"
  "trips (foldl (tally_step rs) t ks) = trips t + length (filter (\<lambda>r. count_list rs r = 3) ks)"
  "pairs (foldl (tally_step rs) t ks) = pairs t + length (filter (\<lambda>r. count_list rs r = 2) ks)"
  "pairHigh (foldl (tally_step rs) t ks) =
     fold max (filter (\<lambda>r. count_list rs r = 2) ks) (pairHigh t)"
  by (induction ks arbitrary: t) (simp_all add: tally_step_fields)

lemma fold_max_ge_iff:
  "(k::int) \<le> fold max xs a \<longleftrightarrow> k \<le> a \<or> (\<exists>x \<in> set xs. k \<le> x)"
  by (induction xs arbitrary: a) (auto simp: le_max_iff_disj)

lemma distinct_filter_card:
  "distinct ks \<Longrightarrow> length (filter P ks) = card {r \<in> set ks. P r}"
  by (metis distinct_card distinct_filter set_filter)

text \<open>
  An order-free reading of the poker classes: how many ranks occur exactly \<open>n\<close> times, whether
  one suit covers the hand, and whether the ranks are consecutive.
\<close>

definition groups :: "card list \<Rightarrow> nat \<Rightarrow> int set" where
  "groups hand n = {r. count (image_mset rank (mset hand)) r = n}"

definition one_suit :: "card list \<Rightarrow> bool" where
  "one_suit hand \<longleftrightarrow> (\<exists>s. \<forall>c \<in> set hand. suit c = s)"

definition run_from :: "card list \<Rightarrow> int \<Rightarrow> bool" where
  "run_from hand k \<longleftrightarrow> image_mset rank (mset hand) = mset [k, k+1, k+2, k+3, k+4]"

definition wheel_ranks :: "card list \<Rightarrow> bool" where
  "wheel_ranks hand \<longleftrightarrow> image_mset rank (mset hand) = mset [2, 3, 4, 5, 14]"

definition poker_class :: "card list \<Rightarrow> hand_rank" where
  "poker_class hand =
     (if one_suit hand \<and> run_from hand 10 then RoyalFlush
      else if one_suit hand \<and> (wheel_ranks hand \<or> (\<exists>k. run_from hand k)) then StraightFlush
      else if card (groups hand 4) = 1 then FourOfAKind
      else if card (groups hand 3) = 1 \<and> card (groups hand 2) = 1 then FullHouse
      else if one_suit hand then Flush
      else if wheel_ranks hand \<or> (\<exists>k. run_from hand k) then Straight
      else if card (groups hand 3) = 1 then ThreeOfAKind
      else if card (groups hand 2) = 2 then TwoPair
      else if card (groups hand 2) = 1 \<and> (\<exists>r \<in> groups hand 2. r \<ge> 11) then JacksOrBetter
      else HighCard)"

lemma count_list_mset: "count_list xs r = count (mset xs) r"
  by (simp add: count_mset)

lemma groups_filter:
  assumes "set ks = rank ` set hand" and "0 < n"
  shows "{r \<in> set ks. count_list (sort (map rank hand)) r = n} = groups hand n"
proof -
  have "r \<in> set ks" if "count (image_mset rank (mset hand)) r = n" for r
  proof -
    have "r \<in># image_mset rank (mset hand)"
      using that assms(2) by (metis count_greater_zero_iff)
    with assms(1) show ?thesis by simp
  qed
  then show ?thesis
    by (auto simp: groups_def count_list_mset simp flip: mset_map)
qed

lemma sorted_mset_eq_iff: "sorted ys \<Longrightarrow> sort xs = ys \<longleftrightarrow> mset xs = mset ys"
  by (metis mset_sort properties_for_sort)

lemma length5_conv: "length xs = 5 \<longleftrightarrow> (\<exists>a b c d e. xs = [a, b, c, d, e])"
  by (auto simp: length_Suc_conv eval_nat_numeral)

lemma isStraight_sorted_iff:
  assumes "length xs = 5"
  shows "isStraight (sort xs) \<longleftrightarrow> (\<exists>k. mset xs = mset [k, k+1, k+2, k+3, k+4])"
    and "isStraight (sort xs) \<Longrightarrow> sort xs ! 0 = k \<longleftrightarrow> mset xs = mset [k, k+1, k+2, k+3, k+4]"
proof -
  obtain a b c d e where s: "sort xs = [a, b, c, d, e]"
    using assms length5_conv [of "sort xs"] by auto
  have run: "sort xs = [k, k+1, k+2, k+3, k+4] \<longleftrightarrow> mset xs = mset [k, k+1, k+2, k+3, k+4]"
    for k :: int
    by (rule sorted_mset_eq_iff) simp
  have "isStraight (sort xs) \<longleftrightarrow> sort xs = [a, a+1, a+2, a+3, a+4]"
    by (auto simp: s)
  moreover have "sort xs = [k, k+1, k+2, k+3, k+4] \<Longrightarrow> k = a" for k
    by (simp add: s)
  ultimately show "isStraight (sort xs) \<longleftrightarrow> (\<exists>k. mset xs = mset [k, k+1, k+2, k+3, k+4])"
    by (metis run)
  show "isStraight (sort xs) \<Longrightarrow> sort xs ! 0 = k \<longleftrightarrow> mset xs = mset [k, k+1, k+2, k+3, k+4]"
    unfolding run [symmetric] by (auto simp: s split: if_splits)
qed

lemma wheel_sorted_iff:
  assumes "length xs = 5"
  shows "(sort xs ! 0 = 2 \<and> sort xs ! 1 = 3 \<and> sort xs ! 2 = 4 \<and> sort xs ! 3 = 5 \<and> sort xs ! 4 = 14)
     \<longleftrightarrow> mset xs = mset [2, 3, 4, 5, 14::int]"
proof -
  obtain a b c d e where s: "sort xs = [a, b, c, d, e]"
    using assms length5_conv [of "sort xs"] by auto
  have "sort xs = [2, 3, 4, 5, 14] \<longleftrightarrow> mset xs = mset [2, 3, 4, 5, 14]"
    by (rule sorted_mset_eq_iff) simp
  then show ?thesis by (auto simp: s)
qed

lemma flush_iff:
  assumes "hand \<noteq> []"
  shows "list_all (\<lambda>s. s = map suit hand ! 0) (tl (map suit hand)) \<longleftrightarrow> one_suit hand"
  using assms by (cases hand) (auto simp: one_suit_def list_all_iff)

lemma evaluate_keys_class:
  assumes len: "length hand = 5" and keys: "distinct ks" "set ks = rank ` set hand"
  shows "evaluate_keys ks hand = poker_class hand"
proof -
  let ?rs = "sort (map rank hand)"
  let ?t = "foldl (tally_step ?rs) tally0 ks"
  have g: "length (filter (\<lambda>r. count_list ?rs r = n) ks) = card (groups hand n)" if "0 < n" for n
    using distinct_filter_card [OF keys(1)] groups_filter [OF keys(2) that] by simp
  have q: "quads ?t = card (groups hand 4)" and t: "trips ?t = card (groups hand 3)"
    and p: "pairs ?t = card (groups hand 2)"
    using g [of 4] g [of 3] g [of 2] by (simp_all add: tally_foldl tally0_def)
  have ph: "11 \<le> pairHigh ?t \<longleftrightarrow> (\<exists>r \<in> groups hand 2. 11 \<le> r)"
    using groups_filter [OF keys(2), of 2]
    by (auto simp: tally_foldl tally0_def fold_max_ge_iff)
  have ne: "hand \<noteq> []" and lm: "length (map rank hand) = 5"
    using len by auto
  have st: "(if wheel_ranks hand then True else isStraight ?rs)
      \<longleftrightarrow> wheel_ranks hand \<or> (\<exists>k. run_from hand k)"
    using isStraight_sorted_iff(1) [OF lm] by (simp add: run_from_def)
  have w: "(?rs ! 0 = 2 \<and> ?rs ! 1 = 3 \<and> ?rs ! 2 = 4 \<and> ?rs ! 3 = 5 \<and> ?rs ! 4 = 14)
      \<longleftrightarrow> wheel_ranks hand"
    using wheel_sorted_iff [OF lm] by (simp add: wheel_ranks_def)
  have ten: "(wheel_ranks hand \<or> (\<exists>k. run_from hand k)) \<and> ?rs ! 0 = 10 \<longleftrightarrow> run_from hand 10"
  proof -
    have a: "isStraight ?rs \<longleftrightarrow> (\<exists>k. run_from hand k)"
      using isStraight_sorted_iff(1) [OF lm] by (simp add: run_from_def)
    have b: "isStraight ?rs \<Longrightarrow> ?rs ! 0 = 10 \<longleftrightarrow> run_from hand 10"
      using isStraight_sorted_iff(2) [OF lm, of 10] by (simp add: run_from_def)
    have c: "wheel_ranks hand \<Longrightarrow> ?rs ! 0 = 2" using w by simp
    show ?thesis
    proof (cases "\<exists>k. run_from hand k")
      case True
      with a b show ?thesis by blast
    next
      case False
      moreover have "?rs ! 0 \<noteq> 10" if "wheel_ranks hand" using c [OF that] by simp
      ultimately show ?thesis by blast
    qed
  qed
  have royal: "(one_suit hand \<and> (wheel_ranks hand \<or> (\<exists>k. run_from hand k)) \<and> ?rs ! 0 = 10)
      \<longleftrightarrow> one_suit hand \<and> run_from hand 10"
    using ten by blast
  show ?thesis
    unfolding evaluate_keys_def poker_class_def Let_def flush_iff [OF ne] w st q t p ph royal
    by (simp only: len simp_thms if_False split del: if_split)
qed

lemma evaluate_class: "length hand = 5 \<Longrightarrow> evaluate hand = poker_class hand"
  unfolding evaluate_def by (rule evaluate_keys_class) simp_all

lemma evaluate_short: "length hand \<noteq> 5 \<Longrightarrow> evaluate hand = HighCard"
  by (simp add: evaluate_def evaluate_keys_def)

lemma poker_class_mset: "mset h = mset h' \<Longrightarrow> poker_class h = poker_class h'"
proof -
  assume m: "mset h = mset h'"
  then have "groups h = groups h'" and "run_from h = run_from h'"
    and "wheel_ranks h = wheel_ranks h'"
    by (simp_all add: groups_def [abs_def] run_from_def [abs_def] wheel_ranks_def)
  moreover have "one_suit h = one_suit h'"
    using mset_eq_setD [OF m] by (simp add: one_suit_def)
  ultimately show ?thesis unfolding poker_class_def by (simp only:)
qed

lemma evaluate_mset: "mset h = mset h' \<Longrightarrow> evaluate h = evaluate h'"
  by (metis evaluate_class evaluate_short mset_eq_length poker_class_mset)

end
