(* ===== verification/VideoPoker.thy ===== *)
theory VideoPoker
  imports Cards
begin

text \<open>
  Video poker, 9/6 Jacks or Better (\<open>internal/doors/videopoker/videopoker.go\<close>): deal, hold,
  draw and pay.  Taking a card from an empty deck is Go's slice panic \<open>None\<close>.
\<close>

definition PayTable9_6 :: "hand_rank \<Rightarrow> int option" where
  "PayTable9_6 =
     [JacksOrBetter \<mapsto> 1, TwoPair \<mapsto> 2, ThreeOfAKind \<mapsto> 3, Straight \<mapsto> 4, Flush \<mapsto> 6,
      FullHouse \<mapsto> 9, FourOfAKind \<mapsto> 25, StraightFlush \<mapsto> 50, RoyalFlush \<mapsto> 800]"

record paytable_row =
  Name :: string
  RowMultiplier :: int

definition schedule_order :: "hand_rank list" where
  "schedule_order = [RoyalFlush, StraightFlush, FourOfAKind, FullHouse, Flush, Straight,
                     ThreeOfAKind, TwoPair, JacksOrBetter]"

text \<open>Reading a missing key of a Go map yields the zero value.\<close>

definition schedule :: "paytable_row list" where
  "schedule = map (\<lambda>hr. \<lparr>Name = hand_rank_string hr,
                         RowMultiplier = (case PayTable9_6 hr of None \<Rightarrow> 0 | Some m \<Rightarrow> m)\<rparr>)
                  schedule_order"

record vp_game =
  deck :: "card list"
  hand :: "card list"
  held :: "bool list"
  dealt :: bool
  drawn :: bool
  finalRank :: hand_rank
  vp_payout :: int

definition newGame :: "entropy \<Rightarrow> vp_game \<times> entropy" where
  "newGame r =
     (case shuffle crypto_intn new_deck r of (d, r') \<Rightarrow>
        (\<lparr>deck = d, hand = replicate 5 zero_card, held = replicate 5 False, dealt = False,
          drawn = False, finalRank = HighCard, vp_payout = 0\<rparr>, r'))"

text \<open>
  \<open>fill keep hs d\<close> walks the hand: a kept slot stays, any other takes the next card of the
  deck.  \<open>Deal\<close> keeps none, \<open>Draw\<close> keeps the held ones.
\<close>

fun fill :: "bool list \<Rightarrow> card list \<Rightarrow> card list \<Rightarrow> (card list \<times> card list) option" where
  "fill (k # ks) (h # hs) d =
     (if k then map_option (\<lambda>(hs', d'). (h # hs', d')) (fill ks hs d)
      else case draw d of
             None \<Rightarrow> None
           | Some (c, d') \<Rightarrow> map_option (\<lambda>(hs', d''). (c # hs', d'')) (fill ks hs d'))"
| "fill _ hs d = Some (hs, d)"

definition deal :: "vp_game \<Rightarrow> vp_game option" where
  "deal g =
     (if dealt g then Some g
      else map_option (\<lambda>(h, d). g\<lparr>hand := h, deck := d, dealt := True\<rparr>)
             (fill (map (\<lambda>_. False) (hand g)) (hand g) (deck g)))"

definition toggleHold :: "vp_game \<Rightarrow> int \<Rightarrow> vp_game" where
  "toggleHold g i =
     (if i < 0 \<or> i \<ge> 5 \<or> drawn g then g
      else g\<lparr>held := (held g)[nat i := \<not> held g ! nat i]\<rparr>)"

text \<open>\<open>Draw(bet)\<close>: the new state and what it returns, the rank and the payout.\<close>

definition draw_hand :: "vp_game \<Rightarrow> int \<Rightarrow> (vp_game \<times> hand_rank \<times> int) option" where
  "draw_hand g bet =
     (if drawn g then Some (g, finalRank g, vp_payout g)
      else case fill (held g) (hand g) (deck g) of
             None \<Rightarrow> None
           | Some (h, d) \<Rightarrow>
               (let fr = evaluate h;
                    pay = (case PayTable9_6 fr of
                             Some m \<Rightarrow> i32 (bet * i32 m) | None \<Rightarrow> vp_payout g)
                in Some (g\<lparr>hand := h, deck := d, finalRank := fr, vp_payout := pay, drawn := True\<rparr>,
                         fr, pay)))"

definition vp_state :: "vp_game \<Rightarrow> bool \<times> bool" where
  "vp_state g = (dealt g, drawn g)"

definition vp_result :: "vp_game \<Rightarrow> hand_rank \<times> int" where
  "vp_result g = (finalRank g, vp_payout g)"

section \<open>Filling the hand\<close>

lemma fill_Some:
  assumes "length ks = length hs" and "length hs \<le> length d"
  shows "\<exists>hs' d'. fill ks hs d = Some (hs', d') \<and> length hs' = length hs
    \<and> length d \<le> length d' + length hs
    \<and> mset hs' + mset d' = mset (map snd (filter (\<lambda>(k, _). k) (zip ks hs))) + mset d
    \<and> (\<forall>i < length hs. ks ! i \<longrightarrow> hs' ! i = hs ! i)"
  using assms
proof (induction ks hs d rule: fill.induct)
  case (1 k ks h hs d)
  show ?case
  proof (cases k)
    case True
    with 1 obtain hs' d' where "fill ks hs d = Some (hs', d')" "length hs' = length hs"
      "length d \<le> length d' + length hs"
      "mset hs' + mset d' = mset (map snd (filter (\<lambda>(k, _). k) (zip ks hs))) + mset d"
      "\<forall>i < length hs. ks ! i \<longrightarrow> hs' ! i = hs ! i"
      by fastforce
    with True show ?thesis by (auto simp: nth_Cons split: nat.splits)
  next
    case False
    with 1 obtain c d1 where d: "draw d = Some (c, d1)" "d = c # d1"
      by (cases d) auto
    with 1 False obtain hs' d' where "fill ks hs d1 = Some (hs', d')" "length hs' = length hs"
      "length d1 \<le> length d' + length hs"
      "mset hs' + mset d' = mset (map snd (filter (\<lambda>(k, _). k) (zip ks hs))) + mset d1"
      "\<forall>i < length hs. ks ! i \<longrightarrow> hs' ! i = hs ! i"
      by fastforce
    with False d show ?thesis by (auto simp: nth_Cons split: nat.splits)
  qed
qed auto

lemma shuffled_deck:
  assumes "shuffle crypto_intn new_deck r = (d, r')"
  shows "mset d = mset new_deck" and "length d = 52" and "distinct d"
    and "c \<in> set d \<Longrightarrow> valid_card c"
proof -
  have m: "mset d = mset new_deck"
    using crypto.shuffle_mset [of new_deck r] new_deck_length assms by simp
  then show "mset d = mset new_deck" .
  show "length d = 52" using mset_eq_length [OF m] new_deck_length by simp
  show "distinct d" using m new_deck_distinct by (metis mset_eq_imp_distinct_iff)
  show "c \<in> set d \<Longrightarrow> valid_card c"
    using mset_eq_setD [OF m] new_deck_valid by auto
qed


lemma fill_from:
  "fill ks hs d = Some (hs', d') \<Longrightarrow> length ks = length hs \<Longrightarrow>
   x \<in> set hs' \<Longrightarrow> x \<in> set d \<or> (\<exists>j < length hs. ks ! j \<and> hs ! j = x)"
proof (induction ks hs d arbitrary: hs' d' rule: fill.induct)
  case (1 k ks h hs d)
  show ?case
  proof (cases k)
    case True
    with 1(3) obtain t where t: "fill ks hs d = Some (t, d')" "hs' = h # t"
      by auto
    then show ?thesis
      using 1(1) [OF True t(1)] 1(4,5) True by (auto simp: nth_Cons split: nat.splits)
  next
    case False
    with 1(3) obtain c d1 t where t: "draw d = Some (c, d1)" "fill ks hs d1 = Some (t, d')" "hs' = c # t"
      by (auto split: option.splits)
    then have "d = c # d1" by (simp add: draw_Some_iff)
    then show ?thesis
      using 1(2) [OF False t(1) refl t(2)] 1(4,5) t by (auto simp: nth_Cons split: nat.splits)
  qed
qed auto

lemma fill_none:
  "length hs \<le> length d \<Longrightarrow>
   fill (map (\<lambda>_. False) hs) hs d = Some (take (length hs) d, drop (length hs) d)"
proof (induction hs arbitrary: d)
  case Nil
  then show ?case by simp
next
  case (Cons h hs)
  then show ?case by (cases d) auto
qed

lemma mset_filter_zip_le: "mset (map snd (filter P (zip ks hs))) \<subseteq># mset hs"
proof (induction hs arbitrary: ks)
  case Nil
  then show ?case by simp
next
  case (Cons h hs)
  then show ?case
    by (cases ks) (auto simp: subseteq_mset_def le_SucI)
qed

section \<open>A round: new game, deal, holds, draw\<close>

definition hold_all :: "vp_game \<Rightarrow> int list \<Rightarrow> vp_game" where
  "hold_all g is = foldl toggleHold g is"

lemma toggleHold_frame:
  "hand (toggleHold g i) = hand g" "deck (toggleHold g i) = deck g"
  "drawn (toggleHold g i) = drawn g" "dealt (toggleHold g i) = dealt g"
  "length (held (toggleHold g i)) = length (held g)"
  by (simp_all add: toggleHold_def)

lemma hold_all_frame:
  "hand (hold_all g is) = hand g" "deck (hold_all g is) = deck g"
  "drawn (hold_all g is) = drawn g" "dealt (hold_all g is) = dealt g"
  "length (held (hold_all g is)) = length (held g)"
  unfolding hold_all_def by (induction "is" arbitrary: g) (simp_all add: toggleHold_frame)

lemma deal_newGame:
  assumes "newGame r = (g, r')"
  obtains g1 where "deal g = Some g1" and "length (hand g1) = 5" and "length (deck g1) = 47"
    and "distinct (hand g1 @ deck g1)" and "held g1 = replicate 5 False"
    and "\<not> drawn g1" and "dealt g1" and "vp_payout g1 = 0"
    and "\<forall>c \<in> set (hand g1 @ deck g1). valid_card c"
proof -
  obtain d r2 where d: "shuffle crypto_intn new_deck r = (d, r2)" by fastforce
  note sd = shuffled_deck [OF d]
  have g: "deck g = d" "hand g = replicate 5 zero_card" "dealt g = False" "drawn g = False"
    "held g = replicate 5 False" "vp_payout g = 0"
    using assms d by (auto simp: newGame_def)
  let ?g1 = "g\<lparr>hand := take 5 d, deck := drop 5 d, dealt := True\<rparr>"
  have "deal g = Some ?g1"
    using fill_none [of "hand g" "deck g"] g sd(2) by (simp add: deal_def)
  then show ?thesis
    using g sd by (intro that [of ?g1]) auto
qed

text \<open>What one round does, from the shuffle to the payout.\<close>

definition round_result :: "entropy \<Rightarrow> int list \<Rightarrow> int \<Rightarrow> (vp_game \<times> vp_game \<times> hand_rank \<times> int) option" where
  "round_result r is bet =
     (case deal (fst (newGame r)) of
        None \<Rightarrow> None
      | Some g1 \<Rightarrow> map_option (\<lambda>(g2, fr, pay). (hold_all g1 is, g2, fr, pay))
                     (draw_hand (hold_all g1 is) bet))"

lemma round_result_spec:
  "\<exists>g1 g2. round_result r is bet = Some (g1, g2, finalRank g2, vp_payout g2)
     \<and> length (hand g1) = 5 \<and> length (hand g2) = 5 \<and> length (held g1) = 5 \<and> drawn g2
     \<and> distinct (hand g2) \<and> (\<forall>c \<in> set (hand g2). valid_card c)
     \<and> (\<forall>i < 5. if held g1 ! i then hand g2 ! i = hand g1 ! i else hand g1 ! i \<notin> set (hand g2))
     \<and> finalRank g2 = evaluate (hand g2)
     \<and> vp_payout g2 = (case PayTable9_6 (evaluate (hand g2)) of None \<Rightarrow> 0 | Some m \<Rightarrow> i32 (bet * i32 m))"
proof -
  obtain g0 r' where g0: "newGame r = (g0, r')" by fastforce
  obtain gd where gd: "deal g0 = Some gd" "length (hand gd) = 5" "length (deck gd) = 47"
      "distinct (hand gd @ deck gd)" "held gd = replicate 5 False" "\<not> drawn gd" "vp_payout gd = 0"
      "\<forall>c \<in> set (hand gd @ deck gd). valid_card c"
    using deal_newGame [OF g0] by metis
  let ?g1 = "hold_all gd is"
  have h1: "hand ?g1 = hand gd" "deck ?g1 = deck gd" "\<not> drawn ?g1" "length (held ?g1) = 5"
    using hold_all_frame [of gd "is"] gd by simp_all
  have pay1: "vp_payout ?g1 = 0"
    unfolding hold_all_def using gd(7)
    by (induction "is" arbitrary: gd) (auto simp: toggleHold_def)
  obtain hs d where f: "fill (held ?g1) (hand ?g1) (deck ?g1) = Some (hs, d)" "length hs = 5"
      "mset hs + mset d = mset (map snd (filter (\<lambda>(k, _). k) (zip (held ?g1) (hand ?g1)))) + mset (deck ?g1)"
      "\<forall>i < 5. held ?g1 ! i \<longrightarrow> hs ! i = hand ?g1 ! i"
    using fill_Some [of "held ?g1" "hand ?g1" "deck ?g1"] h1 gd by auto
  have sub: "mset hs \<subseteq># mset (hand gd @ deck gd)"
  proof -
    have "mset hs \<subseteq># mset hs + mset d" by simp
    also have "\<dots> \<subseteq># mset (hand gd) + mset (deck gd)"
      unfolding f(3) h1 by (intro subset_mset.add_right_mono mset_filter_zip_le)
    finally show ?thesis by simp
  qed
  then have dist: "distinct hs"
    using gd(4) by (rule distinct_submset)
  have valid: "\<forall>c \<in> set hs. valid_card c"
    using set_submset [OF sub] gd(8) by blast
  have gone: "hand gd ! i \<notin> set hs" if "i < 5" "\<not> held ?g1 ! i" for i
  proof
    assume "hand gd ! i \<in> set hs"
    then consider "hand gd ! i \<in> set (deck gd)" | j where "j < 5" "held ?g1 ! j" "hand gd ! j = hand gd ! i"
      using fill_from [OF f(1)] h1 gd(2) by auto
    then show False
    proof cases
      case 1
      moreover have "hand gd ! i \<in> set (hand gd)" using gd(2) that(1) by simp
      ultimately show ?thesis using gd(4) by auto
    next
      case 2
      then have "j = i" using gd(2,4) that(1) by (simp add: nth_eq_iff_index_eq)
      with 2 that(2) show ?thesis by simp
    qed
  qed
  let ?pay = "case PayTable9_6 (evaluate hs) of Some m \<Rightarrow> i32 (bet * i32 m) | None \<Rightarrow> vp_payout ?g1"
  let ?g2 = "?g1\<lparr>hand := hs, deck := d, finalRank := evaluate hs, vp_payout := ?pay, drawn := True\<rparr>"
  have "round_result r is bet = Some (?g1, ?g2, evaluate hs, ?pay)"
    using g0 gd(1) f(1) h1(3) by (simp add: round_result_def draw_hand_def Let_def)
  then show ?thesis
    using f(2,4) h1 gd(2) dist valid gone pay1
    by (intro exI [of _ ?g1] exI [of _ ?g2]) (auto split: option.splits)
qed

section \<open>Properties\<close>

text \<open>
  a round of video poker never runs out of cards.  Held slots keep their card, every
  discarded card is gone from the final hand, the final five cards are distinct cards of the
  deck, and the payout is the bet times the paytable's multiplier for their rank.
\<close>
theorem videopoker_round:
  "\<exists>g1 g2. round_result r is bet = Some (g1, g2, finalRank g2, vp_payout g2)
     \<and> length (hand g1) = 5 \<and> length (hand g2) = 5 \<and> length (held g1) = 5 \<and> drawn g2
     \<and> distinct (hand g2) \<and> (\<forall>c \<in> set (hand g2). valid_card c)
     \<and> (\<forall>i < 5. if held g1 ! i then hand g2 ! i = hand g1 ! i else hand g1 ! i \<notin> set (hand g2))
     \<and> finalRank g2 = evaluate (hand g2)
     \<and> vp_payout g2 = (case PayTable9_6 (evaluate (hand g2)) of None \<Rightarrow> 0 | Some m \<Rightarrow> i32 (bet * i32 m))"
  by (rule round_result_spec)

theorem videopoker_round_witness:
  "\<exists>g1 g2. round_result (\<lambda>_. 0) [0, 2] 5 = Some (g1, g2, finalRank g2, vp_payout g2)
     \<and> length (hand g2) = 5 \<and> distinct (hand g2) \<and> drawn g2"
  using videopoker_round [of "\<lambda>_. 0" "[0, 2]" 5] by blast

text \<open>
  once drawn, a hand is final: drawing again with any bet or toggling any hold changes
  nothing and reports the same rank and payout.
\<close>
theorem videopoker_final:
  assumes "draw_hand g bet = Some (g', fr, pay)"
  shows "draw_hand g' bet' = Some (g', fr, pay) \<and> toggleHold g' i = g' \<and> vp_result g' = (fr, pay)"
  using assms
  by (auto simp: draw_hand_def toggleHold_def vp_result_def Let_def split: if_splits option.splits)

theorem videopoker_final_witness:
  "\<exists>g g' fr pay. draw_hand g 5 = Some (g', fr, pay) \<and> draw_hand g' 9 = Some (g', fr, pay)"
proof -
  obtain g1 g2 fr pay where "round_result (\<lambda>_. 0) [] 5 = Some (g1, g2, fr, pay)"
    using round_result_spec [of "\<lambda>_. 0" "[]" 5] by blast
  then obtain g where "draw_hand g 5 = Some (g2, fr, pay)"
    by (auto simp: round_result_def split: option.splits)
  then show ?thesis using videopoker_final by blast
qed

end
