(* ===== verification/Blackjack.thy ===== *)
theory Blackjack
  imports Cards
begin

text \<open>
  Single-deck blackjack (\<open>internal/doors/blackjack/blackjack.go\<close>): the deal, the player's
  three actions, the dealer's play, and the payout.  \<open>None\<close> is the slice panic of drawing from
  an empty deck; the reachability argument at the end shows that it never happens.
\<close>

section \<open>State and hand values\<close>

datatype outcome =
    InProgress | PlayerBust | DealerBust | PlayerWin | PlayerBlackjack | DealerWin | Push

fun outcome_string :: "outcome \<Rightarrow> string" where
  "outcome_string PlayerBust = ''Bust''"
| "outcome_string DealerBust = ''Dealer busts''"
| "outcome_string PlayerWin = ''Player wins''"
| "outcome_string PlayerBlackjack = ''Blackjack!''"
| "outcome_string DealerWin = ''Dealer wins''"
| "outcome_string Push = ''Push''"
| "outcome_string InProgress = ''''"

record bj_game =
  deck :: "card list"
  player :: "card list"
  dealer :: "card list"
  doubled :: bool
  finished :: bool
  hole :: bool
  outcome :: outcome

text \<open>One pass of \<open>value\<close>'s first loop: the running total and the number of aces.\<close>

definition count_card :: "int \<times> nat \<Rightarrow> card \<Rightarrow> int \<times> nat" where
  "count_card acc c =
     (case acc of (tot, aces) \<Rightarrow>
        if rank c = 14 then (tot + 11, aces + 1)
        else if rank c = 11 \<or> rank c = 12 \<or> rank c = 13 then (tot + 10, aces)
        else (tot + rank c, aces))"

text \<open>The loop \<open>for total > 21 && aces > 0\<close>.\<close>

fun demote :: "int \<Rightarrow> nat \<Rightarrow> int \<times> nat" where
  "demote tot 0 = (tot, 0)"
| "demote tot (Suc aces) = (if tot > 21 then demote (tot - 10) aces else (tot, Suc aces))"

definition bj_value :: "card list \<Rightarrow> int \<times> bool" where
  "bj_value h =
     (case foldl count_card (0, 0) h of (tot, aces) \<Rightarrow>
      case demote tot aces of (t, a) \<Rightarrow> (t, a > 0))"

definition handValue :: "card list \<Rightarrow> int" where
  "handValue h = (case bj_value h of (v, _) \<Rightarrow> v)"

section \<open>The deal and the player's actions\<close>

text \<open>\<open>n\<close> cards off the top, as \<open>append(hand, g.draw(), g.draw())\<close> takes them.\<close>

fun draw_n :: "nat \<Rightarrow> 'a list \<Rightarrow> ('a list \<times> 'a list) option" where
  "draw_n 0 d = Some ([], d)"
| "draw_n (Suc n) d =
     (case draw d of
        None \<Rightarrow> None
      | Some (c, d') \<Rightarrow> map_option (\<lambda>(cs, d''). (c # cs, d'')) (draw_n n d'))"

definition newGame :: "entropy \<Rightarrow> bj_game option" where
  "newGame r =
     (case shuffle crypto_intn new_deck r of (d0, _) \<Rightarrow>
      case draw_n 2 d0 of None \<Rightarrow> None | Some (p, d1) \<Rightarrow>
      case draw_n 2 d1 of None \<Rightarrow> None | Some (dl, d2) \<Rightarrow>
        (let g = \<lparr>deck = d2, player = p, dealer = dl, doubled = False, finished = False,
                  hole = True, outcome = InProgress\<rparr>
         in Some (if handValue p = 21
                  then g\<lparr>hole := False,
                         outcome := (if handValue dl = 21 then Push else PlayerBlackjack),
                         finished := True\<rparr>
                  else g)))"

text \<open>The dealer's loop recurses on the deck it consumes.\<close>

fun dealer_loop :: "card list \<Rightarrow> card list \<Rightarrow> (card list \<times> card list) option" where
  "dealer_loop dl [] =
     (case bj_value dl of (v, soft) \<Rightarrow>
        if v < 17 \<or> (v = 17 \<and> soft) then None else Some (dl, []))"
| "dealer_loop dl (c # d) =
     (case bj_value dl of (v, soft) \<Rightarrow>
        if v < 17 \<or> (v = 17 \<and> soft) then dealer_loop (dl @ [c]) d else Some (dl, c # d))"

definition dealerPlay :: "bj_game \<Rightarrow> bj_game option" where
  "dealerPlay g =
     (case dealer_loop (dealer g) (deck g) of
        None \<Rightarrow> None
      | Some (dl, d) \<Rightarrow>
          (let dv = handValue dl; pv = handValue (player g) in
           Some (g\<lparr>hole := False, dealer := dl, deck := d,
                   outcome := (if dv > 21 then DealerBust
                               else if pv > dv then PlayerWin
                               else if pv < dv then DealerWin else Push),
                   finished := True\<rparr>)))"

definition hit :: "bj_game \<Rightarrow> bj_game option" where
  "hit g =
     (if finished g then Some g
      else case draw (deck g) of
        None \<Rightarrow> None
      | Some (c, d) \<Rightarrow>
          (let g' = g\<lparr>player := player g @ [c], deck := d\<rparr> in
           Some (if handValue (player g') > 21
                 then g'\<lparr>hole := False, outcome := PlayerBust, finished := True\<rparr> else g')))"

definition stand :: "bj_game \<Rightarrow> bj_game option" where
  "stand g = (if finished g then Some g else dealerPlay g)"

definition double :: "bj_game \<Rightarrow> bj_game option" where
  "double g =
     (if finished g \<or> length (player g) \<noteq> 2 then Some g
      else case draw (deck g) of
        None \<Rightarrow> None
      | Some (c, d) \<Rightarrow>
          (let g' = g\<lparr>doubled := True, player := player g @ [c], deck := d\<rparr> in
           if handValue (player g') > 21
           then Some (g'\<lparr>hole := False, outcome := PlayerBust, finished := True\<rparr>)
           else dealerPlay g'))"

definition canDouble :: "bj_game \<Rightarrow> bool" where
  "canDouble g \<longleftrightarrow> \<not> finished g \<and> length (player g) = 2"

definition payout :: "int \<Rightarrow> bool \<Rightarrow> outcome \<Rightarrow> int" where
  "payout bet dbl out =
     (let stake = (if dbl then i32 (bet * 2) else bet) in
      case out of
        PlayerBlackjack \<Rightarrow> i32 (i32 (bet * 2) + go_div bet 2)
      | PlayerWin \<Rightarrow> i32 (stake * 2)
      | DealerBust \<Rightarrow> i32 (stake * 2)
      | Push \<Rightarrow> stake
      | _ \<Rightarrow> 0)"

datatype action = Hit | Stand | Double

fun act :: "action \<Rightarrow> bj_game \<Rightarrow> bj_game option" where
  "act Hit g = hit g"
| "act Stand g = stand g"
| "act Double g = double g"

fun play :: "action list \<Rightarrow> bj_game \<Rightarrow> bj_game option" where
  "play [] g = Some g"
| "play (a # as) g = (case act a g of None \<Rightarrow> None | Some g' \<Rightarrow> play as g')"

section \<open>What a hand is worth\<close>

text \<open>Hard total (every ace counted as one) and the number of aces.\<close>

definition points :: "card \<Rightarrow> int" where
  "points c = (if rank c = 14 then 1 else if 11 \<le> rank c \<and> rank c \<le> 13 then 10 else rank c)"

definition hard :: "card list \<Rightarrow> int" where
  "hard h = sum_list (map points h)"

definition aces_in :: "card list \<Rightarrow> nat" where
  "aces_in h = length (filter (\<lambda>c. rank c = 14) h)"

lemma foldl_count_card:
  "foldl count_card (t, a) h = (t + hard h + 10 * int (aces_in h), a + aces_in h)"
proof (induction h arbitrary: t a)
  case Nil
  then show ?case by (simp add: hard_def aces_in_def)
next
  case (Cons c h)
  have "rank c \<noteq> 14 \<Longrightarrow> rank c \<noteq> 11 \<Longrightarrow> rank c \<noteq> 12 \<Longrightarrow> rank c \<noteq> 13 \<Longrightarrow>
      \<not> (11 \<le> rank c \<and> rank c \<le> 13)" by linarith
  with Cons show ?case
    by (auto simp: count_card_def hard_def aces_in_def points_def)
qed

text \<open>
  \<open>demote\<close> keeps the largest number \<open>k\<close> of aces at eleven for which the total does not
  exceed 21, and none if there is no such \<open>k\<close>.
\<close>

lemma demote_best:
  "\<exists>k \<le> n. demote (h + 10 * int n) n = (h + 10 * int k, k)
     \<and> (h + 10 * int k \<le> 21 \<or> k = 0) \<and> (\<forall>j \<le> n. k < j \<longrightarrow> h + 10 * int j > 21)"
proof (induction n)
  case 0
  then show ?case by simp
next
  case (Suc n)
  show ?case
  proof (cases "h + 10 * int (Suc n) > 21")
    case True
    have "demote (h + 10 * int (Suc n)) (Suc n) = demote (h + 10 * int n) n"
      using True by simp
    with Suc.IH True show ?thesis by (metis le_Suc_eq)
  next
    case False
    then show ?thesis by (intro exI [of _ "Suc n"]) auto
  qed
qed

lemma bj_value_best:
  "\<exists>k \<le> aces_in h. bj_value h = (hard h + 10 * int k, k > 0)
     \<and> (hard h + 10 * int k \<le> 21 \<or> k = 0)
     \<and> (\<forall>j \<le> aces_in h. k < j \<longrightarrow> hard h + 10 * int j > 21)"
  using demote_best [of "aces_in h" "hard h"] by (auto simp: bj_value_def foldl_count_card)

lemma handValue_bust_iff: "handValue h > 21 \<longleftrightarrow> hard h > 21"
  using bj_value_best [of h] by (auto simp: handValue_def)

lemma hard_le_value: "hard h \<le> fst (bj_value h)"
  using bj_value_best [of h] by auto

lemma hard_append [simp]: "hard (a @ b) = hard a + hard b"
  by (simp add: hard_def)

lemma hard_ge_length:
  assumes "\<forall>c \<in> set h. valid_card c"
  shows "int (length h) \<le> hard h"
  using assms
proof (induction h)
  case Nil
  then show ?case by (simp add: hard_def)
next
  case (Cons c h)
  moreover have "1 \<le> points c"
    using Cons.prems by (auto simp: points_def valid_card_def)
  ultimately show ?case by (simp add: hard_def)
qed


section \<open>The dealer\<close>

definition must_hit :: "card list \<Rightarrow> bool" where
  "must_hit dl \<longleftrightarrow> (case bj_value dl of (v, soft) \<Rightarrow> v < 17 \<or> (v = 17 \<and> soft))"

lemma must_hit_hard: "must_hit dl \<Longrightarrow> hard dl \<le> 17"
  using hard_le_value [of dl] by (auto simp: must_hit_def split: prod.splits)

lemma dealer_loop_simps:
  "dealer_loop dl [] = (if must_hit dl then None else Some (dl, []))"
  "dealer_loop dl (c # d) =
     (if must_hit dl then dealer_loop (dl @ [c]) d else Some (dl, c # d))"
  by (auto simp: must_hit_def split: prod.splits)

declare dealer_loop.simps [simp del]

lemma dealer_loop_Some:
  assumes "\<forall>c \<in> set (dl @ d). valid_card c" and "18 \<le> length dl + length d"
  shows "\<exists>dl' d'. dealer_loop dl d = Some (dl', d')"
  using assms
proof (induction d arbitrary: dl)
  case Nil
  then have "\<not> hard dl \<le> 17"
    using hard_ge_length [of dl] by simp
  then have "\<not> must_hit dl" using must_hit_hard by blast
  then show ?case by (simp add: dealer_loop_simps)
next
  case (Cons c d)
  then show ?case using Cons.IH [of "dl @ [c]"] by (simp add: dealer_loop_simps)
qed

lemma dealer_loop_result:
  "dealer_loop dl d = Some (dl', d') \<Longrightarrow>
   \<exists>pre. dl' = dl @ pre \<and> d = pre @ d' \<and> \<not> must_hit dl'
       \<and> (\<forall>k < length pre. must_hit (dl @ take k pre))"
proof (induction d arbitrary: dl)
  case Nil
  then show ?case by (auto simp: dealer_loop_simps split: if_splits)
next
  case (Cons c d)
  show ?case
  proof (cases "must_hit dl")
    case True
    with Cons.prems have "dealer_loop (dl @ [c]) d = Some (dl', d')"
      by (simp add: dealer_loop_simps)
    then obtain pre where pre: "dl' = (dl @ [c]) @ pre" "d = pre @ d'" "\<not> must_hit dl'"
        "\<forall>k < length pre. must_hit ((dl @ [c]) @ take k pre)"
      using Cons.IH by blast
    have "must_hit (dl @ take k (c # pre))" if "k < length (c # pre)" for k
      using True pre(4) that by (cases k) auto
    with pre show ?thesis by (intro exI [of _ "c # pre"]) auto
  next
    case False
    with Cons.prems show ?thesis by (auto simp: dealer_loop_simps)
  qed
qed

section \<open>The invariant of a game\<close>

text \<open>What the outcome of a finished hand must be, from the two final hands alone.\<close>

definition spec_outcome :: "card list \<Rightarrow> card list \<Rightarrow> outcome" where
  "spec_outcome p dl =
     (if length p = 2 \<and> handValue p = 21 then
        (if handValue dl = 21 then Push else PlayerBlackjack)
      else if handValue p > 21 then PlayerBust
      else if handValue dl > 21 then DealerBust
      else if handValue p > handValue dl then PlayerWin
      else if handValue p < handValue dl then DealerWin
      else Push)"

definition bj_inv :: "bj_game \<Rightarrow> bool" where
  "bj_inv g \<longleftrightarrow>
     mset (player g @ dealer g @ deck g) = mset new_deck \<and> 2 \<le> length (player g)
   \<and> (\<not> finished g \<longrightarrow> length (dealer g) = 2 \<and> handValue (player g) \<le> 21 \<and> hole g
        \<and> outcome g = InProgress \<and> \<not> doubled g
        \<and> (length (player g) = 2 \<longrightarrow> handValue (player g) \<noteq> 21))
   \<and> (finished g \<longrightarrow> \<not> hole g \<and> outcome g = spec_outcome (player g) (dealer g)
        \<and> (\<not> (length (player g) = 2 \<and> handValue (player g) = 21) \<and> handValue (player g) \<le> 21
             \<longrightarrow> \<not> must_hit (dealer g)))"

lemma bj_inv_cards:
  assumes "bj_inv g"
  shows "length (player g) + length (dealer g) + length (deck g) = 52"
    and "c \<in> set (player g @ dealer g @ deck g) \<Longrightarrow> valid_card c"
proof -
  have m: "mset (player g @ dealer g @ deck g) = mset new_deck"
    using assms by (simp add: bj_inv_def)
  show "length (player g) + length (dealer g) + length (deck g) = 52"
    using mset_eq_length [OF m] new_deck_length by simp
  show "c \<in> set (player g @ dealer g @ deck g) \<Longrightarrow> valid_card c"
    using mset_eq_setD [OF m] new_deck_valid by auto
qed

lemma bj_inv_player_short:
  assumes "bj_inv g" and "\<not> finished g"
  shows "length (player g) \<le> 21" and "29 \<le> length (deck g)"
proof -
  have "hard (player g) \<le> 21"
    using assms handValue_bust_iff [of "player g"] by (auto simp: bj_inv_def)
  moreover have "int (length (player g)) \<le> hard (player g)"
    using bj_inv_cards(2) [OF assms(1)] by (intro hard_ge_length) simp
  ultimately show "length (player g) \<le> 21" by linarith
  then show "29 \<le> length (deck g)"
    using bj_inv_cards(1) [OF assms(1)] assms by (simp add: bj_inv_def)
qed

text \<open>
  The dealer's play settles a hand that is not a two-card 21 and not bust.  It is used by
  \<open>Stand\<close> and by \<open>Double\<close>, so the state is described by its parts.
\<close>

lemma dealerPlay_settles:
  assumes cards: "mset (player g @ dealer g @ deck g) = mset new_deck"
    and len: "2 \<le> length (player g)" "length (player g) \<le> 22" "length (dealer g) = 2"
    and val: "handValue (player g) \<le> 21"
    and two: "\<not> (length (player g) = 2 \<and> handValue (player g) = 21)"
  shows "\<exists>g'. dealerPlay g = Some g' \<and> bj_inv g' \<and> finished g' \<and> player g' = player g
           \<and> doubled g' = doubled g"
proof -
  have valid: "\<forall>c \<in> set (dealer g @ deck g). valid_card c"
    using mset_eq_setD [OF cards] new_deck_valid by auto
  have "length (player g) + length (dealer g) + length (deck g) = 52"
    using mset_eq_length [OF cards] new_deck_length by simp
  then have "18 \<le> length (dealer g) + length (deck g)"
    using len by simp
  then obtain dl d where dl: "dealer_loop (dealer g) (deck g) = Some (dl, d)"
    using dealer_loop_Some [OF valid] by blast
  obtain pre where pre: "dl = dealer g @ pre" "deck g = pre @ d" "\<not> must_hit dl"
    using dealer_loop_result [OF dl] by blast
  have "mset (player g @ dl @ d) = mset new_deck"
    using cards pre by simp
  then show ?thesis
    using dl len val two pre(3)
    by (auto simp: dealerPlay_def bj_inv_def spec_outcome_def Let_def)
qed

lemma stand_inv:
  assumes "bj_inv g"
  shows "\<exists>g'. stand g = Some g' \<and> bj_inv g' \<and> finished g'"
proof (cases "finished g")
  case True
  with assms show ?thesis by (simp add: stand_def)
next
  case False
  note s = bj_inv_player_short [OF assms False]
  have "\<exists>g'. dealerPlay g = Some g' \<and> bj_inv g' \<and> finished g' \<and> player g' = player g
           \<and> doubled g' = doubled g"
    using assms False s by (intro dealerPlay_settles) (auto simp: bj_inv_def)
  with False show ?thesis by (auto simp: stand_def)
qed

lemma hit_inv:
  assumes "bj_inv g"
  shows "\<exists>g'. hit g = Some g' \<and> bj_inv g'"
proof (cases "finished g")
  case True
  with assms show ?thesis by (simp add: hit_def)
next
  case False
  then obtain c d where d: "deck g = c # d"
    using bj_inv_player_short(2) [OF assms] by (cases "deck g") auto
  let ?p = "player g @ [c]"
  have "mset (?p @ dealer g @ d) = mset new_deck"
    using assms d by (simp add: bj_inv_def)
  moreover have "3 \<le> length ?p" using assms by (simp add: bj_inv_def)
  ultimately show ?thesis
    using assms False d by (auto simp: hit_def bj_inv_def spec_outcome_def Let_def)
qed

lemma double_inv:
  assumes "bj_inv g"
  shows "\<exists>g'. double g = Some g' \<and> bj_inv g' \<and> (canDouble g \<longrightarrow> finished g' \<and> doubled g')"
proof (cases "finished g \<or> length (player g) \<noteq> 2")
  case True
  with assms show ?thesis by (auto simp: double_def canDouble_def)
next
  case False
  then obtain c d where d: "deck g = c # d"
    using bj_inv_player_short(2) [OF assms] by (cases "deck g") auto
  let ?g = "g\<lparr>doubled := True, player := player g @ [c], deck := d\<rparr>"
  have cards: "mset (player ?g @ dealer ?g @ deck ?g) = mset new_deck"
    using assms d by (simp add: bj_inv_def)
  have three: "length (player ?g) = 3" using False by simp
  show ?thesis
  proof (cases "handValue (player ?g) > 21")
    case True
    with False d cards three show ?thesis
      by (auto simp: double_def bj_inv_def spec_outcome_def Let_def)
  next
    case nb: False
    have "\<exists>g'. dealerPlay ?g = Some g' \<and> bj_inv g' \<and> finished g' \<and> player g' = player ?g
             \<and> doubled g' = doubled ?g"
      using cards three nb False assms
      by (intro dealerPlay_settles) (simp_all add: bj_inv_def)
    with False d nb show ?thesis by (auto simp: double_def Let_def)
  qed
qed

lemma act_inv: "bj_inv g \<Longrightarrow> \<exists>g'. act a g = Some g' \<and> bj_inv g'"
  using hit_inv [of g] stand_inv [of g] double_inv [of g] by (cases a) auto

lemma play_inv: "bj_inv g \<Longrightarrow> \<exists>g'. play as g = Some g' \<and> bj_inv g'"
proof (induction as arbitrary: g)
  case Nil
  then show ?case by simp
next
  case (Cons a as)
  then obtain g1 where "act a g = Some g1" "bj_inv g1" using act_inv by blast
  with Cons.IH show ?case by auto
qed

lemma draw_n_append: "length cs = n \<Longrightarrow> draw_n n (cs @ d) = Some (cs, d)"
  by (induction n arbitrary: cs) (auto simp: length_Suc_conv)

lemma newGame_inv: "\<exists>g. newGame r = Some g \<and> bj_inv g \<and> length (player g) = 2"
proof -
  obtain d0 r' where d0: "shuffle crypto_intn new_deck r = (d0, r')" by fastforce
  have m: "mset d0 = mset new_deck"
    using crypto.shuffle_mset [of new_deck r] new_deck_length d0 by simp
  then have "length d0 = 52" using mset_eq_length new_deck_length by metis
  then obtain a b c e d where d: "d0 = [a, b] @ [c, e] @ d"
    by (auto simp: length_Suc_conv numeral_eq_Suc)
  let ?p = "[a, b]" and ?dl = "[c, e]"
  let ?g = "\<lparr>deck = d, player = ?p, dealer = ?dl, doubled = False, finished = False,
             hole = True, outcome = InProgress\<rparr>"
  let ?g' = "if handValue ?p = 21
             then ?g\<lparr>hole := False, outcome := (if handValue ?dl = 21 then Push else PlayerBlackjack),
                     finished := True\<rparr> else ?g"
  have "newGame r = Some ?g'"
    using draw_n_append [of ?p 2 "?dl @ d"] draw_n_append [of ?dl 2 d]
    by (simp add: newGame_def d0 d Let_def)
  moreover have "handValue ?p \<le> 21"
  proof -
    have "valid_card a" "valid_card b"
      using mset_eq_setD [OF m] new_deck_valid d by auto
    then have "hard ?p \<le> 20" by (auto simp: hard_def points_def valid_card_def)
    then show ?thesis using handValue_bust_iff [of ?p] by auto
  qed
  then have "bj_inv ?g'"
    using m d by (auto simp: bj_inv_def spec_outcome_def add_mset_commute)
  ultimately show ?thesis by (intro exI [of _ ?g']) auto
qed

section \<open>Properties\<close>

text \<open>
  for every shuffle and every sequence of hits, stands and doubles the game goes on
  without drawing from an empty deck; the two hands and the deck always hold the 52 cards
  once each, and a stand ends the hand.
\<close>
theorem blackjack_never_panics:
  "\<exists>g0 g g'. newGame r = Some g0 \<and> play as g0 = Some g \<and> stand g = Some g' \<and> finished g'
     \<and> mset (player g @ dealer g @ deck g) = mset new_deck"
proof -
  obtain g0 where g0: "newGame r = Some g0" "bj_inv g0" using newGame_inv by blast
  then obtain g where g: "play as g0 = Some g" "bj_inv g" using play_inv by blast
  then obtain g' where "stand g = Some g'" "finished g'" using stand_inv by blast
  with g0 g show ?thesis by (auto simp: bj_inv_def)
qed

text \<open>
  whenever a hand is over, its outcome is the one the two final hands call for (two-card
  21, bust, dealer bust, higher total, push), and the dealer has stopped at hard 17 or more
  unless the player busted or had a blackjack.
\<close>
theorem blackjack_outcome:
  assumes "newGame r = Some g0" and "play as g0 = Some g" and "finished g"
  shows "outcome g = spec_outcome (player g) (dealer g)
       \<and> (outcome g \<in> {DealerBust, PlayerWin, DealerWin} \<longrightarrow>
            17 \<le> handValue (dealer g) \<and> \<not> must_hit (dealer g))"
proof -
  have inv: "bj_inv g"
    using newGame_inv [of r] play_inv [of g0 as] assms(1,2) by auto
  then have eq: "outcome g = spec_outcome (player g) (dealer g)"
    using assms(3) by (simp add: bj_inv_def)
  moreover have "\<not> must_hit (dealer g)" if "outcome g \<in> {DealerBust, PlayerWin, DealerWin}"
  proof -
    have "\<not> (length (player g) = 2 \<and> handValue (player g) = 21)" "handValue (player g) \<le> 21"
      using that unfolding eq by (auto simp: spec_outcome_def split: if_splits)
    then show ?thesis using inv assms(3) by (simp add: bj_inv_def)
  qed
  moreover have "\<not> must_hit dl \<Longrightarrow> 17 \<le> handValue dl" for dl
    by (auto simp: must_hit_def handValue_def split: prod.splits)
  ultimately show ?thesis by blast
qed

theorem blackjack_outcome_witness:
  "\<exists>r g0 g. newGame r = Some g0 \<and> play [Stand] g0 = Some g \<and> finished g
      \<and> outcome g = spec_outcome (player g) (dealer g)"
proof -
  obtain g0 where g0: "newGame (\<lambda>_. 0) = Some g0" "bj_inv g0" using newGame_inv by blast
  then obtain g where g: "stand g0 = Some g" "finished g" using stand_inv by blast
  then have p: "play [Stand] g0 = Some g" by simp
  show ?thesis using blackjack_outcome [OF g0(1) p g(2)] g0(1) p g(2) by blast
qed

text \<open>
  the value of a hand is the largest total that does not exceed 21 among those that
  count any number of its aces as eleven, or the hard total when every one exceeds 21; it is
  soft exactly when an ace still counts eleven.
\<close>
theorem hand_value_best:
  "\<exists>k \<le> aces_in h. bj_value h = (hard h + 10 * int k, k > 0)
     \<and> (hard h + 10 * int k \<le> 21 \<or> k = 0)
     \<and> (\<forall>j \<le> aces_in h. hard h + 10 * int j \<le> 21 \<longrightarrow> hard h + 10 * int j \<le> handValue h)"
proof -
  obtain k where k: "k \<le> aces_in h" "bj_value h = (hard h + 10 * int k, k > 0)"
      "hard h + 10 * int k \<le> 21 \<or> k = 0"
      "\<forall>j \<le> aces_in h. k < j \<longrightarrow> hard h + 10 * int j > 21"
    using bj_value_best by blast
  have "hard h + 10 * int j \<le> handValue h" if "j \<le> aces_in h" "hard h + 10 * int j \<le> 21" for j
  proof -
    have "j \<le> k" using k(4) that by (meson linorder_not_less)
    then show ?thesis using k(2) by (simp add: handValue_def)
  qed
  with k show ?thesis by blast
qed

theorem hand_value_best_witness:
  "bj_value [mk_card 14 0, mk_card 14 1, mk_card 9 2] = (21, True)
   \<and> (\<exists>k \<le> aces_in [mk_card 14 0, mk_card 14 1, mk_card 9 2].
        bj_value [mk_card 14 0, mk_card 14 1, mk_card 9 2]
        = (hard [mk_card 14 0, mk_card 14 1, mk_card 9 2] + 10 * int k, k > 0))"
proof -
  have "bj_value [mk_card 14 0, mk_card 14 1, mk_card 9 2] = (21, True)" by code_simp
  then show ?thesis using hand_value_best [of "[mk_card 14 0, mk_card 14 1, mk_card 9 2]"] by blast
qed

text \<open>
  the payout of every outcome, for bets that do not overflow; a push after doubling
  returns both stakes, not the original bet only.
\<close>
theorem blackjack_payout:
  assumes "0 \<le> bet" and "bet < 536870912"
  shows "payout bet dbl out =
     (case out of
        PlayerBlackjack \<Rightarrow> (5 * bet) div 2
      | PlayerWin \<Rightarrow> 2 * (if dbl then 2 * bet else bet)
      | DealerBust \<Rightarrow> 2 * (if dbl then 2 * bet else bet)
      | Push \<Rightarrow> (if dbl then 2 * bet else bet)
      | _ \<Rightarrow> 0)"
  using assms by (cases out) (auto simp: payout_def Let_def i32_nonneg_id)

theorem blackjack_payout_witness:
  "payout 25 True Push = 50 \<and> payout 25 False PlayerBlackjack = 62"
  using blackjack_payout [of 25 True Push] blackjack_payout [of 25 False PlayerBlackjack] by simp

end
