(* ===== verification/Wallet.thy ===== *)
theory Wallet
  imports Prelude
begin

text \<open>
  The credit wallet (\<open>internal/doors/wallet.go\<close>, with the two statements it runs from
  \<open>internal/data/gen/users.sql.go\<close>) and the adapter through which the roulette table uses it
  (\<open>WalletAdapter\<close> in \<open>internal/doors/roulette/multiplayer/coordinator.go\<close>).

  The database is the record \<open>bank\<close>: the \<open>user_wallets\<close> table, the current UTC date, and an
  arbitrary schedule \<open>faults\<close> of failing statements, so that every error return is a branch.
  A date is the number of its day since 0001-01-01; day 0 is Go's zero time.  The
  \<open>updated_at\<close> column, which no code reads, is left out.

  The interface of the coordinator's \<open>Wallet\<close> is the locale \<open>wallet_service\<close>, stated over the
  spendable balance (with the daily allowance already due counted in).
\<close>

section \<open>The table and its statements\<close>

definition DailyAllowance :: int where
  "DailyAllowance = 100"

record wallet =
  UserID :: int
  DailyCredits :: int
  WinningsCents :: int
  DailyRefreshed :: int

record wallet_row =
  daily_credits :: int
  daily_credits_refreshed_on :: "int option"
  winnings_balance :: int

record bank =
  rows :: "int \<Rightarrow> wallet_row option"
  today :: int
  faults :: "nat \<Rightarrow> bool"
  stmts :: nat

datatype wallet_error =
    ErrGet | ErrUpdate | ErrInsufficient | ErrNonPositiveBet int | ErrNegativeCredit int | ErrZeroBet

definition failing :: "bank \<Rightarrow> bool" where
  "failing b = faults b (stmts b)"

definition tick :: "bank \<Rightarrow> bank" where
  "tick b = b\<lparr>stmts := Suc (stmts b)\<rparr>"

text \<open>\<open>INSERT \<dots> ON CONFLICT (user_id) DO UPDATE \<dots> RETURNING\<close>: \<open>None\<close> is a failed statement.\<close>

definition getOrCreateWallet :: "bank \<Rightarrow> int \<Rightarrow> int \<Rightarrow> int \<Rightarrow> wallet_row option \<times> bank" where
  "getOrCreateWallet b uid daily refreshed =
     (if failing b then (None, tick b)
      else case rows b uid of
        Some r \<Rightarrow> (Some r, tick b)
      | None \<Rightarrow>
          (let r = \<lparr>daily_credits = daily, daily_credits_refreshed_on = Some refreshed,
                    winnings_balance = 0\<rparr>
           in (Some r, (tick b)\<lparr>rows := (rows b)(uid \<mapsto> r)\<rparr>)))"

definition updateWallet :: "bank \<Rightarrow> int \<Rightarrow> wallet_row \<Rightarrow> wallet_error option \<times> bank" where
  "updateWallet b uid r =
     (if failing b then (Some ErrUpdate, tick b)
      else if rows b uid = None then (None, tick b)
      else (None, (tick b)\<lparr>rows := (rows b)(uid \<mapsto> r)\<rparr>))"

section \<open>The wallet service\<close>

definition wallet_total :: "wallet \<Rightarrow> int" where
  "wallet_total w = i64 (DailyCredits w + WinningsCents w)"

definition persist :: "bank \<Rightarrow> wallet \<Rightarrow> wallet_error option \<times> bank" where
  "persist b w =
     updateWallet b (UserID w)
       \<lparr>daily_credits = DailyCredits w,
        daily_credits_refreshed_on = (if DailyRefreshed w = 0 then None else Some (DailyRefreshed w)),
        winnings_balance = WinningsCents w\<rparr>"

text \<open>Every operation returns its values, its error and the database.\<close>

definition load :: "bank \<Rightarrow> int \<Rightarrow> wallet \<times> wallet_error option \<times> bank" where
  "load b uid =
     (case getOrCreateWallet b uid DailyAllowance (today b) of
        (None, b1) \<Rightarrow>
          (\<lparr>UserID = 0, DailyCredits = 0, WinningsCents = 0, DailyRefreshed = 0\<rparr>, Some ErrGet, b1)
      | (Some r, b1) \<Rightarrow>
          (let w = \<lparr>UserID = uid, DailyCredits = daily_credits r,
                    WinningsCents = winnings_balance r,
                    DailyRefreshed = (case daily_credits_refreshed_on r of None \<Rightarrow> 0 | Some d \<Rightarrow> d)\<rparr>
           in if DailyRefreshed w \<noteq> today b then
                (let w' = w\<lparr>DailyCredits := DailyAllowance, DailyRefreshed := today b\<rparr> in
                 case persist b1 w' of (e, b2) \<Rightarrow> (w', e, b2))
              else (w, None, b1)))"

definition bet :: "bank \<Rightarrow> wallet \<Rightarrow> int \<Rightarrow> wallet \<times> wallet_error option \<times> bank" where
  "bet b w amount =
     (if amount \<le> 0 then (w, Some (ErrNonPositiveBet amount), b)
      else if amount > wallet_total w then (w, Some ErrInsufficient, b)
      else
        (let w' = (if DailyCredits w \<ge> amount
                   then w\<lparr>DailyCredits := i32 (DailyCredits w - amount)\<rparr>
                   else w\<lparr>DailyCredits := 0,
                          WinningsCents := i64 (WinningsCents w - i64 (amount - DailyCredits w))\<rparr>)
         in case persist b w' of (e, b') \<Rightarrow> (w', e, b')))"

definition credit :: "bank \<Rightarrow> wallet \<Rightarrow> int \<Rightarrow> wallet \<times> wallet_error option \<times> bank" where
  "credit b w amount =
     (if amount < 0 then (w, Some (ErrNegativeCredit amount), b)
      else
        (let w' = w\<lparr>WinningsCents := i64 (WinningsCents w + amount)\<rparr> in
         case persist b w' of (e, b') \<Rightarrow> (w', e, b')))"

section \<open>The roulette table's adapter\<close>

definition adapter_debit :: "bank \<Rightarrow> int \<Rightarrow> int \<Rightarrow> wallet_error option \<times> bank" where
  "adapter_debit b uid amount =
     (if amount \<le> 0 then (Some ErrZeroBet, b)
      else case load b uid of
        (w, Some e, b1) \<Rightarrow> (Some e, b1)
      | (w, None, b1) \<Rightarrow> (case bet b1 w amount of (_, e, b2) \<Rightarrow> (e, b2)))"

definition adapter_credit :: "bank \<Rightarrow> int \<Rightarrow> int \<Rightarrow> wallet_error option \<times> bank" where
  "adapter_credit b uid amount =
     (if amount \<le> 0 then (None, b)
      else case load b uid of
        (w, Some e, b1) \<Rightarrow> (Some e, b1)
      | (w, None, b1) \<Rightarrow> (case credit b1 w amount of (_, e, b2) \<Rightarrow> (e, b2)))"

section \<open>The spendable balance\<close>

text \<open>What a row is worth today: stale daily credits are about to be replaced by the allowance.\<close>

definition row_worth :: "int \<Rightarrow> wallet_row \<Rightarrow> int" where
  "row_worth d r =
     (if daily_credits_refreshed_on r = Some d then daily_credits r else DailyAllowance)
     + winnings_balance r"

definition spendable :: "bank \<Rightarrow> int \<Rightarrow> int" where
  "spendable b uid =
     (case rows b uid of None \<Rightarrow> DailyAllowance | Some r \<Rightarrow> row_worth (today b) r)"

definition wallet_cap :: int where
  "wallet_cap = 4611686018427387904"

definition row_ok :: "wallet_row \<Rightarrow> bool" where
  "row_ok r \<longleftrightarrow> 0 \<le> daily_credits r \<and> daily_credits r < 2147483648
     \<and> 0 \<le> winnings_balance r \<and> winnings_balance r \<le> wallet_cap"

definition bank_ok :: "bank \<Rightarrow> bool" where
  "bank_ok b \<longleftrightarrow> today b \<noteq> 0 \<and> (\<forall>uid r. rows b uid = Some r \<longrightarrow> row_ok r)"

definition row_of :: "wallet \<Rightarrow> wallet_row" where
  "row_of w = \<lparr>daily_credits = DailyCredits w,
     daily_credits_refreshed_on = (if DailyRefreshed w = 0 then None else Some (DailyRefreshed w)),
     winnings_balance = WinningsCents w\<rparr>"

text \<open>A wallet just loaded on a bank: today's date, and its worth is the row's.\<close>

definition fresh_wallet :: "bank \<Rightarrow> wallet \<Rightarrow> bool" where
  "fresh_wallet b w \<longleftrightarrow> DailyRefreshed w = today b \<and> row_ok (row_of w)
     \<and> rows b (UserID w) \<noteq> None
     \<and> DailyCredits w + WinningsCents w = spendable b (UserID w)"

lemma today_tick [simp]: "today (tick b) = today b" "rows (tick b) = rows b"
  by (simp_all add: tick_def)

lemma getOrCreate_cases:
  assumes "bank_ok b" and "getOrCreateWallet b uid DailyAllowance (today b) = (ro, b1)"
  shows "bank_ok b1 \<and> today b1 = today b \<and> (\<forall>v. spendable b1 v = spendable b v)
    \<and> (case ro of None \<Rightarrow> True | Some r \<Rightarrow> rows b1 uid = Some r \<and> row_ok r)"
  using assms
  by (auto simp: getOrCreateWallet_def Let_def bank_ok_def spendable_def row_worth_def row_ok_def
      DailyAllowance_def wallet_cap_def split: if_splits option.splits)

text \<open>Writing a wallet back: with today's date the row is worth the wallet's sum.\<close>

lemma persist_cases:
  assumes ok: "bank_ok b" and row: "row_ok (row_of w)" and day: "DailyRefreshed w = today b"
    and here: "rows b (UserID w) \<noteq> None" and p: "persist b w = (e, b')"
  shows "bank_ok b' \<and> today b' = today b
    \<and> (e = None \<longrightarrow> (\<forall>v. spendable b' v =
          (if v = UserID w then DailyCredits w + WinningsCents w else spendable b v))
        \<and> rows b' = (rows b)(UserID w \<mapsto> row_of w))
    \<and> (e \<noteq> None \<longrightarrow> rows b' = rows b \<and> (\<forall>v. spendable b' v = spendable b v))"
proof -
  have d: "DailyRefreshed w \<noteq> 0" using ok day by (simp add: bank_ok_def)
  show ?thesis
    using p ok row here d day
    by (auto simp: persist_def updateWallet_def row_of_def bank_ok_def spendable_def row_worth_def
        split: if_splits option.splits)
qed

lemma load_cases:
  assumes ok: "bank_ok b" and l: "load b uid = (w, e, b1)"
  shows "bank_ok b1 \<and> today b1 = today b \<and> (\<forall>v. spendable b1 v = spendable b v)
    \<and> (e = None \<longrightarrow> fresh_wallet b1 w \<and> UserID w = uid)"
proof -
  obtain ro b0 where g: "getOrCreateWallet b uid DailyAllowance (today b) = (ro, b0)" by fastforce
  note gc = getOrCreate_cases [OF ok g]
  show ?thesis
  proof (cases ro)
    case None
    with l g gc show ?thesis by (auto simp: load_def)
  next
    case (Some r)
    with gc have r: "rows b0 uid = Some r" "row_ok r" by auto
    let ?d = "case daily_credits_refreshed_on r of None \<Rightarrow> 0 | Some d \<Rightarrow> d"
    let ?w = "\<lparr>UserID = uid, DailyCredits = daily_credits r, WinningsCents = winnings_balance r,
               DailyRefreshed = ?d\<rparr>"
    have nz: "today b \<noteq> 0" using ok by (simp add: bank_ok_def)
    show ?thesis
    proof (cases "?d = today b")
      case True
      then have day: "daily_credits_refreshed_on r = Some (today b)"
        using nz by (auto split: option.splits)
      with l g Some True have "w = ?w" "e = None" "b1 = b0"
        by (auto simp: load_def)
      with gc r day nz show ?thesis
        by (auto simp: fresh_wallet_def row_of_def row_ok_def spendable_def row_worth_def)
    next
      case False
      let ?w' = "?w\<lparr>DailyCredits := DailyAllowance, DailyRefreshed := today b\<rparr>"
      obtain e' b2 where p: "persist b0 ?w' = (e', b2)" by fastforce
      with l g Some False have eqs: "w = ?w'" "e = e'" "b1 = b2"
        by (auto simp: load_def Let_def)
      have row: "row_ok (row_of ?w')"
        using r by (simp add: row_ok_def row_of_def DailyAllowance_def)
      have stale: "daily_credits_refreshed_on r \<noteq> Some (today b)" using False by auto
      then have worth: "spendable b0 uid = DailyAllowance + winnings_balance r"
        using r gc by (simp add: spendable_def row_worth_def)
      have pc: "bank_ok b2 \<and> today b2 = today b0
        \<and> (e' = None \<longrightarrow> (\<forall>v. spendable b2 v =
              (if v = UserID ?w' then DailyCredits ?w' + WinningsCents ?w' else spendable b0 v))
            \<and> rows b2 = (rows b0)(UserID ?w' \<mapsto> row_of ?w'))
        \<and> (e' \<noteq> None \<longrightarrow> rows b2 = rows b0 \<and> (\<forall>v. spendable b2 v = spendable b0 v))"
        using gc r row by (intro persist_cases [OF _ row _ _ p]) auto
      show ?thesis
        unfolding eqs using pc gc row worth by (cases e') (auto simp: fresh_wallet_def)
    qed
  qed
qed

lemma fresh_total: "fresh_wallet b w \<Longrightarrow> wallet_total w = spendable b (UserID w)"
  by (simp add: wallet_total_def fresh_wallet_def row_ok_def row_of_def wallet_cap_def i64_id)

lemma bet_cases:
  assumes ok: "bank_ok b" and fresh: "fresh_wallet b w" and bt: "bet b w a = (w', e, b')"
  shows "bank_ok b' \<and> today b' = today b
    \<and> (e = None \<longrightarrow> 0 < a \<and> a \<le> spendable b (UserID w)
         \<and> (\<forall>v. spendable b' v = spendable b v - (if v = UserID w then a else 0)))
    \<and> (e \<noteq> None \<longrightarrow> (\<forall>v. spendable b' v = spendable b v))"
proof (cases "a \<le> 0 \<or> a > wallet_total w")
  case True
  with bt ok show ?thesis by (auto simp: bet_def split: if_splits)
next
  case False
  then have a: "0 < a" "a \<le> spendable b (UserID w)"
    using fresh_total [OF fresh] by auto
  note f = fresh [unfolded fresh_wallet_def row_ok_def row_of_def]
  let ?w = "if DailyCredits w \<ge> a then w\<lparr>DailyCredits := i32 (DailyCredits w - a)\<rparr>
            else w\<lparr>DailyCredits := 0,
                   WinningsCents := i64 (WinningsCents w - i64 (a - DailyCredits w))\<rparr>"
  have sum: "DailyCredits ?w + WinningsCents ?w = spendable b (UserID w) - a"
    and row: "row_ok (row_of ?w)"
    and keep: "UserID ?w = UserID w" "DailyRefreshed ?w = today b"
    using f a by (auto simp: row_ok_def row_of_def i32_id i64_id wallet_cap_def)
  obtain e1 b1 where p: "persist b ?w = (e1, b1)" by fastforce
  have eqs: "e = e1" "b' = b1" using bt False p by (auto simp: bet_def Let_def)
  have "bank_ok b1 \<and> today b1 = today b
    \<and> (e1 = None \<longrightarrow> (\<forall>v. spendable b1 v =
          (if v = UserID ?w then DailyCredits ?w + WinningsCents ?w else spendable b v))
        \<and> rows b1 = (rows b)(UserID ?w \<mapsto> row_of ?w))
    \<and> (e1 \<noteq> None \<longrightarrow> rows b1 = rows b \<and> (\<forall>v. spendable b1 v = spendable b v))"
    using f keep by (intro persist_cases [OF ok row _ _ p]) auto
  then show ?thesis
    unfolding eqs sum keep(1) using a by auto
qed

lemma credit_cases:
  assumes ok: "bank_ok b" and fresh: "fresh_wallet b w" and cr: "credit b w a = (w', e, b')"
    and room: "spendable b (UserID w) + a \<le> wallet_cap"
  shows "bank_ok b' \<and> today b' = today b
    \<and> (e = None \<longrightarrow> 0 \<le> a
         \<and> (\<forall>v. spendable b' v = spendable b v + (if v = UserID w then a else 0)))
    \<and> (e \<noteq> None \<longrightarrow> (\<forall>v. spendable b' v = spendable b v))"
proof (cases "a < 0")
  case True
  with cr ok show ?thesis by (auto simp: credit_def split: if_splits)
next
  case False
  note f = fresh [unfolded fresh_wallet_def row_ok_def row_of_def]
  let ?w = "w\<lparr>WinningsCents := i64 (WinningsCents w + a)\<rparr>"
  have nw: "i64 (WinningsCents w + a) = WinningsCents w + a"
    using f False room by (auto simp: wallet_cap_def intro!: i64_id)
  have row: "row_ok (row_of ?w)"
    using f False room by (auto simp: row_ok_def row_of_def nw)
  obtain e1 b1 where p: "persist b ?w = (e1, b1)" by fastforce
  have eqs: "e = e1" "b' = b1" using cr False p by (auto simp: credit_def Let_def)
  have "bank_ok b1 \<and> today b1 = today b
    \<and> (e1 = None \<longrightarrow> (\<forall>v. spendable b1 v =
          (if v = UserID ?w then DailyCredits ?w + WinningsCents ?w else spendable b v))
        \<and> rows b1 = (rows b)(UserID ?w \<mapsto> row_of ?w))
    \<and> (e1 \<noteq> None \<longrightarrow> rows b1 = rows b \<and> (\<forall>v. spendable b1 v = spendable b v))"
    using f by (intro persist_cases [OF ok row _ _ p]) auto
  then show ?thesis
    unfolding eqs using False f by (auto simp: nw)
qed

section \<open>The table's wallet interface\<close>

text \<open>
  What the table relies on: a successful debit takes exactly the amount from one user, who had
  it; a failed one takes nothing; a successful credit adds exactly the amount, up to the size of
  the column.  The laws hold for calls that run one after the other.
\<close>

locale wallet_service =
  fixes debit :: "'b \<Rightarrow> int \<Rightarrow> int \<Rightarrow> 'e option \<times> 'b"
    and deposit :: "'b \<Rightarrow> int \<Rightarrow> int \<Rightarrow> 'e option \<times> 'b"
    and worth :: "'b \<Rightarrow> int \<Rightarrow> int"
    and sound :: "'b \<Rightarrow> bool"
    and room :: int
  assumes debit_sound: "sound b \<Longrightarrow> debit b u a = (e, b') \<Longrightarrow> sound b'"
    and debit_ok: "sound b \<Longrightarrow> debit b u a = (None, b')
      \<Longrightarrow> 0 < a \<and> a \<le> worth b u \<and> worth b' v = worth b v - (if v = u then a else 0)"
    and debit_fail: "sound b \<Longrightarrow> debit b u a = (Some e', b') \<Longrightarrow> worth b' v = worth b v"
    and deposit_sound: "sound b \<Longrightarrow> worth b u + a \<le> room \<Longrightarrow> deposit b u a = (e, b') \<Longrightarrow> sound b'"
    and deposit_ok: "sound b \<Longrightarrow> 0 \<le> a \<Longrightarrow> worth b u + a \<le> room \<Longrightarrow> deposit b u a = (None, b')
      \<Longrightarrow> worth b' v = worth b v + (if v = u then a else 0)"
    and deposit_fail: "sound b \<Longrightarrow> worth b u + a \<le> room \<Longrightarrow> deposit b u a = (Some e', b')
      \<Longrightarrow> worth b' v = worth b v"
    and worth_nonneg: "sound b \<Longrightarrow> 0 \<le> worth b u"
begin

lemma debit_never_increases:
  assumes "sound b" and "debit b u a = (e, b')"
  shows "worth b' v \<le> worth b v"
proof (cases e)
  case None
  with assms debit_ok [of b u a b' v] show ?thesis by auto
next
  case (Some e')
  with assms debit_fail [of b u a e' b' v] show ?thesis by simp
qed

lemma debit_then_deposit:
  assumes b: "sound b" and d: "debit b u a = (None, b1)" and c: "deposit b1 u a = (None, b2)"
    and r: "worth b u \<le> room"
  shows "worth b2 v = worth b v"
proof -
  have "sound b1" using debit_sound [OF b d] .
  moreover have "0 < a" and w: "worth b1 w = worth b w - (if w = u then a else 0)" for w
    using debit_ok [OF b d, of w] by auto
  ultimately have "worth b2 v = worth b1 v + (if v = u then a else 0)"
    using r w [of u] by (intro deposit_ok [OF _ _ _ c]) auto
  then show ?thesis by (simp add: w)
qed

end

lemma bank_ok_worth: "bank_ok b \<Longrightarrow> 0 \<le> spendable b u"
  by (auto simp: bank_ok_def spendable_def row_worth_def row_ok_def DailyAllowance_def
      split: option.splits)

lemma adapter_debit_cases:
  assumes ok: "bank_ok b" and d: "adapter_debit b u a = (e, b')"
  shows "bank_ok b'
    \<and> (e = None \<longrightarrow> 0 < a \<and> a \<le> spendable b u
         \<and> (\<forall>v. spendable b' v = spendable b v - (if v = u then a else 0)))
    \<and> (e \<noteq> None \<longrightarrow> (\<forall>v. spendable b' v = spendable b v))"
proof (cases "a \<le> 0")
  case True
  with d ok show ?thesis by (auto simp: adapter_debit_def)
next
  case False
  obtain w el b1 where l: "load b u = (w, el, b1)" by (metis prod_cases3)
  note lc = load_cases [OF ok l]
  show ?thesis
  proof (cases el)
    case (Some x)
    with d False l lc show ?thesis by (auto simp: adapter_debit_def)
  next
    case None
    obtain w' eb b2 where bt: "bet b1 w a = (w', eb, b2)" by (metis prod_cases3)
    from lc None have ok1: "bank_ok b1" and fresh: "fresh_wallet b1 w" and u: "UserID w = u"
      and same: "\<And>v. spendable b1 v = spendable b v" by auto
    have "e = eb" "b' = b2" using d False l None bt by (auto simp: adapter_debit_def)
    with bet_cases [OF ok1 fresh bt] u same show ?thesis by auto
  qed
qed

lemma adapter_credit_cases:
  assumes ok: "bank_ok b" and d: "adapter_credit b u a = (e, b')"
    and room: "spendable b u + a \<le> wallet_cap"
  shows "bank_ok b'
    \<and> (e = None \<longrightarrow> (\<forall>v. spendable b' v = spendable b v + (if v = u then max a 0 else 0)))
    \<and> (e \<noteq> None \<longrightarrow> (\<forall>v. spendable b' v = spendable b v))"
proof (cases "a \<le> 0")
  case True
  with d ok show ?thesis by (auto simp: adapter_credit_def)
next
  case False
  obtain w el b1 where l: "load b u = (w, el, b1)" by (metis prod_cases3)
  note lc = load_cases [OF ok l]
  show ?thesis
  proof (cases el)
    case (Some x)
    with d False l lc show ?thesis by (auto simp: adapter_credit_def)
  next
    case None
    obtain w' eb b2 where cr: "credit b1 w a = (w', eb, b2)" by (metis prod_cases3)
    from lc None have ok1: "bank_ok b1" and fresh: "fresh_wallet b1 w" and u: "UserID w = u"
      and same: "\<And>v. spendable b1 v = spendable b v" by auto
    have "e = eb" "b' = b2" using d False l None cr by (auto simp: adapter_credit_def)
    moreover have "spendable b1 (UserID w) + a \<le> wallet_cap" using room u same by simp
    ultimately show ?thesis using credit_cases [OF ok1 fresh cr] u same False by auto
  qed
qed

interpretation wallet: wallet_service adapter_debit adapter_credit spendable bank_ok wallet_cap
proof unfold_locales
  fix b b' u a v and e :: "wallet_error option" and e' :: wallet_error
  assume ok: "bank_ok b"
  show "adapter_debit b u a = (e, b') \<Longrightarrow> bank_ok b'"
    using adapter_debit_cases [OF ok] by blast
  show "adapter_debit b u a = (None, b')
      \<Longrightarrow> 0 < a \<and> a \<le> spendable b u \<and> spendable b' v = spendable b v - (if v = u then a else 0)"
    using adapter_debit_cases [OF ok] by blast
  show "adapter_debit b u a = (Some e', b') \<Longrightarrow> spendable b' v = spendable b v"
    using adapter_debit_cases [OF ok] by blast
  show "spendable b u + a \<le> wallet_cap \<Longrightarrow> adapter_credit b u a = (e, b') \<Longrightarrow> bank_ok b'"
    using adapter_credit_cases [OF ok] by blast
  show "0 \<le> a \<Longrightarrow> spendable b u + a \<le> wallet_cap \<Longrightarrow> adapter_credit b u a = (None, b')
      \<Longrightarrow> spendable b' v = spendable b v + (if v = u then a else 0)"
    using adapter_credit_cases [OF ok, of u a None b'] by simp
  show "spendable b u + a \<le> wallet_cap \<Longrightarrow> adapter_credit b u a = (Some e', b')
      \<Longrightarrow> spendable b' v = spendable b v"
    using adapter_credit_cases [OF ok, of u a "Some e'" b'] by simp
  show "0 \<le> spendable b u" using bank_ok_worth [OF ok] .
qed

section \<open>A sequence of calls\<close>

datatype wallet_op = Debit int int | Deposit int int

text \<open>One call of the adapter, with the amount it moved: negative for a debit, 0 on any error.\<close>

definition run_op :: "bank \<Rightarrow> wallet_op \<Rightarrow> (int \<times> int) \<times> bank" where
  "run_op b op =
     (case op of
        Debit u a \<Rightarrow> (case adapter_debit b u a of (e, b') \<Rightarrow> ((u, if e = None then - a else 0), b'))
      | Deposit u a \<Rightarrow>
          (case adapter_credit b u a of (e, b') \<Rightarrow> ((u, if e = None then max a 0 else 0), b')))"

fun run_ops :: "bank \<Rightarrow> wallet_op list \<Rightarrow> (int \<times> int) list \<times> bank" where
  "run_ops b [] = ([], b)"
| "run_ops b (op # ops) =
     (case run_op b op of (m, b1) \<Rightarrow> (case run_ops b1 ops of (ms, b2) \<Rightarrow> (m # ms, b2)))"

definition moved :: "(int \<times> int) list \<Rightarrow> int \<Rightarrow> int" where
  "moved ms u = (\<Sum>m\<leftarrow>ms. if fst m = u then snd m else 0)"

definition deposits :: "wallet_op list \<Rightarrow> int" where
  "deposits ops = (\<Sum>op\<leftarrow>ops. case op of Debit u a \<Rightarrow> 0 | Deposit u a \<Rightarrow> max a 0)"

lemma deposits_Cons [simp]:
  "deposits (op # ops) = (case op of Debit u a \<Rightarrow> 0 | Deposit u a \<Rightarrow> max a 0) + deposits ops"
  by (simp add: deposits_def)

lemma deposits_nonneg: "0 \<le> deposits ops"
  unfolding deposits_def by (intro sum_list_nonneg) (auto split: wallet_op.splits)

lemma moved_Cons [simp]: "moved (m # ms) u = (if fst m = u then snd m else 0) + moved ms u"
  by (simp add: moved_def)

lemma run_op_cases:
  assumes ok: "bank_ok b" and r: "run_op b op = (m, b1)"
    and room: "\<forall>v. spendable b v + (case op of Debit u a \<Rightarrow> 0 | Deposit u a \<Rightarrow> max a 0) \<le> wallet_cap"
  shows "bank_ok b1 \<and> (\<forall>v. spendable b1 v = spendable b v + (if fst m = v then snd m else 0))
    \<and> snd m \<le> (case op of Debit u a \<Rightarrow> 0 | Deposit u a \<Rightarrow> max a 0)"
proof (cases op)
  case (Debit u a)
  obtain e b' where d: "adapter_debit b u a = (e, b')" by fastforce
  show ?thesis
    using adapter_debit_cases [OF ok d] r d Debit by (cases e) (auto simp: run_op_def)
next
  case (Deposit u a)
  obtain e b' where d: "adapter_credit b u a = (e, b')" by fastforce
  have "spendable b u + a \<le> wallet_cap" using room [rule_format, of u] Deposit by simp
  note cc = adapter_credit_cases [OF ok d this]
  show ?thesis
    using cc r d Deposit by (cases e) (auto simp: run_op_def)
qed

lemma run_ops_cases:
  assumes "bank_ok b" and "run_ops b ops = (ms, b')"
    and "\<forall>v. spendable b v + deposits ops \<le> wallet_cap"
  shows "bank_ok b' \<and> (\<forall>v. spendable b' v = spendable b v + moved ms v)"
  using assms
proof (induction ops arbitrary: b ms)
  case Nil
  then show ?case by (simp add: moved_def)
next
  case (Cons op ops)
  obtain m b1 where r: "run_op b op = (m, b1)" by fastforce
  obtain ms' b2 where rs: "run_ops b1 ops = (ms', b2)" by fastforce
  let ?d = "case op of Debit u a \<Rightarrow> 0 | Deposit u a \<Rightarrow> max a 0"
  have d0: "0 \<le> ?d" by (cases op) simp_all
  have "\<forall>v. spendable b v + ?d \<le> wallet_cap"
    using Cons.prems(3) deposits_nonneg [of ops] by (simp add: add.assoc [symmetric]) (meson add_increasing2 order_refl order_trans)
  note rc = run_op_cases [OF Cons.prems(1) r this]
  have "spendable b1 v + deposits ops \<le> wallet_cap" for v
    using rc Cons.prems(3) [rule_format, of v] d0 by (cases "fst m = v") auto
  with Cons.IH [of b1 ms'] rc rs Cons.prems(2) r show ?case by auto
qed

text \<open>
  C30: Any sequence of debits and credits by the roulette table's wallet adapter, over any number
  of users and with any of its database statements failing, keeps exact accounts: afterwards
  each user's spendable balance is the one before plus that user's successful credits minus
  their successful debits, and it is never negative.  The only assumption is that the total fits
  the winnings column; the calls run one after the other.
\<close>

theorem wallet_accounts_exact:
  assumes "bank_ok b" and "\<forall>v. spendable b v + deposits ops \<le> wallet_cap"
    and "run_ops b ops = (ms, b')"
  shows "spendable b' u = spendable b u + moved ms u \<and> 0 \<le> spendable b' u"
  using run_ops_cases [OF assms(1,3,2)] wallet.worth_nonneg [of b' u] by auto

definition demo_bank :: bank where
  "demo_bank = \<lparr>rows = Map.empty, today = 739000, faults = (\<lambda>n. n = 6), stmts = 0\<rparr>"

lemma demo_bank_ok: "bank_ok demo_bank" "spendable demo_bank v = 100"
  by (simp_all add: demo_bank_def bank_ok_def spendable_def DailyAllowance_def)

theorem wallet_accounts_exact_witness:
  "(let ops = [Debit 1 60, Debit 1 60, Deposit 1 70, Debit 1 80, Debit 2 10];
        ms = fst (run_ops demo_bank ops); b' = snd (run_ops demo_bank ops)
    in ms = [(1, - 60), (1, 0), (1, 70), (1, 0), (2, - 10)]
      \<and> spendable b' 1 = 100 + moved ms 1 \<and> moved ms 1 = 10)"
proof -
  let ?ops = "[Debit 1 60, Debit 1 60, Deposit 1 70, Debit 1 80, Debit 2 10]"
  have "\<forall>v. spendable demo_bank v + deposits ?ops \<le> wallet_cap"
    by (simp add: demo_bank_ok deposits_def wallet_cap_def)
  moreover obtain ms b' where r: "run_ops demo_bank ?ops = (ms, b')" by fastforce
  ultimately have "spendable b' 1 = spendable demo_bank 1 + moved ms 1 \<and> 0 \<le> spendable b' 1"
    by (rule wallet_accounts_exact [OF demo_bank_ok(1)])
  moreover have "fst (run_ops demo_bank ?ops) = [(1, - 60), (1, 0), (1, 70), (1, 0), (2, - 10)]"
    by code_simp
  ultimately show ?thesis using r by (simp add: demo_bank_ok moved_def)
qed

section \<open>Two sessions at once\<close>

text \<open>
  Two sessions of one user load the wallet before either writes it back, as the screen of a door
  game and the table's adapter can: the second write overwrites the first.
\<close>

definition two_sessions :: "bank \<Rightarrow> int \<Rightarrow> int \<Rightarrow> int \<Rightarrow> wallet_error option \<times> wallet_error option \<times> bank" where
  "two_sessions b u a1 a2 =
     (case load b u of (w1, _, b1) \<Rightarrow>
      case load b1 u of (w2, _, b2) \<Rightarrow>
      case bet b2 w1 a1 of (_, e1, b3) \<Rightarrow>
      case bet b3 w2 a2 of (_, e2, b4) \<Rightarrow> (e1, e2, b4))"

lemma bet_overwrites:
  assumes ok: "bank_ok b" and row: "row_ok (row_of w)" and day: "DailyRefreshed w = today b"
    and here: "rows b (UserID w) \<noteq> None" and fine: "\<forall>n. \<not> faults b n"
    and a: "0 < a" "a \<le> DailyCredits w + WinningsCents w"
  obtains w' b' where "bet b w a = (w', None, b')" and "bank_ok b'" and "today b' = today b"
    and "faults b' = faults b" and "rows b' (UserID w) \<noteq> None"
    and "spendable b' (UserID w) = DailyCredits w + WinningsCents w - a"
proof -
  note f = row [unfolded row_ok_def row_of_def]
  have tot: "wallet_total w = DailyCredits w + WinningsCents w"
    using f by (simp add: wallet_total_def wallet_cap_def i64_id)
  let ?w = "if DailyCredits w \<ge> a then w\<lparr>DailyCredits := i32 (DailyCredits w - a)\<rparr>
            else w\<lparr>DailyCredits := 0,
                   WinningsCents := i64 (WinningsCents w - i64 (a - DailyCredits w))\<rparr>"
  have sum: "DailyCredits ?w + WinningsCents ?w = DailyCredits w + WinningsCents w - a"
    and row': "row_ok (row_of ?w)"
    and keep: "UserID ?w = UserID w" "DailyRefreshed ?w = today b"
    using f a day by (auto simp: row_ok_def row_of_def i32_id i64_id wallet_cap_def)
  obtain e1 b1 where p: "persist b ?w = (e1, b1)" by fastforce
  have e: "e1 = None" "faults b1 = faults b"
    using p fine by (auto simp: persist_def updateWallet_def failing_def tick_def split: if_splits)
  have bt: "bet b w a = (?w, None, b1)" using a tot p e by (simp add: bet_def Let_def)
  have here': "rows b (UserID ?w) \<noteq> None" using here keep(1) by metis
  have pc: "bank_ok b1 \<and> today b1 = today b
    \<and> (e1 = None \<longrightarrow> (\<forall>v. spendable b1 v =
          (if v = UserID ?w then DailyCredits ?w + WinningsCents ?w else spendable b v))
        \<and> rows b1 = (rows b)(UserID ?w \<mapsto> row_of ?w))
    \<and> (e1 \<noteq> None \<longrightarrow> rows b1 = rows b \<and> (\<forall>v. spendable b1 v = spendable b v))"
    by (rule persist_cases [OF ok row' keep(2) here' p])
  show thesis
    using pc e sum keep(1) by (intro that [OF bt]) auto
qed

lemma load_fine:
  assumes ok: "bank_ok b" and fine: "\<forall>n. \<not> faults b n"
  obtains w b' where "load b u = (w, None, b')" and "bank_ok b'" and "today b' = today b"
    and "faults b' = faults b" and "fresh_wallet b' w" and "UserID w = u"
    and "spendable b' u = spendable b u"
proof -
  obtain w e b' where l: "load b u = (w, e, b')" by (metis prod_cases3)
  have "e = None" "faults b' = faults b"
    using l fine
    by (auto simp: load_def getOrCreateWallet_def failing_def tick_def persist_def updateWallet_def Let_def
        split: option.splits if_splits)
  with load_cases [OF ok l] l that show thesis by auto
qed

lemma adapter_credit_fine:
  assumes ok: "bank_ok b" and fine: "\<forall>n. \<not> faults b n" and room: "spendable b u + a \<le> wallet_cap"
  obtains b' where "adapter_credit b u a = (None, b')" and "bank_ok b'" and "faults b' = faults b"
    and "\<And>v. spendable b' v = spendable b v + (if v = u then max a 0 else 0)"
proof -
  obtain e b' where c: "adapter_credit b u a = (e, b')" by fastforce
  obtain w b1 where l: "load b u = (w, None, b1)" and f1: "faults b1 = faults b"
    by (rule load_fine [OF ok fine]) blast
  have "e = None \<and> faults b' = faults b"
    using c l f1 fine
    by (auto simp: adapter_credit_def credit_def persist_def updateWallet_def failing_def tick_def Let_def
        split: if_splits)
  with adapter_credit_cases [OF ok c room] c that show thesis by auto
qed

text \<open>
  Two sessions of one user that interleave, load, load, bet, bet, on a healthy database
  both get their bets accepted, but only the second is paid for: the wallet ends at the first
  balance less the second bet alone.  The interleaving needs both calls to have loaded before
  either writes; each write is atomic, the load and the write together are not.
\<close>

theorem concurrent_bets_lose_one:
  assumes ok: "bank_ok b" and fine: "\<forall>n. \<not> faults b n"
    and a: "0 < a1" "a1 \<le> spendable b u" "0 < a2" "a2 \<le> spendable b u"
  shows "\<exists>b'. two_sessions b u a1 a2 = (None, None, b') \<and> spendable b' u = spendable b u - a2"
proof -
  obtain w1 b1 where l1: "load b u = (w1, None, b1)" and k1: "bank_ok b1" "today b1 = today b"
    "faults b1 = faults b" "fresh_wallet b1 w1" "UserID w1 = u" "spendable b1 u = spendable b u"
    by (rule load_fine [OF ok fine])
  have fine1: "\<forall>n. \<not> faults b1 n" using fine k1 by simp
  obtain w2 b2 where l2: "load b1 u = (w2, None, b2)" and k2: "bank_ok b2" "today b2 = today b1"
    "faults b2 = faults b1" "fresh_wallet b2 w2" "UserID w2 = u" "spendable b2 u = spendable b1 u"
    by (rule load_fine [OF k1(1) fine1])
  have w: "row_ok (row_of w1)" "row_ok (row_of w2)" "DailyRefreshed w1 = today b2"
    "DailyRefreshed w2 = today b2" "DailyCredits w1 + WinningsCents w1 = spendable b u"
    "DailyCredits w2 + WinningsCents w2 = spendable b u" "rows b2 u \<noteq> None"
    using k1 k2 by (auto simp: fresh_wallet_def)
  have fine2: "\<forall>n. \<not> faults b2 n" using fine k1 k2 by simp
  obtain w1' b3 where bt1: "bet b2 w1 a1 = (w1', None, b3)" and k3: "bank_ok b3"
    "today b3 = today b2" "faults b3 = faults b2" "rows b3 (UserID w1) \<noteq> None"
    by (rule bet_overwrites [OF k2(1) w(1) w(3) _ fine2, of a1]) (use w a k1 in auto)
  have fine3: "\<forall>n. \<not> faults b3 n" using fine2 k3 by simp
  obtain w2' b4 where bt2: "bet b3 w2 a2 = (w2', None, b4)"
    and s4: "spendable b4 (UserID w2) = DailyCredits w2 + WinningsCents w2 - a2"
    by (rule bet_overwrites [OF k3(1) w(2) _ _ fine3, of a2]) (use w a k1 k2 k3 in auto)
  show ?thesis
    unfolding two_sessions_def l1 l2 bt1 bt2 prod.case using s4 k2 w by simp
qed

theorem concurrent_bets_lose_one_witness:
  "\<exists>b b'. two_sessions b 1 100 100 = (None, None, b') \<and> spendable b 1 = 100 \<and> spendable b' 1 = 0"
proof -
  let ?b = "demo_bank\<lparr>faults := \<lambda>n. False\<rparr>"
  have s: "spendable ?b v = 100" and ok: "bank_ok ?b" for v
    by (simp_all add: demo_bank_def bank_ok_def spendable_def DailyAllowance_def)
  have "\<exists>b'. two_sessions ?b 1 100 100 = (None, None, b') \<and> spendable b' 1 = spendable ?b 1 - 100"
    by (rule concurrent_bets_lose_one [OF ok]) (simp_all add: s)
  then show ?thesis using s by fastforce
qed

end
