(* ===== verification/Roulette.thy ===== *)
theory Roulette
  imports Rng
begin

text \<open>
  The American roulette wheel and its bets (\<open>internal/doors/roulette/roulette.go\<close>,
  \<open>bets.go\<close> and \<open>draw.go\<close>).  A \<open>Pocket\<close> is a \<open>uint8\<close>: an integer from 0 to 255, of
  which 0 to 37 name pockets and 37 is the double zero.
\<close>

section \<open>Pockets\<close>

datatype Color = Green | Red | Black

primrec color_string :: "Color \<Rightarrow> string" where
  "color_string Red = ''red''"
| "color_string Black = ''black''"
| "color_string Green = ''green''"

definition Pocket00 :: int where
  "Pocket00 = 37"

definition PocketCount :: int where
  "PocketCount = 38"

text \<open>\<open>buf [3]byte\<close> is filled from its end; \<open>None\<close> is the index panic of a fourth digit.\<close>

fun itoa_loop :: "int \<Rightarrow> nat \<Rightarrow> string \<Rightarrow> string option" where
  "itoa_loop n i acc =
     (if n > 0 then
        (case i of
           0 \<Rightarrow> None
         | Suc j \<Rightarrow> itoa_loop (go_div n 10) j (char_of (nat (48 + go_mod n 10)) # acc))
      else Some acc)"

declare itoa_loop.simps [simp del]

definition itoa :: "int \<Rightarrow> string option" where
  "itoa n = (if n = 0 then Some ''0'' else itoa_loop n 3 '''')"

definition pocketNumberStr :: "string list" where
  "pocketNumberStr =
     (map (\<lambda>i. case itoa i of Some s \<Rightarrow> s | None \<Rightarrow> '''') [0..36] @ [''''])[nat Pocket00 := ''00'']"

definition pocket_number :: "int \<Rightarrow> string" where
  "pocket_number p =
     (if p = Pocket00 then ''00''
      else if 0 \<le> p \<and> p \<le> 36 then pocketNumberStr ! nat p
      else ''?'')"

definition IsZero :: "int \<Rightarrow> bool" where
  "IsZero p \<longleftrightarrow> p = 0 \<or> p = Pocket00"

definition isRed :: "bool list" where
  "isRed = fold (\<lambda>n arr. arr[n := True])
     [1, 3, 5, 7, 9, 12, 14, 16, 18, 19, 21, 23, 25, 27, 30, 32, 34, 36] (replicate 38 False)"

text \<open>\<open>isRed[p]\<close> is an array access: \<open>None\<close> is its panic for a pocket beyond 37.\<close>

definition pocket_color :: "int \<Rightarrow> Color option" where
  "pocket_color p =
     (if IsZero p then Some Green
      else case slice_get isRed p of
        None \<Rightarrow> None
      | Some r \<Rightarrow> Some (if r then Red else Black))"

definition IsRed :: "int \<Rightarrow> bool option" where
  "IsRed p = map_option (\<lambda>c. c = Red) (pocket_color p)"

definition IsBlack :: "int \<Rightarrow> bool option" where
  "IsBlack p = map_option (\<lambda>c. c = Black) (pocket_color p)"

definition IsEven :: "int \<Rightarrow> bool" where
  "IsEven p = (if IsZero p then False else p mod 2 = 0)"

definition IsOdd :: "int \<Rightarrow> bool" where
  "IsOdd p = (if IsZero p then False else p mod 2 = 1)"

definition IsLow :: "int \<Rightarrow> bool" where
  "IsLow p = (if IsZero p then False else p \<ge> 1 \<and> p \<le> 18)"

definition IsHigh :: "int \<Rightarrow> bool" where
  "IsHigh p = (if IsZero p then False else p \<ge> 19 \<and> p \<le> 36)"

definition Dozen :: "int \<Rightarrow> int" where
  "Dozen p = (if IsZero p then 0 else if p \<le> 12 then 1 else if p \<le> 24 then 2 else 3)"

definition Column :: "int \<Rightarrow> int" where
  "Column p =
     (if IsZero p then 0 else if p mod 3 = 1 then 1 else if p mod 3 = 2 then 2 else 3)"

definition RibbonOrder :: "int list" where
  "RibbonOrder =
    [0, 28, 9, 26, 30, 11, 7, 20, 32, 17,
     5, 22, 34, 15, 3, 24, 36, 13, 1, Pocket00,
     27, 10, 25, 29, 12, 8, 19, 31, 18, 6,
     21, 33, 16, 4, 23, 35, 14, 2]"

fun ribbon_loop :: "int list \<Rightarrow> int \<Rightarrow> int \<Rightarrow> int" where
  "ribbon_loop [] i p = - 1"
| "ribbon_loop (q # qs) i p = (if q = p then i else ribbon_loop qs (i + 1) p)"

definition RibbonIndex :: "int \<Rightarrow> int" where
  "RibbonIndex p = ribbon_loop RibbonOrder 0 p"

section \<open>Bets\<close>

datatype BetType =
    BetStraight | BetRed | BetBlack | BetEven | BetOdd | BetLow | BetHigh
  | BetDozen1 | BetDozen2 | BetDozen3 | BetColumn1 | BetColumn2 | BetColumn3

primrec bet_type_string :: "BetType \<Rightarrow> string" where
  "bet_type_string BetStraight = ''straight''"
| "bet_type_string BetRed = ''red''"
| "bet_type_string BetBlack = ''black''"
| "bet_type_string BetEven = ''even''"
| "bet_type_string BetOdd = ''odd''"
| "bet_type_string BetLow = ''low''"
| "bet_type_string BetHigh = ''high''"
| "bet_type_string BetDozen1 = ''1st12''"
| "bet_type_string BetDozen2 = ''2nd12''"
| "bet_type_string BetDozen3 = ''3rd12''"
| "bet_type_string BetColumn1 = ''col1''"
| "bet_type_string BetColumn2 = ''col2''"
| "bet_type_string BetColumn3 = ''col3''"

record BetKey =
  Type :: BetType
  Number :: int

definition bet_key_string :: "BetKey \<Rightarrow> string" where
  "bet_key_string k =
     (if Type k = BetStraight then ''straight:'' @ pocket_number (Number k)
      else bet_type_string (Type k))"

record Bet =
  Key :: BetKey
  Amount :: int

text \<open>\<open>None\<close> is the panic of a colour lookup outside the wheel.\<close>

definition Evaluate :: "int \<Rightarrow> BetKey \<Rightarrow> (bool \<times> int) option" where
  "Evaluate p k =
     (case Type k of
        BetStraight \<Rightarrow> Some (if p = Number k then (True, 35) else (False, 0))
      | BetRed \<Rightarrow> map_option (\<lambda>r. if r then (True, 1) else (False, 0)) (IsRed p)
      | BetBlack \<Rightarrow> map_option (\<lambda>r. if r then (True, 1) else (False, 0)) (IsBlack p)
      | BetEven \<Rightarrow> Some (if IsEven p then (True, 1) else (False, 0))
      | BetOdd \<Rightarrow> Some (if IsOdd p then (True, 1) else (False, 0))
      | BetLow \<Rightarrow> Some (if IsLow p then (True, 1) else (False, 0))
      | BetHigh \<Rightarrow> Some (if IsHigh p then (True, 1) else (False, 0))
      | BetDozen1 \<Rightarrow> Some (if Dozen p = 1 then (True, 2) else (False, 0))
      | BetDozen2 \<Rightarrow> Some (if Dozen p = 2 then (True, 2) else (False, 0))
      | BetDozen3 \<Rightarrow> Some (if Dozen p = 3 then (True, 2) else (False, 0))
      | BetColumn1 \<Rightarrow> Some (if Column p = 1 then (True, 2) else (False, 0))
      | BetColumn2 \<Rightarrow> Some (if Column p = 2 then (True, 2) else (False, 0))
      | BetColumn3 \<Rightarrow> Some (if Column p = 3 then (True, 2) else (False, 0)))"

definition GrossReturn :: "int \<Rightarrow> Bet \<Rightarrow> int option" where
  "GrossReturn p b =
     (case Evaluate p (Key b) of
        None \<Rightarrow> None
      | Some (won, m) \<Rightarrow> Some (if \<not> won then 0 else i32 (Amount b * i32 (1 + m))))"

definition Draw :: "('s \<Rightarrow> int \<Rightarrow> int \<times> 's) \<Rightarrow> 's \<Rightarrow> int \<times> 's" where
  "Draw intn s = (case intn s PocketCount of (n, s') \<Rightarrow> (n mod 256, s'))"

section \<open>The wheel\<close>

definition pockets :: "int list" where
  "pockets = [0..37]"

definition valid_pocket :: "int \<Rightarrow> bool" where
  "valid_pocket p \<longleftrightarrow> 0 \<le> p \<and> p \<le> 37"

lemma pockets_eval: "pockets = [0,1,2,3,4,5,6,7,8,9,10,11,12,13,14,15,16,17,18,19,20,21,22,23,24,
    25,26,27,28,29,30,31,32,33,34,35,36,37]"
  by (simp add: pockets_def upto_rec1)

lemma set_pockets: "p \<in> set pockets \<longleftrightarrow> valid_pocket p"
  by (auto simp: pockets_def valid_pocket_def)

lemma isRed_eval: "isRed = [False, True, False, True, False, True, False, True, False, True, False,
    False, True, False, True, False, True, False, True, True, False, True, False, True, False, True,
    False, True, False, False, True, False, True, False, True, False, True, False]"
  by (simp add: isRed_def numeral_eq_Suc)

lemma pocket_cases: "list_all P pockets \<Longrightarrow> valid_pocket p \<Longrightarrow> P p"
  by (simp add: list_all_iff set_pockets)

lemma pocket_color_total: "valid_pocket p \<Longrightarrow> pocket_color p \<noteq> None"
  by (auto simp: pocket_color_def slice_get_def isRed_eval valid_pocket_def)

lemma Evaluate_total: "valid_pocket p \<Longrightarrow> Evaluate p k \<noteq> None"
  using pocket_color_total [of p]
  by (cases "Type k") (auto simp: Evaluate_def IsRed_def IsBlack_def)

text \<open>What one credit staked on a key returns when a pocket comes up.\<close>

definition factor :: "int \<Rightarrow> BetKey \<Rightarrow> int" where
  "factor p k = (case Evaluate p k of None \<Rightarrow> 0 | Some (won, m) \<Rightarrow> if won then 1 + m else 0)"

lemma Evaluate_outside:
  "Type k \<noteq> BetStraight \<Longrightarrow> Evaluate p k = Evaluate p \<lparr>Type = Type k, Number = 0\<rparr>"
  by (cases "Type k") (simp_all add: Evaluate_def)

lemma Evaluate_mult: "Evaluate p k = Some (won, m) \<Longrightarrow> 0 \<le> m \<and> m \<le> 35"
  by (cases "Type k") (auto simp: Evaluate_def split: if_splits)

lemma GrossReturn_factor:
  assumes "valid_pocket p" and "0 \<le> Amount b" and "Amount b \<le> 59652323"
  shows "GrossReturn p b = Some (Amount b * factor p (Key b))"
proof -
  obtain won m where e: "Evaluate p (Key b) = Some (won, m)"
    using Evaluate_total [OF assms(1)] by fastforce
  from Evaluate_mult [OF e] have m: "0 \<le> m" "m \<le> 35" by auto
  then have one: "i32 (1 + m) = 1 + m" by (intro i32_nonneg_id) auto
  have "Amount b * (1 + m) \<le> 59652323 * 36"
    using assms m by (intro mult_mono) auto
  then have "i32 (Amount b * (1 + m)) = Amount b * (1 + m)"
    using assms m by (intro i32_nonneg_id) auto
  with e one show ?thesis by (simp add: GrossReturn_def factor_def)
qed

definition valid_key :: "BetKey \<Rightarrow> bool" where
  "valid_key k \<longleftrightarrow> (Type k = BetStraight \<longrightarrow> valid_pocket (Number k))"

lemma straight_sum:
  "list_all (\<lambda>n. (\<Sum>p\<leftarrow>pockets. factor p \<lparr>Type = BetStraight, Number = n\<rparr>) = 36) pockets"
  unfolding pockets_eval by (simp add: factor_def Evaluate_def)

lemma outside_sum:
  "list_all (\<lambda>t. (\<Sum>p\<leftarrow>pockets. factor p \<lparr>Type = t, Number = 0\<rparr>) = 36)
     [BetRed, BetBlack, BetEven, BetOdd, BetLow, BetHigh, BetDozen1, BetDozen2, BetDozen3,
      BetColumn1, BetColumn2, BetColumn3]"
  by code_simp

lemma factor_sum:
  assumes "valid_key k"
  shows "(\<Sum>p\<leftarrow>pockets. factor p k) = 36"
proof (cases "Type k = BetStraight")
  case True
  with assms have "valid_pocket (Number k)" by (simp add: valid_key_def)
  with straight_sum have "(\<Sum>p\<leftarrow>pockets. factor p \<lparr>Type = BetStraight, Number = Number k\<rparr>) = 36"
    by (rule pocket_cases)
  moreover have "k = \<lparr>Type = BetStraight, Number = Number k\<rparr>" using True by simp
  ultimately show ?thesis by simp
next
  case False
  have "factor p k = factor p \<lparr>Type = Type k, Number = 0\<rparr>" for p
    unfolding factor_def by (subst Evaluate_outside [OF False]) (rule refl)
  with outside_sum False show ?thesis by (cases "Type k") simp_all
qed

text \<open>
  Every bet the table offers, the straight-up ones and the twelve outside ones, returns over
  the 38 pockets exactly 36 times its stake, so the house keeps exactly 2 of 38 on each of them;
  and no pocket of the wheel makes the evaluation panic.  This is for stakes up to 59652323
  credits, the largest whose 36-fold return fits an int32.
\<close>

theorem every_bet_same_edge:
  assumes "valid_key (Key b)" and "0 \<le> Amount b" and "Amount b \<le> 59652323"
  shows "(\<forall>p \<in> set pockets. GrossReturn p b \<noteq> None)
    \<and> (\<Sum>p\<leftarrow>pockets. case GrossReturn p b of None \<Rightarrow> 0 | Some g \<Rightarrow> g) = 36 * Amount b"
proof -
  have g: "GrossReturn p b = Some (Amount b * factor p (Key b))" if "p \<in> set pockets" for p
    using that assms by (intro GrossReturn_factor) (simp_all add: set_pockets)
  have "(\<Sum>p\<leftarrow>pockets. case GrossReturn p b of None \<Rightarrow> 0 | Some g \<Rightarrow> g)
      = (\<Sum>p\<leftarrow>pockets. Amount b * factor p (Key b))"
    by (intro arg_cong [where f = sum_list] map_cong refl) (simp add: g)
  also have "\<dots> = Amount b * (\<Sum>p\<leftarrow>pockets. factor p (Key b))"
    by (simp add: sum_list_const_mult)
  finally show ?thesis using g factor_sum [OF assms(1)] by simp
qed

theorem every_bet_same_edge_witness:
  "(\<Sum>p\<leftarrow>pockets. case GrossReturn p \<lparr>Key = \<lparr>Type = BetColumn2, Number = 0\<rparr>, Amount = 25\<rparr>
      of None \<Rightarrow> 0 | Some g \<Rightarrow> g) = 900"
  using every_bet_same_edge [of "\<lparr>Key = \<lparr>Type = BetColumn2, Number = 0\<rparr>, Amount = 25\<rparr>"]
  by (simp add: valid_key_def)

text \<open>
  The bound is sharp.  For a straight-up bet of 59652324 to 119304647 credits (both are
  int32 amounts) the 36-fold return wraps: the winning pocket returns a negative amount, and the
  table, which credits only a positive one, pays the winner nothing.
\<close>

theorem straight_payout_overflows:
  assumes "59652324 \<le> a" and "a \<le> 119304647"
  shows "GrossReturn n \<lparr>Key = \<lparr>Type = BetStraight, Number = n\<rparr>, Amount = a\<rparr>
      = Some (36 * a - 4294967296)
    \<and> 36 * a - 4294967296 < 0"
proof -
  have "(36 * a + 2147483648) mod 4294967296 = 36 * a + 2147483648 - 4294967296"
    using assms by (simp add: mod_pos_geq mod_pos_pos_trivial)
  then have "i32 (a * 36) = 36 * a - 4294967296" by (simp add: i32_def mult.commute)
  moreover have "i32 36 = 36" by (simp add: i32_def)
  ultimately show ?thesis using assms by (simp add: GrossReturn_def Evaluate_def)
qed

theorem straight_payout_overflows_witness:
  "GrossReturn 17 \<lparr>Key = \<lparr>Type = BetStraight, Number = 17\<rparr>, Amount = 60000000\<rparr>
     = Some (- 2134967296)"
  using straight_payout_overflows [of 60000000 17] by simp

text \<open>
  The ribbon lists every pocket of the wheel exactly once, and \<open>RibbonIndex\<close> inverts it in
  both directions; a pocket off the wheel has index -1.
\<close>

theorem ribbon_inverse:
  "mset RibbonOrder = mset pockets
    \<and> (\<forall>i < length RibbonOrder. RibbonIndex (RibbonOrder ! i) = int i)
    \<and> (\<forall>p. if valid_pocket p
           then 0 \<le> RibbonIndex p \<and> RibbonIndex p < 38 \<and> RibbonOrder ! nat (RibbonIndex p) = p
           else RibbonIndex p = - 1)"
proof (intro conjI allI impI)
  show "mset RibbonOrder = mset pockets"
    unfolding pockets_eval RibbonOrder_def Pocket00_def by (simp add: add_mset_commute)
  have inv: "list_all (\<lambda>i. RibbonIndex (RibbonOrder ! i) = int i) [0..<38]" by code_simp
  show "RibbonIndex (RibbonOrder ! i) = int i" if "i < length RibbonOrder" for i
    using inv that by (simp add: list_all_iff RibbonOrder_def)
  have at: "list_all (\<lambda>p. 0 \<le> RibbonIndex p \<and> RibbonIndex p < 38
      \<and> RibbonOrder ! nat (RibbonIndex p) = p) pockets" by code_simp
  show "if valid_pocket p
        then 0 \<le> RibbonIndex p \<and> RibbonIndex p < 38 \<and> RibbonOrder ! nat (RibbonIndex p) = p
        else RibbonIndex p = - 1" for p
  proof (cases "valid_pocket p")
    case True
    then show ?thesis using pocket_cases [OF at True] by simp
  next
    case False
    have off: "p \<notin> set qs \<Longrightarrow> ribbon_loop qs i p = - 1" for qs i
      by (induction qs arbitrary: i) auto
    have "p \<notin> set RibbonOrder"
      using False by (auto simp: RibbonOrder_def Pocket00_def valid_pocket_def)
    with off [of RibbonOrder 0] False show ?thesis by (simp add: RibbonIndex_def)
  qed
qed

theorem ribbon_inverse_witness:
  "RibbonIndex (RibbonOrder ! 19) = 19 \<and> RibbonOrder ! 19 = Pocket00"
  using ribbon_inverse [THEN conjunct2, THEN conjunct1, rule_format, of 19]
  by (simp add: RibbonOrder_def)

text \<open>
  The colours of the wheel are those of an American wheel: 18 red, 18 black and 2 green
  pockets; neighbours on the ribbon have different colours except across a zero, and the pocket
  opposite an odd number (19 places round) is the next even number.
\<close>

theorem wheel_colours:
  "length (filter (\<lambda>p. IsRed p = Some True) pockets) = 18
    \<and> length (filter (\<lambda>p. IsBlack p = Some True) pockets) = 18
    \<and> filter IsZero pockets = [0, Pocket00]
    \<and> list_all (\<lambda>i. let p = RibbonOrder ! i; q = RibbonOrder ! ((i + 1) mod 38) in
          IsZero p \<or> IsZero q \<or> pocket_color p \<noteq> pocket_color q) [0..<38]
    \<and> list_all (\<lambda>i. let p = RibbonOrder ! i in
          IsOdd p \<longrightarrow> RibbonOrder ! ((i + 19) mod 38) = p + 1) [0..<38]"
  by (intro conjI; code_simp)

theorem wheel_colours_witness:
  "length (filter (\<lambda>p. IsRed p = Some True) pockets) + 20 = length pockets"
  using wheel_colours by (simp add: pockets_eval)

lemma pocketNumberStr_eval: "pocketNumberStr =
    [''0'', ''1'', ''2'', ''3'', ''4'', ''5'', ''6'', ''7'', ''8'', ''9'', ''10'', ''11'', ''12'',
     ''13'', ''14'', ''15'', ''16'', ''17'', ''18'', ''19'', ''20'', ''21'', ''22'', ''23'', ''24'',
     ''25'', ''26'', ''27'', ''28'', ''29'', ''30'', ''31'', ''32'', ''33'', ''34'', ''35'', ''36'',
     ''00'']"
  by code_simp

lemma pocket_number_distinct: "distinct (map pocket_number pockets)"
  unfolding pockets_eval by (simp add: pocket_number_def pocketNumberStr_eval Pocket00_def)

text \<open>
  The strings under which the broadcast aggregates bets are different for different bets:
  two valid keys with one string have the same type, and the same pocket when straight-up.
\<close>

theorem bet_key_string_injective:
  assumes "valid_key k" and "valid_key l" and "bet_key_string k = bet_key_string l"
  shows "Type k = Type l \<and> (Type k = BetStraight \<longrightarrow> Number k = Number l)"
proof -
  show ?thesis
  proof (cases "Type k = BetStraight \<and> Type l = BetStraight")
    case True
    with assms have "valid_pocket (Number k)" "valid_pocket (Number l)"
      "pocket_number (Number k) = pocket_number (Number l)"
      by (simp_all add: valid_key_def bet_key_string_def)
    with pocket_number_distinct True show ?thesis
      by (auto simp: distinct_map set_pockets dest: inj_onD)
  next
    case False
    then show ?thesis
      using assms(3) by (cases "Type k"; cases "Type l") (simp_all add: bet_key_string_def)
  qed
qed

theorem bet_key_string_injective_witness:
  "bet_key_string \<lparr>Type = BetStraight, Number = 0\<rparr> \<noteq> bet_key_string \<lparr>Type = BetStraight, Number = 37\<rparr>"
  using bet_key_string_injective
    [of "\<lparr>Type = BetStraight, Number = 0\<rparr>" "\<lparr>Type = BetStraight, Number = 37\<rparr>"]
  by (auto simp: valid_key_def valid_pocket_def)

section \<open>The draw\<close>

context rng
begin

lemma Draw_valid: "Draw intn s = (p, s') \<Longrightarrow> valid_pocket p"
  using intn_range [of PocketCount s]
  by (cases "intn s PocketCount") (auto simp: Draw_def PocketCount_def valid_pocket_def)

end

context rng_full
begin

lemma Draw_onto:
  assumes "valid_pocket p"
  shows "\<exists>s'. Draw intn s' = (p, s)"
proof -
  obtain s' where "intn s' PocketCount = (p, s)"
    using intn_onto [of p PocketCount s] assms by (auto simp: valid_pocket_def PocketCount_def)
  then show ?thesis
    using assms by (intro exI [of _ s']) (simp add: Draw_def valid_pocket_def)
qed

end

text \<open>
  A draw with the cryptographic source always gives a pocket of the wheel, and every pocket
  of the wheel is drawn by some entropy.
\<close>

theorem draw_covers_wheel:
  "valid_pocket (fst (Draw crypto_intn s))
    \<and> (valid_pocket p = (\<exists>s s'. Draw crypto_intn s = (p, s')))"
proof -
  have v: "valid_pocket (fst (Draw crypto_intn s))" for s
    by (rule crypto.Draw_valid [of s _ "snd (Draw crypto_intn s)"]) simp
  have "valid_pocket p" if "Draw crypto_intn s = (p, s')" for s s'
    using v [of s] that by simp
  then show ?thesis using v [of s] crypto.Draw_onto [of p] by blast
qed

end
