(* ===== verification/RouletteHistory.thy ===== *)
theory RouletteHistory
  imports Roulette "HOL-Library.Sublist"
begin

text \<open>
  The outcome history of the roulette table (\<open>internal/doors/roulette/multiplayer/history.go\<close>):
  the ring buffer, and the hot/cold/streak statistics over it.

  A bounded log that keeps the last \<open>cap\<close> entries is the locale \<open>bounded_log\<close>; the ring is an
  interpretation of it, so that the table's proofs see a list and not the indices.
\<close>

section \<open>The ring\<close>

definition HistoryCap :: int where
  "HistoryCap = 100"

record historyRing =
  buf :: "int list"
  head :: int
  len :: int

definition empty_ring :: historyRing where
  "empty_ring = \<lparr>buf = replicate 100 0, head = 0, len = 0\<rparr>"

text \<open>\<open>None\<close> is an index panic.\<close>

definition Push :: "historyRing \<Rightarrow> int \<Rightarrow> historyRing option" where
  "Push r p =
     (if 0 \<le> head r \<and> head r < HistoryCap then
        (let r1 = r\<lparr>buf := (buf r)[nat (head r) := p]\<rparr>;
             r2 = r1\<lparr>head := go_mod (head r1 + 1) HistoryCap\<rparr>
         in Some (if len r2 < HistoryCap then r2\<lparr>len := len r2 + 1\<rparr> else r2))
      else None)"

fun window_loop :: "int list \<Rightarrow> int \<Rightarrow> int \<Rightarrow> nat \<Rightarrow> int list option" where
  "window_loop b start i 0 = Some []"
| "window_loop b start i (Suc k) =
     (case slice_get b (go_mod (start + i) HistoryCap) of
        None \<Rightarrow> None
      | Some p \<Rightarrow> map_option (\<lambda>ps. p # ps) (window_loop b start (i + 1) k))"

definition Slice :: "historyRing \<Rightarrow> int \<Rightarrow> int list option" where
  "Slice r n0 =
     (let n = (if n0 > len r then len r else n0)
      in if n \<le> 0 then Some []
         else
           (let start0 = head r - len r;
                start = (if start0 < 0 then start0 + HistoryCap else start0);
                w0 = start + (len r - n);
                w = (if w0 < 0 then w0 + HistoryCap else w0)
            in window_loop (buf r) w 0 (nat n)))"

definition All :: "historyRing \<Rightarrow> int list option" where
  "All r = Slice r (len r)"

fun replace_loop :: "historyRing \<Rightarrow> int list \<Rightarrow> historyRing option" where
  "replace_loop r [] = Some r"
| "replace_loop r (p # ps) =
     (if len r \<ge> HistoryCap then Some r
      else case Push r p of None \<Rightarrow> None | Some r' \<Rightarrow> replace_loop r' ps)"

definition Replace :: "historyRing \<Rightarrow> int list \<Rightarrow> historyRing option" where
  "Replace r items = replace_loop (r\<lparr>head := 0, len := 0\<rparr>) items"

section \<open>The log it implements\<close>

definition last_n :: "nat \<Rightarrow> 'a list \<Rightarrow> 'a list" where
  "last_n n xs = drop (length xs - n) xs"

lemma last_n_rev: "last_n n xs = rev (take n (rev xs))"
  by (simp add: last_n_def take_rev)

lemma last_n_all: "length xs \<le> n \<Longrightarrow> last_n n xs = xs"
  by (simp add: last_n_def)

lemma length_last_n [simp]: "length (last_n n xs) = min n (length xs)"
  by (simp add: last_n_def)

locale bounded_log =
  fixes push :: "'r \<Rightarrow> 'a \<Rightarrow> 'r option"
    and contents :: "'r \<Rightarrow> 'a list"
    and ok :: "'r \<Rightarrow> bool"
    and cap :: nat
  assumes push_ok: "ok r \<Longrightarrow> \<exists>r'. push r a = Some r' \<and> ok r' \<and> contents r' = last_n cap (contents r @ [a])"
begin

fun push_all :: "'r \<Rightarrow> 'a list \<Rightarrow> 'r option" where
  "push_all r [] = Some r"
| "push_all r (a # as) = (case push r a of None \<Rightarrow> None | Some r' \<Rightarrow> push_all r' as)"

lemma last_n_last_n: "last_n n (last_n n xs @ ys) = last_n n (xs @ ys)"
  by (simp add: last_n_rev min_def)

lemma push_all_contents:
  assumes "ok r" and "length (contents r) \<le> cap"
  shows "\<exists>r'. push_all r as = Some r' \<and> ok r' \<and> contents r' = last_n cap (contents r @ as)"
  using assms
proof (induction as arbitrary: r)
  case Nil
  then show ?case by (simp add: last_n_all)
next
  case (Cons a as)
  obtain r1 where r1: "push r a = Some r1" "ok r1" "contents r1 = last_n cap (contents r @ [a])"
    using push_ok [OF Cons.prems(1)] by blast
  moreover have "length (contents r1) \<le> cap" using r1 by simp
  ultimately show ?case using Cons.IH [of r1] last_n_last_n [of cap "contents r @ [a]" as] by simp
qed

end

definition ring_ok :: "historyRing \<Rightarrow> bool" where
  "ring_ok r \<longleftrightarrow> length (buf r) = 100 \<and> 0 \<le> head r \<and> head r < 100 \<and> 0 \<le> len r \<and> len r \<le> 100"

definition ring_contents :: "historyRing \<Rightarrow> int list" where
  "ring_contents r =
     map (\<lambda>i. buf r ! nat ((head r - len r + int i) mod 100)) [0..<nat (len r)]"

lemma length_ring_contents [simp]: "length (ring_contents r) = nat (len r)"
  by (simp add: ring_contents_def)

lemma ring_contents_nth:
  "i < nat (len r) \<Longrightarrow> ring_contents r ! i = buf r ! nat ((head r - len r + int i) mod 100)"
  by (simp add: ring_contents_def)

lemma empty_ring_ok [simp]: "ring_ok empty_ring" "ring_contents empty_ring = []"
  by (simp_all add: empty_ring_def ring_ok_def ring_contents_def)

lemma mod_neq_of_close:
  fixes a b m :: int
  assumes "0 < b - a" and "b - a < m"
  shows "a mod m \<noteq> b mod m"
proof
  assume "a mod m = b mod m"
  then have "m dvd b - a" by (metis mod_eq_dvd_iff)
  then show False using assms zdvd_imp_le by fastforce
qed

lemma Push_ring:
  assumes ok: "ring_ok r"
  shows "\<exists>r'. Push r p = Some r' \<and> ring_ok r' \<and> ring_contents r' = last_n 100 (ring_contents r @ [p])"
proof -
  let ?h = "head r" and ?l = "len r"
  let ?b = "(buf r)[nat ?h := p]" and ?h' = "(?h + 1) mod 100"
  define l' where "l' = (if ?l < 100 then ?l + 1 else ?l)"
  let ?r' = "r\<lparr>buf := ?b, head := ?h', len := l'\<rparr>"
  have o: "length (buf r) = 100" "0 \<le> ?h" "?h < 100" "0 \<le> ?l" "?l \<le> 100"
    using ok by (auto simp: ring_ok_def)
  have push: "Push r p = Some ?r'"
    using o by (auto simp: Push_def HistoryCap_def Let_def l'_def)
  have l': "?l \<le> l'" "l' \<le> ?l + 1" "l' \<le> 100" using o by (auto simp: l'_def)
  have ok': "ring_ok ?r'" using o l' by (auto simp: ring_ok_def)
  have idx: "(?h' - l' + k) mod 100 = (?h + 1 - l' + k) mod 100" for k
    using mod_add_left_eq [of "?h + 1" 100 "k - l'"] by (simp add: algebra_simps split del: if_split)
  define d where "d = nat (?l + 1 - l')"
  have d: "int d = ?l + 1 - l'" "d \<le> 1" using l' by (auto simp: d_def)
  have full: "?l = 100 \<Longrightarrow> d = 1" by (simp add: d_def l'_def)
  have eq: "ring_contents ?r' = drop d (ring_contents r @ [p])"
  proof (rule nth_equalityI)
    show "length (ring_contents ?r') = length (drop d (ring_contents r @ [p]))"
      using o l' d by auto
    fix i assume "i < length (ring_contents ?r')"
    then have i: "int i < l'" by auto
    have nth: "ring_contents ?r' ! i = ?b ! nat ((?h + 1 - l' + int i) mod 100)"
      using i by (subst ring_contents_nth) (auto simp: idx split del: if_split)
    have lt: "d + i < Suc (nat ?l)" using i d o by linarith
    show "ring_contents ?r' ! i = drop d (ring_contents r @ [p]) ! i"
    proof (cases "d + i < nat ?l")
      case True
      have e: "?h + 1 - l' + int i = ?h - ?l + int (d + i)" using d by simp
      have "(?h - ?l + int (d + i)) mod 100 \<noteq> ?h mod 100"
        using True o full by (intro mod_neq_of_close) linarith+
      then have "nat ((?h - ?l + int (d + i)) mod 100) \<noteq> nat ?h" using o by auto
      moreover have "i < nat ?l - d" using True by simp
      ultimately show ?thesis unfolding nth e using True o
        by (simp add: nth_append ring_contents_nth)
    next
      case False
      then have e: "d + i = nat ?l" using lt by simp
      then have "?h + 1 - l' + int i = ?h" using d o by linarith
      then have "nat ((?h + 1 - l' + int i) mod 100) = nat ?h" using o by simp
      moreover have "\<not> i < nat ?l - d" using e by simp
      ultimately show ?thesis unfolding nth using e o by (simp add: nth_append)
    qed
  qed
  have "drop d (ring_contents r @ [p]) = last_n 100 (ring_contents r @ [p])"
    using o by (auto simp: last_n_def d_def l'_def nat_add_distrib)
  with push ok' eq show ?thesis by auto
qed

interpretation ring: bounded_log Push ring_contents ring_ok 100
  by unfold_locales (rule Push_ring)

lemma window_loop_nth:
  assumes "length b = 100" and "0 \<le> start" and "0 \<le> i"
  shows "window_loop b start i k = Some (map (\<lambda>j. b ! nat ((start + i + int j) mod 100)) [0..<k])"
  using assms(3)
proof (induction k arbitrary: i)
  case 0
  then show ?case by simp
next
  case (Suc k)
  have "slice_get b (go_mod (start + i) HistoryCap) = Some (b ! nat ((start + i) mod 100))"
    using assms Suc.prems by (simp add: slice_get_def HistoryCap_def)
  then show ?case
    using Suc.IH [of "i + 1"] Suc.prems
    by (simp add: upt_conv_Cons map_Suc_upt [symmetric] add.assoc o_def del: upt_Suc)
qed

lemma Slice_ring:
  assumes ok: "ring_ok r"
  shows "Slice r n = Some (last_n (nat n) (ring_contents r))"
proof (cases "min n (len r) \<le> 0")
  case True
  then show ?thesis
    using ok by (auto simp: Slice_def ring_ok_def last_n_def Let_def ring_contents_def)
next
  case False
  define m where "m = min n (len r)"
  define start where "start = (if head r - len r < 0 then head r - len r + 100 else head r - len r)"
  define w where "w = start + (len r - m)"
  have o: "length (buf r) = 100" "0 \<le> head r" "head r < 100" "0 \<le> len r" "len r \<le> 100"
    using ok by (auto simp: ring_ok_def)
  have m: "0 < m" "m \<le> len r" "m \<le> n" using False by (auto simp: m_def)
  have w0: "0 \<le> w" using o m by (simp add: w_def start_def)
  have "w = head r - m \<or> w = head r - m + 100" by (auto simp: w_def start_def)
  then have wm: "w mod 100 = (head r - m) mod 100" by (metis mod_add_self2)
  have "Slice r n = window_loop (buf r) w 0 (nat m)"
    using m w0 unfolding Slice_def
    by (simp add: Let_def HistoryCap_def w_def start_def m_def min_def split: if_splits)
  also have "\<dots> = Some (map (\<lambda>j. buf r ! nat ((w + int j) mod 100)) [0..<nat m])"
    using window_loop_nth [OF o(1) w0, of 0 "nat m"] by simp
  also have "map (\<lambda>j. buf r ! nat ((w + int j) mod 100)) [0..<nat m]
      = last_n (nat n) (ring_contents r)"
  proof (rule nth_equalityI)
    show len: "length (map (\<lambda>j. buf r ! nat ((w + int j) mod 100)) [0..<nat m])
        = length (last_n (nat n) (ring_contents r))"
      by (auto simp: m_def min_def)
    fix i assume "i < length (map (\<lambda>j. buf r ! nat ((w + int j) mod 100)) [0..<nat m])"
    then have i: "i < nat m" by simp
    have d: "nat (len r) - nat n = nat (len r - m)"
      using m by (auto simp: m_def min_def nat_diff_distrib)
    have "(w + int i) mod 100 = (head r - m + int i) mod 100"
      by (metis mod_add_left_eq wm)
    moreover have e: "head r - len r + int (nat (len r - m) + i) = head r - m + int i"
      using m by simp
    have "ring_contents r ! (nat (len r - m) + i) = buf r ! nat ((head r - m + int i) mod 100)"
      using i m ring_contents_nth [of "nat (len r - m) + i" r] unfolding e by linarith
    ultimately show "map (\<lambda>j. buf r ! nat ((w + int j) mod 100)) [0..<nat m] ! i
        = last_n (nat n) (ring_contents r) ! i"
      using i m by (simp add: last_n_def d)
  qed
  finally show ?thesis .
qed

lemma All_ring: "ring_ok r \<Longrightarrow> All r = Some (ring_contents r)"
  by (simp add: All_def Slice_ring last_n_all)

lemma Push_len: "Push r p = Some r' \<Longrightarrow> 0 \<le> len r \<Longrightarrow> len r' = min (len r + 1) (max (len r) 100)"
  by (auto simp: Push_def HistoryCap_def Let_def split: if_splits)

lemma replace_loop_ring:
  assumes "ring_ok r"
  shows "\<exists>r'. replace_loop r ps = Some r' \<and> ring_ok r'
    \<and> ring_contents r' = ring_contents r @ take (100 - nat (len r)) ps"
  using assms
proof (induction ps arbitrary: r)
  case Nil
  then show ?case by simp
next
  case (Cons p ps)
  show ?case
  proof (cases "len r \<ge> 100")
    case True
    then show ?thesis using Cons.prems by (simp add: HistoryCap_def)
  next
    case False
    obtain r1 where r1: "Push r p = Some r1" "ring_ok r1"
      "ring_contents r1 = last_n 100 (ring_contents r @ [p])"
      using Push_ring [OF Cons.prems] by blast
    have l: "0 \<le> len r" "nat (len r) < 100" using Cons.prems False by (auto simp: ring_ok_def)
    have c1: "ring_contents r1 = ring_contents r @ [p]" using r1(3) l by (simp add: last_n_all)
    then have "nat (len r1) = Suc (nat (len r))" by (metis length_append_singleton length_ring_contents)
    then have "take (100 - nat (len r)) (p # ps) = p # take (100 - nat (len r1)) ps"
      using l by (simp add: take_Cons')
    with Cons.IH [OF r1(2)] r1(1) c1 False show ?thesis by (simp add: HistoryCap_def)
  qed
qed

lemma Replace_ring:
  assumes "length (buf r) = 100"
  shows "\<exists>r'. Replace r ps = Some r' \<and> ring_ok r' \<and> ring_contents r' = take 100 ps"
proof -
  have "ring_ok (r\<lparr>head := 0, len := 0\<rparr>)" using assms by (simp add: ring_ok_def)
  from replace_loop_ring [OF this, of ps] show ?thesis
    by (simp add: Replace_def ring_contents_def)
qed

text \<open>
  However many outcomes are pushed into a well-formed ring, reading the last n gives the last
  n of everything pushed, at most 100: the circular indices never panic, lose, repeat or reorder
  an outcome.
\<close>

theorem ring_keeps_last_100:
  assumes "ring_ok r"
  shows "\<exists>r'. ring.push_all r ps = Some r' \<and> All r' = Some (last_n 100 (ring_contents r @ ps))
    \<and> Slice r' n = Some (last_n (nat n) (last_n 100 (ring_contents r @ ps)))"
proof -
  have "length (ring_contents r) \<le> 100" using assms by (simp add: ring_ok_def nat_le_iff)
  then obtain r' where "ring.push_all r ps = Some r'" "ring_ok r'"
    "ring_contents r' = last_n 100 (ring_contents r @ ps)"
    using ring.push_all_contents [OF assms, of ps] by blast
  then show ?thesis using All_ring [of r'] Slice_ring [of r' n] by simp
qed

theorem ring_keeps_last_100_witness:
  "\<exists>r'. ring.push_all empty_ring (concat (replicate 60 [1, 2])) = Some r' \<and> Slice r' 3 = Some [2, 1, 2]"
  using ring_keeps_last_100 [of empty_ring "concat (replicate 60 [1, 2])" 3]
  by (auto simp: last_n_def numeral_eq_Suc)

text \<open>
  Replacing the ring by a snapshot and reading it back gives the snapshot (its first 100
  outcomes), whatever the ring held before; so a snapshot taken with \<open>All\<close> survives a restart.
\<close>

theorem ring_snapshot_roundtrip:
  assumes "length (buf r0) = 100"
  shows "(\<exists>r'. Replace r0 ps = Some r' \<and> All r' = Some (take 100 ps))
    \<and> (\<forall>r. if ring_ok r then \<exists>r' items. All r = Some items \<and> Replace r0 items = Some r'
                          \<and> All r' = Some items else True)"
proof (intro conjI allI)
  show "\<exists>r'. Replace r0 ps = Some r' \<and> All r' = Some (take 100 ps)"
    using Replace_ring [OF assms, of ps] All_ring by fastforce
  fix r
  show "if ring_ok r then \<exists>r' items. All r = Some items \<and> Replace r0 items = Some r'
          \<and> All r' = Some items else True"
    using Replace_ring [OF assms, of "ring_contents r"] All_ring
    by (auto simp: ring_ok_def)
qed

theorem ring_snapshot_roundtrip_witness:
  "\<exists>r'. Replace empty_ring [5, 37, 0] = Some r' \<and> All r' = Some [5, 37, 0]"
  using ring_snapshot_roundtrip [of empty_ring "[5, 37, 0]"] by (simp add: empty_ring_def)

section \<open>Statistics\<close>

record Stats =
  TotalSpins :: int
  RedCount :: int
  BlackCount :: int
  GreenCount :: int
  LongestRed :: int
  LongestBlack :: int
  Hot :: "(int \<times> int) list"
  Cold :: "(int \<times> int) list"

fun count_loop :: "(int \<Rightarrow> int option) \<Rightarrow> int \<Rightarrow> int \<Rightarrow> Stats \<Rightarrow> int list
    \<Rightarrow> ((int \<Rightarrow> int option) \<times> Stats) option" where
  "count_loop counts curRed curBlack st [] = Some (counts, st)"
| "count_loop counts curRed curBlack st (p # ps) =
     (let counts' = counts(p \<mapsto> (case counts p of None \<Rightarrow> 0 | Some c \<Rightarrow> c) + 1)
      in case pocket_color p of
           None \<Rightarrow> None
         | Some Red \<Rightarrow>
             (let st1 = (if curRed + 1 > LongestRed st then st\<lparr>LongestRed := curRed + 1\<rparr> else st)
              in count_loop counts' (curRed + 1) 0 (st1\<lparr>RedCount := RedCount st1 + 1\<rparr>) ps)
         | Some Black \<Rightarrow>
             (let st1 = (if curBlack + 1 > LongestBlack st then st\<lparr>LongestBlack := curBlack + 1\<rparr> else st)
              in count_loop counts' 0 (curBlack + 1) (st1\<lparr>BlackCount := BlackCount st1 + 1\<rparr>) ps)
         | Some Green \<Rightarrow> count_loop counts' 0 0 (st\<lparr>GreenCount := GreenCount st + 1\<rparr>) ps)"

text \<open>\<open>sortPairs\<close>: the inner loop swaps entry \<open>j\<close> towards the front while it is out of order.\<close>

fun sort_inner :: "bool \<Rightarrow> (int \<times> int) list \<Rightarrow> nat \<Rightarrow> (int \<times> int) list" where
  "sort_inner desc arr 0 = arr"
| "sort_inner desc arr (Suc j) =
     (let a = snd (arr ! j); b = snd (arr ! Suc j)
      in if (if desc then a < b else a > b)
         then sort_inner desc (arr[j := arr ! Suc j, Suc j := arr ! j]) j
         else arr)"

fun sort_outer :: "bool \<Rightarrow> (int \<times> int) list \<Rightarrow> nat \<Rightarrow> nat \<Rightarrow> (int \<times> int) list" where
  "sort_outer desc arr i 0 = arr"
| "sort_outer desc arr i (Suc k) = sort_outer desc (sort_inner desc arr i) (Suc i) k"

definition sortPairs :: "(int \<times> int) list \<Rightarrow> bool \<Rightarrow> (int \<times> int) list" where
  "sortPairs arr desc = sort_outer desc arr 1 (length arr - 1)"

text \<open>
  Go ranges over a map in an unspecified order: \<open>order\<close> is the order in which the loop meets
  the keys of \<open>counts\<close>.
\<close>

definition ComputeStats :: "historyRing \<Rightarrow> int list \<Rightarrow> Stats option" where
  "ComputeStats r order =
     (case All r of None \<Rightarrow> None
      | Some xs \<Rightarrow>
        (let st0 = \<lparr>TotalSpins = int (length xs), RedCount = 0, BlackCount = 0, GreenCount = 0,
                    LongestRed = 0, LongestBlack = 0, Hot = [], Cold = []\<rparr>
         in if xs = [] then Some st0
            else case count_loop Map.empty 0 0 st0 xs of None \<Rightarrow> None
              | Some (counts, st) \<Rightarrow>
                  (let pairs = map (\<lambda>p. (p, the (counts p))) order;
                       pairs1 = sortPairs pairs True;
                       pairs2 = sortPairs pairs1 False
                   in Some (st\<lparr>Hot := take 5 pairs1, Cold := take 5 pairs2\<rparr>))))"

subsection \<open>The insertion sort\<close>

definition before :: "bool \<Rightarrow> int \<times> int \<Rightarrow> int \<times> int \<Rightarrow> bool" where
  "before desc x y \<longleftrightarrow> (if desc then snd x \<ge> snd y else snd x \<le> snd y)"

lemma before_total: "before desc x y \<or> before desc y x"
  by (auto simp: before_def)

lemma sort_inner_insert:
  "\<exists>ys. sort_inner desc (xs @ y # zs) (length xs) = ys @ zs \<and> mset ys = add_mset y (mset xs)
    \<and> (sorted_wrt (before desc) xs \<longrightarrow> sorted_wrt (before desc) ys)"
proof (induction xs arbitrary: zs rule: rev_induct)
  case Nil
  show ?case by (intro exI [of _ "[y]"]) simp
next
  case (snoc x xs)
  show ?case
  proof (cases "before desc x y")
    case True
    have tr: "sorted_wrt (before desc) (xs @ [x]) \<Longrightarrow> sorted_wrt (before desc) (xs @ [x, y])"
      using True by (auto simp: sorted_wrt_append before_def split: if_splits)
    have "sort_inner desc ((xs @ [x]) @ y # zs) (length (xs @ [x])) = (xs @ [x, y]) @ zs"
      using True by (auto simp: nth_append before_def Let_def split: if_splits)
    then show ?thesis using tr by (intro exI [of _ "xs @ [x, y]"]) simp
  next
    case False
    obtain ys where ys: "sort_inner desc (xs @ y # x # zs) (length xs) = ys @ x # zs"
      "mset ys = add_mset y (mset xs)"
      "sorted_wrt (before desc) xs \<longrightarrow> sorted_wrt (before desc) ys"
      using snoc.IH [of "x # zs"] by blast
    have yx: "before desc y x" using False before_total by blast
    have "sorted_wrt (before desc) (xs @ [x]) \<Longrightarrow> sorted_wrt (before desc) (ys @ [x])"
      using ys yx mset_eq_setD [of ys "y # xs"] by (auto simp: sorted_wrt_append)
    moreover have "sort_inner desc ((xs @ [x]) @ y # zs) (length (xs @ [x])) = (ys @ [x]) @ zs"
      using False ys(1) by (auto simp: nth_append before_def Let_def list_update_append)
    ultimately show ?thesis using ys(2) by (intro exI [of _ "ys @ [x]"]) simp
  qed
qed

lemma sort_outer_sorts:
  assumes "sorted_wrt (before desc) (take i arr)" and "length arr = i + k"
  shows "mset (sort_outer desc arr i k) = mset arr \<and> sorted_wrt (before desc) (sort_outer desc arr i k)"
  using assms
proof (induction k arbitrary: i arr)
  case 0
  then show ?case by simp
next
  case (Suc k)
  have i: "i < length arr" using Suc.prems by simp
  then have arr: "arr = take i arr @ arr ! i # drop (Suc i) arr" by (simp add: id_take_nth_drop)
  obtain ys where ys: "sort_inner desc arr i = ys @ drop (Suc i) arr"
    "mset ys = add_mset (arr ! i) (mset (take i arr))" "sorted_wrt (before desc) ys"
    using sort_inner_insert [of desc "take i arr" "arr ! i" "drop (Suc i) arr"] Suc.prems(1) i arr
    by auto
  have len: "length ys = Suc i" using ys(2) i
    by (metis Suc_eq_plus1 add.right_neutral length_take min.absorb4 size_add_mset size_mset)
  have "mset (sort_inner desc arr i) = mset arr"
    using ys arr by (metis add_mset_add_single mset.simps(2) mset_append union_mset_add_mset_left
        union_mset_add_mset_right)
  moreover have "take (Suc i) (sort_inner desc arr i) = ys" using ys len by simp
  moreover have "length (sort_inner desc arr i) = Suc i + k" using ys len Suc.prems by simp
  ultimately show ?case using Suc.IH [of "Suc i" "sort_inner desc arr i"] ys(3) by simp
qed

lemma sortPairs_sorts:
  "mset (sortPairs arr desc) = mset arr \<and> sorted_wrt (before desc) (sortPairs arr desc)"
proof (cases arr)
  case Nil
  then show ?thesis by (simp add: sortPairs_def)
next
  case (Cons x xs)
  then show ?thesis unfolding sortPairs_def
    using sort_outer_sorts [of desc 1 arr "length arr - 1"] by simp
qed

subsection \<open>Counts and runs\<close>

definition is_colour :: "Color \<Rightarrow> int \<Rightarrow> bool" where
  "is_colour c p \<longleftrightarrow> pocket_color p = Some c"

definition colour_count :: "Color \<Rightarrow> int list \<Rightarrow> int" where
  "colour_count c xs = int (length (filter (is_colour c) xs))"

text \<open>The run of a colour at the end of the outcomes, and a longest run anywhere.\<close>

definition end_run :: "Color \<Rightarrow> int list \<Rightarrow> int" where
  "end_run c xs = int (length (takeWhile (is_colour c) (rev xs)))"

definition longest_run :: "Color \<Rightarrow> int list \<Rightarrow> int \<Rightarrow> bool" where
  "longest_run c xs n \<longleftrightarrow>
     (\<exists>ys. sublist ys xs \<and> list_all (is_colour c) ys \<and> n = int (length ys))
     \<and> (\<forall>ys. sublist ys xs \<and> list_all (is_colour c) ys \<longrightarrow> int (length ys) \<le> n)"

lemma end_run_suffix:
  "suffix ys xs \<Longrightarrow> list_all (is_colour c) ys \<Longrightarrow> int (length ys) \<le> end_run c xs"
  by (auto simp: suffix_def end_run_def list_all_iff takeWhile_append)

lemma end_run_exists:
  "\<exists>ys. suffix ys xs \<and> list_all (is_colour c) ys \<and> end_run c xs = int (length ys)"
proof (intro exI conjI)
  let ?ys = "rev (takeWhile (is_colour c) (rev xs))"
  have "rev xs = takeWhile (is_colour c) (rev xs) @ dropWhile (is_colour c) (rev xs)" by simp
  then have "xs = rev (dropWhile (is_colour c) (rev xs)) @ ?ys" by (metis rev_append rev_rev_ident)
  then show "suffix ?ys xs" by (rule suffixI)
  show "list_all (is_colour c) ?ys" by (auto simp: list_all_iff dest: set_takeWhileD)
  show "end_run c xs = int (length ?ys)" by (simp add: end_run_def)
qed

lemma end_run_snoc:
  "end_run c (xs @ [p]) = (if is_colour c p then end_run c xs + 1 else 0)"
  by (simp add: end_run_def)

lemma sublist_snoc_cases:
  assumes "sublist ws (xs @ [p])"
  shows "sublist ws xs \<or> suffix ws (xs @ [p])"
proof -
  obtain us vs where e: "xs @ [p] = us @ ws @ vs" using assms by (auto simp: sublist_def)
  show ?thesis
  proof (cases vs rule: rev_cases)
    case Nil
    with e show ?thesis by (auto simp: suffix_def)
  next
    case (snoc vs' q)
    with e have "xs = us @ ws @ vs'" by simp
    then show ?thesis by auto
  qed
qed

lemma longest_run_snoc:
  assumes "longest_run c xs n"
  shows "longest_run c (xs @ [p]) (max n (end_run c (xs @ [p])))"
  unfolding longest_run_def
proof (intro conjI allI impI)
  obtain ys where ys: "suffix ys (xs @ [p])" "list_all (is_colour c) ys"
    "end_run c (xs @ [p]) = int (length ys)"
    using end_run_exists by blast
  obtain zs where zs: "sublist zs xs" "list_all (is_colour c) zs" "n = int (length zs)"
    using assms by (auto simp: longest_run_def)
  show "\<exists>ys. sublist ys (xs @ [p]) \<and> list_all (is_colour c) ys
      \<and> max n (end_run c (xs @ [p])) = int (length ys)"
  proof (cases "n \<le> end_run c (xs @ [p])")
    case True
    then show ?thesis using ys by (intro exI [of _ ys]) auto
  next
    case False
    then show ?thesis using zs by (intro exI [of _ zs]) (auto simp: sublist_append)
  qed
  fix ws assume ws: "sublist ws (xs @ [p]) \<and> list_all (is_colour c) ws"
  then consider "sublist ws xs" | "suffix ws (xs @ [p])"
    using sublist_snoc_cases [of ws xs p] by metis
  then show "int (length ws) \<le> max n (end_run c (xs @ [p]))"
  proof cases
    case 1
    then show ?thesis using assms ws by (auto simp: longest_run_def intro: max.coboundedI1)
  next
    case 2
    then show ?thesis using end_run_suffix [of ws "xs @ [p]" c] ws by (simp add: le_max_iff_disj)
  qed
qed

lemma longest_run_Nil: "longest_run c [] 0"
  by (simp add: longest_run_def)

definition stats_of :: "int list \<Rightarrow> Stats \<Rightarrow> bool" where
  "stats_of xs st \<longleftrightarrow> RedCount st = colour_count Red xs \<and> BlackCount st = colour_count Black xs
     \<and> GreenCount st = colour_count Green xs
     \<and> longest_run Red xs (LongestRed st) \<and> longest_run Black xs (LongestBlack st)"

definition counts_of :: "int list \<Rightarrow> int \<Rightarrow> int option" where
  "counts_of xs p = (if p \<in> set xs then Some (int (count_list xs p)) else None)"

lemma counts_of_snoc:
  "(counts_of xs)(p \<mapsto> (case counts_of xs p of None \<Rightarrow> 0 | Some c \<Rightarrow> c) + 1) = counts_of (xs @ [p])"
  by (auto simp: counts_of_def fun_eq_iff)

lemma longest_run_ge_end: "longest_run c xs n \<Longrightarrow> end_run c xs \<le> n"
  using end_run_exists [of xs c] by (auto simp: longest_run_def)

lemma count_loop_stats:
  assumes "stats_of xs st" and "list_all valid_pocket ps"
  shows "\<exists>st'. count_loop (counts_of xs) (end_run Red xs) (end_run Black xs) st ps
      = Some (counts_of (xs @ ps), st') \<and> stats_of (xs @ ps) st'
      \<and> TotalSpins st' = TotalSpins st"
  using assms
proof (induction ps arbitrary: xs st)
  case Nil
  then show ?case by simp
next
  case (Cons p ps)
  obtain c where c: "pocket_color p = Some c" using pocket_color_total [of p] Cons.prems by auto
  define st1 where "st1 = (case c of
      Red \<Rightarrow> st\<lparr>LongestRed := (if end_run Red xs + 1 > LongestRed st then end_run Red xs + 1 else LongestRed st), RedCount := RedCount st + 1\<rparr>
    | Black \<Rightarrow> st\<lparr>LongestBlack := (if end_run Black xs + 1 > LongestBlack st then end_run Black xs + 1 else LongestBlack st), BlackCount := BlackCount st + 1\<rparr>
    | Green \<Rightarrow> st\<lparr>GreenCount := GreenCount st + 1\<rparr>)"
  note s = Cons.prems(1) [unfolded stats_of_def]
  have l: "longest_run d (xs @ [p]) (max (if d = Red then LongestRed st else LongestBlack st)
      (end_run d (xs @ [p])))" if "d \<noteq> Green" for d
    using s that by (cases d) (auto intro: longest_run_snoc)
  have nn: "0 \<le> LongestRed st" "0 \<le> LongestBlack st"
    using s by (auto simp: longest_run_def)
  have m: "(if L \<le> e then e + 1 else L) = max L (e + 1)" for L e :: int by simp
  have st1: "stats_of (xs @ [p]) st1"
    using s l [of Red] l [of Black] c nn
    by (cases c) (simp_all add: stats_of_def st1_def colour_count_def is_colour_def end_run_snoc max_absorb1 m)
  have "count_loop (counts_of xs) (end_run Red xs) (end_run Black xs) st (p # ps)
      = count_loop (counts_of (xs @ [p])) (end_run Red (xs @ [p])) (end_run Black (xs @ [p])) st1 ps"
    using c by (cases c; cases st)
      (auto simp: st1_def counts_of_snoc Let_def end_run_snoc is_colour_def)
  moreover have "TotalSpins st1 = TotalSpins st" by (simp add: st1_def split: Color.splits)
  ultimately show ?case using Cons.IH [OF st1] Cons.prems(2) by auto
qed

text \<open>The first n of a sorted list of counted pockets: right counts, and none left out is better.\<close>

definition top_pairs :: "bool \<Rightarrow> nat \<Rightarrow> int list \<Rightarrow> (int \<times> int) list \<Rightarrow> bool" where
  "top_pairs desc n xs ps \<longleftrightarrow>
     length ps = min n (card (set xs)) \<and> distinct (map fst ps) \<and> sorted_wrt (before desc) ps
     \<and> (\<forall>(p, c) \<in> set ps. p \<in> set xs \<and> c = int (count_list xs p))
     \<and> (\<forall>(p, c) \<in> set ps. \<forall>q \<in> set xs - fst ` set ps. before desc (p, c) (q, int (count_list xs q)))"

lemma take_top_pairs:
  assumes srt: "sorted_wrt (before desc) arr" and dist: "distinct (map fst arr)"
    and fst: "fst ` set arr = set xs" and cnt: "\<forall>(p, c) \<in> set arr. c = int (count_list xs p)"
  shows "top_pairs desc n xs (take n arr)"
proof -
  have len: "length arr = card (set xs)"
    using dist fst by (metis distinct_card length_map list.set_map)
  have q: "before desc (p, c) (r, int (count_list xs r))"
    if "(p, c) \<in> set (take n arr)" and r: "r \<in> set xs - fst ` set (take n arr)" for p c r
  proof -
    from r fst obtain d where "(r, d) \<in> set arr" by force
    with r have "(r, d) \<in> set (drop n arr)"
      by (metis DiffD2 UnE append_take_drop_id fst_conv image_eqI set_append)
    then have "before desc (p, c) (r, d)"
      using that(1) srt sorted_wrt_append [of "before desc" "take n arr" "drop n arr"] by simp
    then show ?thesis using cnt \<open>(r, d) \<in> set arr\<close> by auto
  qed
  have d: "distinct (map fst (take n arr))" using dist by (simp add: take_map [symmetric])
  have s: "sorted_wrt (before desc) (take n arr)" using srt by (rule sorted_wrt_take)
  have e: "\<forall>(p, c) \<in> set (take n arr). p \<in> set xs \<and> c = int (count_list xs p)"
  proof (intro ballI, clarify)
    fix p c assume "(p, c) \<in> set (take n arr)"
    then have "(p, c) \<in> set arr" by (rule in_set_takeD)
    then show "p \<in> set xs \<and> c = int (count_list xs p)" using fst cnt by force
  qed
  show ?thesis unfolding top_pairs_def using q d s e len by auto
qed

text \<open>
  On a well-formed history of pockets of the wheel the statistics never panic and are right,
  in whatever order Go iterates over the counts: the colour counts and the total are those of
  the history, the longest red and black runs are the longest consecutive ones, and the hot
  (cold) list holds the min(5, distinct) pockets with the largest (smallest) counts, sorted.
\<close>

theorem compute_stats_correct:
  assumes ok: "ring_ok r" and valid: "list_all valid_pocket (ring_contents r)"
    and order: "distinct order" "set order = set (ring_contents r)"
  shows "\<exists>st. ComputeStats r order = Some st
    \<and> TotalSpins st = len r \<and> RedCount st + BlackCount st + GreenCount st = len r
    \<and> stats_of (ring_contents r) st
    \<and> top_pairs True 5 (ring_contents r) (Hot st) \<and> top_pairs False 5 (ring_contents r) (Cold st)"
proof -
  define xs where "xs = ring_contents r"
  define st0 where "st0 = \<lparr>TotalSpins = int (length xs), RedCount = 0, BlackCount = 0,
    GreenCount = 0, LongestRed = 0, LongestBlack = 0, Hot = [], Cold = []\<rparr>"
  have len: "int (length xs) = len r" using ok by (simp add: xs_def ring_ok_def)
  have s0: "stats_of [] st0"
    by (simp add: stats_of_def st0_def colour_count_def longest_run_Nil)
  have empty: "counts_of [] = Map.empty" by (simp add: counts_of_def fun_eq_iff)
  obtain st where st: "count_loop Map.empty 0 0 st0 xs = Some (counts_of xs, st)" "stats_of xs st"
    "TotalSpins st = TotalSpins st0"
    using count_loop_stats [OF s0, of xs] valid by (auto simp: empty end_run_def xs_def)
  have colours: "colour_count Red ys + colour_count Black ys + colour_count Green ys = int (length ys)"
    if "list_all valid_pocket ys" for ys
    using that
  proof (induction ys)
    case Nil
    then show ?case by (simp add: colour_count_def)
  next
    case (Cons y ys)
    then obtain c where "pocket_color y = Some c" using pocket_color_total [of y] by auto
    with Cons show ?case by (cases c) (simp_all add: colour_count_def is_colour_def)
  qed
  show ?thesis
  proof (cases "xs = []")
    case True
    then have "ComputeStats r order = Some st0"
      using All_ring [OF ok] by (simp add: ComputeStats_def st0_def xs_def)
    moreover have "len r = 0" using len True by simp
    ultimately show ?thesis
      using s0 True by (auto simp: st0_def xs_def top_pairs_def)
  next
    case False
    define pairs where "pairs = map (\<lambda>p. (p, the (counts_of xs p))) order"
    define p1 where "p1 = sortPairs pairs True"
    define p2 where "p2 = sortPairs p1 False"
    have pr: "distinct (map fst pairs)" "fst ` set pairs = set xs"
      "\<forall>(p, c) \<in> set pairs. c = int (count_list xs p)"
      using order by (auto simp: pairs_def o_def xs_def counts_of_def image_image)
    have ms: "mset p1 = mset pairs" "mset p2 = mset pairs"
      using sortPairs_sorts [of pairs True] sortPairs_sorts [of p1 False]
      by (simp_all add: p1_def p2_def)
    then have sets: "set p1 = set pairs" "set p2 = set pairs" by (metis mset_eq_setD)+
    have dist: "distinct (map fst p1)" "distinct (map fst p2)"
      using pr(1) ms by (metis mset_eq_imp_distinct_iff mset_map)+
    have "ComputeStats r order = Some (st\<lparr>Hot := take 5 p1, Cold := take 5 p2\<rparr>)"
      using All_ring [OF ok] False st(1)
      by (simp add: ComputeStats_def Let_def p1_def p2_def pairs_def st0_def xs_def)
    moreover have "top_pairs True 5 xs (take 5 p1)"
      using take_top_pairs [OF _ dist(1)] pr sets sortPairs_sorts [of pairs True]
      by (simp add: p1_def)
    moreover have "top_pairs False 5 xs (take 5 p2)"
      using take_top_pairs [OF _ dist(2)] pr sets sortPairs_sorts [of p1 False]
      by (simp add: p2_def)
    moreover have "RedCount st + BlackCount st + GreenCount st = len r"
      using colours [of xs] valid st(2) len by (simp add: stats_of_def xs_def)
    ultimately show ?thesis
      using st len by (auto simp: stats_of_def xs_def st0_def)
  qed
qed

theorem compute_stats_correct_witness:
  "\<exists>r st. Replace empty_ring [1, 3, 2, 0, 1] = Some r \<and> ComputeStats r [0, 1, 2, 3] = Some st
    \<and> TotalSpins st = 5 \<and> stats_of [1, 3, 2, 0, 1] st"
proof -
  obtain r where r: "Replace empty_ring [1, 3, 2, 0, 1] = Some r" "ring_ok r"
    "ring_contents r = [1, 3, 2, 0, 1]"
    using Replace_ring [of empty_ring "[1, 3, 2, 0, 1]"] by (auto simp: empty_ring_def)
  have "len r = 5"
    using r(2) length_ring_contents [of r] unfolding r(3) by (simp add: ring_ok_def)
  moreover have "set [0::int, 1, 2, 3] = set (ring_contents r)" unfolding r(3) by auto
  moreover have "list_all valid_pocket (ring_contents r)" unfolding r(3) by (simp add: valid_pocket_def)
  ultimately show ?thesis
    using compute_stats_correct [OF r(2), of "[0, 1, 2, 3]"] r(1,3) by auto
qed

end
