(* ===== verification/Ledger.thy ===== *)
theory Ledger
  imports Prelude
begin

text \<open>
  The audit trail of the door games: \<open>PlayerMovement\<close> and \<open>Settlement\<close>
  (\<open>internal/doors/multiplayer/types.go\<close>), \<open>MultiplayerLedger.SettleHand\<close>
  (\<open>internal/realtime/multiplayer_ledger.go\<close>) and \<open>WalletService.Record\<close>
  (\<open>internal/doors/wallet.go\<close>).

  The two audit tables are lists in insertion order.  A transaction works on copies of them and
  puts them back only when it commits; ids come from a sequence, which Postgres does not roll
  back.  As in the wallet, \<open>lfaults\<close> says which statements fail.  The details blob is kept as
  a value of a type \<open>'d\<close>; how it is turned into JSON is a parameter.  Timestamps, which no
  code compares, are left out.
\<close>

record PlayerMovement =
  mUserID :: int
  mHandle :: string
  Wagered :: int
  Payout :: int
  Stack :: int

record 'd Settlement =
  TableID :: int
  GameKey :: string
  HandNumber :: int
  Movements :: "PlayerMovement list"
  Details :: 'd

record 'd hand_row =
  hand_id :: int
  hand_game :: string
  hand_table :: int
  hand_no :: int
  hand_details :: 'd

record 'd round_row =
  rd_user :: int
  rd_game :: string
  rd_bet :: int
  rd_payout :: int
  rd_net :: int
  rd_details :: "'d option"
  rd_hand :: "int option"

record 'd audit_db =
  hand_rows :: "'d hand_row list"
  round_rows :: "'d round_row list"
  next_hand :: int
  lfaults :: "nat \<Rightarrow> bool"
  lstmts :: nat

datatype ledger_error = ErrBegin | ErrInsertHand | ErrInsertRound int | ErrCommit | ErrRecord

definition lfailing :: "'d audit_db \<Rightarrow> bool" where
  "lfailing db = lfaults db (lstmts db)"

definition ltick :: "'d audit_db \<Rightarrow> 'd audit_db" where
  "ltick db = db\<lparr>lstmts := Suc (lstmts db)\<rparr>"

section \<open>SettleHand\<close>

definition round_of :: "'d Settlement \<Rightarrow> int \<Rightarrow> PlayerMovement \<Rightarrow> 'd round_row" where
  "round_of s hid m =
     \<lparr>rd_user = mUserID m, rd_game = GameKey s, rd_bet = Wagered m, rd_payout = Payout m,
      rd_net = i32 (Payout m - Wagered m), rd_details = None, rd_hand = Some hid\<rparr>"

text \<open>
  The unique index of \<open>multiplayer_hands\<close> on game, table and hand number: a second row for the
  same hand is an error (which has taken an id from the sequence).
\<close>

definition hand_taken :: "'d audit_db \<Rightarrow> 'd Settlement \<Rightarrow> bool" where
  "hand_taken db s = list_ex (\<lambda>h. hand_game h = GameKey s \<and> hand_table h = TableID s \<and> hand_no h = HandNumber s)
     (hand_rows db)"

text \<open>Inside the transaction: the rows inserted so far are only in the working copy.\<close>

definition insertHand :: "'d audit_db \<Rightarrow> 'd Settlement \<Rightarrow> int option \<times> 'd audit_db" where
  "insertHand db s =
     (if lfailing db then (None, ltick db)
      else if hand_taken db s then (None, (ltick db)\<lparr>next_hand := next_hand db + 1\<rparr>)
      else (Some (next_hand db),
            (ltick db)\<lparr>hand_rows := hand_rows db @
               [\<lparr>hand_id = next_hand db, hand_game = GameKey s, hand_table = TableID s,
                 hand_no = HandNumber s, hand_details = Details s\<rparr>],
               next_hand := next_hand db + 1\<rparr>))"

fun insertRounds :: "'d audit_db \<Rightarrow> 'd Settlement \<Rightarrow> int \<Rightarrow> PlayerMovement list
    \<Rightarrow> ledger_error option \<times> 'd audit_db" where
  "insertRounds db s hid [] = (None, db)"
| "insertRounds db s hid (m # ms) =
     (if lfailing db then (Some (ErrInsertRound (mUserID m)), ltick db)
      else insertRounds ((ltick db)\<lparr>round_rows := round_rows db @ [round_of s hid m]\<rparr>) s hid ms)"

definition rollback :: "'d audit_db \<Rightarrow> 'd audit_db \<Rightarrow> 'd audit_db" where
  "rollback db0 db = db\<lparr>hand_rows := hand_rows db0, round_rows := round_rows db0\<rparr>"

definition SettleHand :: "'d audit_db \<Rightarrow> 'd Settlement \<Rightarrow> ledger_error option \<times> 'd audit_db" where
  "SettleHand db s =
     (let humans = filter (\<lambda>m. mUserID m \<noteq> 0) (Movements s)
      in if humans = [] then (None, db)
         else if lfailing db then (Some ErrBegin, ltick db)
         else case insertHand (ltick db) s of
           (None, db1) \<Rightarrow> (Some ErrInsertHand, rollback db db1)
         | (Some hid, db1) \<Rightarrow>
             (case insertRounds db1 s hid humans of
                (Some e, db2) \<Rightarrow> (Some e, rollback db db2)
              | (None, db2) \<Rightarrow>
                  (if lfailing db2 then (Some ErrCommit, rollback db (ltick db2))
                   else (None, ltick db2))))"

section \<open>Record\<close>

record 'v LedgerEntry =
  eUserID :: int
  eGameKey :: string
  eBet :: int
  ePayout :: int
  eNet :: int
  eDetails :: 'v

text \<open>\<open>marshal\<close> stands for \<open>json.Marshal\<close>; \<open>blank\<close> for the bytes \<open>{}\<close> used when it fails.\<close>

definition Record :: "('v \<Rightarrow> 'd option) \<Rightarrow> 'd \<Rightarrow> 'd audit_db \<Rightarrow> 'v LedgerEntry
    \<Rightarrow> ledger_error option \<times> 'd audit_db" where
  "Record marshal blank db e =
     (let body = (case marshal (eDetails e) of None \<Rightarrow> blank | Some d \<Rightarrow> d)
      in if lfailing db then (Some ErrRecord, ltick db)
         else (None, (ltick db)\<lparr>round_rows := round_rows db @
                [\<lparr>rd_user = eUserID e, rd_game = eGameKey e, rd_bet = eBet e, rd_payout = ePayout e,
                  rd_net = eNet e, rd_details = Some body, rd_hand = None\<rparr>]\<rparr>))"

section \<open>Atomicity\<close>

lemma ltick_rows [simp]:
  "hand_rows (ltick db) = hand_rows db" "round_rows (ltick db) = round_rows db"
  "next_hand (ltick db) = next_hand db"
  by (simp_all add: ltick_def)

lemma rollback_rows [simp]:
  "hand_rows (rollback db0 db) = hand_rows db0" "round_rows (rollback db0 db) = round_rows db0"
  by (simp_all add: rollback_def)

lemma insertRounds_rows:
  "insertRounds db s hid ms = (e, db') \<Longrightarrow> hand_rows db' = hand_rows db
    \<and> next_hand db' = next_hand db
    \<and> (e = None \<longrightarrow> round_rows db' = round_rows db @ map (round_of s hid) ms)"
  by (induction ms arbitrary: db) (fastforce split: if_splits)+

text \<open>Every hand a round row names exists, and the ids of hands are distinct.\<close>

definition audit_ok :: "'d audit_db \<Rightarrow> bool" where
  "audit_ok db \<longleftrightarrow> distinct (map hand_id (hand_rows db))
     \<and> distinct (map (\<lambda>h. (hand_game h, hand_table h, hand_no h)) (hand_rows db))
     \<and> (\<forall>h \<in> set (hand_rows db). hand_id h < next_hand db)
     \<and> (\<forall>r \<in> set (round_rows db). case rd_hand r of None \<Rightarrow> True
          | Some h \<Rightarrow> h \<in> hand_id ` set (hand_rows db))"

lemma SettleHand_cases:
  assumes s: "SettleHand db s = (e, db')"
  defines "humans \<equiv> filter (\<lambda>m. mUserID m \<noteq> 0) (Movements s)"
  shows "(e = None \<and> humans = [] \<and> db' = db)
    \<or> (e \<noteq> None \<and> humans \<noteq> [] \<and> hand_rows db' = hand_rows db \<and> round_rows db' = round_rows db
        \<and> next_hand db \<le> next_hand db')
    \<or> (e = None \<and> humans \<noteq> [] \<and> next_hand db' = next_hand db + 1 \<and> \<not> hand_taken db s
        \<and> hand_rows db' = hand_rows db @ [\<lparr>hand_id = next_hand db, hand_game = GameKey s,
             hand_table = TableID s, hand_no = HandNumber s, hand_details = Details s\<rparr>]
        \<and> round_rows db' = round_rows db @ map (round_of s (next_hand db)) humans)"
proof (cases "humans = [] \<or> lfailing db")
  case True
  with s show ?thesis by (auto simp: SettleHand_def humans_def Let_def split: if_splits)
next
  case False
  obtain ho db1 where h: "insertHand (ltick db) s = (ho, db1)" by fastforce
  show ?thesis
  proof (cases ho)
    case None
    with s h False show ?thesis
      by (auto simp: SettleHand_def humans_def Let_def insertHand_def rollback_def split: if_splits)
  next
    case (Some hid)
    then have h1: "hid = next_hand db" "\<not> hand_taken db s" "next_hand db1 = next_hand db + 1"
      "round_rows db1 = round_rows db"
      "hand_rows db1 = hand_rows db @ [\<lparr>hand_id = next_hand db, hand_game = GameKey s,
             hand_table = TableID s, hand_no = HandNumber s, hand_details = Details s\<rparr>]"
      using h by (auto simp: insertHand_def hand_taken_def split: if_splits)
    obtain e2 db2 where r: "insertRounds db1 s hid humans = (e2, db2)" by fastforce
    note ir = insertRounds_rows [OF r]
    have "SettleHand db s = (case (e2, db2) of (Some e, db2) \<Rightarrow> (Some e, rollback db db2)
        | (None, db2) \<Rightarrow> if lfailing db2 then (Some ErrCommit, rollback db (ltick db2))
             else (None, ltick db2))"
      using False h Some r by (simp add: SettleHand_def humans_def Let_def)
    with s ir h1 False show ?thesis
      by (cases e2) (auto simp: rollback_def split: if_splits)
  qed
qed

lemma SettleHand_taken:
  assumes "hand_taken db s" and "filter (\<lambda>m. mUserID m \<noteq> 0) (Movements s) \<noteq> []"
  shows "fst (SettleHand db s) \<noteq> None \<and> hand_rows (snd (SettleHand db s)) = hand_rows db
    \<and> round_rows (snd (SettleHand db s)) = round_rows db"
  using SettleHand_cases [of db s "fst (SettleHand db s)" "snd (SettleHand db s)"] assms by auto

text \<open>
  C31: Settling a hand in the audit trail is all or nothing.  If any statement fails, neither
  table changes; otherwise exactly one hand row and one round row for each human seat, in seat
  order and with net = payout - wagered, are added (nothing at all when no human sat).  Hand ids and
  the triples of game, table and hand number stay distinct, a hand that is already on record is
  refused, and every round row still refers to an existing hand.
\<close>

theorem settle_hand_atomic:
  assumes "audit_ok db" and "SettleHand db s = (e, db')"
  shows "audit_ok db'
    \<and> (if e \<noteq> None \<or> filter (\<lambda>m. mUserID m \<noteq> 0) (Movements s) = []
       then hand_rows db' = hand_rows db \<and> round_rows db' = round_rows db
       else \<not> hand_taken db s \<and> (\<exists>h. hand_rows db' = hand_rows db @ [h] \<and> hand_no h = HandNumber s
              \<and> hand_table h = TableID s
              \<and> round_rows db' = round_rows db
                  @ map (round_of s (hand_id h)) (filter (\<lambda>m. mUserID m \<noteq> 0) (Movements s))))"
  using SettleHand_cases [OF assms(2)] assms(1)
  by (elim disjE conjE) (force simp: audit_ok_def round_of_def hand_taken_def list_ex_iff split: option.splits)+

theorem settle_hand_atomic_witness:
  "(let m = (\<lambda>u w p. \<lparr>mUserID = u, mHandle = '''', Wagered = w, Payout = p, Stack = 0\<rparr>);
        s = \<lparr>TableID = 1, GameKey = ''roulette'', HandNumber = 7,
             Movements = [m 4 10 0, m 0 5 5, m 9 10 20], Details = ()\<rparr>;
        db = \<lparr>hand_rows = [], round_rows = [], next_hand = 1, lfaults = (\<lambda>n. False), lstmts = 0\<rparr>
    in audit_ok (snd (SettleHand db s)) \<and> map rd_net (round_rows (snd (SettleHand db s))) = [- 10, 10])"
proof -
  define m where "m u w p = \<lparr>mUserID = u, mHandle = '''', Wagered = w, Payout = p, Stack = 0\<rparr>"
    for u w p :: int
  define s where "s = \<lparr>TableID = 1, GameKey = ''roulette'', HandNumber = 7,
             Movements = [m 4 10 0, m 0 5 5, m 9 10 20], Details = ()\<rparr>"
  define db :: "unit audit_db" where "db = \<lparr>hand_rows = [], round_rows = [], next_hand = 1,
      lfaults = (\<lambda>n. False), lstmts = 0\<rparr>"
  have ok: "audit_ok db" by (simp add: audit_ok_def db_def)
  have f: "fst (SettleHand db s) = None"
    by (simp add: SettleHand_def s_def db_def m_def insertHand_def hand_taken_def lfailing_def ltick_def Let_def)
  have r: "round_rows db = []" by (simp add: db_def)
  have h: "filter (\<lambda>m. mUserID m \<noteq> 0) (Movements s) = [m 4 10 0, m 9 10 20]"
    by (simp add: s_def m_def)
  have "SettleHand db s = (None, snd (SettleHand db s))" using f by (metis prod.collapse)
  note atomic = settle_hand_atomic [OF ok this]
  then have a: "audit_ok (snd (SettleHand db s))" by simp
  have "\<exists>hr :: unit hand_row. round_rows (snd (SettleHand db s)) = map (round_of s (hand_id hr)) [m 4 10 0, m 9 10 20]"
    using atomic [THEN conjunct2] unfolding h r append_Nil
    by (simp del: list.map) blast
  then have "map rd_net (round_rows (snd (SettleHand db s))) = [- 10, 10]"
    by (elim exE) (simp add: round_of_def m_def i32_id)
  with a show ?thesis unfolding s_def db_def m_def Let_def by simp
qed

end
