(* ===== verification/RouletteTable.thy ===== *)
theory RouletteTable
  imports RouletteHistory Wallet Ledger "HOL-Library.AList"
begin

text \<open>
  The shared roulette table (\<open>internal/doors/roulette/multiplayer/coordinator.go\<close>,
  \<open>snapshot.go\<close> and \<open>registry.go\<close>).

  One actor goroutine owns the table: \<open>Coordinator\<close> is its state, with the wallet database
  (\<open>money\<close>), the entropy and the ledger writes it has started (\<open>spawned\<close>) beside it, so that
  every handler is a function from state to state.  Its result \<open>None\<close> is a Go panic.  A time is
  an integer of nanoseconds and every handler is given the \<open>now\<close> it reads.  Subscribers are
  numbered; \<open>chans\<close> holds each one's buffered channel.  The aggregate and the movements of a
  round are maps whose iteration order Go leaves open; they are kept in insertion order.
\<close>

section \<open>Types\<close>

definition Gamekey :: string where
  "Gamekey = ''roulette''"

datatype Phase = PhaseBetting | PhaseNoMoreBets | PhaseSpinning | PhaseReveal

primrec phase_string :: "Phase \<Rightarrow> string" where
  "phase_string PhaseBetting = ''betting''"
| "phase_string PhaseNoMoreBets = ''nomorebets''"
| "phase_string PhaseSpinning = ''spinning''"
| "phase_string PhaseReveal = ''reveal''"

record PhaseMsg =
  mPhase :: Phase
  mEndsAt :: int
  mPhaseToken :: int
  mWinning :: "int option"
  mAggregate :: "(string \<times> int) list"
  mHistory :: "int list"
  mOccupants :: int

record PersistShape =
  sHistory :: "int list"
  sPhaseToken :: int

record PhaseDurations =
  dBetting :: int
  dNoMoreBets :: int
  dSpinning :: int
  dReveal :: int

definition DefaultPhaseDurations :: PhaseDurations where
  "DefaultPhaseDurations = \<lparr>dBetting = 30000000000, dNoMoreBets = 1000000000,
     dSpinning = 5000000000, dReveal = 8000000000\<rparr>"

definition DefaultLastBetCutoff :: int where
  "DefaultLastBetCutoff = 500000000"

datatype bet_error = ErrBettingClosed | ErrTableZeroBet | ErrWallet wallet_error

record 'w Wallet =
  DebitBet :: "'w \<Rightarrow> int \<Rightarrow> int \<Rightarrow> wallet_error option \<times> 'w"
  Credit :: "'w \<Rightarrow> int \<Rightarrow> int \<Rightarrow> wallet_error option \<times> 'w"

record ('w, 's) Config =
  Durations :: PhaseDurations
  LastBetCutoff :: int
  cWallet :: "'w Wallet option"
  cLedger :: bool
  cRng :: "('s \<Rightarrow> int \<Rightarrow> int \<times> 's) option"

record userBet =
  uUserID :: int
  uHandle :: string
  uBet :: Bet

record BetDetail =
  bdUser :: int
  bdHandle :: string
  bdType :: string
  bdNumber :: string
  bdAmount :: int
  bdGross :: int

record SpinDetails =
  winning_pocket :: string
  sd_color :: string
  sd_bets :: "BetDetail list"

text \<open>A subscriber's channel: \<open>make(chan PhaseMsg, 8)\<close>, and whether it is closed.\<close>

record subscriber =
  send :: "PhaseMsg list"
  closed :: bool

record ('w, 's) Coordinator =
  phase :: Phase
  endsAt :: int
  phaseToken :: int
  winning :: "int option"
  pendingBets :: "userBet list"
  aggregate :: "(BetKey \<times> int) list"
  history :: historyRing
  handNumber :: int
  onShutdownRefund :: "('w \<Rightarrow> userBet \<Rightarrow> 'w) option"
  subs :: "nat list"
  chans :: "nat \<Rightarrow> subscriber"
  next_sub :: nat
  money :: 'w
  rng :: 's
  spawned :: "SpinDetails Settlement list"

datatype command =
    CmdPlaceBet int string Bet
  | CmdSubscribe nat
  | CmdUnsubscribe nat
  | CmdSnapshot
  | CmdPersistDrain
  | CmdPersistShape

datatype cmdReply =
    ReplyErr "bet_error option"
  | ReplySnap PhaseMsg
  | ReplyBets "userBet list"
  | ReplyShape PersistShape

section \<open>Broadcasting\<close>

definition buildPhaseMsg :: "('w, 's) Coordinator \<Rightarrow> PhaseMsg option" where
  "buildPhaseMsg c =
     (case Slice (history c) 10 of
        None \<Rightarrow> None
      | Some h \<Rightarrow> Some
          \<lparr>mPhase = phase c, mEndsAt = endsAt c, mPhaseToken = phaseToken c, mWinning = winning c,
           mAggregate = fold (\<lambda>(k, v) agg. AList.update (bet_key_string k) v agg) (aggregate c) [],
           mHistory = h, mOccupants = int (length (subs c))\<rparr>)"

text \<open>\<open>select { case s.send <- msg: default: }\<close>: a send on a closed channel panics.\<close>

definition try_send :: "PhaseMsg \<Rightarrow> subscriber \<Rightarrow> subscriber option" where
  "try_send m s =
     (if closed s then None
      else if length (send s) < 8 then Some (s\<lparr>send := send s @ [m]\<rparr>)
      else Some s)"

fun broadcast_loop :: "PhaseMsg \<Rightarrow> nat list \<Rightarrow> (nat \<Rightarrow> subscriber) \<Rightarrow> (nat \<Rightarrow> subscriber) option" where
  "broadcast_loop m [] ch = Some ch"
| "broadcast_loop m (s # ss) ch =
     (case try_send m (ch s) of None \<Rightarrow> None | Some x \<Rightarrow> broadcast_loop m ss (ch(s := x)))"

definition broadcast :: "('w, 's) Coordinator \<Rightarrow> ('w, 's) Coordinator option" where
  "broadcast c =
     (case buildPhaseMsg c of
        None \<Rightarrow> None
      | Some m \<Rightarrow> map_option (\<lambda>ch. c\<lparr>chans := ch\<rparr>) (broadcast_loop m (subs c) (chans c)))"

definition removeSub :: "nat \<Rightarrow> ('w, 's) Coordinator \<Rightarrow> ('w, 's) Coordinator" where
  "removeSub s c =
     (if closed (chans c s) then c
      else c\<lparr>chans := (chans c)(s := (chans c s)\<lparr>closed := True\<rparr>), subs := remove1 s (subs c)\<rparr>)"

definition shutdownSubs :: "('w, 's) Coordinator \<Rightarrow> ('w, 's) Coordinator" where
  "shutdownSubs c =
     c\<lparr>chans := fold (\<lambda>s ch. if closed (ch s) then ch else ch(s := (ch s)\<lparr>closed := True\<rparr>))
                  (subs c) (chans c),
       subs := []\<rparr>"

section \<open>The phase machine\<close>

definition handlePlaceBet :: "('w, 's) Config \<Rightarrow> int \<Rightarrow> int \<Rightarrow> string \<Rightarrow> Bet \<Rightarrow> ('w, 's) Coordinator
    \<Rightarrow> bet_error option \<times> ('w, 's) Coordinator" where
  "handlePlaceBet cfg now uid handle b c =
     (if Amount b \<le> 0 then (Some ErrTableZeroBet, c)
      else if phase c \<noteq> PhaseBetting then (Some ErrBettingClosed, c)
      else if endsAt c - now \<le> LastBetCutoff cfg then (Some ErrBettingClosed, c)
      else
        (let record_bet = (\<lambda>c.
               c\<lparr>pendingBets := pendingBets c @ [\<lparr>uUserID = uid, uHandle = handle, uBet = b\<rparr>],
                 aggregate := AList.update (Key b)
                   (i32 ((case map_of (aggregate c) (Key b) of None \<Rightarrow> 0 | Some v \<Rightarrow> v) + Amount b))
                   (aggregate c)\<rparr>)
         in case cWallet cfg of
              None \<Rightarrow> (None, record_bet c)
            | Some w \<Rightarrow>
                (case DebitBet w (money c) uid (Amount b) of
                   (Some e, m) \<Rightarrow> (Some (ErrWallet e), c\<lparr>money := m\<rparr>)
                 | (None, m) \<Rightarrow> (None, record_bet (c\<lparr>money := m\<rparr>)))))"

definition startBetting :: "('w, 's) Config \<Rightarrow> int \<Rightarrow> ('w, 's) Coordinator \<Rightarrow> ('w, 's) Coordinator option" where
  "startBetting cfg now c =
     broadcast (c\<lparr>phase := PhaseBetting, winning := None, pendingBets := [], aggregate := [],
       handNumber := i64 (handNumber c + 1), phaseToken := i64 (phaseToken c + 1),
       endsAt := now + dBetting (Durations cfg)\<rparr>)"

fun settle_loop :: "('w, 's) Config \<Rightarrow> int \<Rightarrow> userBet list \<Rightarrow> 'w \<Rightarrow> (int \<times> PlayerMovement) list
    \<Rightarrow> BetDetail list \<Rightarrow> ('w \<times> (int \<times> PlayerMovement) list \<times> BetDetail list) option" where
  "settle_loop cfg p [] w mvs ds = Some (w, mvs, ds)"
| "settle_loop cfg p (ub # ubs) w mvs ds =
     (case GrossReturn p (uBet ub) of
        None \<Rightarrow> None
      | Some gross \<Rightarrow>
          (let w' = (if gross > 0
                     then (case cWallet cfg of None \<Rightarrow> w | Some wl \<Rightarrow> snd (Credit wl w (uUserID ub) gross))
                     else w);
               mv = (case map_of mvs (uUserID ub) of
                       Some mv \<Rightarrow> mv
                     | None \<Rightarrow> \<lparr>mUserID = uUserID ub, mHandle = uHandle ub, Wagered = 0, Payout = 0, Stack = 0\<rparr>);
               mv' = mv\<lparr>Wagered := i32 (Wagered mv + Amount (uBet ub)), Payout := i32 (Payout mv + gross)\<rparr>;
               d = \<lparr>bdUser = uUserID ub, bdHandle = uHandle ub,
                    bdType = bet_type_string (Type (Key (uBet ub))),
                    bdNumber = pocket_number (Number (Key (uBet ub))),
                    bdAmount = Amount (uBet ub), bdGross = gross\<rparr>
           in settle_loop cfg p ubs w' (AList.update (uUserID ub) mv' mvs) (ds @ [d])))"

definition settleRound :: "('w, 's) Config \<Rightarrow> ('w, 's) Coordinator \<Rightarrow> ('w, 's) Coordinator option" where
  "settleRound cfg c =
     (case winning c of
        None \<Rightarrow> Some c
      | Some p \<Rightarrow>
          (case settle_loop cfg p (pendingBets c) (money c) [] [] of
             None \<Rightarrow> None
           | Some (w, mvs, ds) \<Rightarrow>
               (case Push (history c) p of
                  None \<Rightarrow> None
                | Some h \<Rightarrow>
                    (let c1 = c\<lparr>money := w, history := h\<rparr>
                     in if cLedger cfg \<and> mvs \<noteq> [] then
                          (case pocket_color p of
                             None \<Rightarrow> None
                           | Some col \<Rightarrow> Some (c1\<lparr>spawned := spawned c1 @
                               [\<lparr>TableID = 1, GameKey = Gamekey, HandNumber = handNumber c,
                                 Movements = map snd mvs,
                                 Details = \<lparr>winning_pocket = pocket_number p,
                                            sd_color = color_string col, sd_bets = ds\<rparr>\<rparr>]\<rparr>))
                        else Some c1))))"

definition advancePhase :: "('w, 's) Config \<Rightarrow> int \<Rightarrow> ('w, 's) Coordinator \<Rightarrow> ('w, 's) Coordinator option" where
  "advancePhase cfg now c =
     (case phase c of
        PhaseBetting \<Rightarrow>
          broadcast (c\<lparr>phase := PhaseNoMoreBets, phaseToken := i64 (phaseToken c + 1),
                       endsAt := now + dNoMoreBets (Durations cfg)\<rparr>)
      | PhaseNoMoreBets \<Rightarrow>
          (case cRng cfg of
             None \<Rightarrow> None
           | Some intn \<Rightarrow>
               (case Draw intn (rng c) of
                  (p, s) \<Rightarrow>
                    broadcast (c\<lparr>rng := s, winning := Some p, phase := PhaseSpinning,
                                 phaseToken := i64 (phaseToken c + 1),
                                 endsAt := now + dSpinning (Durations cfg)\<rparr>)))
      | PhaseSpinning \<Rightarrow>
          Option.bind (settleRound cfg
              (c\<lparr>phase := PhaseReveal, phaseToken := i64 (phaseToken c + 1),
                 endsAt := now + dReveal (Durations cfg)\<rparr>))
            broadcast
      | PhaseReveal \<Rightarrow> startBetting cfg now c)"

definition drainAndRefund :: "('w, 's) Coordinator \<Rightarrow> ('w, 's) Coordinator" where
  "drainAndRefund c =
     (case onShutdownRefund c of
        None \<Rightarrow> c
      | Some refund \<Rightarrow>
          c\<lparr>money := fold (\<lambda>ub m. refund m ub) (pendingBets c) (money c), pendingBets := []\<rparr>)"

section \<open>Commands\<close>

definition process :: "('w, 's) Config \<Rightarrow> int \<Rightarrow> command \<Rightarrow> ('w, 's) Coordinator
    \<Rightarrow> (cmdReply \<times> ('w, 's) Coordinator) option" where
  "process cfg now cm c =
     (case cm of
        CmdPlaceBet uid handle b \<Rightarrow>
          (case handlePlaceBet cfg now uid handle b c of
             (err, c1) \<Rightarrow>
               (if err = None then map_option (\<lambda>c2. (ReplyErr err, c2)) (broadcast c1)
                else Some (ReplyErr err, c1)))
      | CmdSubscribe s \<Rightarrow>
          (let c1 = c\<lparr>subs := subs c @ [s]\<rparr>
           in case buildPhaseMsg c1 of
                None \<Rightarrow> None
              | Some m \<Rightarrow>
                  map_option (\<lambda>x. (ReplyErr None, c1\<lparr>chans := (chans c1)(s := x)\<rparr>))
                    (try_send m (chans c1 s)))
      | CmdUnsubscribe s \<Rightarrow> Some (ReplyErr None, removeSub s c)
      | CmdSnapshot \<Rightarrow> map_option (\<lambda>m. (ReplySnap m, c)) (buildPhaseMsg c)
      | CmdPersistDrain \<Rightarrow>
          Some (ReplyBets (pendingBets c), c\<lparr>pendingBets := [], aggregate := []\<rparr>)
      | CmdPersistShape \<Rightarrow>
          map_option (\<lambda>h. (ReplyShape \<lparr>sHistory = h, sPhaseToken = phaseToken c\<rparr>, c)) (All (history c)))"

text \<open>The caller's half of \<open>Subscribe\<close>: a fresh channel, then the command.\<close>

definition Subscribe :: "('w, 's) Config \<Rightarrow> int \<Rightarrow> ('w, 's) Coordinator
    \<Rightarrow> (nat \<times> ('w, 's) Coordinator) option" where
  "Subscribe cfg now c =
     (let s = next_sub c
      in map_option (\<lambda>(_, c1). (s, c1))
           (process cfg now (CmdSubscribe s)
              (c\<lparr>chans := (chans c)(s := \<lparr>send = [], closed = False\<rparr>), next_sub := Suc s\<rparr>)))"

section \<open>Construction, restore and shutdown\<close>

definition new_config :: "('w, entropy) Config \<Rightarrow> ('w, entropy) Config" where
  "new_config cfg =
     (let c1 = (if Durations cfg = \<lparr>dBetting = 0, dNoMoreBets = 0, dSpinning = 0, dReveal = 0\<rparr>
                then cfg\<lparr>Durations := DefaultPhaseDurations\<rparr> else cfg);
          c2 = (if LastBetCutoff c1 = 0 then c1\<lparr>LastBetCutoff := DefaultLastBetCutoff\<rparr> else c1)
      in (if cRng c2 = None then c2\<lparr>cRng := Some crypto_intn\<rparr> else c2))"

text \<open>Go's zero values for the fields \<open>NewCoordinator\<close> does not set.\<close>

definition NewCoordinator :: "'w \<Rightarrow> 's \<Rightarrow> ('w, 's) Coordinator" where
  "NewCoordinator w s =
     \<lparr>phase = PhaseBetting, endsAt = 0, phaseToken = 0, winning = None, pendingBets = [],
      aggregate = [], history = empty_ring, handNumber = 0, onShutdownRefund = None, subs = [],
      chans = (\<lambda>_. \<lparr>send = [], closed = True\<rparr>), next_sub = 0, money = w, rng = s, spawned = []\<rparr>"

definition registry_refund :: "'w Wallet option \<Rightarrow> 'w \<Rightarrow> userBet \<Rightarrow> 'w" where
  "registry_refund wallet m ub =
     (case wallet of
        None \<Rightarrow> m
      | Some w \<Rightarrow> snd (Credit w m (uUserID ub) (Amount (uBet ub))))"

definition NewRegistry :: "'w Wallet option \<Rightarrow> bool \<Rightarrow> (entropy \<Rightarrow> int \<Rightarrow> int \<times> entropy) option
    \<Rightarrow> 'w \<Rightarrow> entropy \<Rightarrow> ('w, entropy) Config \<times> ('w, entropy) Coordinator" where
  "NewRegistry wallet ledger intn w s =
     (new_config \<lparr>Durations = DefaultPhaseDurations, LastBetCutoff = DefaultLastBetCutoff,
                  cWallet = wallet, cLedger = ledger, cRng = intn\<rparr>,
      (NewCoordinator w s)\<lparr>onShutdownRefund := Some (registry_refund wallet)\<rparr>)"

definition ApplyPersistShape :: "PersistShape \<Rightarrow> ('w, 's) Coordinator \<Rightarrow> ('w, 's) Coordinator option" where
  "ApplyPersistShape s c =
     map_option (\<lambda>h. c\<lparr>history := h,
         phaseToken := (if sPhaseToken s > phaseToken c then sPhaseToken s else phaseToken c)\<rparr>)
       (Replace (history c) (sHistory s))"

text \<open>What \<open>Run\<close> does when its context is cancelled.\<close>

definition run_shutdown :: "('w, 's) Coordinator \<Rightarrow> ('w, 's) Coordinator" where
  "run_shutdown c = shutdownSubs (drainAndRefund c)"

text \<open>\<open>Registry.Persist\<close>'s first step, while the actor still runs: drain, and refund each bet.\<close>

definition persist_refund :: "('w, 's) Config \<Rightarrow> int \<Rightarrow> ('w, 's) Coordinator \<Rightarrow> ('w, 's) Coordinator option" where
  "persist_refund cfg now c =
     (case process cfg now CmdPersistDrain c of
        Some (ReplyBets bets, c1) \<Rightarrow>
          Some (c1\<lparr>money := fold (\<lambda>ub m. registry_refund (cWallet cfg) m ub) bets (money c1)\<rparr>)
      | _ \<Rightarrow> None)"

section \<open>The running table\<close>

text \<open>
  One turn of the actor's loop, or one receive by a subscriber.  The timer case is taken once the
  deadline has passed; the subscribe command only comes from \<open>Subscribe\<close>.
\<close>

inductive table_step :: "('w, 's) Config \<Rightarrow> ('w, 's) Coordinator \<Rightarrow> ('w, 's) Coordinator \<Rightarrow> bool"
  for cfg where
  Tick: "endsAt c \<le> now \<Longrightarrow> advancePhase cfg now c = Some c' \<Longrightarrow> table_step cfg c c'"
| Command: "\<forall>s. cm \<noteq> CmdSubscribe s \<Longrightarrow> process cfg now cm c = Some (r, c') \<Longrightarrow> table_step cfg c c'"
| Join: "Subscribe cfg now c = Some (s, c') \<Longrightarrow> table_step cfg c c'"
| Receive: "send (chans c s) = m # ms
    \<Longrightarrow> table_step cfg c (c\<lparr>chans := (chans c)(s := (chans c s)\<lparr>send := ms\<rparr>)\<rparr>)"

inductive table_reach :: "('w, 's) Config \<Rightarrow> ('w, 's) Coordinator \<Rightarrow> ('w, 's) Coordinator \<Rightarrow> bool"
  for cfg and c0 where
  Start: "startBetting cfg now c0 = Some c \<Longrightarrow> table_reach cfg c0 c"
| Step: "table_reach cfg c0 c \<Longrightarrow> table_step cfg c c' \<Longrightarrow> table_reach cfg c0 c'"

inductive_cases table_stepE: "table_step cfg c c'"

section \<open>The invariant\<close>

definition staked :: "userBet list \<Rightarrow> BetKey \<Rightarrow> int" where
  "staked ubs k = (\<Sum>ub\<leftarrow>ubs. if Key (uBet ub) = k then Amount (uBet ub) else 0)"

definition agg_ok :: "('w, 's) Coordinator \<Rightarrow> bool" where
  "agg_ok c \<longleftrightarrow> (\<forall>k. map_of (aggregate c) k =
     (if \<exists>ub \<in> set (pendingBets c). Key (uBet ub) = k then Some (i32 (staked (pendingBets c) k)) else None))"

definition chans_ok :: "('w, 's) Coordinator \<Rightarrow> bool" where
  "chans_ok c \<longleftrightarrow> distinct (subs c)
     \<and> (\<forall>s \<in> set (subs c). \<not> closed (chans c s) \<and> s < next_sub c)
     \<and> (\<forall>s. length (send (chans c s)) \<le> 8)"

definition phase_ok :: "('w, 's) Coordinator \<Rightarrow> bool" where
  "phase_ok c \<longleftrightarrow>
     (if phase c = PhaseSpinning \<or> phase c = PhaseReveal
      then \<exists>p. winning c = Some p \<and> valid_pocket p else winning c = None)
     \<and> (\<forall>ub \<in> set (pendingBets c). 0 < Amount (uBet ub))"

definition hist_ok :: "('w, 's) Coordinator \<Rightarrow> bool" where
  "hist_ok c \<longleftrightarrow> ring_ok (history c) \<and> list_all valid_pocket (ring_contents (history c))"

definition table_inv :: "('w, 's) Coordinator \<Rightarrow> bool" where
  "table_inv c \<longleftrightarrow> hist_ok c \<and> chans_ok c \<and> agg_ok c \<and> phase_ok c"

definition rng_ok :: "('w, 's) Config \<Rightarrow> bool" where
  "rng_ok cfg \<longleftrightarrow> (\<exists>intn. cRng cfg = Some intn \<and> (\<forall>s. valid_pocket (fst (Draw intn s))))"

context rng
begin

lemma source_rng_ok: "cRng cfg = Some intn \<Longrightarrow> rng_ok cfg"
  using Draw_valid by (metis rng_ok_def prod.collapse)

end

lemma staked_snoc: "staked (ubs @ [ub]) k
    = staked ubs k + (if Key (uBet ub) = k then Amount (uBet ub) else 0)"
  by (simp add: staked_def)

lemma buildPhaseMsg_ok: "hist_ok c \<Longrightarrow> \<exists>m. buildPhaseMsg c = Some m"
  by (simp add: buildPhaseMsg_def hist_ok_def Slice_ring)

lemma broadcast_loop_ok:
  assumes "\<forall>s \<in> set ss. \<not> closed (ch s)"
  shows "\<exists>ch'. broadcast_loop m ss ch = Some ch' \<and> (\<forall>s. closed (ch' s) = closed (ch s))
    \<and> ((\<forall>s. length (send (ch s)) \<le> 8) \<longrightarrow> (\<forall>s. length (send (ch' s)) \<le> 8))"
  using assms
proof (induction ss arbitrary: ch)
  case Nil
  then show ?case by simp
next
  case (Cons a ss)
  have "\<exists>x. try_send m (ch a) = Some x \<and> closed x = closed (ch a)
    \<and> (length (send (ch a)) \<le> 8 \<longrightarrow> length (send x) \<le> 8)"
    using Cons.prems by (auto simp: try_send_def)
  then obtain x where x: "try_send m (ch a) = Some x" "closed x = closed (ch a)"
    "length (send (ch a)) \<le> 8 \<longrightarrow> length (send x) \<le> 8" by blast
  have "\<forall>s \<in> set ss. \<not> closed ((ch(a := x)) s)" using Cons.prems x by auto
  from Cons.IH [OF this] obtain ch' where ch': "broadcast_loop m ss (ch(a := x)) = Some ch'"
    "\<forall>s. closed (ch' s) = closed ((ch(a := x)) s)"
    "(\<forall>s. length (send ((ch(a := x)) s)) \<le> 8) \<longrightarrow> (\<forall>s. length (send (ch' s)) \<le> 8)" by blast
  with x show ?case by auto
qed

lemma broadcast_cases:
  assumes "hist_ok c" and "chans_ok c"
  shows "\<exists>ch. broadcast c = Some (c\<lparr>chans := ch\<rparr>) \<and> chans_ok (c\<lparr>chans := ch\<rparr>)"
proof -
  obtain m where m: "buildPhaseMsg c = Some m" using buildPhaseMsg_ok [OF assms(1)] by blast
  obtain ch where "broadcast_loop m (subs c) (chans c) = Some ch"
    "\<forall>s. closed (ch s) = closed (chans c s)" "\<forall>s. length (send (ch s)) \<le> 8"
    using broadcast_loop_ok [of "subs c" "chans c" m] assms(2) by (auto simp: chans_ok_def)
  with m assms(2) show ?thesis by (auto simp: broadcast_def chans_ok_def)
qed

text \<open>Broadcasting changes only the channels, on which only \<open>chans_ok\<close> depends.\<close>

lemma broadcast_inv:
  assumes "table_inv c"
  shows "\<exists>ch. broadcast c = Some (c\<lparr>chans := ch\<rparr>) \<and> table_inv (c\<lparr>chans := ch\<rparr>)"
  using assms broadcast_cases [of c]
  by (auto simp: table_inv_def hist_ok_def agg_ok_def phase_ok_def)

lemma settle_loop_total:
  assumes "valid_pocket p"
  shows "settle_loop cfg p ubs w mvs ds \<noteq> None"
proof (induction ubs arbitrary: w mvs ds)
  case Nil
  then show ?case by simp
next
  case (Cons ub ubs)
  obtain g where "GrossReturn p (uBet ub) = Some g"
    using Evaluate_total [OF assms, of "Key (uBet ub)"] by (auto simp: GrossReturn_def)
  with Cons show ?case by (simp add: Let_def)
qed

lemma settleRound_inv:
  assumes inv: "table_inv c" and w: "winning c = Some p"
  shows "\<exists>c'. settleRound cfg c = Some c' \<and> table_inv c' \<and> phase c' = phase c
    \<and> phaseToken c' = phaseToken c \<and> endsAt c' = endsAt c
    \<and> handNumber c' = handNumber c \<and> winning c' = winning c
    \<and> pendingBets c' = pendingBets c \<and> aggregate c' = aggregate c \<and> subs c' = subs c
    \<and> onShutdownRefund c' = onShutdownRefund c
    \<and> ring_contents (history c') = last_n 100 (ring_contents (history c) @ [p])
    \<and> Some (money c') = map_option fst (settle_loop cfg p (pendingBets c) (money c) [] [])"
proof -
  have p: "valid_pocket p" using inv w by (auto simp: table_inv_def phase_ok_def split: if_splits)
  obtain m mvs ds where l: "settle_loop cfg p (pendingBets c) (money c) [] [] = Some (m, mvs, ds)"
    using settle_loop_total [OF p, of cfg "pendingBets c" "money c" "[]" "[]"] by auto
  obtain h where h: "Push (history c) p = Some h" "ring_ok h"
    "ring_contents h = last_n 100 (ring_contents (history c) @ [p])"
    using Push_ring [of "history c" p] inv by (auto simp: table_inv_def hist_ok_def)
  obtain col where col: "pocket_color p = Some col" using pocket_color_total [OF p] by auto
  have "list_all valid_pocket (ring_contents h)"
    using inv p unfolding h(3) by (auto simp: table_inv_def hist_ok_def last_n_def list_all_iff dest: in_set_dropD)
  with l h col inv w show ?thesis
    by (auto simp: settleRound_def Let_def table_inv_def hist_ok_def chans_ok_def agg_ok_def phase_ok_def)
qed

primrec next_phase :: "Phase \<Rightarrow> Phase" where
  "next_phase PhaseBetting = PhaseNoMoreBets"
| "next_phase PhaseNoMoreBets = PhaseSpinning"
| "next_phase PhaseSpinning = PhaseReveal"
| "next_phase PhaseReveal = PhaseBetting"

primrec phase_duration :: "PhaseDurations \<Rightarrow> Phase \<Rightarrow> int" where
  "phase_duration d PhaseBetting = dBetting d"
| "phase_duration d PhaseNoMoreBets = dNoMoreBets d"
| "phase_duration d PhaseSpinning = dSpinning d"
| "phase_duration d PhaseReveal = dReveal d"

lemma startBetting_inv:
  assumes "hist_ok c" and "chans_ok c"
  shows "\<exists>c'. startBetting cfg now c = Some c' \<and> table_inv c' \<and> phase c' = PhaseBetting
    \<and> phaseToken c' = i64 (phaseToken c + 1) \<and> endsAt c' = now + dBetting (Durations cfg)"
proof -
  define c1 where "c1 = c\<lparr>phase := PhaseBetting, winning := None, pendingBets := [], aggregate := [],
       handNumber := i64 (handNumber c + 1), phaseToken := i64 (phaseToken c + 1),
       endsAt := now + dBetting (Durations cfg)\<rparr>"
  have "table_inv c1" using assms
    by (simp add: c1_def table_inv_def hist_ok_def chans_ok_def agg_ok_def phase_ok_def)
  from broadcast_inv [OF this] show ?thesis
    by (auto simp: startBetting_def c1_def)
qed

lemma advancePhase_inv:
  assumes inv: "table_inv c" and rng: "rng_ok cfg"
  shows "\<exists>c'. advancePhase cfg now c = Some c' \<and> table_inv c'
    \<and> phaseToken c' = i64 (phaseToken c + 1) \<and> phase c' = next_phase (phase c)
    \<and> endsAt c' = now + phase_duration (Durations cfg) (phase c')"
proof (cases "phase c")
  case PhaseBetting
  let ?c1 = "c\<lparr>phase := PhaseNoMoreBets, phaseToken := i64 (phaseToken c + 1),
                 endsAt := now + dNoMoreBets (Durations cfg)\<rparr>"
  have "table_inv ?c1" using inv PhaseBetting
    by (simp add: table_inv_def hist_ok_def chans_ok_def agg_ok_def phase_ok_def)
  from broadcast_inv [OF this] PhaseBetting show ?thesis by (auto simp: advancePhase_def)
next
  case PhaseNoMoreBets
  obtain intn where intn: "cRng cfg = Some intn" "\<And>s. valid_pocket (fst (Draw intn s))"
    using rng by (auto simp: rng_ok_def)
  obtain p s where d: "Draw intn (rng c) = (p, s)" by fastforce
  let ?c1 = "c\<lparr>rng := s, winning := Some p, phase := PhaseSpinning,
                 phaseToken := i64 (phaseToken c + 1), endsAt := now + dSpinning (Durations cfg)\<rparr>"
  have "valid_pocket p" using intn(2) [of "rng c"] d by simp
  then have "table_inv ?c1" using inv
    by (simp add: table_inv_def hist_ok_def chans_ok_def agg_ok_def phase_ok_def)
  from broadcast_inv [OF this] PhaseNoMoreBets intn(1) d show ?thesis
    by (auto simp: advancePhase_def)
next
  case PhaseSpinning
  let ?c1 = "c\<lparr>phase := PhaseReveal, phaseToken := i64 (phaseToken c + 1),
                 endsAt := now + dReveal (Durations cfg)\<rparr>"
  have i1: "table_inv ?c1" using inv PhaseSpinning
    by (simp add: table_inv_def hist_ok_def chans_ok_def agg_ok_def phase_ok_def)
  obtain p where "winning c = Some p" using inv PhaseSpinning by (auto simp: table_inv_def phase_ok_def)
  then have w: "winning ?c1 = Some p" by simp
  from settleRound_inv [OF i1 w, of cfg] obtain c2 where c2: "settleRound cfg ?c1 = Some c2"
    "table_inv c2" "phaseToken c2 = i64 (phaseToken c + 1)" "phase c2 = PhaseReveal"
    "endsAt c2 = now + dReveal (Durations cfg)" by auto
  from broadcast_inv [OF c2(2)] c2 PhaseSpinning show ?thesis
    by (auto simp: advancePhase_def)
next
  case PhaseReveal
  have "\<exists>c'. startBetting cfg now c = Some c' \<and> table_inv c' \<and> phase c' = PhaseBetting
      \<and> phaseToken c' = i64 (phaseToken c + 1) \<and> endsAt c' = now + dBetting (Durations cfg)"
    using inv by (intro startBetting_inv) (simp_all add: table_inv_def)
  with PhaseReveal show ?thesis by (auto simp: advancePhase_def)
qed

text \<open>An accepted bet is appended and added to the aggregate; a rejected one changes nothing but,
  when the debit failed, the database's statement count.\<close>

lemma handlePlaceBet_cases:
  assumes "handlePlaceBet cfg now u h b c = (e, c')"
  shows "(e \<noteq> None \<longrightarrow> (\<exists>m. c' = c\<lparr>money := m\<rparr>))
    \<and> (e = None \<longrightarrow> 0 < Amount b \<and> phase c = PhaseBetting \<and> endsAt c - now > LastBetCutoff cfg
        \<and> (\<exists>m. c' = c\<lparr>money := m,
              pendingBets := pendingBets c @ [\<lparr>uUserID = u, uHandle = h, uBet = b\<rparr>],
              aggregate := AList.update (Key b)
                (i32 ((case map_of (aggregate c) (Key b) of None \<Rightarrow> 0 | Some v \<Rightarrow> v) + Amount b))
                (aggregate c)\<rparr>
            \<and> (case cWallet cfg of None \<Rightarrow> m = money c
               | Some w \<Rightarrow> DebitBet w (money c) u (Amount b) = (None, m))))"
proof (cases "Amount b \<le> 0 \<or> phase c \<noteq> PhaseBetting \<or> endsAt c - now \<le> LastBetCutoff cfg")
  case True
  then have "e \<noteq> None" "c' = c" using assms by (auto simp: handlePlaceBet_def split: if_splits)
  then show ?thesis by (auto intro!: exI [of _ "money c"])
next
  case False
  show ?thesis
  proof (cases "cWallet cfg")
    case None
    with assms False show ?thesis by (auto simp: handlePlaceBet_def intro!: exI [of _ "money c"])
  next
    case (Some w)
    obtain e1 m where d: "DebitBet w (money c) u (Amount b) = (e1, m)" by fastforce
    with assms False Some show ?thesis
      by (cases e1) (auto simp: handlePlaceBet_def)
  qed
qed

lemma agg_place:
  assumes "agg_ok c"
  shows "agg_ok (c\<lparr>money := m,
              pendingBets := pendingBets c @ [\<lparr>uUserID = u, uHandle = h, uBet = b\<rparr>],
              aggregate := AList.update (Key b)
                (i32 ((case map_of (aggregate c) (Key b) of None \<Rightarrow> 0 | Some v \<Rightarrow> v) + Amount b))
                (aggregate c)\<rparr>)"
proof -
  have none: "staked ubs k = 0" if "\<not> (\<exists>ub \<in> set ubs. Key (uBet ub) = k)" for ubs k
    using that by (induction ubs) (auto simp: staked_def)
  define old where "old = (case map_of (aggregate c) (Key b) of None \<Rightarrow> 0 | Some v \<Rightarrow> v)"
  have "i32 (old + Amount b) = i32 (staked (pendingBets c) (Key b) + Amount b)"
  proof (cases "\<exists>ub \<in> set (pendingBets c). Key (uBet ub) = Key b")
    case True
    then have "old = i32 (staked (pendingBets c) (Key b))" using assms by (simp add: agg_ok_def old_def)
    then show ?thesis by (simp add: i32_add_left)
  next
    case False
    then have "old = 0" using assms by (simp add: agg_ok_def old_def)
    then show ?thesis using none [OF False] by simp
  qed
  then show ?thesis
    using assms unfolding old_def [symmetric] by (auto simp: agg_ok_def update_conv staked_snoc)
qed

lemma process_inv:
  assumes inv: "table_inv c" and cm: "\<forall>s. cm \<noteq> CmdSubscribe s"
  shows "\<exists>r c'. process cfg now cm c = Some (r, c') \<and> table_inv c' \<and> phaseToken c' = phaseToken c
    \<and> phase c' = phase c \<and> endsAt c' = endsAt c"
proof (cases cm)
  case (CmdPlaceBet u h b)
  obtain e c1 where p: "handlePlaceBet cfg now u h b c = (e, c1)" by fastforce
  note hc = handlePlaceBet_cases [OF p]
  show ?thesis
  proof (cases e)
    case None
    with hc obtain m where c1: "c1 = c\<lparr>money := m,
              pendingBets := pendingBets c @ [\<lparr>uUserID = u, uHandle = h, uBet = b\<rparr>],
              aggregate := AList.update (Key b)
                (i32 ((case map_of (aggregate c) (Key b) of None \<Rightarrow> 0 | Some v \<Rightarrow> v) + Amount b))
                (aggregate c)\<rparr>" and b: "0 < Amount b" by auto
    have "agg_ok c1" unfolding c1 using agg_place inv by (auto simp: table_inv_def)
    then have i1: "table_inv c1" and t1: "phaseToken c1 = phaseToken c" "phase c1 = phase c" "endsAt c1 = endsAt c"
      using inv b by (auto simp: c1 table_inv_def hist_ok_def chans_ok_def phase_ok_def)
    from broadcast_inv [OF i1] t1 None p CmdPlaceBet show ?thesis
      by (auto simp: process_def)
  next
    case (Some x)
    with hc obtain m where "c1 = c\<lparr>money := m\<rparr>" by auto
    with Some p CmdPlaceBet inv show ?thesis
      by (auto simp: process_def table_inv_def hist_ok_def chans_ok_def agg_ok_def phase_ok_def)
  qed
next
  case (CmdUnsubscribe s)
  with inv show ?thesis
    by (auto simp: process_def removeSub_def table_inv_def hist_ok_def chans_ok_def agg_ok_def phase_ok_def)
next
  case CmdSnapshot
  with inv buildPhaseMsg_ok [of c] show ?thesis by (auto simp: process_def table_inv_def)
next
  case CmdPersistDrain
  with inv show ?thesis
    by (auto simp: process_def table_inv_def hist_ok_def chans_ok_def agg_ok_def phase_ok_def)
next
  case CmdPersistShape
  with inv All_ring show ?thesis by (auto simp: process_def table_inv_def hist_ok_def)
qed (use cm in simp)

lemma Subscribe_inv:
  assumes inv: "table_inv c"
  shows "\<exists>s c'. Subscribe cfg now c = Some (s, c') \<and> table_inv c' \<and> phaseToken c' = phaseToken c
    \<and> phase c' = phase c \<and> endsAt c' = endsAt c"
proof -
  let ?c0 = "c\<lparr>chans := (chans c)(next_sub c := \<lparr>send = [], closed = False\<rparr>), next_sub := Suc (next_sub c)\<rparr>"
  have "hist_ok (?c0\<lparr>subs := subs c @ [next_sub c]\<rparr>)"
    using inv by (simp add: table_inv_def hist_ok_def)
  from buildPhaseMsg_ok [OF this] obtain m where
    m: "buildPhaseMsg (?c0\<lparr>subs := subs c @ [next_sub c]\<rparr>) = Some m" by blast
  have fresh: "next_sub c \<notin> set (subs c)" using inv by (auto simp: table_inv_def chans_ok_def)
  show ?thesis
    using inv m fresh
    by (auto simp: Subscribe_def process_def Let_def try_send_def table_inv_def hist_ok_def
        chans_ok_def agg_ok_def phase_ok_def less_Suc_eq)
qed

lemma table_step_inv:
  assumes "table_step cfg c c'" and inv: "table_inv c" and "rng_ok cfg"
  shows "table_inv c'"
  using assms(1)
proof cases
  case (Tick now)
  then show ?thesis using advancePhase_inv [OF inv assms(3), of now] by simp
next
  case (Command cm now r)
  then show ?thesis using process_inv [OF inv, of cm cfg now] by auto
next
  case (Join now s)
  then show ?thesis using Subscribe_inv [OF inv, of cfg now] by auto
next
  case (Receive s m ms)
  have "length ms \<le> 8" using inv Receive(2) by (auto simp: table_inv_def chans_ok_def dest: spec [of _ s])
  with inv show ?thesis
    unfolding Receive by (auto simp: table_inv_def hist_ok_def chans_ok_def agg_ok_def phase_ok_def)
qed

lemma table_reach_inv:
  assumes "table_reach cfg c0 c" and "hist_ok c0" and "chans_ok c0" and "rng_ok cfg"
  shows "table_inv c"
  using assms(1)
proof induction
  case (Start now c)
  then show ?case using startBetting_inv [OF assms(2,3), of cfg now] by auto
next
  case (Step c c')
  then show ?case using table_step_inv assms(4) by blast
qed

section \<open>Settlement on the wallet\<close>

definition bank_wallet :: "bank Wallet" where
  "bank_wallet = \<lparr>DebitBet = adapter_debit, Credit = adapter_credit\<rparr>"

definition gross_of :: "int \<Rightarrow> userBet \<Rightarrow> int" where
  "gross_of p ub = (case GrossReturn p (uBet ub) of None \<Rightarrow> 0 | Some g \<Rightarrow> g)"

definition winnings_of :: "int \<Rightarrow> userBet list \<Rightarrow> int \<Rightarrow> int" where
  "winnings_of p ubs u = (\<Sum>ub\<leftarrow>ubs. if uUserID ub = u then max 0 (gross_of p ub) else 0)"

definition stakes_of :: "userBet list \<Rightarrow> int \<Rightarrow> int" where
  "stakes_of ubs u = (\<Sum>ub\<leftarrow>ubs. if uUserID ub = u then Amount (uBet ub) else 0)"

lemma winnings_of_Cons [simp]:
  "winnings_of p (ub # ubs) u = (if uUserID ub = u then max 0 (gross_of p ub) else 0) + winnings_of p ubs u"
  by (simp add: winnings_of_def)

lemma winnings_of_Nil [simp]: "winnings_of p [] u = 0"
  by (simp add: winnings_of_def)

lemma stakes_of_Cons [simp]:
  "stakes_of (ub # ubs) u = (if uUserID ub = u then Amount (uBet ub) else 0) + stakes_of ubs u"
  by (simp add: stakes_of_def)

lemma stakes_of_Nil [simp]: "stakes_of [] u = 0"
  by (simp add: stakes_of_def)

lemma winnings_of_nonneg: "0 \<le> winnings_of p ubs u"
  by (induction ubs) auto

definition fine :: "bank \<Rightarrow> bool" where
  "fine b \<longleftrightarrow> bank_ok b \<and> (\<forall>n. \<not> faults b n)"

lemma settle_loop_pays:
  assumes "settle_loop cfg p ubs m mvs ds = Some (m', mvs', ds')"
    and "cWallet cfg = Some bank_wallet" and "fine m"
    and "\<forall>u. spendable m u + winnings_of p ubs u \<le> wallet_cap"
  shows "fine m' \<and> (\<forall>u. spendable m' u = spendable m u + winnings_of p ubs u)"
  using assms
proof (induction ubs arbitrary: m mvs ds)
  case Nil
  then show ?case by simp
next
  case (Cons ub ubs)
  obtain g where g: "GrossReturn p (uBet ub) = Some g" "gross_of p ub = g"
    using Cons.prems(1) by (auto simp: gross_of_def split: option.splits)
  define m1 where "m1 = (if g > 0 then snd (adapter_credit m (uUserID ub) g) else m)"
  have step: "fine m1 \<and> (\<forall>u. spendable m1 u = spendable m u + (if uUserID ub = u then max 0 g else 0))"
  proof (cases "g > 0")
    case True
    have "spendable m (uUserID ub) + g \<le> wallet_cap"
      using Cons.prems(4) [rule_format, of "uUserID ub"] g(2) winnings_of_nonneg [of p ubs "uUserID ub"] True
      by simp
    then obtain m2 where "adapter_credit m (uUserID ub) g = (None, m2)" "bank_ok m2"
      "faults m2 = faults m" "\<And>v. spendable m2 v = spendable m v + (if v = uUserID ub then max g 0 else 0)"
      using adapter_credit_fine [of m "uUserID ub" g] Cons.prems(3) by (auto simp: fine_def)
    with True Cons.prems(3) show ?thesis by (auto simp: m1_def fine_def)
  next
    case False
    with Cons.prems(3) show ?thesis by (simp add: m1_def)
  qed
  have "\<exists>mvs1 ds1. settle_loop cfg p ubs m1 mvs1 ds1 = Some (m', mvs', ds')"
    using Cons.prems(1,2) g(1) unfolding m1_def
    by (auto simp: Let_def bank_wallet_def split: if_splits)
  then obtain mvs1 ds1 where "settle_loop cfg p ubs m1 mvs1 ds1 = Some (m', mvs', ds')" by blast
  moreover have "spendable m1 u + winnings_of p ubs u \<le> wallet_cap" for u
    using Cons.prems(4) [rule_format, of u] step [THEN conjunct2, rule_format, of u] g(2)
    by (cases "uUserID ub = u") simp_all
  ultimately show ?case using Cons.IH [OF _ Cons.prems(2)] step g(2) by fastforce
qed

lemma refund_pays:
  assumes "fine m" and "\<forall>ub \<in> set ubs. 0 < Amount (uBet ub)"
    and "\<forall>u. spendable m u + stakes_of ubs u \<le> wallet_cap"
  shows "fine (fold (\<lambda>ub m. registry_refund (Some bank_wallet) m ub) ubs m)
    \<and> (\<forall>u. spendable (fold (\<lambda>ub m. registry_refund (Some bank_wallet) m ub) ubs m) u
         = spendable m u + stakes_of ubs u)"
  using assms
proof (induction ubs arbitrary: m)
  case Nil
  then show ?case by simp
next
  case (Cons ub ubs)
  have nn: "0 \<le> stakes_of ubs u" for u
    using Cons.prems(2) by (induction ubs) (auto simp: less_imp_le)
  let ?a = "Amount (uBet ub)"
  have "spendable m (uUserID ub) + ?a \<le> wallet_cap"
    using Cons.prems(3) [rule_format, of "uUserID ub"] nn [of "uUserID ub"] by simp
  then obtain m2 where m2: "adapter_credit m (uUserID ub) ?a = (None, m2)" "bank_ok m2"
    "faults m2 = faults m" "\<And>v. spendable m2 v = spendable m v + (if v = uUserID ub then max ?a 0 else 0)"
    using adapter_credit_fine [of m "uUserID ub" ?a] Cons.prems(1) by (auto simp: fine_def)
  have r: "registry_refund (Some bank_wallet) m ub = m2"
    using m2 by (simp add: registry_refund_def bank_wallet_def)
  have f: "fine m2" using m2 Cons.prems(1) by (simp add: fine_def)
  have "spendable m2 u + stakes_of ubs u \<le> wallet_cap" for u
    using Cons.prems(2) Cons.prems(3) [rule_format, of u] m2(4) [of u]
    by (cases "uUserID ub = u") auto
  with Cons.IH [OF f] Cons.prems(2) m2(4) r show ?case by (auto simp: max_def)
qed

lemma advance_spinning:
  assumes inv: "table_inv c" and ph: "phase c = PhaseSpinning" and w: "winning c = Some p"
  shows "\<exists>c'. advancePhase cfg now c = Some c' \<and> table_inv c' \<and> phase c' = PhaseReveal
    \<and> winning c' = Some p \<and> pendingBets c' = pendingBets c \<and> onShutdownRefund c' = onShutdownRefund c
    \<and> ring_contents (history c') = last_n 100 (ring_contents (history c) @ [p])
    \<and> Some (money c') = map_option fst (settle_loop cfg p (pendingBets c) (money c) [] [])"
proof -
  let ?c1 = "c\<lparr>phase := PhaseReveal, phaseToken := i64 (phaseToken c + 1),
                 endsAt := now + dReveal (Durations cfg)\<rparr>"
  have i1: "table_inv ?c1" using inv ph
    by (simp add: table_inv_def hist_ok_def chans_ok_def agg_ok_def phase_ok_def)
  have w1: "winning ?c1 = Some p" using w by simp
  from settleRound_inv [OF i1 w1, of cfg] obtain c2 where c2: "settleRound cfg ?c1 = Some c2"
    "table_inv c2" "phase c2 = PhaseReveal" "winning c2 = Some p" "pendingBets c2 = pendingBets c"
    "onShutdownRefund c2 = onShutdownRefund c"
    "ring_contents (history c2) = last_n 100 (ring_contents (history c) @ [p])"
    "Some (money c2) = map_option fst (settle_loop cfg p (pendingBets c) (money c) [] [])"
    using w by auto
  from broadcast_inv [OF c2(2)] c2 ph show ?thesis
    by (auto simp: advancePhase_def)
qed

text \<open>
  C1: The table never crashes.  From any start with a well-formed history, under the
  cryptographic source and in every state reached by any interleaving of deadlines, bets,
  subscriptions, cancellations, snapshots and drains, no handler panics (no index out of range,
  no send on a closed channel), and the state is consistent: the history holds pockets of the
  wheel; a winning pocket is set exactly while Spinning and Reveal; the aggregate each client
  sees is, per bet, the int32 sum of the stakes pending; every subscriber's channel is open and
  holds at most 8 messages.
\<close>

theorem roulette_table_safe:
  assumes "table_reach cfg c0 c" and "hist_ok c0" and "chans_ok c0" and "cRng cfg = Some crypto_intn"
  shows "table_inv c \<and> advancePhase cfg now c \<noteq> None \<and> Subscribe cfg now c \<noteq> None
    \<and> (case cm of CmdSubscribe s \<Rightarrow> True | _ \<Rightarrow> process cfg now cm c \<noteq> None)"
proof -
  have rng: "rng_ok cfg" using crypto.source_rng_ok assms(4) by blast
  have inv: "table_inv c" using table_reach_inv assms(1-3) rng by blast
  have "case cm of CmdSubscribe s \<Rightarrow> True | _ \<Rightarrow> process cfg now cm c \<noteq> None"
    using process_inv [OF inv, of cm cfg now] by (cases cm) auto
  then show ?thesis
    using inv advancePhase_inv [OF inv rng, of now] Subscribe_inv [OF inv, of cfg now] by auto
qed

theorem roulette_table_safe_witness:
  "\<exists>c. startBetting (fst (NewRegistry (Some bank_wallet) True None demo_bank (\<lambda>_. 0))) 5
        (snd (NewRegistry (Some bank_wallet) True None demo_bank (\<lambda>_. 0))) = Some c
    \<and> table_inv c"
proof -
  let ?cfg = "fst (NewRegistry (Some bank_wallet) True None demo_bank (\<lambda>_. 0))"
  let ?c0 = "snd (NewRegistry (Some bank_wallet) True None demo_bank (\<lambda>_. 0))"
  have h: "hist_ok ?c0" "chans_ok ?c0" "cRng ?cfg = Some crypto_intn"
    by (simp_all add: NewRegistry_def NewCoordinator_def new_config_def hist_ok_def chans_ok_def
        DefaultPhaseDurations_def DefaultLastBetCutoff_def Let_def)
  obtain c where c: "startBetting ?cfg 5 ?c0 = Some c" using startBetting_inv [OF h(1,2)] by blast
  with roulette_table_safe [OF table_reach.Start [OF c] h] show ?thesis by blast
qed

text \<open>
  The phase machine.  A step of the running table either leaves the phase and its token
  alone or moves to the next phase in the cycle Betting, NoMoreBets, Spinning, Reveal, raising
  the token by exactly one and setting the deadline to that phase's duration from now; and it
  only does so when the deadline has passed.  So tokens never go back and number the phases.
\<close>

theorem phase_machine_steps:
  assumes "table_step cfg c c'" and "table_inv c" and "rng_ok cfg"
    and "0 \<le> phaseToken c" and "phaseToken c < 9223372036854775807"
  shows "(phase c' = phase c \<and> phaseToken c' = phaseToken c \<and> endsAt c' = endsAt c)
    \<or> (phase c' = next_phase (phase c) \<and> phaseToken c' = phaseToken c + 1
       \<and> (\<exists>now \<ge> endsAt c. endsAt c' = now + phase_duration (Durations cfg) (phase c')))"
  using assms(1)
proof cases
  case (Tick now)
  have "i64 (phaseToken c + 1) = phaseToken c + 1" using assms by (intro i64_id) auto
  with Tick advancePhase_inv [OF assms(2,3), of now] show ?thesis by auto
next
  case (Command cm now r)
  then show ?thesis using process_inv [OF assms(2), of cm cfg now] by auto
next
  case (Join now s)
  then show ?thesis using Subscribe_inv [OF assms(2), of cfg now] by auto
qed simp

text \<open>
  C11: Placing a bet against the credit wallet.  An accepted bet was positive, in the Betting
  phase and more than the cutoff before the deadline; its stake was within the player's
  spendable balance and has been taken from it exactly once, from nobody else; and it is the
  last of the pending bets.  A rejected bet leaves the pending bets, the aggregate and every
  balance as they were.
\<close>

theorem place_bet_accounts:
  assumes "handlePlaceBet cfg now u h b c = (e, c')" and "cWallet cfg = Some bank_wallet"
    and "bank_ok (money c)"
  shows "bank_ok (money c')
    \<and> (case e of
         None \<Rightarrow> 0 < Amount b \<and> phase c = PhaseBetting \<and> endsAt c - now > LastBetCutoff cfg
           \<and> Amount b \<le> spendable (money c) u
           \<and> (\<forall>v. spendable (money c') v = spendable (money c) v - (if v = u then Amount b else 0))
           \<and> pendingBets c' = pendingBets c @ [\<lparr>uUserID = u, uHandle = h, uBet = b\<rparr>]
       | Some _ \<Rightarrow> pendingBets c' = pendingBets c \<and> aggregate c' = aggregate c
           \<and> (\<forall>v. spendable (money c') v = spendable (money c) v))"
proof (cases e)
  case None
  with handlePlaceBet_cases [OF assms(1)] assms(2)
  have "adapter_debit (money c) u (Amount b) = (None, money c')"
    and rest: "0 < Amount b" "phase c = PhaseBetting" "endsAt c - now > LastBetCutoff cfg"
      "pendingBets c' = pendingBets c @ [\<lparr>uUserID = u, uHandle = h, uBet = b\<rparr>]"
    by (auto simp: bank_wallet_def)
  with wallet.debit_ok [OF assms(3)] wallet.debit_sound [OF assms(3)] None show ?thesis by auto
next
  case (Some x)
  have "(\<exists>e'. adapter_debit (money c) u (Amount b) = (Some e', money c')) \<or> money c' = money c"
    using assms(1,2) Some
    by (auto simp: handlePlaceBet_def bank_wallet_def split: if_splits option.splits prod.splits)
  with handlePlaceBet_cases [OF assms(1)] Some wallet.debit_fail [OF assms(3)]
    wallet.debit_sound [OF assms(3)] assms(3)
  show ?thesis by auto
qed

definition demo_bet :: "int \<Rightarrow> BetType \<Rightarrow> int \<Rightarrow> int \<Rightarrow> userBet" where
  "demo_bet u t n a = \<lparr>uUserID = u, uHandle = ''p'', uBet = \<lparr>Key = \<lparr>Type = t, Number = n\<rparr>, Amount = a\<rparr>\<rparr>"

definition demo_config :: "(bank, entropy) Config" where
  "demo_config = new_config \<lparr>Durations = DefaultPhaseDurations, LastBetCutoff = DefaultLastBetCutoff,
     cWallet = Some bank_wallet, cLedger = True, cRng = None\<rparr>"

text \<open>A table in Spinning on pocket 17: player 1 is straight up on it, player 2 is on red.\<close>

definition demo_table :: "(bank, entropy) Coordinator" where
  "demo_table = (NewCoordinator (demo_bank\<lparr>faults := \<lambda>n. False\<rparr>) (\<lambda>_. 0))
     \<lparr>phase := PhaseSpinning, winning := Some 17, phaseToken := 3, handNumber := 1,
      pendingBets := [demo_bet 1 BetStraight 17 10, demo_bet 2 BetRed 0 20],
      aggregate := [(\<lparr>Type = BetStraight, Number = 17\<rparr>, 10), (\<lparr>Type = BetRed, Number = 0\<rparr>, 20)],
      onShutdownRefund := Some (registry_refund (Some bank_wallet))\<rparr>"

lemma demo_config_simps: "cWallet demo_config = Some bank_wallet" "cLedger demo_config"
  "cRng demo_config = Some crypto_intn" "LastBetCutoff demo_config = 500000000"
  by (simp_all add: demo_config_def new_config_def DefaultPhaseDurations_def
      DefaultLastBetCutoff_def Let_def)

lemma demo_table_inv: "table_inv demo_table" "fine (money demo_table)"
    "spendable (money demo_table) u = 100"
  by (simp_all add: demo_table_def demo_bet_def NewCoordinator_def table_inv_def hist_ok_def chans_ok_def
      agg_ok_def phase_ok_def valid_pocket_def staked_def i32_id fine_def bank_ok_def demo_bank_def
      spendable_def DailyAllowance_def)

lemma demo_gross: "gross_of 17 (demo_bet 1 BetStraight 17 10) = 360" "gross_of 17 (demo_bet 2 BetRed 0 20) = 0"
  by (simp_all add: gross_of_def demo_bet_def GrossReturn_def Evaluate_def IsRed_def pocket_color_def
      IsZero_def Pocket00_def slice_get_def isRed_eval i32_id)

theorem place_bet_accounts_witness:
  "(\<exists>c'. handlePlaceBet demo_config 0 5 ''p'' \<lparr>Key = \<lparr>Type = BetOdd, Number = 0\<rparr>, Amount = 40\<rparr>
        (demo_table\<lparr>phase := PhaseBetting, endsAt := 500000001\<rparr>) = (None, c')
      \<and> spendable (money c') 5 = 60)"
proof -
  let ?c = "demo_table\<lparr>phase := PhaseBetting, endsAt := 500000001\<rparr>"
  let ?b = "\<lparr>Key = \<lparr>Type = BetOdd, Number = 0\<rparr>, Amount = 40\<rparr>"
  obtain e c' where p: "handlePlaceBet demo_config 0 5 ''p'' ?b ?c = (e, c')" by fastforce
  have ok: "bank_ok (money ?c)" using demo_table_inv by (simp add: fine_def)
  have "fst (adapter_debit (money demo_table) 5 40) = None"
    by (simp add: demo_table_def NewCoordinator_def demo_bank_def adapter_debit_def load_def bet_def
        getOrCreateWallet_def failing_def tick_def persist_def updateWallet_def wallet_total_def
        i64_id i32_id DailyAllowance_def Let_def)
  then have "e = None" using p demo_config_simps
    by (auto simp: handlePlaceBet_def bank_wallet_def split: prod.splits option.splits)
  with place_bet_accounts [OF p demo_config_simps(1) ok] p show ?thesis
    by (simp add: demo_table_inv)
qed

theorem phase_machine_steps_witness:
  "\<exists>c'. table_step demo_config demo_table c' \<and> phase c' = PhaseReveal \<and> phaseToken c' = 4"
proof -
  have rng: "rng_ok demo_config" using crypto.source_rng_ok demo_config_simps(3) by blast
  obtain c' where c': "advancePhase demo_config 7 demo_table = Some c'" "phase c' = PhaseReveal"
    using advance_spinning [OF demo_table_inv(1), of 17 demo_config 7] by (auto simp: demo_table_def)
  then have step: "table_step demo_config demo_table c'"
    by (intro table_step.Tick) (auto simp: demo_table_def NewCoordinator_def)
  have "phaseToken c' = 4"
    using phase_machine_steps [OF step demo_table_inv(1) rng] c'(2) by (simp add: demo_table_def)
  with step c' show ?thesis by blast
qed

text \<open>
  C10: Settlement.  When the spin is revealed on a healthy database, every player's spendable
  balance grows by exactly the sum of the gross returns of their pending bets (a return that
  wrapped to a negative number counts as nothing), nobody else's changes, and the outcome is
  appended to the history.  The pending bets are still there afterwards.
\<close>

theorem settlement_pays_winners:
  assumes "table_inv c" and "phase c = PhaseSpinning" and "winning c = Some p"
    and "cWallet cfg = Some bank_wallet" and "fine (money c)"
    and "\<forall>u. spendable (money c) u + winnings_of p (pendingBets c) u \<le> wallet_cap"
  shows "\<exists>c'. advancePhase cfg now c = Some c' \<and> phase c' = PhaseReveal
    \<and> (\<forall>u. spendable (money c') u = spendable (money c) u + winnings_of p (pendingBets c) u)
    \<and> ring_contents (history c') = last_n 100 (ring_contents (history c) @ [p])
    \<and> pendingBets c' = pendingBets c"
proof -
  obtain c' where c': "advancePhase cfg now c = Some c'" "phase c' = PhaseReveal"
    "pendingBets c' = pendingBets c"
    "ring_contents (history c') = last_n 100 (ring_contents (history c) @ [p])"
    "Some (money c') = map_option fst (settle_loop cfg p (pendingBets c) (money c) [] [])"
    using advance_spinning [OF assms(1-3), of cfg now] by blast
  obtain r where r: "settle_loop cfg p (pendingBets c) (money c) [] [] = Some r" "fst r = money c'"
    using c'(5) by (cases "settle_loop cfg p (pendingBets c) (money c) [] []") simp_all
  then obtain mvs ds where "settle_loop cfg p (pendingBets c) (money c) [] [] = Some (money c', mvs, ds)"
    by (cases r) auto
  with settle_loop_pays [OF this assms(4-6)] c' show ?thesis by blast
qed

theorem settlement_pays_winners_witness:
  "\<exists>c'. advancePhase demo_config 7 demo_table = Some c'
    \<and> spendable (money c') 1 = 460 \<and> spendable (money c') 2 = 100"
proof -
  have "winnings_of 17 (pendingBets demo_table) u \<le> 360" for u
    by (simp add: demo_table_def demo_gross)
  then have "\<forall>u. spendable (money demo_table) u + winnings_of 17 (pendingBets demo_table) u \<le> wallet_cap"
    unfolding demo_table_inv(3) wallet_cap_def by (smt (verit))
  moreover have "phase demo_table = PhaseSpinning" "winning demo_table = Some 17"
    by (simp_all add: demo_table_def)
  ultimately obtain c' where "advancePhase demo_config 7 demo_table = Some c'"
    "\<forall>u. spendable (money c') u = spendable (money demo_table) u + winnings_of 17 (pendingBets demo_table) u"
    using settlement_pays_winners [OF demo_table_inv(1) _ _ demo_config_simps(1) demo_table_inv(2)] by blast
  moreover have "winnings_of 17 (pendingBets demo_table) 1 = 360" "winnings_of 17 (pendingBets demo_table) 2 = 0"
    by (simp_all add: demo_table_def demo_gross) (simp_all add: demo_bet_def)
  ultimately show ?thesis by (auto simp: demo_table_inv)
qed

subsection \<open>The ledger row\<close>

definition gross_sum :: "int \<Rightarrow> userBet list \<Rightarrow> int \<Rightarrow> int" where
  "gross_sum p ubs u = (\<Sum>ub\<leftarrow>ubs. if uUserID ub = u then gross_of p ub else 0)"

definition bettor :: "userBet list \<Rightarrow> int \<Rightarrow> bool" where
  "bettor ubs u \<longleftrightarrow> (\<exists>ub \<in> set ubs. uUserID ub = u)"

text \<open>The movements so far: one per bettor, under its own id, with the int32 sums.\<close>

definition moves_of :: "int \<Rightarrow> userBet list \<Rightarrow> (int \<times> PlayerMovement) list \<Rightarrow> bool" where
  "moves_of p ubs mvs \<longleftrightarrow> distinct (map fst mvs)
     \<and> (\<forall>u. (map_of mvs u \<noteq> None) = bettor ubs u)
     \<and> (\<forall>(u, mv) \<in> set mvs. mUserID mv = u \<and> Wagered mv = i32 (stakes_of ubs u)
          \<and> Payout mv = i32 (gross_sum p ubs u))"

lemma moves_of_step:
  assumes mv: "moves_of p ubs mvs" and g: "GrossReturn p (uBet ub) = Some g"
  defines "m0 \<equiv> (case map_of mvs (uUserID ub) of Some mv \<Rightarrow> mv
      | None \<Rightarrow> \<lparr>mUserID = uUserID ub, mHandle = uHandle ub, Wagered = 0, Payout = 0, Stack = 0\<rparr>)"
  shows "moves_of p (ubs @ [ub]) (AList.update (uUserID ub)
      (m0\<lparr>Wagered := i32 (Wagered m0 + Amount (uBet ub)), Payout := i32 (Payout m0 + g)\<rparr>) mvs)"
proof -
  let ?u = "uUserID ub"
  let ?m1 = "m0\<lparr>Wagered := i32 (Wagered m0 + Amount (uBet ub)), Payout := i32 (Payout m0 + g)\<rparr>"
  have none: "stakes_of vs u = 0 \<and> gross_sum p vs u = 0" if "\<not> bettor vs u" for vs u
    using that by (induction vs) (auto simp: bettor_def gross_sum_def)
  have m0: "mUserID m0 = ?u \<and> i32 (Wagered m0 + x) = i32 (stakes_of ubs ?u + x)
      \<and> i32 (Payout m0 + x) = i32 (gross_sum p ubs ?u + x)" for x
  proof (cases "map_of mvs ?u")
    case None
    moreover have "(map_of mvs ?u \<noteq> None) = bettor ubs ?u" using mv unfolding moves_of_def by blast
    ultimately have "\<not> bettor ubs ?u" by simp
    with None none show ?thesis by (simp add: m0_def)
  next
    case (Some y)
    then have "(?u, y) \<in> set mvs" by (rule map_of_SomeD)
    with mv have "mUserID y = ?u" "Wagered y = i32 (stakes_of ubs ?u)" "Payout y = i32 (gross_sum p ubs ?u)"
      by (auto simp: moves_of_def)
    with Some show ?thesis by (simp add: m0_def i32_add_left)
  qed
  have snoc: "stakes_of (ubs @ [ub]) u = stakes_of ubs u + (if ?u = u then Amount (uBet ub) else 0)"
    "gross_sum p (ubs @ [ub]) u = gross_sum p ubs u + (if ?u = u then g else 0)" for u
    using g by (simp_all add: stakes_of_def gross_sum_def gross_of_def)
  have d: "distinct (map fst (AList.update ?u ?m1 mvs))"
    using mv by (intro distinct_update) (simp add: moves_of_def)
  have k: "(map_of (AList.update ?u ?m1 mvs) u \<noteq> None) = bettor (ubs @ [ub]) u" for u
    using mv by (auto simp: moves_of_def update_conv bettor_def)
  have e: "mUserID x = u \<and> Wagered x = i32 (stakes_of (ubs @ [ub]) u)
      \<and> Payout x = i32 (gross_sum p (ubs @ [ub]) u)"
    if "(u, x) \<in> set (AList.update ?u ?m1 mvs)" for u x
  proof -
    have "map_of (AList.update ?u ?m1 mvs) u = Some x" using d that by simp
    then have "if u = ?u then x = ?m1 else map_of mvs u = Some x"
      by (simp add: update_conv split: if_splits)
    then show ?thesis
      using mv m0 by (auto simp: snoc moves_of_def dest: map_of_SomeD split: if_splits)
  qed
  show ?thesis unfolding moves_of_def using d k e by blast
qed

lemma settle_loop_moves:
  assumes "settle_loop cfg p ubs m mvs ds = Some (m', mvs', ds')" and "moves_of p old mvs"
  shows "moves_of p (old @ ubs) mvs' \<and> length ds' = length ds + length ubs"
  using assms
proof (induction ubs arbitrary: m mvs ds old)
  case Nil
  then show ?case by simp
next
  case (Cons ub ubs)
  obtain g where g: "GrossReturn p (uBet ub) = Some g"
    using Cons.prems(1) by (auto split: option.splits)
  from Cons.IH [OF _ moves_of_step [OF Cons.prems(2) g]] Cons.prems(1) g show ?case
    by (fastforce simp: Let_def)
qed

lemma settleRound_spawns:
  assumes inv: "table_inv c" and w: "winning c = Some p" and led: "cLedger cfg" and bets: "pendingBets c \<noteq> []"
    and p: "valid_pocket p"
  shows "\<exists>c' s. settleRound cfg c = Some c' \<and> spawned c' = spawned c @ [s]"
proof -
  obtain c' where c': "settleRound cfg c = Some c'" using settleRound_inv [OF inv w, of cfg] by blast
  obtain m mvs ds where l: "settle_loop cfg p (pendingBets c) (money c) [] [] = Some (m, mvs, ds)"
    using settle_loop_total [OF p, of cfg "pendingBets c" "money c" "[]" "[]"] by auto
  have "moves_of p [] []" by (simp add: moves_of_def bettor_def)
  from settle_loop_moves [OF l this] have "moves_of p (pendingBets c) mvs" by simp
  moreover have "bettor (pendingBets c) (uUserID (hd (pendingBets c)))" using bets by (cases "pendingBets c") (auto simp: bettor_def)
  ultimately have "mvs \<noteq> []" by (auto simp: moves_of_def)
  then show ?thesis using c' l w led by (auto simp: settleRound_def Let_def split: option.splits)
qed

text \<open>
  The audit row of a spin.  With a ledger, settling a round with bets starts exactly one
  ledger write, under the round's number, with exactly one movement per player who bet, whose
  wagered and payout amounts are the int32 sums of that player's stakes and gross returns, and
  with one detail entry per bet; a round without bets writes nothing.
\<close>

theorem settlement_ledger_row:
  assumes "table_inv c" and "phase c = PhaseSpinning" and "winning c = Some p" and "cLedger cfg"
  shows "\<exists>c'. advancePhase cfg now c = Some c'
    \<and> (if pendingBets c = [] then spawned c' = spawned c
       else \<exists>s. spawned c' = spawned c @ [s] \<and> HandNumber s = handNumber c
          \<and> distinct (map mUserID (Movements s))
          \<and> mUserID ` set (Movements s) = uUserID ` set (pendingBets c)
          \<and> (\<forall>mv \<in> set (Movements s). Wagered mv = i32 (stakes_of (pendingBets c) (mUserID mv))
               \<and> Payout mv = i32 (gross_sum p (pendingBets c) (mUserID mv)))
          \<and> length (sd_bets (Details s)) = length (pendingBets c))"
proof -
  let ?c1 = "c\<lparr>phase := PhaseReveal, phaseToken := i64 (phaseToken c + 1),
                 endsAt := now + dReveal (Durations cfg)\<rparr>"
  have i1: "table_inv ?c1" using assms(1,2)
    by (simp add: table_inv_def hist_ok_def chans_ok_def agg_ok_def phase_ok_def)
  have w1: "winning ?c1 = Some p" using assms(3) by simp
  obtain c2 where c2: "settleRound cfg ?c1 = Some c2" "table_inv c2"
    using settleRound_inv [OF i1 w1, of cfg] by blast
  have p: "valid_pocket p" using assms(1-3) by (auto simp: table_inv_def phase_ok_def)
  obtain m mvs ds where l: "settle_loop cfg p (pendingBets c) (money c) [] [] = Some (m, mvs, ds)"
    using settle_loop_total [OF p, of cfg "pendingBets c" "money c" "[]" "[]"] by auto
  have "moves_of p [] []" by (simp add: moves_of_def bettor_def)
  from settle_loop_moves [OF l this]
  have mo: "moves_of p (pendingBets c) mvs" and ds: "length ds = length (pendingBets c)" by auto
  have ids: "mUserID (snd x) = fst x" if "x \<in> set mvs" for x
    using mo that by (auto simp: moves_of_def)
  then have users: "map mUserID (map snd mvs) = map fst mvs" by simp
  have fsts: "fst ` set mvs = uUserID ` set (pendingBets c)"
  proof -
    have "u \<in> fst ` set mvs \<longleftrightarrow> u \<in> uUserID ` set (pendingBets c)" for u
      using mo by (auto simp: moves_of_def bettor_def map_of_eq_None_iff)
    then show ?thesis by blast
  qed
  obtain col where col: "pocket_color p = Some col" using pocket_color_total [OF p] by auto
  define row where "row = \<lparr>TableID = 1, GameKey = Gamekey, HandNumber = handNumber c,
      Movements = map snd mvs, Details = \<lparr>winning_pocket = pocket_number p,
      sd_color = color_string col, sd_bets = ds\<rparr>\<rparr>"
  have "mvs = [] \<longleftrightarrow> pendingBets c = []" using fsts by (metis image_is_empty set_empty)
  then have sp: "spawned c2 = (if pendingBets c = [] then spawned c else spawned c @ [row])"
    using c2(1) l w1 col assms(3,4) by (auto simp: settleRound_def row_def Let_def split: option.splits)
  obtain c3 where "advancePhase cfg now c = Some c3" "spawned c3 = spawned c2"
    using broadcast_inv [OF c2(2)] c2(1) assms(2) by (auto simp: advancePhase_def)
  moreover have "distinct (map mUserID (Movements row))"
    unfolding row_def Settlement.select_convs users using mo by (simp add: moves_of_def)
  moreover have "mUserID ` set (Movements row) = uUserID ` set (pendingBets c)"
    using fsts users by (metis (no_types, lifting) Settlement.select_convs(4) list.set_map row_def)
  moreover have "\<forall>mv \<in> set (Movements row). Wagered mv = i32 (stakes_of (pendingBets c) (mUserID mv))
      \<and> Payout mv = i32 (gross_sum p (pendingBets c) (mUserID mv))"
    using mo by (fastforce simp: row_def moves_of_def)
  ultimately show ?thesis using sp ds by (auto simp: row_def)
qed

theorem settlement_ledger_row_witness:
  "\<exists>c' s. advancePhase demo_config 7 demo_table = Some c' \<and> spawned c' = [s]
    \<and> mUserID ` set (Movements s) = {1, 2} \<and> length (sd_bets (Details s)) = 2"
proof -
  have "phase demo_table = PhaseSpinning" "winning demo_table = Some 17"
    by (simp_all add: demo_table_def)
  from settlement_ledger_row [OF demo_table_inv(1) this demo_config_simps(2), of 7]
  obtain c' where a: "advancePhase demo_config 7 demo_table = Some c'"
    and b: "\<exists>s. spawned c' = [s] \<and> mUserID ` set (Movements s) = uUserID ` set (pendingBets demo_table)
      \<and> length (sd_bets (Details s)) = length (pendingBets demo_table)"
    by (auto simp: demo_table_def NewCoordinator_def)
  have "uUserID ` set (pendingBets demo_table) = {1, 2}" "length (pendingBets demo_table) = 2"
    by (simp_all add: demo_table_def demo_bet_def)
  with a b show ?thesis by auto
qed

section \<open>Shutdown\<close>

text \<open>
  Cancelling the table's context on a healthy database credits every pending bet's stake to
  its owner and closes every subscriber's channel.  That is the intended refund in Betting,
  NoMoreBets and Spinning, when the stakes have been debited and nothing has been paid.
\<close>

theorem shutdown_refunds_stakes:
  assumes "table_inv c" and "fine (money c)" and "onShutdownRefund c = Some (registry_refund (Some bank_wallet))"
    and "\<forall>u. spendable (money c) u + stakes_of (pendingBets c) u \<le> wallet_cap"
  shows "(\<forall>u. spendable (money (run_shutdown c)) u = spendable (money c) u + stakes_of (pendingBets c) u)
    \<and> pendingBets (run_shutdown c) = [] \<and> subs (run_shutdown c) = []
    \<and> (\<forall>s. if s \<in> set (subs c) then closed (chans (run_shutdown c) s) else True)"
proof -
  have pos: "\<forall>ub \<in> set (pendingBets c). 0 < Amount (uBet ub)"
    using assms(1) by (simp add: table_inv_def phase_ok_def)
  have closes: "(\<forall>s \<in> set ss. closed (fold (\<lambda>s ch. if closed (ch s) then ch
        else ch(s := (ch s)\<lparr>closed := True\<rparr>)) ss ch s))
    \<and> (\<forall>s. closed (ch s) \<longrightarrow> closed (fold (\<lambda>s ch. if closed (ch s) then ch
        else ch(s := (ch s)\<lparr>closed := True\<rparr>)) ss ch s))" for ss ch
  proof (induction ss arbitrary: ch)
    case Nil
    then show ?case by simp
  next
    case (Cons a ss)
    from Cons.IH [of "if closed (ch a) then ch else ch(a := (ch a)\<lparr>closed := True\<rparr>)"]
    show ?case by (auto split: if_splits)
  qed
  show ?thesis
    using refund_pays [OF assms(2) pos assms(4)] closes [of "subs c" "chans c"] assms(3)
    by (auto simp: run_shutdown_def shutdownSubs_def drainAndRefund_def)
qed

theorem shutdown_refunds_stakes_witness:
  "spendable (money (run_shutdown demo_table)) 2 = 120"
proof -
  have "stakes_of (pendingBets demo_table) u \<le> 30" for u
    by (simp add: demo_table_def demo_bet_def)
  then have "\<forall>u. spendable (money demo_table) u + stakes_of (pendingBets demo_table) u \<le> wallet_cap"
    unfolding demo_table_inv(3) wallet_cap_def by (smt (verit))
  moreover have "onShutdownRefund demo_table = Some (registry_refund (Some bank_wallet))"
    by (simp add: demo_table_def)
  ultimately have "spendable (money (run_shutdown demo_table)) 2
      = spendable (money demo_table) 2 + stakes_of (pendingBets demo_table) 2"
    using shutdown_refunds_stakes [OF demo_table_inv(1,2)] by blast
  then show ?thesis by (simp add: demo_table_inv) (simp add: demo_table_def demo_bet_def)
qed

text \<open>
  But the bets of a settled round stay pending until the next Betting phase, so a shutdown
  (or a drain by \<open>Persist\<close>) during Reveal pays them a second time: every player gets the gross
  return of the round and all of its stakes back, losers included.
\<close>

theorem reveal_shutdown_pays_twice:
  assumes "table_inv c" and "phase c = PhaseSpinning" and "winning c = Some p"
    and "cWallet cfg = Some bank_wallet" and "fine (money c)"
    and "onShutdownRefund c = Some (registry_refund (Some bank_wallet))"
    and "\<forall>u. spendable (money c) u + winnings_of p (pendingBets c) u + stakes_of (pendingBets c) u
      \<le> wallet_cap"
  shows "\<exists>c1. advancePhase cfg now c = Some c1 \<and> phase c1 = PhaseReveal
    \<and> (\<forall>u. spendable (money (run_shutdown c1)) u
         = spendable (money c) u + winnings_of p (pendingBets c) u + stakes_of (pendingBets c) u)
    \<and> (\<exists>c2. persist_refund cfg now c1 = Some c2
         \<and> (\<forall>u. spendable (money c2) u
              = spendable (money c) u + winnings_of p (pendingBets c) u + stakes_of (pendingBets c) u))"
proof -
  have pos: "\<forall>ub \<in> set (pendingBets c). 0 < Amount (uBet ub)"
    using assms(1) by (simp add: table_inv_def phase_ok_def)
  then have nn: "0 \<le> stakes_of (pendingBets c) u" for u
    unfolding stakes_of_def by (intro sum_list_nonneg) (auto simp: less_imp_le)
  have room: "\<forall>u. spendable (money c) u + winnings_of p (pendingBets c) u \<le> wallet_cap"
    using assms(7) nn by (smt (verit))
  obtain c1 where c1: "advancePhase cfg now c = Some c1" "phase c1 = PhaseReveal"
    "pendingBets c1 = pendingBets c" "onShutdownRefund c1 = onShutdownRefund c"
    "Some (money c1) = map_option fst (settle_loop cfg p (pendingBets c) (money c) [] [])"
    using advance_spinning [OF assms(1-3), of cfg now] by blast
  obtain r where r: "settle_loop cfg p (pendingBets c) (money c) [] [] = Some r" "fst r = money c1"
    using c1(5) by (cases "settle_loop cfg p (pendingBets c) (money c) [] []") simp_all
  then obtain mvs ds where "settle_loop cfg p (pendingBets c) (money c) [] [] = Some (money c1, mvs, ds)"
    by (cases r) auto
  from settle_loop_pays [OF this assms(4,5) room]
  have s: "fine (money c1)"
    "\<And>u. spendable (money c1) u = spendable (money c) u + winnings_of p (pendingBets c) u" by auto
  have "\<forall>u. spendable (money c1) u + stakes_of (pendingBets c) u \<le> wallet_cap"
    using assms(7) s(2) by simp
  note rp = refund_pays [OF s(1) pos this]
  have "spendable (money (run_shutdown c1)) u
      = spendable (money c) u + winnings_of p (pendingBets c) u + stakes_of (pendingBets c) u" for u
    using rp c1 assms(6) s(2) by (simp add: run_shutdown_def shutdownSubs_def drainAndRefund_def)
  moreover have "\<exists>c2. persist_refund cfg now c1 = Some c2
         \<and> (\<forall>u. spendable (money c2) u
              = spendable (money c) u + winnings_of p (pendingBets c) u + stakes_of (pendingBets c) u)"
    using rp c1 assms(4) s(2) by (simp add: persist_refund_def process_def)
  ultimately show ?thesis using c1 by blast
qed

theorem reveal_shutdown_pays_twice_witness:
  "\<exists>c1. advancePhase demo_config 7 demo_table = Some c1
    \<and> spendable (money demo_table) 2 = 100 \<and> spendable (money (run_shutdown c1)) 2 = 120"
proof -
  have "winnings_of 17 (pendingBets demo_table) u + stakes_of (pendingBets demo_table) u \<le> 390" for u
    by (simp add: demo_table_def demo_gross) (simp add: demo_bet_def)
  then have "\<forall>u. spendable (money demo_table) u + winnings_of 17 (pendingBets demo_table) u
      + stakes_of (pendingBets demo_table) u \<le> wallet_cap"
    unfolding demo_table_inv(3) wallet_cap_def by (smt (verit))
  moreover have "phase demo_table = PhaseSpinning" "winning demo_table = Some 17"
    "onShutdownRefund demo_table = Some (registry_refund (Some bank_wallet))"
    by (simp_all add: demo_table_def)
  ultimately have "\<exists>c1. advancePhase demo_config 7 demo_table = Some c1
    \<and> (\<forall>u. spendable (money (run_shutdown c1)) u
         = spendable (money demo_table) u + winnings_of 17 (pendingBets demo_table) u
           + stakes_of (pendingBets demo_table) u)"
    using reveal_shutdown_pays_twice [OF demo_table_inv(1) _ _ demo_config_simps(1) demo_table_inv(2)]
    by blast
  moreover have "winnings_of 17 (pendingBets demo_table) 2 = 0" "stakes_of (pendingBets demo_table) 2 = 20"
    by (simp_all add: demo_table_def demo_gross) (simp_all add: demo_bet_def)
  ultimately show ?thesis by (auto simp: demo_table_inv)
qed

section \<open>Restart\<close>

text \<open>
  What \<open>Persist\<close> writes survives a restart: the shape read from a running table and applied
  to a new one gives back the same history, and the new table's first token is larger than
  every token the old one had issued.
\<close>

theorem restart_keeps_history:
  assumes "table_inv c" and "0 \<le> phaseToken c" and "phaseToken c < 9223372036854775807"
  shows "\<exists>shape c1 c2. process cfg now CmdPersistShape c = Some (ReplyShape shape, c)
    \<and> ApplyPersistShape shape (NewCoordinator w s) = Some c1
    \<and> All (history c1) = All (history c) \<and> startBetting cfg now c1 = Some c2
    \<and> phaseToken c2 = phaseToken c + 1"
proof -
  let ?items = "ring_contents (history c)"
  have h: "ring_ok (history c)" "list_all valid_pocket ?items" "length ?items \<le> 100"
    using assms(1) by (auto simp: table_inv_def hist_ok_def ring_ok_def)
  let ?shape = "\<lparr>sHistory = ?items, sPhaseToken = phaseToken c\<rparr>"
  have p: "process cfg now CmdPersistShape c = Some (ReplyShape ?shape, c)"
    using All_ring [OF h(1)] by (simp add: process_def)
  obtain r where r: "Replace empty_ring ?items = Some r" "ring_ok r" "ring_contents r = ?items"
    using Replace_ring [of empty_ring ?items] h(3) by (auto simp: empty_ring_def)
  let ?c1 = "(NewCoordinator w s)\<lparr>history := r, phaseToken := phaseToken c\<rparr>"
  have a: "ApplyPersistShape ?shape (NewCoordinator w s) = Some ?c1"
    using r assms(2) by (auto simp: ApplyPersistShape_def NewCoordinator_def)
  have "hist_ok ?c1" "chans_ok ?c1"
    using r h(2) by (simp_all add: hist_ok_def chans_ok_def NewCoordinator_def)
  then obtain c2 where "startBetting cfg now ?c1 = Some c2" "phaseToken c2 = i64 (phaseToken c + 1)"
    using startBetting_inv [of ?c1 cfg now] by auto
  moreover have "i64 (phaseToken c + 1) = phaseToken c + 1" using assms by (intro i64_id) auto
  moreover have "All (history ?c1) = All (history c)" using All_ring r h by simp
  ultimately show ?thesis using p a by (metis)
qed

theorem restart_keeps_history_witness:
  "\<exists>shape c1. process demo_config 0 CmdPersistShape demo_table = Some (ReplyShape shape, demo_table)
    \<and> ApplyPersistShape shape (NewCoordinator demo_bank (\<lambda>_ :: nat. 0 :: 64 word)) = Some c1"
  using restart_keeps_history [OF demo_table_inv(1), of demo_config 0 demo_bank "\<lambda>_ :: nat. 0 :: 64 word"]
  by (auto simp: demo_table_def)

section \<open>The actor's mailbox\<close>

text \<open>
  The command channel holds 32 commands.  A caller's \<open>select\<close> enqueues as soon as there is room
  and then waits for the reply with no timeout.  \<open>mailbox\<close> abstracts from what the commands do:
  \<open>running\<close> is the actor's goroutine, \<open>queued\<close> the commands in the channel by the number of the
  call that sent them, and \<open>answered\<close> the calls that got their reply.
\<close>

record mailbox =
  running :: bool
  queued :: "nat list"
  answered :: "nat set"

inductive mail_step :: "mailbox \<Rightarrow> mailbox \<Rightarrow> bool" where
  Enqueue: "length (queued m) < 32 \<Longrightarrow> mail_step m (m\<lparr>queued := queued m @ [k]\<rparr>)"
| Serve: "running m \<Longrightarrow> queued m = k # ks
    \<Longrightarrow> mail_step m (m\<lparr>queued := ks, answered := insert k (answered m)\<rparr>)"
| Cancelled: "running m \<Longrightarrow> mail_step m (m\<lparr>running := False\<rparr>)"

inductive mail_steps :: "mailbox \<Rightarrow> mailbox \<Rightarrow> bool" where
  Refl: "mail_steps m m"
| Trans: "mail_steps m m1 \<Longrightarrow> mail_step m1 m2 \<Longrightarrow> mail_steps m m2"

text \<open>
  A call that reaches the table after its context was cancelled never returns: once \<open>Run\<close>
  has stopped, every command is still accepted while the channel has room, and none is ever
  answered, whatever happens next.  \<open>main\<close> calls \<open>Registry.Persist\<close>, whose first act is such a
  call, after the same context's cancellation, so a shutdown that the actor notices first hangs
  there and the history is not written.
\<close>

theorem stopped_actor_never_answers:
  assumes "mail_steps m m'" and "\<not> running m"
  shows "\<not> running m' \<and> answered m' = answered m \<and> (\<exists>ks. queued m' = queued m @ ks)"
  using assms
proof (induction)
  case (Refl m)
  then show ?case by simp
next
  case (Trans m m1 m2)
  then have "\<not> running m1" "answered m1 = answered m" "\<exists>ks. queued m1 = queued m @ ks" by auto
  with Trans.hyps(2) show ?case by cases auto
qed

theorem stopped_actor_never_answers_witness:
  "\<exists>m m'. mail_steps m m' \<and> \<not> running m \<and> queued m' = [7] \<and> 7 \<notin> answered m'"
proof -
  let ?m = "\<lparr>running = False, queued = [], answered = {}\<rparr>"
  have s: "mail_steps ?m (?m\<lparr>queued := queued ?m @ [7]\<rparr>)"
    by (intro mail_steps.Trans [OF mail_steps.Refl] mail_step.Enqueue) simp
  have "\<not> running ?m" by simp
  from stopped_actor_never_answers [OF s this] s show ?thesis
    by (intro exI [of _ ?m] exI [of _ "?m\<lparr>queued := queued ?m @ [7]\<rparr>"]) simp
qed

end
