(* ===== verification/RouletteLedger.thy ===== *)
theory RouletteLedger
  imports RouletteTable Ledger
begin

text \<open>
  The roulette table and the audit ledger together: what the numbering of the rounds
  (\<^verbatim>\<open>coordinator.go\<close>, \<^verbatim>\<open>snapshot.go\<close>) and the unique index of the ledger's table do to each other
  after a restart.
\<close>

lemma roulette_broadcast_hand:
  "RouletteTable.broadcast c = Some c' \<Longrightarrow> RouletteTable.Coordinator.handNumber c' = RouletteTable.Coordinator.handNumber c"
  by (auto simp: RouletteTable.broadcast_def split: option.splits)

text \<open>
  the snapshot of the roulette table keeps the history and the phase token and forgets the
  hand number: after every boot the rounds are numbered from 1 again, and the ledger, where the
  table's id and the round's number must be unique, refuses each round whose number an earlier run
  has used, so that no row of the round is written.
\<close>
theorem roulette_restart_loses_ledger:
  assumes "ApplyPersistShape shape (RouletteTable.NewCoordinator w s) = Some c1"
    and "startBetting conf now c1 = Some c2"
    and "RouletteTable.settleRound conf c3 = Some c4" and "spawned c4 = spawned c3 @ [st]"
    and "h \<in> set (hand_rows db)" and "hand_game h = Gamekey" and "hand_table h = 1"
    and "hand_no h = RouletteTable.Coordinator.handNumber c3"
  shows "RouletteTable.Coordinator.handNumber c2 = 1 \<and> hand_rows (snd (SettleHand db st)) = hand_rows db
    \<and> round_rows (snd (SettleHand db st)) = round_rows db"
proof -
  have "RouletteTable.Coordinator.handNumber c1 = 0"
    using assms(1) by (auto simp: ApplyPersistShape_def RouletteTable.NewCoordinator_def)
  then have 2: "RouletteTable.Coordinator.handNumber c2 = 1"
    using assms(2) by (auto simp: startBetting_def i64_id dest!: roulette_broadcast_hand)
  have "TableID st = 1 \<and> GameKey st = Gamekey \<and> HandNumber st = RouletteTable.Coordinator.handNumber c3"
    using assms(3,4) by (auto simp: RouletteTable.settleRound_def Let_def split: option.splits if_splits)
  then have "hand_taken db st" using assms(5-8) by (auto simp: hand_taken_def list_ex_iff)
  with 2 show ?thesis
    using SettleHand_taken [of db st] by (cases "filter (\<lambda>m. mUserID m \<noteq> 0) (Movements st) = []")
      (simp_all add: SettleHand_def Let_def)
qed

lemma first_round_exists:
  "\<exists>c2. startBetting demo_config 0 (RouletteTable.NewCoordinator w (s :: entropy)) = Some c2"
  by (simp add: startBetting_def RouletteTable.broadcast_def buildPhaseMsg_def RouletteTable.NewCoordinator_def
      Slice_def empty_ring_def)

theorem roulette_restart_loses_ledger_witness:
  "\<exists>c4 st. RouletteTable.settleRound demo_config RouletteTable.demo_table = Some c4 \<and> spawned c4 = [st]
    \<and> round_rows (snd (SettleHand \<lparr>hand_rows = [\<lparr>hand_id = 1, hand_game = Gamekey, hand_table = 1,
           hand_no = 1, hand_details = \<lparr>winning_pocket = ''17'', sd_color = ''black'', sd_bets = []\<rparr>\<rparr>], round_rows = [], next_hand = 2, lfaults = (\<lambda>_. False),
           lstmts = 0\<rparr> st)) = []"
proof -
  let ?c0 = "RouletteTable.NewCoordinator demo_bank (\<lambda>_. 0) :: (bank, entropy) RouletteTable.Coordinator"
  have a: "ApplyPersistShape \<lparr>sHistory = [], sPhaseToken = 0\<rparr> ?c0 = Some ?c0"
    by (simp add: ApplyPersistShape_def RouletteTable.NewCoordinator_def Replace_def empty_ring_def)
  obtain c2 where b: "startBetting demo_config 0 ?c0 = Some c2" using first_round_exists by blast
  have d: "RouletteTable.Coordinator.handNumber RouletteTable.demo_table = 1" "spawned RouletteTable.demo_table = []"
    "winning RouletteTable.demo_table = Some 17" "pendingBets RouletteTable.demo_table \<noteq> []"
    by (simp_all add: RouletteTable.demo_table_def RouletteTable.NewCoordinator_def)
  have "valid_pocket 17" by (simp add: valid_pocket_def)
  from settleRound_spawns [OF RouletteTable.demo_table_inv(1) d(3) demo_config_simps(2) d(4) this]
  obtain c4 st where c: "RouletteTable.settleRound demo_config RouletteTable.demo_table = Some c4" "spawned c4 = [st]"
    using d(2) by auto
  let ?h = "\<lparr>hand_id = 1, hand_game = Gamekey, hand_table = 1, hand_no = 1,
      hand_details = \<lparr>winning_pocket = ''17'', sd_color = ''black'', sd_bets = []\<rparr>\<rparr>"
  let ?db = "\<lparr>hand_rows = [?h], round_rows = [], next_hand = 2, lfaults = (\<lambda>_. False), lstmts = 0\<rparr>"
  have "spawned c4 = spawned RouletteTable.demo_table @ [st]" using c(2) d(2) by simp
  from roulette_restart_loses_ledger [OF a b c(1) this, of ?h ?db] d(1) have "round_rows (snd (SettleHand ?db st)) = []"
    by simp
  with c show ?thesis by blast
qed

end
