(* ===== verification/BestHand.thy ===== *)
theory BestHand
  imports Cards "HOL-Library.List_Lexorder"
begin

unbundle bit_operations_syntax

text \<open>
  The best five cards of a longer hand (\<open>EvaluateBest\<close>, \<open>EvaluateBestIndices\<close>,
  \<open>tiebreakOf\<close>, \<open>combinations\<close> of \<open>internal/doors/cards/cards.go\<close>): the packed tie-break,
  the enumeration of the five-element index sets with its cache, and the exhaustive search.
\<close>

section \<open>The tie-break\<close>

fun tb_loop :: "int \<Rightarrow> int list \<Rightarrow> int" where
  "tb_loop tb [] = tb"
| "tb_loop tb (r # rs) = tb_loop (push_bit 4 tb OR r) rs"

definition tiebreakOf :: "card list \<Rightarrow> int" where
  "tiebreakOf hand = tb_loop 0 (rev (sort (map rank hand)))"

lemma push_or_eq_add:
  assumes "0 \<le> r" and "r < 16"
  shows "push_bit 4 tb OR r = tb * 16 + (r::int)"
proof -
  have "take_bit 4 r = r"
    using assms by (simp add: take_bit_int_eq_self_iff)
  then have "push_bit 4 tb AND r = 0"
    by (metis bit_eq_iff bit_push_bit_iff bit_and_iff bit_take_bit_iff bit_0_eq bot_apply
        bot_bool_def not_le)
  then have "push_bit 4 tb OR r = push_bit 4 tb + r"
    by (simp add: disjunctive_add_eq_or)
  then show ?thesis by (simp add: push_bit_eq_mult)
qed

definition nibbles :: "int list \<Rightarrow> bool" where
  "nibbles rs \<longleftrightarrow> (\<forall>r \<in> set rs. 0 \<le> r \<and> r < 16)"

lemma tb_loop_eq:
  "nibbles rs \<Longrightarrow> tb_loop tb rs = tb * 16 ^ length rs + tb_loop 0 rs"
proof (induction rs arbitrary: tb)
  case Nil
  then show ?case by simp
next
  case (Cons r rs)
  then have r: "0 \<le> r" "r < 16" and rs: "nibbles rs"
    by (simp_all add: nibbles_def)
  have "tb_loop tb (r # rs) = tb_loop (tb * 16 + r) rs"
    by (simp add: push_or_eq_add [OF r])
  also have "\<dots> = (tb * 16 + r) * 16 ^ length rs + tb_loop 0 rs"
    by (rule Cons.IH [OF rs])
  also have "\<dots> = tb * 16 ^ length (r # rs) + (r * 16 ^ length rs + tb_loop 0 rs)"
    by (simp add: algebra_simps)
  also have "r * 16 ^ length rs + tb_loop 0 rs = tb_loop r rs"
    using Cons.IH [OF rs, of r] by simp
  also have "tb_loop r rs = tb_loop 0 (r # rs)"
    by simp
  finally show ?case .
qed

lemma tb_loop_bounds: "nibbles rs \<Longrightarrow> 0 \<le> tb_loop 0 rs \<and> tb_loop 0 rs < 16 ^ length rs"
proof (induction rs)
  case Nil
  then show ?case by simp
next
  case (Cons r rs)
  then have r: "0 \<le> r" "r < 16" and rs: "nibbles rs"
    by (simp_all add: nibbles_def)
  have e: "tb_loop 0 (r # rs) = r * 16 ^ length rs + tb_loop 0 rs"
    using tb_loop_eq [OF rs, of r] by simp
  have "r * 16 ^ length rs \<le> 15 * 16 ^ length rs"
    using r by (intro mult_right_mono) simp_all
  moreover have "0 \<le> r * 16 ^ length rs"
    using r by simp
  moreover have "(16::int) ^ length (r # rs) = 16 * 16 ^ length rs"
    by simp
  ultimately show ?case
    unfolding e using Cons.IH [OF rs] by linarith
qed

lemma tb_loop_less_iff:
  assumes "length xs = length ys" and "nibbles xs" and "nibbles ys"
  shows "tb_loop 0 xs < tb_loop 0 ys \<longleftrightarrow> xs < ys"
  using assms
proof (induction xs ys rule: list_induct2)
  case Nil
  then show ?case by simp
next
  case (Cons x xs y ys)
  then have xs: "nibbles xs" and ys: "nibbles ys"
    by (simp_all add: nibbles_def)
  let ?p = "(16::int) ^ length ys"
  have ex: "tb_loop 0 (x # xs) = x * ?p + tb_loop 0 xs"
    and ey: "tb_loop 0 (y # ys) = y * ?p + tb_loop 0 ys"
    using tb_loop_eq [OF xs, of x] tb_loop_eq [OF ys, of y] Cons.hyps by simp_all
  note bx = tb_loop_bounds [OF xs] and bY = tb_loop_bounds [OF ys]
  have step: "a * ?p + u < b * ?p + v" if "a < b" "u < ?p" "0 \<le> v" for a b u v :: int
  proof -
    have "(a + 1) * ?p \<le> b * ?p"
      using that(1) by (intro mult_right_mono) simp_all
    with that show ?thesis by (simp add: algebra_simps)
  qed
  consider "x < y" | "x = y" | "y < x" by linarith
  then show ?case
  proof cases
    case 1
    then have "tb_loop 0 (x # xs) < tb_loop 0 (y # ys)"
      unfolding ex ey using bx bY Cons.hyps by (intro step) auto
    with 1 show ?thesis by simp
  next
    case 2
    then show ?thesis using Cons.IH [OF xs ys] ex ey by simp
  next
    case 3
    then have "tb_loop 0 (y # ys) < tb_loop 0 (x # xs)"
      unfolding ex ey using bx bY Cons.hyps by (intro step) auto
    with 3 show ?thesis by auto
  qed
qed

definition desc_ranks :: "card list \<Rightarrow> int list" where
  "desc_ranks hand = rev (sort (map rank hand))"

definition nibble_hand :: "card list \<Rightarrow> bool" where
  "nibble_hand hand \<longleftrightarrow> (\<forall>c \<in> set hand. 0 \<le> rank c \<and> rank c < 16)"

lemma nibbles_desc: "nibble_hand hand \<Longrightarrow> nibbles (desc_ranks hand)"
  by (auto simp: nibbles_def desc_ranks_def nibble_hand_def)

lemma tiebreakOf_less_iff:
  assumes "length h = length h'" and "nibble_hand h" and "nibble_hand h'"
  shows "tiebreakOf h < tiebreakOf h' \<longleftrightarrow> desc_ranks h < desc_ranks h'"
  using tb_loop_less_iff [OF _ nibbles_desc nibbles_desc, of h h'] assms
  by (simp add: tiebreakOf_def desc_ranks_def)

lemma tiebreakOf_bounds:
  "nibble_hand h \<Longrightarrow> 0 \<le> tiebreakOf h \<and> tiebreakOf h < 16 ^ length h"
  using tb_loop_bounds [OF nibbles_desc, of h] by (simp add: tiebreakOf_def desc_ranks_def)

section \<open>Five-element index sets\<close>

text \<open>
  \<open>comb_rec n k start pre\<close> is the closure \<open>rec(start, depth)\<close> with \<open>pre = idx[:depth]\<close>; it
  returns what the call appends to \<open>out\<close>.  The loop \<open>for i := start; i <= n-(k-depth); i++\<close>
  runs over \<open>[start..<Suc n - (k - depth)]\<close>.
\<close>

function comb_rec :: "nat \<Rightarrow> nat \<Rightarrow> nat \<Rightarrow> nat list \<Rightarrow> nat list list" where
  "comb_rec n k start pre =
     (if length pre \<ge> k then [pre]
      else concat (map (\<lambda>i. comb_rec n k (i + 1) (pre @ [i]))
                       [start..<Suc n - (k - length pre)]))"
  by pat_completeness auto
termination
  by (relation "measure (\<lambda>(n, k, start, pre). k - length pre)") auto

declare comb_rec.simps [simp del]

text \<open>
  The package variable \<open>combosCache\<close> is keyed by \<open>n\<close> alone.  \<open>combinations\<close> returns the list
  and the cache it leaves; \<open>combos n\<close> is what every call with \<open>k = 5\<close> returns
  (\<open>combinations_transparent\<close>).
\<close>

type_synonym combo_cache = "nat \<Rightarrow> nat list list option"

definition combinations :: "combo_cache \<Rightarrow> nat \<Rightarrow> nat \<Rightarrow> nat list list \<times> combo_cache" where
  "combinations cache n k =
     (case cache n of
        Some c \<Rightarrow> (c, cache)
      | None \<Rightarrow> (let out = comb_rec n k 0 [] in (out, cache(n \<mapsto> out))))"

definition combos :: "nat \<Rightarrow> nat list list" where
  "combos n = comb_rec n 5 0 []"

definition cache_ok :: "combo_cache \<Rightarrow> bool" where
  "cache_ok cache \<longleftrightarrow> (\<forall>n c. cache n = Some c \<longrightarrow> c = combos n)"

lemma cache_ok_empty: "cache_ok Map.empty"
  by (simp add: cache_ok_def)

lemma combinations_transparent:
  "cache_ok cache \<Longrightarrow>
   fst (combinations cache n 5) = combos n \<and> cache_ok (snd (combinations cache n 5))"
  by (auto simp: cache_ok_def combinations_def combos_def Let_def split: option.splits)

definition index_set :: "nat \<Rightarrow> nat \<Rightarrow> nat list \<Rightarrow> bool" where
  "index_set n k idx \<longleftrightarrow> length idx = k \<and> sorted_wrt (<) idx \<and> (\<forall>i \<in> set idx. i < n)"

lemma sorted_wrt_less_room:
  fixes ys :: "nat list"
  assumes "sorted_wrt (<) ys" and "\<forall>i \<in> set ys. a \<le> i \<and> i < n" and "a \<le> n"
  shows "a + length ys \<le> n"
proof -
  have "set ys \<subseteq> {a..<n}" using assms(2) by auto
  then have "card (set ys) \<le> n - a"
    using card_mono [of "{a..<n}" "set ys"] by simp
  moreover have "card (set ys) = length ys"
    using assms(1) by (metis distinct_card strict_sorted_iff)
  ultimately show ?thesis using assms(3) by simp
qed

lemma set_comb_rec:
  assumes "length pre \<le> k"
  shows "set (comb_rec n k start pre) =
    {pre @ ys | ys. length ys = k - length pre \<and> sorted_wrt (<) ys
                    \<and> (\<forall>i \<in> set ys. start \<le> i \<and> i < n)}"
  using assms
proof (induction n k start pre rule: comb_rec.induct)
  case (1 n k start pre)
  show ?case
  proof (cases "length pre \<ge> k")
    case True
    then show ?thesis using 1(2) by (subst comb_rec.simps) auto
  next
    case False
    let ?m = "k - length pre"
    have IH: "set (comb_rec n k (i + 1) (pre @ [i])) =
        {(pre @ [i]) @ ys | ys. length ys = ?m - 1 \<and> sorted_wrt (<) ys
                                 \<and> (\<forall>j \<in> set ys. i + 1 \<le> j \<and> j < n)}"
      if "i \<in> set [start..<Suc n - ?m]" for i
      using 1(1) [OF False that] False by simp
    have "set (comb_rec n k start pre) =
        (\<Union>i \<in> set [start..<Suc n - ?m]. set (comb_rec n k (i + 1) (pre @ [i])))"
      using False by (subst comb_rec.simps) simp
    also have "\<dots> = {pre @ ys | ys. length ys = ?m \<and> sorted_wrt (<) ys
                    \<and> (\<forall>i \<in> set ys. start \<le> i \<and> i < n)}" (is "?L = ?R")
    proof (intro equalityI subsetI)
      fix zs assume "zs \<in> ?L"
      then obtain i ys where i: "i \<in> set [start..<Suc n - ?m]"
        and zs: "zs = (pre @ [i]) @ ys" "length ys = ?m - 1" "sorted_wrt (<) ys"
          "\<forall>j \<in> set ys. i + 1 \<le> j \<and> j < n"
        using IH by auto
      then have "zs = pre @ (i # ys)" "length (i # ys) = ?m" "sorted_wrt (<) (i # ys)"
        "\<forall>j \<in> set (i # ys). start \<le> j \<and> j < n"
        using False by auto
      then show "zs \<in> ?R" by blast
    next
      fix zs assume "zs \<in> ?R"
      then obtain ys where ys: "zs = pre @ ys" "length ys = ?m" "sorted_wrt (<) ys"
        "\<forall>i \<in> set ys. start \<le> i \<and> i < n" by auto
      then obtain i t where t: "ys = i # t" using False by (cases ys) auto
      have "i + length (i # t) \<le> n"
        using ys t by (intro sorted_wrt_less_room) auto
      then have i: "i \<in> set [start..<Suc n - ?m]"
        using ys t by auto
      moreover have "zs \<in> set (comb_rec n k (i + 1) (pre @ [i]))"
        unfolding IH [OF i] using ys t by auto
      ultimately show "zs \<in> ?L" by blast
    qed
    finally show ?thesis .
  qed
qed

lemma set_combos: "set (combos n) = {idx. index_set n 5 idx}"
  by (auto simp: combos_def set_comb_rec index_set_def)

lemma combos_7_count: "length (combos 7) = 21"
  by code_simp

lemma combos_6_count: "length (combos 6) = 6"
  by code_simp

section \<open>The exhaustive search\<close>

definition subset_of :: "card list \<Rightarrow> nat list \<Rightarrow> card list" where
  "subset_of hand idx = map (\<lambda>j. hand ! j) idx"

type_synonym best = "hand_rank \<times> int \<times> nat list"

definition best_step :: "card list \<Rightarrow> best \<Rightarrow> nat list \<Rightarrow> best" where
  "best_step hand b idx =
     (case b of (bestRank, bestTB, bestIdx) \<Rightarrow>
        let subset = subset_of hand idx;
            r = evaluate subset;
            tb = tiebreakOf subset
        in if r > bestRank \<or> (r = bestRank \<and> tb > bestTB) then (r, tb, idx)
           else (bestRank, bestTB, bestIdx))"

definition evaluateBestIndices :: "card list \<Rightarrow> hand_rank \<times> int \<times> nat list option" where
  "evaluateBestIndices hand =
     (let n = length hand in
      if n < 5 then (HighCard, 0, None)
      else if n = 5 then (evaluate hand, tiebreakOf hand, Some [0, 1, 2, 3, 4])
      else case foldl (best_step hand) (HighCard, 0, [0, 1, 2, 3, 4]) (combos n) of
             (bestRank, bestTB, bestIdx) \<Rightarrow> (bestRank, bestTB, Some bestIdx))"

definition evaluateBest :: "card list \<Rightarrow> hand_rank \<times> int" where
  "evaluateBest hand =
     (case evaluateBestIndices hand of (r, tb, _) \<Rightarrow> (r, tb))"

text \<open>Hands are compared by rank first and tie-break second.\<close>

definition value_le :: "hand_rank \<times> int \<Rightarrow> hand_rank \<times> int \<Rightarrow> bool" where
  "value_le a b \<longleftrightarrow> fst a < fst b \<or> (fst a = fst b \<and> snd a \<le> snd b)"

definition hand_value :: "card list \<Rightarrow> hand_rank \<times> int" where
  "hand_value h = (evaluate h, tiebreakOf h)"

lemma value_le_refl [simp]: "value_le a a"
  by (simp add: value_le_def)

lemma value_le_trans: "value_le a b \<Longrightarrow> value_le b c \<Longrightarrow> value_le a c"
  by (auto simp: value_le_def)

lemma value_le_total: "value_le a b \<or> value_le b a"
  by (auto simp: value_le_def)

definition best_value :: "best \<Rightarrow> hand_rank \<times> int" where
  "best_value b = (fst b, fst (snd b))"

lemma best_step_cases:
  "best_step hand b idx = b \<and> value_le (hand_value (subset_of hand idx)) (best_value b) \<or>
   best_step hand b idx = (evaluate (subset_of hand idx), tiebreakOf (subset_of hand idx), idx)
     \<and> value_le (best_value b) (hand_value (subset_of hand idx))"
  by (cases b) (auto simp: best_step_def value_le_def hand_value_def best_value_def Let_def)

lemma best_fold_upper:
  "value_le (best_value b) (best_value (foldl (best_step hand) b idxs)) \<and>
   (\<forall>idx \<in> set idxs. value_le (hand_value (subset_of hand idx))
                              (best_value (foldl (best_step hand) b idxs)))"
proof (induction idxs arbitrary: b)
  case Nil
  then show ?case by simp
next
  case (Cons idx idxs)
  let ?b = "best_step hand b idx"
  have "value_le (best_value b) (best_value ?b)"
    and "value_le (hand_value (subset_of hand idx)) (best_value ?b)"
    using best_step_cases [of hand b idx] by (auto simp: best_value_def hand_value_def)
  with Cons.IH [of ?b] show ?case
    by (auto intro: value_le_trans)
qed

lemma best_fold_source:
  "foldl (best_step hand) b idxs = b \<or>
   (\<exists>idx \<in> set idxs. foldl (best_step hand) b idxs =
      (evaluate (subset_of hand idx), tiebreakOf (subset_of hand idx), idx))"
proof (induction idxs arbitrary: b)
  case Nil
  then show ?case by simp
next
  case (Cons idx idxs)
  from Cons.IH [of "best_step hand b idx"] best_step_cases [of hand b idx] show ?case
    by auto
qed

lemma nibble_subset:
  "nibble_hand hand \<Longrightarrow> index_set (length hand) k idx \<Longrightarrow> nibble_hand (subset_of hand idx)"
  by (auto simp: nibble_hand_def subset_of_def index_set_def)

lemma first_combo: "6 \<le> n \<Longrightarrow> index_set n 5 [0, 1, 2, 3, 4]"
  by (auto simp: index_set_def)

lemma evaluateBestIndices_spec:
  assumes len: "5 \<le> length hand" and nib: "nibble_hand hand"
  shows "\<exists>idx. snd (snd (evaluateBestIndices hand)) = Some idx
       \<and> index_set (length hand) 5 idx
       \<and> evaluateBest hand = hand_value (subset_of hand idx)
       \<and> (\<forall>idx'. index_set (length hand) 5 idx' \<longrightarrow>
            value_le (hand_value (subset_of hand idx')) (evaluateBest hand))"
proof (cases "length hand = 5")
  case True
  then obtain a b c d e where h: "hand = [a, b, c, d, e]"
    using length5_conv [of hand] by auto
  have only: "idx' = [0, 1, 2, 3, 4]" if "index_set (length hand) 5 idx'" for idx'
  proof -
    have "index_set 5 5 idx'" using that True by simp
    then have "idx' \<in> set (combos 5)" using set_combos by auto
    moreover have "combos 5 = [[0, 1, 2, 3, 4]]" by code_simp
    ultimately show ?thesis by simp
  qed
  have sub: "subset_of hand [0, 1, 2, 3, 4] = hand"
    by (simp add: h subset_of_def)
  have val: "evaluateBest hand = hand_value hand"
    and ix: "snd (snd (evaluateBestIndices hand)) = Some [0, 1, 2, 3, 4]"
    using True by (simp_all add: evaluateBestIndices_def evaluateBest_def hand_value_def)
  have "index_set (length hand) 5 [0, 1, 2, 3, 4]"
    unfolding True by (simp add: index_set_def)
  moreover have "value_le (hand_value (subset_of hand idx')) (evaluateBest hand)"
    if "index_set (length hand) 5 idx'" for idx'
    unfolding only [OF that] sub val by simp
  ultimately show ?thesis using sub val ix by auto
next
  case False
  with len have n: "6 \<le> length hand" by simp
  let ?b0 = "(HighCard, 0::int, [0, 1, 2, 3, 4::nat])"
  define b where "b = foldl (best_step hand) ?b0 (combos (length hand))"
  have eb: "evaluateBest hand = best_value b"
    and ei: "snd (snd (evaluateBestIndices hand)) = Some (snd (snd b))"
    using False len
    by (auto simp: b_def evaluateBest_def evaluateBestIndices_def best_value_def split: prod.splits)
  have upper: "\<forall>idx'. index_set (length hand) 5 idx' \<longrightarrow>
      value_le (hand_value (subset_of hand idx')) (best_value b)"
  proof (intro allI impI)
    fix idx' assume "index_set (length hand) 5 idx'"
    then have "idx' \<in> set (combos (length hand))" by (simp add: set_combos)
    then show "value_le (hand_value (subset_of hand idx')) (best_value b)"
      unfolding b_def using best_fold_upper by blast
  qed
  let ?i0 = "[0, 1, 2, 3, 4::nat]"
  have i0: "index_set (length hand) 5 ?i0" using n by (rule first_combo)
  from best_fold_source [of hand ?b0 "combos (length hand)"]
  consider "b = ?b0"
    | idx where "index_set (length hand) 5 idx"
        "b = (evaluate (subset_of hand idx), tiebreakOf (subset_of hand idx), idx)"
    using set_combos by (auto simp: b_def)
  then show ?thesis
  proof cases
    case 1
    then have "value_le (hand_value (subset_of hand ?i0)) (HighCard, 0)"
      using upper i0 by (auto simp: best_value_def)
    moreover have "0 \<le> tiebreakOf (subset_of hand ?i0)"
      using tiebreakOf_bounds nibble_subset [OF nib i0] by blast
    ultimately have "hand_value (subset_of hand ?i0) = (HighCard, 0)"
      using HighCard_least [of "evaluate (subset_of hand ?i0)"]
      by (auto simp: value_le_def hand_value_def)
    with 1 show ?thesis using upper i0 by (auto simp: eb ei best_value_def)
  next
    case 2
    then show ?thesis using upper by (auto simp: eb ei best_value_def hand_value_def)
  qed
qed

lemma evaluateBest_short: "length hand < 5 \<Longrightarrow> evaluateBest hand = (HighCard, 0)"
  by (simp add: evaluateBest_def evaluateBestIndices_def)


section \<open>Properties\<close>

text \<open>
  the orders a shuffled deck can take are exactly the permutations of the 52 cards: the
  shuffle never loses or duplicates a card, and every order is reached by some entropy.
\<close>
theorem shuffle_orders:
  "(\<exists>r. fst (shuffle crypto_intn new_deck r) = p) \<longleftrightarrow> mset p = mset new_deck"
proof
  assume "\<exists>r. fst (shuffle crypto_intn new_deck r) = p"
  then show "mset p = mset new_deck"
    using crypto.shuffle_mset [of new_deck] new_deck_length by auto
next
  assume "mset p = mset new_deck"
  then obtain r where "shuffle crypto_intn new_deck r = (p, \<lambda>_. 0)"
    using crypto.shuffle_onto [of p new_deck "\<lambda>_. 0"] new_deck_length by auto
  then show "\<exists>r. fst (shuffle crypto_intn new_deck r) = p"
    by (metis fst_conv)
qed

text \<open>
  C29: the five-card evaluator computes the poker class read off the hand as a multiset
  (how many ranks come in fours, threes and pairs, one suit, consecutive ranks, the wheel),
  in whatever order Go iterates over the map of rank counts.
\<close>
theorem evaluate_correct:
  assumes "distinct keys" and "set keys = rank ` set hand"
  shows "evaluate_keys keys hand = (if length hand = 5 then poker_class hand else HighCard)
       \<and> evaluate_keys keys hand = evaluate hand"
  using evaluate_keys_class [OF _ assms] evaluate_class [of hand] evaluate_short [of hand]
  by (cases "length hand = 5") (simp_all add: evaluate_keys_def)

theorem evaluate_correct_witness:
  "evaluate_keys [14, 5, 3, 2, 4]
     [mk_card 2 0, mk_card 3 0, mk_card 4 0, mk_card 5 0, mk_card 14 0] = StraightFlush"
proof -
  let ?h = "[mk_card 2 0, mk_card 3 0, mk_card 4 0, mk_card 5 0, mk_card 14 0]"
  have "evaluate_keys [14, 5, 3, 2, 4] ?h = evaluate ?h"
    by (rule evaluate_correct [THEN conjunct2]) auto
  also have "evaluate ?h = StraightFlush" by code_simp
  finally show ?thesis .
qed

text \<open>
  C28: on five or more cards the search returns the rank and tie-break of an actual
  five-card selection, the indices of that selection, in ascending order and in range, and
  no other selection is better.
\<close>
theorem evaluateBest_optimal:
  assumes "5 \<le> length hand" and "\<forall>c \<in> set hand. valid_card c"
  shows "\<exists>idx. snd (snd (evaluateBestIndices hand)) = Some idx
       \<and> index_set (length hand) 5 idx
       \<and> evaluateBest hand = hand_value (subset_of hand idx)
       \<and> (\<forall>idx'. index_set (length hand) 5 idx' \<longrightarrow>
            value_le (hand_value (subset_of hand idx')) (evaluateBest hand))"
proof -
  have "nibble_hand hand"
    using assms(2) by (auto simp: nibble_hand_def valid_card_def)
  then show ?thesis by (rule evaluateBestIndices_spec [OF assms(1)])
qed

definition demo_seven :: "card list" where
  "demo_seven = [mk_card 14 0, mk_card 14 1, mk_card 14 2, mk_card 9 3, mk_card 9 0,
                 mk_card 2 1, mk_card 3 2]"

theorem evaluateBest_optimal_witness:
  "\<exists>idx. snd (snd (evaluateBestIndices demo_seven)) = Some idx
      \<and> evaluateBest demo_seven = hand_value (subset_of demo_seven idx)
      \<and> fst (evaluateBest demo_seven) = FullHouse"
proof -
  have "fst (evaluateBest demo_seven) = FullHouse" by code_simp
  then show ?thesis
    using evaluateBest_optimal [of demo_seven] by (auto simp: demo_seven_def valid_card_def)
qed

text \<open>
  for hands of equal size the packed tie-break orders them as the lists of their ranks,
  highest first, are ordered lexicographically; it stays below \<open>16 ^ 5\<close>, so it never
  overflows.
\<close>
theorem tiebreak_lexicographic:
  assumes "length h = 5" and "length h' = 5"
    and "\<forall>c \<in> set h. valid_card c" and "\<forall>c \<in> set h'. valid_card c"
  shows "(tiebreakOf h < tiebreakOf h' \<longleftrightarrow> desc_ranks h < desc_ranks h')
       \<and> 0 \<le> tiebreakOf h \<and> tiebreakOf h < 1048576"
proof -
  have n: "nibble_hand h" "nibble_hand h'"
    using assms(3,4) by (auto simp: nibble_hand_def valid_card_def)
  show ?thesis
    using tiebreakOf_less_iff [OF _ n] tiebreakOf_bounds [OF n(1)] assms(1,2) by simp
qed

theorem tiebreak_lexicographic_witness:
  "tiebreakOf [mk_card 14 0, mk_card 9 1, mk_card 8 2, mk_card 7 3, mk_card 2 0]
   < tiebreakOf [mk_card 3 0, mk_card 14 1, mk_card 9 2, mk_card 8 3, mk_card 7 0]"
proof -
  let ?h = "[mk_card 14 0, mk_card 9 1, mk_card 8 2, mk_card 7 3, mk_card 2 0]"
  let ?h' = "[mk_card 3 0, mk_card 14 1, mk_card 9 2, mk_card 8 3, mk_card 7 0]"
  have "desc_ranks ?h < desc_ranks ?h'" by code_simp
  then show ?thesis
    using tiebreak_lexicographic [of ?h ?h'] by (simp add: valid_card_def)
qed

text \<open>
  the hand classes have no plain pair: a five-card hand whose only group is one pair below
  jacks is valued as \<open>HighCard\<close>.  In a Hold'em showdown (the witness) a pair of tens therefore
  loses to ace high.
\<close>
theorem low_pair_is_high_card:
  assumes "groups hand 2 = {r}" and "r < 11" and "groups hand 3 = {}" and "groups hand 4 = {}"
    and "\<not> one_suit hand"
  shows "evaluate hand = HighCard"
proof (cases "length hand = 5")
  case True
  have c: "count (image_mset rank (mset hand)) r = 2"
    using assms(1) by (auto simp: groups_def)
  have "\<not> run_from hand k" for k
    using c by (auto simp: run_from_def split: if_splits)
  moreover have "\<not> wheel_ranks hand"
    using c by (auto simp: wheel_ranks_def split: if_splits)
  ultimately have "poker_class hand = HighCard"
    using assms by (simp add: poker_class_def)
  then show ?thesis using evaluate_class [OF True] by simp
next
  case False
  then show ?thesis by (rule evaluate_short)
qed

definition demo_board :: "card list" where
  "demo_board = [mk_card 3 0, mk_card 5 1, mk_card 7 2, mk_card 9 3, mk_card 13 0]"

theorem low_pair_is_high_card_witness:
  "evaluate [mk_card 10 0, mk_card 10 1, mk_card 7 2, mk_card 9 3, mk_card 13 0] = HighCard
   \<and> evaluateBest ([mk_card 10 0, mk_card 10 1] @ demo_board)
     = hand_value [mk_card 10 0, mk_card 10 1, mk_card 7 2, mk_card 9 3, mk_card 13 0]
   \<and> fst (evaluateBest ([mk_card 14 1, mk_card 2 2] @ demo_board)) = HighCard
   \<and> snd (evaluateBest ([mk_card 10 0, mk_card 10 1] @ demo_board))
     < snd (evaluateBest ([mk_card 14 1, mk_card 2 2] @ demo_board))"
proof -
  let ?h = "[mk_card 10 0, mk_card 10 1, mk_card 7 2, mk_card 9 3, mk_card 13 0]"
  have g: "groups ?h 2 = {10}" "groups ?h 3 = {}" "groups ?h 4 = {}"
    by (auto simp: groups_def split: if_splits)
  have "\<not> one_suit ?h" by (auto simp: one_suit_def)
  with g have "evaluate ?h = HighCard"
    by (intro low_pair_is_high_card [of ?h 10]) auto
  moreover have "evaluateBest ([mk_card 10 0, mk_card 10 1] @ demo_board) = hand_value ?h"
    by code_simp
  moreover have "fst (evaluateBest ([mk_card 14 1, mk_card 2 2] @ demo_board)) = HighCard"
    by code_simp
  moreover have "snd (evaluateBest ([mk_card 10 0, mk_card 10 1] @ demo_board))
     < snd (evaluateBest ([mk_card 14 1, mk_card 2 2] @ demo_board))"
    by code_simp
  ultimately show ?thesis by simp
qed

end
