(* ===== verification/HoldemHU.thy ===== *)
theory HoldemHU
  imports BestHand
begin

text \<open>
  Heads-up hold'em against the bot (\<open>internal/doors/holdem/holdem.go\<close>).  A \<open>Game\<close> lives for
  several hands: the screen deals the next one on the stacks the last one left.  Seat 0 is the
  player, seat 1 the bot; a Go array indexed by seat is a list of two.  The entropy the bot and
  the shuffle read is part of the state.  \<open>None\<close> is a panic on an empty deck.
\<close>

section \<open>State\<close>

datatype Street = Preflop | Flop | Turn | River | Showdown | Ended

primrec street_string :: "Street \<Rightarrow> string" where
  "street_string Preflop = ''Preflop''"
| "street_string Flop = ''Flop''"
| "street_string Turn = ''Turn''"
| "street_string River = ''River''"
| "street_string Showdown = ''Showdown''"
| "street_string Ended = ''Ended''"

definition SeatPlayer :: nat where
  "SeatPlayer = 0"

definition SeatBot :: nat where
  "SeatBot = 1"

datatype hu_action = HuFold | HuCheckCall | HuRaise | HuAllIn

record hu_game =
  deck :: "card list"
  hole :: "card list list"
  board :: "card list"
  stacks :: "int list"
  bets :: "int list"
  pot :: int
  button :: nat
  toAct :: nat
  street :: Street
  folded :: "bool list"
  smallBlind :: int
  bigBlind :: int
  rng :: entropy
  winnerSeat :: int
  winRank :: hand_rank
  winBoard :: bool

definition new_hu :: "entropy \<Rightarrow> int \<Rightarrow> int \<Rightarrow> int \<Rightarrow> nat \<Rightarrow> hu_game" where
  "new_hu r startingStack sb bb btn =
     \<lparr>deck = [], hole = [[zero_card, zero_card], [zero_card, zero_card]], board = [],
      stacks = [startingStack, startingStack], bets = [0, 0], pot = 0, button = btn, toAct = 0,
      street = Preflop, folded = [False, False], smallBlind = sb, bigBlind = bb, rng = r,
      winnerSeat = - 1, winRank = HighCard, winBoard = False\<rparr>"

section \<open>Dealing and betting\<close>

definition hu_draw :: "hu_game \<Rightarrow> (card \<times> hu_game) option" where
  "hu_draw g = map_option (\<lambda>(c, d). (c, g\<lparr>deck := d\<rparr>)) (draw (deck g))"

definition postBet :: "hu_game \<Rightarrow> nat \<Rightarrow> int \<Rightarrow> hu_game" where
  "postBet g seat amount0 =
     (let amount = (if amount0 > stacks g ! seat then stacks g ! seat else amount0)
      in g\<lparr>stacks := (stacks g)[seat := i32 (stacks g ! seat - amount)],
           bets := (bets g)[seat := i32 (bets g ! seat + amount)]\<rparr>)"

definition deal_hole :: "hu_game \<Rightarrow> nat \<Rightarrow> hu_game option" where
  "deal_hole g s =
     (case hu_draw g of None \<Rightarrow> None
      | Some (c0, g1) \<Rightarrow>
        (case hu_draw g1 of None \<Rightarrow> None
         | Some (c1, g2) \<Rightarrow> Some (g2\<lparr>hole := (hole g2)[s := [c0, c1]]\<rparr>)))"

definition hu_StartHand :: "hu_game \<Rightarrow> hu_game option" where
  "hu_StartHand g0 =
     (case shuffle crypto_intn new_deck (rng g0) of (d, r) \<Rightarrow>
       (let g1 = g0\<lparr>deck := d, rng := r, board := [], bets := [0, 0], folded := [False, False],
                    pot := 0, winnerSeat := - 1, winRank := HighCard, winBoard := False,
                    street := Preflop\<rparr>;
            sb = button g1; bb = 1 - button g1;
            g2 = postBet g1 sb (smallBlind g1);
            g3 = postBet g2 bb (bigBlind g2)
        in case deal_hole g3 0 of None \<Rightarrow> None
           | Some g4 \<Rightarrow>
             (case deal_hole g4 1 of None \<Rightarrow> None
              | Some g5 \<Rightarrow> Some (g5\<lparr>toAct := sb\<rparr>))))"

definition hu_Pot :: "hu_game \<Rightarrow> int" where
  "hu_Pot g = i32 (i32 (pot g + bets g ! 0) + bets g ! 1)"

definition hu_ToCall :: "hu_game \<Rightarrow> int" where
  "hu_ToCall g = i32 (bets g ! (1 - toAct g) - bets g ! toAct g)"

definition HandActive :: "hu_game \<Rightarrow> bool" where
  "HandActive g \<longleftrightarrow> street g \<noteq> Ended"

definition BotHole :: "hu_game \<Rightarrow> card list \<times> bool" where
  "BotHole g =
     (if street g = Showdown \<or> street g = Ended then (hole g ! SeatBot, winBoard g)
      else ([zero_card, zero_card], False))"

definition hu_applyAction :: "hu_game \<Rightarrow> nat \<Rightarrow> hu_action \<Rightarrow> hu_game" where
  "hu_applyAction g seat a =
     (let toCall = i32 (bets g ! (1 - seat) - bets g ! seat)
      in case a of
           HuFold \<Rightarrow> g\<lparr>folded := (folded g)[seat := True]\<rparr>
         | HuCheckCall \<Rightarrow> (if toCall > 0 then postBet g seat toCall else g)
         | HuRaise \<Rightarrow> (let g1 = (if toCall > 0 then postBet g seat toCall else g)
                      in postBet g1 seat (bigBlind g1))
         | HuAllIn \<Rightarrow> postBet g seat (stacks g ! seat))"

section \<open>Ending a street and a hand\<close>

definition hu_burn :: "hu_game \<Rightarrow> hu_game" where
  "hu_burn g = (if deck g \<noteq> [] then g\<lparr>deck := tl (deck g)\<rparr> else g)"

fun draw_board :: "nat \<Rightarrow> hu_game \<Rightarrow> hu_game option" where
  "draw_board 0 g = Some g"
| "draw_board (Suc n) g =
     (case hu_draw g of None \<Rightarrow> None
      | Some (c, g1) \<Rightarrow> draw_board n (g1\<lparr>board := board g1 @ [c]\<rparr>))"

definition endByFold :: "hu_game \<Rightarrow> hu_game" where
  "endByFold g =
     (let winner = (if folded g ! SeatPlayer then SeatBot else SeatPlayer)
      in g\<lparr>stacks := (stacks g)[winner :=
               i32 (stacks g ! winner + i32 (i32 (pot g + bets g ! 0) + bets g ! 1))],
           pot := 0, bets := [0, 0], winnerSeat := int winner, street := Ended\<rparr>)"

definition hu_resolveShowdown :: "hu_game \<Rightarrow> hu_game" where
  "hu_resolveShowdown g =
     (let (pr, ptb) = evaluateBest (hole g ! SeatPlayer @ board g);
          (br, btb) = evaluateBest (hole g ! SeatBot @ board g)
      in if pr > br \<or> (pr = br \<and> ptb > btb) then
           g\<lparr>stacks := (stacks g)[SeatPlayer := i32 (stacks g ! SeatPlayer + pot g)], pot := 0,
             winnerSeat := int SeatPlayer, winRank := pr, winBoard := True, street := Ended\<rparr>
         else if br > pr \<or> (br = pr \<and> btb > ptb) then
           g\<lparr>stacks := (stacks g)[SeatBot := i32 (stacks g ! SeatBot + pot g)], pot := 0,
             winnerSeat := int SeatBot, winRank := br, winBoard := True, street := Ended\<rparr>
         else
           (let s1 = (stacks g)[0 := i32 (stacks g ! 0 + go_div (pot g) 2)];
                s2 = s1[1 := i32 (s1 ! 1 + go_div (pot g) 2)];
                s3 = (if go_mod (pot g) 2 = 1 then s2[0 := i32 (s2 ! 0 + 1)] else s2)
            in g\<lparr>stacks := s3, pot := 0, winnerSeat := - 1, winRank := pr, winBoard := True,
                 street := Ended\<rparr>))"

text \<open>\<open>closeStreet\<close> and \<open>afterAction\<close> return whether the hand has ended.\<close>

definition closeStreet :: "hu_game \<Rightarrow> (bool \<times> hu_game) option" where
  "closeStreet g0 =
     (let g = g0\<lparr>pot := i32 (pot g0 + i32 (bets g0 ! 0 + bets g0 ! 1)), bets := [0, 0]\<rparr>;
          act = (\<lambda>g. (False, g\<lparr>toAct := 1 - button g\<rparr>))
      in case street g of
           Preflop \<Rightarrow> map_option (\<lambda>g. act (g\<lparr>street := Flop\<rparr>)) (draw_board 3 (hu_burn g))
         | Flop \<Rightarrow> map_option (\<lambda>g. act (g\<lparr>street := Turn\<rparr>)) (draw_board 1 (hu_burn g))
         | Turn \<Rightarrow> map_option (\<lambda>g. act (g\<lparr>street := River\<rparr>)) (draw_board 1 (hu_burn g))
         | River \<Rightarrow> Some (True, hu_resolveShowdown (g\<lparr>street := Showdown\<rparr>))
         | _ \<Rightarrow> Some (act g))"

definition afterAction :: "hu_game \<Rightarrow> (bool \<times> hu_game) option" where
  "afterAction g =
     (if folded g ! SeatPlayer \<or> folded g ! SeatBot then Some (True, endByFold g)
      else if bets g ! 0 \<noteq> bets g ! 1 then Some (False, g\<lparr>toAct := 1 - toAct g\<rparr>)
      else closeStreet g)"

definition PlayerAction :: "hu_game \<Rightarrow> hu_action \<Rightarrow> (bool \<times> hu_game) option" where
  "PlayerAction g a =
     (if toAct g \<noteq> SeatPlayer \<or> street g = Ended then Some (False, g)
      else afterAction (hu_applyAction g SeatPlayer a))"

section \<open>The bot\<close>

definition isPreflopStrong :: "card list \<Rightarrow> bool" where
  "isPreflopStrong h =
     (let a = rank (h ! 0); b = rank (h ! 1)
      in if a = b then True
         else (let high = (if b > a then b else a); low = (if b > a then a else b)
               in if high = 14 \<and> low \<ge> 11 then True
                  else high = 13 \<and> low = 12))"

definition botPolicy :: "hu_game \<Rightarrow> hu_action \<times> hu_game" where
  "botPolicy g =
     (let (rk, _) = evaluateBest (hole g ! SeatBot @ board g);
          toCall = hu_ToCall g;
          intn = (\<lambda>n. case crypto_intn (rng g) n of (k, r) \<Rightarrow> (k, g\<lparr>rng := r\<rparr>))
      in if street g = Preflop then
           (let strong = isPreflopStrong (hole g ! SeatBot)
            in if toCall > bigBlind g \<and> \<not> strong then
                 (case intn 4 of (k, g1) \<Rightarrow> (if k = 0 then (HuFold, g1) else (HuCheckCall, g1)))
               else if strong then
                 (case intn 3 of (k, g1) \<Rightarrow> (if k = 0 then (HuRaise, g1) else (HuCheckCall, g1)))
               else (HuCheckCall, g))
         else if rk \<ge> TwoPair then
           (case intn 3 of (k, g1) \<Rightarrow> (if k = 0 then (HuRaise, g1) else (HuCheckCall, g1)))
         else if rk = HighCard \<and> toCall > i32 (bigBlind g * 2) then (HuFold, g)
         else (HuCheckCall, g))"

definition StepBot :: "hu_game \<Rightarrow> (bool \<times> hu_game) option" where
  "StepBot g =
     (if toAct g \<noteq> SeatBot \<or> street g = Ended then Some (False, g)
      else (case botPolicy g of (a, g1) \<Rightarrow> afterAction (hu_applyAction g1 SeatBot a)))"

definition AdvanceButton :: "hu_game \<Rightarrow> hu_game" where
  "AdvanceButton g = g\<lparr>button := 1 - button g\<rparr>"

section \<open>Chips\<close>

text \<open>The chips in play sum to T, none negative; T fits an int32.\<close>

definition chips :: "int \<Rightarrow> hu_game \<Rightarrow> bool" where
  "chips T g \<longleftrightarrow> T < 2147483648 \<and> 0 \<le> smallBlind g \<and> 0 \<le> bigBlind g \<and> 0 \<le> pot g
     \<and> (\<exists>s0 s1 b0 b1. stacks g = [s0, s1] \<and> bets g = [b0, b1] \<and> 0 \<le> s0 \<and> 0 \<le> s1 \<and> 0 \<le> b0 \<and> 0 \<le> b1
          \<and> s0 + s1 + b0 + b1 + pot g = T)"

lemma chipsE:
  assumes "chips T g"
  obtains s0 s1 b0 b1 where "stacks g = [s0, s1]" and "bets g = [b0, b1]" and "0 \<le> s0" and "0 \<le> s1"
    and "0 \<le> b0" and "0 \<le> b1" and "0 \<le> pot g" and "s0 + s1 + b0 + b1 + pot g = T" and "T < 2147483648"
    and "0 \<le> smallBlind g" and "0 \<le> bigBlind g"
  using assms by (auto simp: chips_def)

lemma seat_cases: "s \<le> Suc 0 \<Longrightarrow> s = 0 \<or> s = Suc 0"
  by auto

lemma postBet_chips:
  assumes "chips T g" and "s \<le> Suc 0" and "0 \<le> a"
  shows "chips T (postBet g s a)"
  using assms(1)
proof (rule chipsE)
  fix s0 s1 b0 b1
  assume h: "stacks g = [s0, s1]" "bets g = [b0, b1]" "0 \<le> s0" "0 \<le> s1" "0 \<le> b0" "0 \<le> b1" "0 \<le> pot g"
    "s0 + s1 + b0 + b1 + pot g = T" "T < 2147483648" "0 \<le> smallBlind g" "0 \<le> bigBlind g"
  from seat_cases [OF assms(2)] h assms(3) show ?thesis
    by (elim disjE) (auto simp: postBet_def chips_def Let_def i32_nonneg_id)
qed

lemma applyAction_chips:
  assumes "chips T g" and "s \<le> Suc 0"
  shows "chips T (hu_applyAction g s a)"
proof (cases a)
  case HuFold
  then show ?thesis using assms by (simp add: hu_applyAction_def chips_def)
next
  case HuCheckCall
  then show ?thesis using assms postBet_chips by (simp add: hu_applyAction_def Let_def)
next
  case HuRaise
  define g1 where "g1 = (let toCall = i32 (bets g ! (1 - s) - bets g ! s)
      in if toCall > 0 then postBet g s toCall else g)"
  have "chips T g1" using assms postBet_chips by (simp add: g1_def Let_def)
  moreover from this have "0 \<le> bigBlind g1" by (simp add: chips_def)
  moreover have "hu_applyAction g s a = postBet g1 s (bigBlind g1)"
    using HuRaise by (simp add: hu_applyAction_def g1_def Let_def)
  ultimately show ?thesis using postBet_chips assms(2) by simp
next
  case HuAllIn
  have "0 \<le> stacks g ! s" using assms seat_cases [OF assms(2)] by (auto elim!: chipsE)
  with HuAllIn show ?thesis using assms postBet_chips by (simp add: hu_applyAction_def Let_def)
qed

lemma endByFold_chips:
  assumes "chips T g"
  shows "chips T (endByFold g)"
  using assms
  by (rule chipsE) (auto simp: endByFold_def chips_def SeatPlayer_def SeatBot_def Let_def i32_nonneg_id)

lemma showdown_chips:
  assumes "chips T g" and "bets g = [0, 0]"
  shows "chips T (hu_resolveShowdown g)"
  using assms(1)
proof (rule chipsE)
  fix s0 s1 b0 b1
  assume h: "stacks g = [s0, s1]" "bets g = [b0, b1]" "0 \<le> s0" "0 \<le> s1" "0 \<le> b0" "0 \<le> b1" "0 \<le> pot g"
    "s0 + s1 + b0 + b1 + pot g = T" "T < 2147483648" "0 \<le> smallBlind g" "0 \<le> bigBlind g"
  have half: "pot g div 2 + pot g div 2 + (if pot g mod 2 = 1 then 1 else 0) = pot g"
    "0 \<le> pot g div 2" "pot g div 2 \<le> pot g" "pot g mod 2 = 1 \<Longrightarrow> pot g div 2 < pot g"
    using h(7) by presburger+
  with h assms(2) show ?thesis
    by (auto simp: hu_resolveShowdown_def chips_def SeatPlayer_def SeatBot_def Let_def i32_nonneg_id
        split: prod.splits)
qed

section \<open>Cards\<close>

primrec cards_left :: "Street \<Rightarrow> nat" where
  "cards_left Preflop = 48"
| "cards_left Flop = 44"
| "cards_left Turn = 42"
| "cards_left River = 40"
| "cards_left Showdown = 40"
| "cards_left Ended = 0"

primrec board_size :: "Street \<Rightarrow> nat" where
  "board_size Preflop = 0"
| "board_size Flop = 3"
| "board_size Turn = 4"
| "board_size River = 5"
| "board_size Showdown = 5"
| "board_size Ended = 0"

definition table_cards :: "hu_game \<Rightarrow> card list" where
  "table_cards g = concat (hole g) @ board g @ deck g"

text \<open>Every card in the hands, on the board and in the deck is from one 52-card deck.\<close>

definition cards_ok :: "hu_game \<Rightarrow> bool" where
  "cards_ok g \<longleftrightarrow> button g \<le> Suc 0 \<and> toAct g \<le> Suc 0 \<and> length (folded g) = 2
     \<and> length (hole g) = 2 \<and> (\<forall>h \<in> set (hole g). length h = 2)
     \<and> mset (table_cards g) \<subseteq># mset new_deck
     \<and> cards_left (street g) \<le> length (deck g)
     \<and> (HandActive g \<longrightarrow> street g \<noteq> Showdown \<and> length (board g) = board_size (street g))
     \<and> (\<not> HandActive g \<longrightarrow> pot g = 0 \<and> bets g = [0, 0])"

definition hu_inv :: "int \<Rightarrow> hu_game \<Rightarrow> bool" where
  "hu_inv T g \<longleftrightarrow> chips T g \<and> cards_ok g"

lemma draw_board_ok:
  assumes "n \<le> length (deck g)"
  shows "draw_board n g = Some (g\<lparr>board := board g @ take n (deck g), deck := drop n (deck g)\<rparr>)"
  using assms
proof (induction n arbitrary: g)
  case 0
  then show ?case by simp
next
  case (Suc n)
  then obtain c d where d: "deck g = c # d" by (cases "deck g") auto
  with Suc.IH [of "g\<lparr>deck := d, board := board g @ [c]\<rparr>"] Suc.prems show ?case
    by (simp add: hu_draw_def)
qed

lemma mset_burn_draw:
  "mset (take n (tl d)) + mset (drop n (tl d)) \<subseteq># mset d"
  by (cases d) (simp_all flip: mset_append add: subset_eq_diff_conv)

lemma closeStreet_cards:
  assumes ok: "cards_ok g" and act: "HandActive g" and chips: "chips T g"
  shows "\<exists>e g'. closeStreet g = Some (e, g') \<and> hu_inv T g' \<and> (e \<longleftrightarrow> \<not> HandActive g')"
proof -
  define g1 where "g1 = g\<lparr>pot := i32 (pot g + i32 (bets g ! 0 + bets g ! 1)), bets := [0, 0]\<rparr>"
  have c1: "chips T g1"
    using chips by (rule chipsE) (auto simp: g1_def chips_def i32_nonneg_id)
  have ok1: "button g \<le> Suc 0" "length (folded g) = 2" "length (hole g) = 2"
    "\<forall>h \<in> set (hole g). length h = 2" "cards_left (street g) \<le> length (deck g)"
    "street g \<noteq> Showdown" "street g \<noteq> Ended" "length (board g) = board_size (street g)"
    "mset (concat (hole g)) + mset (board g) + mset (deck g) \<subseteq># mset new_deck"
    using ok act by (auto simp: cards_ok_def HandActive_def table_cards_def union_assoc)
  have next_street: "hu_inv T (g1\<lparr>deck := drop n (tl (deck g)), board := board g @ take n (tl (deck g)),
      street := st, toAct := 1 - button g\<rparr>)"
    if "n + board_size (street g) = board_size st" "cards_left st + n + 1 \<le> cards_left (street g)"
      "st \<noteq> Ended" "st \<noteq> Showdown" for n st
  proof -
    have "mset (concat (hole g)) + mset (board g) + (mset (take n (tl (deck g))) + mset (drop n (tl (deck g))))
        \<subseteq># mset (concat (hole g)) + mset (board g) + mset (deck g)"
      using mset_burn_draw by (intro mset_subset_eq_mono_add) auto
    then have "mset (concat (hole g)) + mset (board g) + (mset (take n (tl (deck g))) + mset (drop n (tl (deck g))))
        \<subseteq># mset new_deck" using ok1(9) by (rule subset_mset.order_trans)
    with c1 ok1 that show ?thesis
      by (auto simp: hu_inv_def chips_def cards_ok_def g1_def HandActive_def table_cards_def union_assoc
          simp del: append_take_drop_id)
  qed
  have burn: "hu_burn g1 = g1\<lparr>deck := tl (deck g)\<rparr>"
    using ok1 by (cases "deck g") (auto simp: hu_burn_def g1_def)
  have deal: "draw_board n (hu_burn g1) = Some (g1\<lparr>deck := drop n (tl (deck g)),
      board := board g @ take n (tl (deck g))\<rparr>)" if "n + 1 \<le> cards_left (street g)" for n
    unfolding burn using ok1(5) that by (subst draw_board_ok) (auto simp: g1_def)
  have st: "street g1 = street g" "button g1 = button g" by (simp_all add: g1_def)
  have cs: "closeStreet g =
      (let act = (\<lambda>g. (False, g\<lparr>toAct := 1 - button g\<rparr>))
       in case street g1 of
           Preflop \<Rightarrow> map_option (\<lambda>g. act (g\<lparr>street := Flop\<rparr>)) (draw_board 3 (hu_burn g1))
         | Flop \<Rightarrow> map_option (\<lambda>g. act (g\<lparr>street := Turn\<rparr>)) (draw_board 1 (hu_burn g1))
         | Turn \<Rightarrow> map_option (\<lambda>g. act (g\<lparr>street := River\<rparr>)) (draw_board 1 (hu_burn g1))
         | River \<Rightarrow> Some (True, hu_resolveShowdown (g1\<lparr>street := Showdown\<rparr>))
         | _ \<Rightarrow> Some (act g1))"
    unfolding closeStreet_def g1_def Let_def by (rule refl)
  show ?thesis
  proof (cases "street g")
    case Preflop
    with next_street [of 3 Flop] deal [of 3] st show ?thesis
      by (simp add: cs) (simp add: HandActive_def)
  next
    case Flop
    with next_street [of 1 Turn] deal [of 1] st show ?thesis
      by (simp add: cs) (simp add: HandActive_def)
  next
    case Turn
    with next_street [of 1 River] deal [of 1] st show ?thesis
      by (simp add: cs) (simp add: HandActive_def)
  next
    case River
    let ?g2 = "hu_resolveShowdown (g1\<lparr>street := Showdown\<rparr>)"
    have "chips T ?g2" using c1 by (intro showdown_chips) (auto simp: chips_def g1_def)
    moreover have "street ?g2 = Ended" "pot ?g2 = 0" "bets ?g2 = [0, 0]" "button ?g2 = button g"
      "toAct ?g2 = toAct g" "folded ?g2 = folded g" "hole ?g2 = hole g" "board ?g2 = board g" "deck ?g2 = deck g"
      by (simp_all add: hu_resolveShowdown_def g1_def Let_def split: prod.splits)
    ultimately have "hu_inv T ?g2" using ok ok1
      by (simp add: hu_inv_def cards_ok_def HandActive_def table_cards_def)
    with River st \<open>street ?g2 = Ended\<close> show ?thesis
      by (intro exI [of _ True] exI [of _ ?g2]) (simp add: cs HandActive_def)
  qed (use ok1 in auto)
qed

lemma endByFold_inv:
  assumes "hu_inv T g"
  shows "hu_inv T (endByFold g) \<and> \<not> HandActive (endByFold g)"
  using assms endByFold_chips [of T g]
  by (simp add: hu_inv_def cards_ok_def HandActive_def endByFold_def table_cards_def Let_def)

lemma afterAction_inv:
  assumes inv: "hu_inv T g" and act: "HandActive g"
  shows "\<exists>e g'. afterAction g = Some (e, g') \<and> hu_inv T g' \<and> (e \<longleftrightarrow> \<not> HandActive g')"
proof -
  have "hu_inv T (g\<lparr>toAct := 1 - toAct g\<rparr>) \<and> HandActive (g\<lparr>toAct := 1 - toAct g\<rparr>)"
    using inv act by (auto simp: hu_inv_def chips_def cards_ok_def HandActive_def table_cards_def)
  then show ?thesis
    using endByFold_inv [OF inv] closeStreet_cards [of g T] inv act
    by (auto simp: afterAction_def hu_inv_def)
qed

lemma postBet_frame:
  "deck (postBet g s a) = deck g" "hole (postBet g s a) = hole g" "board (postBet g s a) = board g"
  "pot (postBet g s a) = pot g" "button (postBet g s a) = button g" "toAct (postBet g s a) = toAct g"
  "street (postBet g s a) = street g" "folded (postBet g s a) = folded g"
  "bigBlind (postBet g s a) = bigBlind g" "rng (postBet g s a) = rng g"
  by (simp_all add: postBet_def Let_def)

lemma applyAction_frame:
  "deck (hu_applyAction g s a) = deck g" "hole (hu_applyAction g s a) = hole g"
  "board (hu_applyAction g s a) = board g" "button (hu_applyAction g s a) = button g"
  "toAct (hu_applyAction g s a) = toAct g" "street (hu_applyAction g s a) = street g"
  "length (folded (hu_applyAction g s a)) = length (folded g)"
  by (cases a; simp add: hu_applyAction_def postBet_frame Let_def)+

lemma applyAction_inv:
  assumes inv: "hu_inv T g" and act: "HandActive g" and s: "s \<le> Suc 0"
  shows "hu_inv T (hu_applyAction g s a) \<and> HandActive (hu_applyAction g s a)"
  using assms applyAction_chips [of T g s a]
  by (simp add: hu_inv_def cards_ok_def HandActive_def table_cards_def applyAction_frame)

lemma botPolicy_frame:
  "botPolicy g = (a, g') \<Longrightarrow> \<exists>r. g' = g\<lparr>rng := r\<rparr>"
  by (auto simp: botPolicy_def Let_def split: prod.splits if_splits intro: exI [of _ "rng g"])

lemma rng_inv: "hu_inv T (g\<lparr>rng := r\<rparr>) = hu_inv T g" "HandActive (g\<lparr>rng := r\<rparr>) = HandActive g"
  by (simp_all add: hu_inv_def chips_def cards_ok_def HandActive_def table_cards_def)

lemma PlayerAction_inv:
  assumes "hu_inv T g"
  shows "\<exists>e g'. PlayerAction g a = Some (e, g') \<and> hu_inv T g'"
  using assms applyAction_inv [of T g SeatPlayer a] afterAction_inv [of T "hu_applyAction g SeatPlayer a"]
  by (auto simp: PlayerAction_def HandActive_def SeatPlayer_def)

lemma StepBot_inv:
  assumes "hu_inv T g"
  shows "\<exists>e g'. StepBot g = Some (e, g') \<and> hu_inv T g'"
proof -
  obtain a g1 where p: "botPolicy g = (a, g1)" by fastforce
  then obtain r where r: "g1 = g\<lparr>rng := r\<rparr>" using botPolicy_frame by blast
  have i1: "hu_inv T g1" "HandActive g1 = HandActive g" using assms rng_inv by (simp_all add: r)
  show ?thesis
    using assms i1 p applyAction_inv [of T g1 SeatBot a] afterAction_inv [of T "hu_applyAction g1 SeatBot a"]
    by (auto simp: StepBot_def HandActive_def SeatBot_def)
qed

lemma hu_shuffled:
  assumes "shuffle crypto_intn new_deck r = (d, r')"
  shows "mset d = mset new_deck" and "length d = 52"
proof -
  show m: "mset d = mset new_deck" using crypto.shuffle_mset [of new_deck r] assms new_deck_length by simp
  show "length d = 52" using mset_eq_length [OF m] new_deck_length by simp
qed

lemma deal_hole_ok:
  assumes "deck g = c0 # c1 # d"
  shows "deal_hole g s = Some (g\<lparr>deck := d, hole := (hole g)[s := [c0, c1]]\<rparr>)"
  using assms by (simp add: deal_hole_def hu_draw_def)

lemma StartHand_inv:
  assumes chips: "chips T g" and idle: "pot g = 0" "bets g = [0, 0]" and btn: "button g \<le> Suc 0"
    and hole: "length (hole g) = 2"
  shows "\<exists>g'. hu_StartHand g = Some g' \<and> hu_inv T g' \<and> HandActive g'"
proof -
  obtain d r where sh: "shuffle crypto_intn new_deck (rng g) = (d, r)" by fastforce
  note d = hu_shuffled [OF sh]
  define g1 where "g1 = g\<lparr>deck := d, rng := r, board := [], bets := [0, 0], folded := [False, False],
                    pot := 0, winnerSeat := - 1, winRank := HighCard, winBoard := False,
                    street := Preflop\<rparr>"
  define g3 where "g3 = postBet (postBet g1 (button g1) (smallBlind g1)) (1 - button g1)
                          (bigBlind (postBet g1 (button g1) (smallBlind g1)))"
  have "chips T g1" using chips idle by (auto simp: chips_def g1_def)
  then have c3: "chips T g3" unfolding g3_def
    using btn by (intro postBet_chips) (auto simp: chips_def g1_def postBet_frame)
  define xs where "xs = take 4 d"
  have "length xs = Suc (Suc (Suc (Suc 0)))" using d(2) by (simp add: xs_def)
  then obtain a b c e where "xs = [a, b, c, e]" by (auto simp: length_Suc_conv)
  then obtain d' where d': "d = a # b # c # e # d'"
    by (metis append_Cons append_Nil append_take_drop_id xs_def)
  obtain h0 h1 where h: "hole g = [h0, h1]" using hole by (auto simp: length_Suc_conv numeral_2_eq_2)
  have f3: "deck g3 = d" "hole g3 = hole g" "button g3 = button g" "street g3 = Preflop"
    "folded g3 = [False, False]" "board g3 = []"
    by (simp_all add: g3_def g1_def postBet_frame)
  let ?g' = "g3\<lparr>deck := d', hole := [[a, b], [c, e]], toAct := button g\<rparr>"
  have "deal_hole g3 0 = Some (g3\<lparr>deck := c # e # d', hole := [[a, b], h1]\<rparr>)"
    using f3 d' h by (simp add: deal_hole_ok)
  moreover have "deal_hole (g3\<lparr>deck := c # e # d', hole := [[a, b], h1]\<rparr>) 1
      = Some (g3\<lparr>deck := d', hole := [[a, b], [c, e]]\<rparr>)"
    by (subst deal_hole_ok) simp_all
  moreover have "button g1 = button g" by (simp add: g1_def)
  moreover have "hu_StartHand g = (case deal_hole g3 0 of None \<Rightarrow> None
      | Some g4 \<Rightarrow> (case deal_hole g4 1 of None \<Rightarrow> None | Some g5 \<Rightarrow> Some (g5\<lparr>toAct := button g1\<rparr>)))"
    by (simp only: hu_StartHand_def sh prod.case Let_def g1_def g3_def postBet_frame)
  ultimately have start: "hu_StartHand g = Some ?g'" by simp
  have "mset (table_cards ?g') = mset new_deck"
    using d(1) d' f3 by (simp add: table_cards_def)
  moreover have "length d' = 48" using d(2) d' by simp
  ultimately have "hu_inv T ?g'"
    using c3 f3 btn by (simp add: hu_inv_def chips_def cards_ok_def HandActive_def)
  moreover have "HandActive ?g'" using f3 by (simp add: HandActive_def)
  ultimately show ?thesis using start by blast
qed

section \<open>The table over many hands\<close>

inductive hu_step :: "hu_game \<Rightarrow> hu_game \<Rightarrow> bool" where
  Player: "PlayerAction g a = Some (e, g') \<Longrightarrow> hu_step g g'"
| Bot: "StepBot g = Some (e, g') \<Longrightarrow> hu_step g g'"
| NextHand: "\<not> HandActive g \<Longrightarrow> hu_StartHand (AdvanceButton g) = Some g' \<Longrightarrow> hu_step g g'"

inductive hu_reach :: "hu_game \<Rightarrow> hu_game \<Rightarrow> bool" for g0 where
  First: "hu_StartHand g0 = Some g \<Longrightarrow> hu_reach g0 g"
| Next: "hu_reach g0 g \<Longrightarrow> hu_step g g' \<Longrightarrow> hu_reach g0 g'"

lemma next_hand_inv:
  assumes "hu_inv T g" and "\<not> HandActive g"
  shows "\<exists>g'. hu_StartHand (AdvanceButton g) = Some g' \<and> hu_inv T g' \<and> HandActive g'"
  using assms by (intro StartHand_inv) (auto simp: hu_inv_def chips_def cards_ok_def AdvanceButton_def)

lemma hu_step_inv: "hu_step g g' \<Longrightarrow> hu_inv T g \<Longrightarrow> hu_inv T g'"
proof (induction rule: hu_step.induct)
  case (Player g a e g')
  then show ?case using PlayerAction_inv [of T g a] by auto
next
  case (Bot g e g')
  then show ?case using StepBot_inv [of T g] by auto
next
  case (NextHand g g')
  then show ?case using next_hand_inv [of T g] by auto
qed

lemma new_hu_chips:
  assumes "0 \<le> s" "2 * s < 2147483648" "0 \<le> sb" "0 \<le> bb"
  shows "chips (2 * s) (new_hu r s sb bb b)"
  using assms by (simp add: chips_def new_hu_def)

lemma hu_reach_inv:
  assumes "hu_reach (new_hu r s sb bb b) g" and "0 \<le> s" "2 * s < 2147483648" "0 \<le> sb" "0 \<le> bb" "b \<le> Suc 0"
  shows "hu_inv (2 * s) g"
  using assms(1)
proof induction
  case (First g)
  then show ?case
    using StartHand_inv [OF new_hu_chips [OF assms(2-5), of r b]] assms(6) by (auto simp: new_hu_def)
next
  case (Next g g')
  then show ?case using hu_step_inv by blast
qed

text \<open>
  C32: Heads-up hold'em conserves chips and never crashes.  From a new table, through any
  number of hands, any actions by the player, any entropy and any turn order the screen tries,
  the two stacks, the street's bets and the pot always sum to the two buy-ins and none is
  negative; all cards in play are distinct cards of one deck; no step finds the deck empty; and
  when a hand has ended the pot is empty and the next hand can be dealt.
\<close>

theorem heads_up_safe:
  assumes "hu_reach (new_hu r s sb bb b) g" and "0 \<le> s" and "2 * s < 2147483648"
    and "0 \<le> sb" and "0 \<le> bb" and "b \<le> 1"
  shows "sum_list (stacks g) + sum_list (bets g) + pot g = 2 * s
    \<and> list_all (\<lambda>x. 0 \<le> x) (stacks g @ bets g @ [pot g])
    \<and> distinct (concat (hole g) @ board g) \<and> list_all valid_card (concat (hole g) @ board g)
    \<and> PlayerAction g a \<noteq> None \<and> StepBot g \<noteq> None
    \<and> (HandActive g \<or> pot g = 0 \<and> hu_StartHand (AdvanceButton g) \<noteq> None)"
proof -
  have inv: "hu_inv (2 * s) g" using hu_reach_inv assms by simp
  have m: "mset (concat (hole g) @ board g) \<subseteq># mset new_deck"
  proof -
    have "mset (concat (hole g) @ board g) \<subseteq># mset (table_cards g)"
      by (simp add: table_cards_def flip: union_assoc)
    also have "\<dots> \<subseteq># mset new_deck" using inv by (simp add: hu_inv_def cards_ok_def)
    finally show ?thesis .
  qed
  have v: "list_all valid_card (concat (hole g) @ board g)"
    using set_submset [OF m] new_deck_valid unfolding list_all_iff by blast
  have d: "distinct (concat (hole g) @ board g)" by (rule distinct_submset [OF m new_deck_distinct])
  have t: "sum_list (stacks g) + sum_list (bets g) + pot g = 2 * s
    \<and> list_all (\<lambda>x. 0 \<le> x) (stacks g @ bets g @ [pot g])"
    using inv by (auto simp: hu_inv_def elim!: chipsE)
  have "PlayerAction g a \<noteq> None" using PlayerAction_inv [OF inv, of a] by auto
  moreover have "StepBot g \<noteq> None" using StepBot_inv [OF inv] by auto
  moreover have "HandActive g \<or> pot g = 0 \<and> hu_StartHand (AdvanceButton g) \<noteq> None"
    using inv next_hand_inv [OF inv] by (auto simp: hu_inv_def cards_ok_def)
  ultimately show ?thesis using t d v by blast
qed

theorem heads_up_safe_witness:
  "\<exists>g. hu_StartHand (new_hu (\<lambda>_. 0) 100 1 2 1) = Some g \<and> sum_list (stacks g) + sum_list (bets g) + pot g = 200"
proof -
  obtain g where g: "hu_StartHand (new_hu (\<lambda>_. 0) 100 1 2 1) = Some g"
    using StartHand_inv [OF new_hu_chips [of 100 1 2 "\<lambda>_. 0" 1]] by (auto simp: new_hu_def)
  from heads_up_safe [OF hu_reach.First [OF g]] g show ?thesis by auto
qed

text \<open>
  The showdown is fair.  When the river's betting closes, the seat whose best five cards
  are strictly better takes the whole pot and is announced with its rank; equal hands split it,
  the player taking the odd chip; and the bot's cards are shown.
\<close>

theorem showdown_fair:
  assumes "hu_inv T g" and "street g = River" and "closeStreet g = Some (e, g')"
  defines "v \<equiv> \<lambda>s. evaluateBest (hole g ! s @ board g)"
    and "pot1 \<equiv> pot g + bets g ! 0 + bets g ! 1"
  shows "street g' = Ended \<and> winBoard g' \<and> pot g' = 0
    \<and> (if value_le (v 1) (v 0) \<and> \<not> value_le (v 0) (v 1)
         then winnerSeat g' = 0 \<and> winRank g' = fst (v 0)
            \<and> stacks g' = [stacks g ! 0 + pot1, stacks g ! 1]
       else if value_le (v 0) (v 1) \<and> \<not> value_le (v 1) (v 0)
         then winnerSeat g' = 1 \<and> winRank g' = fst (v 1)
            \<and> stacks g' = [stacks g ! 0, stacks g ! 1 + pot1]
       else winnerSeat g' = - 1 \<and> v 0 = v 1
            \<and> stacks g' = [stacks g ! 0 + (pot1 + 1) div 2, stacks g ! 1 + pot1 div 2])"
proof -
  from assms(1) have "chips T g" by (simp add: hu_inv_def)
  then show ?thesis
  proof (rule chipsE)
    fix s0 s1 b0 b1
    assume h: "stacks g = [s0, s1]" "bets g = [b0, b1]" "0 \<le> s0" "0 \<le> s1" "0 \<le> b0" "0 \<le> b1" "0 \<le> pot g"
      "s0 + s1 + b0 + b1 + pot g = T" "T < 2147483648" "0 \<le> smallBlind g" "0 \<le> bigBlind g"
    obtain pr pt where v0: "v 0 = (pr, pt)" by fastforce
    obtain br bt where v1: "v 1 = (br, bt)" by fastforce
    define P where "P = pot g + b0 + b1"
    have P: "0 \<le> P" "s0 + s1 + P = T" "pot1 = P" "i32 (pot g + i32 (b0 + b1)) = P"
      using h by (auto simp: P_def pot1_def i32_nonneg_id)
    have half: "P div 2 + (if P mod 2 = 1 then 1 else 0) = (P + 1) div 2" "0 \<le> P div 2" "P div 2 \<le> P"
      "P mod 2 = 1 \<Longrightarrow> P div 2 < P"
      using P(1) by presburger+
    have g': "g' = hu_resolveShowdown (g\<lparr>pot := P, bets := [0, 0], street := Showdown\<rparr>)"
      using assms(2,3) P h by (simp add: closeStreet_def Let_def)
    have ev: "evaluateBest (hole g ! SeatPlayer @ board g) = (pr, pt)"
      "evaluateBest (hole g ! SeatBot @ board g) = (br, bt)"
      using v0 v1 by (simp_all add: v_def SeatPlayer_def SeatBot_def)
    show ?thesis
    proof (cases "pr > br \<or> (pr = br \<and> pt > bt)")
      case True
      then show ?thesis unfolding g' using ev v0 v1 P h
        by (auto simp: hu_resolveShowdown_def value_le_def SeatPlayer_def SeatBot_def i32_nonneg_id)
    next
      case False
      show ?thesis
      proof (cases "br > pr \<or> (br = pr \<and> bt > pt)")
        case True
        with False show ?thesis unfolding g' using ev v0 v1 P h
          by (auto simp: hu_resolveShowdown_def value_le_def SeatPlayer_def SeatBot_def i32_nonneg_id)
      next
        case F2: False
        with False have "pr = br" "pt = bt" by auto
        with False F2 half show ?thesis unfolding g' using ev v0 v1 P h
          by (auto simp: hu_resolveShowdown_def value_le_def SeatPlayer_def SeatBot_def i32_nonneg_id Let_def)
      qed
    qed
  qed
qed

text \<open>A river with 30 in the pot, dealt from the unshuffled deck.\<close>

definition demo_river :: hu_game where
  "demo_river = (new_hu (\<lambda>_. 0) 85 1 2 1)
     \<lparr>deck := drop 9 new_deck, hole := [take 2 new_deck, take 2 (drop 2 new_deck)],
      board := take 5 (drop 4 new_deck), pot := 30, street := River\<rparr>"

lemma demo_river_inv: "hu_inv 200 demo_river"
proof -
  have "take 2 d @ take 2 (drop 2 d) @ take 5 (drop 4 d) @ drop 9 d = d" for d :: "card list"
    by (metis (no_types) add.commute append.assoc append_take_drop_id drop_drop take_add numeral_plus_numeral
        semiring_norm(2-9))
  then have "table_cards demo_river = new_deck" by (simp add: table_cards_def demo_river_def)
  then show ?thesis
    by (simp add: hu_inv_def chips_def cards_ok_def demo_river_def new_hu_def HandActive_def
        new_deck_length)
qed

theorem showdown_fair_witness:
  "\<exists>e g'. closeStreet demo_river = Some (e, g') \<and> street g' = Ended \<and> pot g' = 0 \<and> winBoard g'"
proof -
  obtain e g' where c: "closeStreet demo_river = Some (e, g')"
    by (simp add: closeStreet_def demo_river_def new_hu_def Let_def)
  have "street demo_river = River" by (simp add: demo_river_def)
  from showdown_fair [OF demo_river_inv this c] c show ?thesis by blast
qed

text \<open>Bets are unequal and the seat that is behind has nothing left to call with.\<close>

definition short_all_in :: "hu_game \<Rightarrow> bool" where
  "short_all_in g \<longleftrightarrow> street g \<noteq> Ended \<and> folded g = [False, False] \<and> toAct g \<le> 1
     \<and> (\<exists>k \<le> 1. stacks g ! k = 0 \<and> bets g ! k < bets g ! (1 - k))"

fun play_on :: "hu_game \<Rightarrow> hu_action list \<Rightarrow> (bool \<times> hu_game) option" where
  "play_on g [] = Some (False, g)"
| "play_on g (a # as) =
     (case afterAction (hu_applyAction g (toAct g) a) of
        None \<Rightarrow> None
      | Some (e, g') \<Rightarrow> (if e then Some (e, g') else play_on g' as))"

lemma postBet_other:
  "s \<noteq> k \<Longrightarrow> stacks (postBet g s a) ! k = stacks g ! k \<and> bets (postBet g s a) ! k = bets g ! k"
  by (simp add: postBet_def Let_def)

lemma postBet_broke:
  assumes "chips T g" and "s \<le> Suc 0" and "0 \<le> a" and "stacks g ! s = 0"
  shows "stacks (postBet g s a) = stacks g \<and> bets (postBet g s a) = bets g"
  using assms(1)
proof (rule chipsE)
  fix s0 s1 b0 b1
  assume "stacks g = [s0, s1]" "bets g = [b0, b1]" "0 \<le> s0" "0 \<le> s1" "0 \<le> b0" "0 \<le> b1" "0 \<le> pot g"
    "s0 + s1 + b0 + b1 + pot g = T" "T < 2147483648"
  with seat_cases [OF assms(2)] assms(3,4) show ?thesis
    by (elim disjE) (simp_all add: postBet_def Let_def i32_nonneg_id)
qed

lemma postBet_grows:
  assumes "chips T g" and "s \<le> Suc 0" and "0 \<le> a"
  shows "bets g ! s \<le> bets (postBet g s a) ! s"
  using assms(1)
proof (rule chipsE)
  fix s0 s1 b0 b1
  assume "stacks g = [s0, s1]" "bets g = [b0, b1]" "0 \<le> s0" "0 \<le> s1" "0 \<le> b0" "0 \<le> b1" "0 \<le> pot g"
    "s0 + s1 + b0 + b1 + pot g = T" "T < 2147483648"
  with seat_cases [OF assms(2)] assms(3) show ?thesis
    by (elim disjE) (simp_all add: postBet_def Let_def i32_nonneg_id)
qed

lemma short_all_in_action:
  assumes c: "chips T g" and t: "t \<le> Suc 0" and k: "k \<le> Suc 0" "stacks g ! k = 0"
    "bets g ! k < bets g ! (1 - k)" and a: "a \<noteq> HuFold"
  shows "stacks (hu_applyAction g t a) ! k = 0
    \<and> bets (hu_applyAction g t a) ! k < bets (hu_applyAction g t a) ! (1 - k)"
proof -
  have bb: "0 \<le> bigBlind g" using c by (simp add: chips_def)
  have call: "0 \<le> x" if "0 < x" for x :: int using that by simp
  show ?thesis
  proof (cases "t = k")
    case True
    define n where "n = i32 (bets g ! (1 - k) - bets g ! k)"
    define g1 where "g1 = (if n > 0 then postBet g k n else g)"
    have c1: "chips T g1" using c k(1) postBet_chips by (simp add: g1_def)
    have e1: "stacks g1 = stacks g" "bets g1 = bets g" "bigBlind g1 = bigBlind g"
      using postBet_broke [OF c k(1) _ k(2), of n] by (simp_all add: g1_def postBet_frame)
    have e2: "stacks (postBet g1 k (bigBlind g1)) = stacks g" "bets (postBet g1 k (bigBlind g1)) = bets g"
      using postBet_broke [OF c1 k(1), of "bigBlind g1"] bb e1 k(2) by simp_all
    have e3: "stacks (postBet g k (stacks g ! k)) = stacks g" "bets (postBet g k (stacks g ! k)) = bets g"
      using postBet_broke [OF c k(1) _ k(2), of "stacks g ! k"] k(2) by simp_all
    show ?thesis
    proof (cases a)
      case HuCheckCall
      then have "hu_applyAction g t a = g1" using True by (simp add: hu_applyAction_def g1_def n_def Let_def)
      then show ?thesis using e1 k by simp
    next
      case HuRaise
      then have "hu_applyAction g t a = postBet g1 k (bigBlind g1)"
        using True by (simp add: hu_applyAction_def g1_def n_def Let_def)
      then show ?thesis using e2 k by simp
    next
      case HuAllIn
      then have "hu_applyAction g t a = postBet g k (stacks g ! k)"
        using True by (simp add: hu_applyAction_def Let_def)
      then show ?thesis using e3 k by simp
    qed (use a in simp)
  next
    case False
    then have tk: "1 - k = t" "1 - t = k" "t \<noteq> k" using t k(1) by auto
    have st: "0 \<le> stacks g ! t" using c seat_cases [OF t] by (auto elim!: chipsE)
    have "i32 (bets g ! (1 - t) - bets g ! t) = bets g ! k - bets g ! t"
      using c seat_cases [OF t] k(3) tk by (auto elim!: chipsE intro!: i32_id)
    then have n: "\<not> i32 (bets g ! (1 - t) - bets g ! t) > 0" using k(3) tk by simp
    have post: "stacks (postBet g t x) ! k = 0 \<and> bets (postBet g t x) ! k < bets (postBet g t x) ! t"
      if "0 \<le> x" for x
      using postBet_other [OF tk(3)] postBet_grows [OF c t that] k tk by fastforce
    show ?thesis
      using post [OF bb] post [OF st] n k tk a
      by (cases a) (simp_all add: hu_applyAction_def Let_def)
  qed
qed

lemma short_all_in_turn:
  assumes inv: "hu_inv T g" and short: "short_all_in g" and a: "a \<noteq> HuFold"
  shows "\<exists>g'. afterAction (hu_applyAction g (toAct g) a) = Some (False, g')
    \<and> hu_inv T g' \<and> short_all_in g' \<and> street g' = street g \<and> board g' = board g"
proof -
  let ?g1 = "hu_applyAction g (toAct g) a"
  have t: "toAct g \<le> Suc 0" using short by (simp add: short_all_in_def)
  have act: "HandActive g" using short by (simp add: short_all_in_def HandActive_def)
  have f: "folded ?g1 = [False, False]"
    using short a by (cases a) (simp_all add: short_all_in_def hu_applyAction_def postBet_frame Let_def)
  obtain k where k: "k \<le> Suc 0" "stacks g ! k = 0" "bets g ! k < bets g ! (1 - k)"
    using short by (auto simp: short_all_in_def)
  have k1: "stacks ?g1 ! k = 0 \<and> bets ?g1 ! k < bets ?g1 ! (1 - k)"
    using short_all_in_action [OF _ t k a, of T] inv by (simp add: hu_inv_def)
  have i1: "hu_inv T ?g1" using applyAction_inv [OF inv act t] by simp
  then have "hu_inv T (?g1\<lparr>toAct := 1 - toAct ?g1\<rparr>)"
    by (auto simp: hu_inv_def chips_def cards_ok_def HandActive_def table_cards_def)
  moreover have "bets ?g1 ! 0 \<noteq> bets ?g1 ! 1" using k1 seat_cases [OF k(1)] by auto
  moreover have "short_all_in (?g1\<lparr>toAct := 1 - toAct ?g1\<rparr>)"
    using k1 k(1) f act by (auto simp: short_all_in_def HandActive_def applyAction_frame)
  ultimately show ?thesis
    using f by (auto simp: afterAction_def SeatPlayer_def SeatBot_def applyAction_frame)
qed



end
