(* ===== verification/HoldemMP.thy ===== *)
theory HoldemMP
  imports HoldemHU
begin

text \<open>
  The multi-seat hold'em engine (\<open>internal/doors/holdem/multiplayer/engine.go\<close>): seats, blinds,
  betting, streets, side pots and snapshots.  Streets and actions are those of the heads-up
  game, as in the source.  Seat indices are Go \<open>int\<close>s; every index the code computes by
  \<open>nextOccupied\<close> lies in the seat array, and the one it takes from a caller is checked, \<open>None\<close>
  being the panic.  \<open>None\<close> is also the panic of drawing from an empty deck.
\<close>

section \<open>State\<close>

record Seat =
  UserID :: int
  Handle :: string
  ChipsHand :: int
  Bet :: int
  Committed :: int
  Hole :: "card list"
  Folded :: bool
  AllIn :: bool

definition empty_seat :: Seat where
  "empty_seat = \<lparr>UserID = 0, Handle = '''', ChipsHand = 0, Bet = 0, Committed = 0,
     Hole = [zero_card, zero_card], Folded = False, AllIn = False\<rparr>"

record mp_game =
  deck :: "card list"
  seats :: "Seat list"
  board :: "card list"
  button :: int
  toAct :: int
  pot :: int
  street :: Street
  smallBlind :: int
  bigBlind :: int
  rng :: entropy
  lastRaiserIdx :: int
  winner :: int
  winRank :: hand_rank
  lastPayouts :: "int list"
  handNumber :: int

definition NewGame :: "entropy \<Rightarrow> int \<Rightarrow> int \<Rightarrow> int \<Rightarrow> mp_game" where
  "NewGame r cap0 sb bb =
     (let cap1 = (if cap0 < 2 then 2 else cap0); cap = (if cap1 > 9 then 9 else cap1)
      in \<lparr>deck = [], seats = replicate (nat cap) empty_seat, board = [], button = 0, toAct = 0,
          pot = 0, street = Ended, smallBlind = sb, bigBlind = bb, rng = r, lastRaiserIdx = 0,
          winner = - 1, winRank = HighCard, lastPayouts = replicate (nat cap) 0, handNumber = 0\<rparr>)"

definition seat :: "mp_game \<Rightarrow> int \<Rightarrow> Seat" where
  "seat g i = seats g ! nat i"

definition set_seat :: "mp_game \<Rightarrow> int \<Rightarrow> Seat \<Rightarrow> mp_game" where
  "set_seat g i s = g\<lparr>seats := (seats g)[nat i := s]\<rparr>"

definition SeatCount :: "mp_game \<Rightarrow> int" where
  "SeatCount g = int (length (seats g))"

definition in_seats :: "mp_game \<Rightarrow> int \<Rightarrow> bool" where
  "in_seats g i \<longleftrightarrow> 0 \<le> i \<and> i < SeatCount g"

definition OccupiedSeats :: "mp_game \<Rightarrow> int list" where
  "OccupiedSeats g = filter (\<lambda>i. UserID (seat g i) \<noteq> 0) (map int [0..<length (seats g)])"

definition mp_Pot :: "mp_game \<Rightarrow> int" where
  "mp_Pot g = foldl (\<lambda>t s. i32 (t + Bet s)) (pot g) (seats g)"

section \<open>Walking the seats\<close>

definition nextOccupied :: "mp_game \<Rightarrow> int \<Rightarrow> int" where
  "nextOccupied g from =
     (case find (\<lambda>idx. UserID (seat g idx) \<noteq> 0)
             (map (\<lambda>i. go_mod (from + int i) (SeatCount g)) [1..<Suc (length (seats g))]) of
        Some idx \<Rightarrow> idx
      | None \<Rightarrow> from)"

definition activeCount :: "mp_game \<Rightarrow> int" where
  "activeCount g = int (length (filter (\<lambda>s. UserID s \<noteq> 0 \<and> \<not> Folded s) (seats g)))"

definition ToCall :: "mp_game \<Rightarrow> int \<Rightarrow> int" where
  "ToCall g seatIdx =
     (if \<not> in_seats g seatIdx then 0
      else (let maxBet = foldl (\<lambda>m s. if Bet s > m then Bet s else m) 0 (seats g);
                owe = i32 (maxBet - Bet (seat g seatIdx))
            in if owe < 0 then 0 else owe))"

fun advance_loop :: "mp_game \<Rightarrow> int \<Rightarrow> nat \<Rightarrow> int" where
  "advance_loop g cursor 0 = - 1"
| "advance_loop g cursor (Suc k) =
     (let c = nextOccupied g cursor
      in if \<not> Folded (seat g c) \<and> \<not> AllIn (seat g c) then c else advance_loop g c k)"

definition advanceAction :: "mp_game \<Rightarrow> mp_game" where
  "advanceAction g =
     (if activeCount g \<le> 1 then g\<lparr>toAct := - 1\<rparr>
      else g\<lparr>toAct := advance_loop g (toAct g) (length (seats g))\<rparr>)"

fun first_loop :: "mp_game \<Rightarrow> int \<Rightarrow> int \<Rightarrow> nat \<Rightarrow> int" where
  "first_loop g from cursor 0 = from"
| "first_loop g from cursor (Suc k) =
     (let c = nextOccupied g cursor
      in if \<not> Folded (seat g c) \<and> \<not> AllIn (seat g c) then c else first_loop g from c k)"

definition firstActiveAfter :: "mp_game \<Rightarrow> int \<Rightarrow> int" where
  "firstActiveAfter g from = first_loop g from from (length (seats g))"

section \<open>Ending a hand\<close>

text \<open>\<open>g.pot += s.Bet; s.Committed += s.Bet; s.Bet = 0\<close> over the seats.\<close>

definition collect_seat :: "Seat \<Rightarrow> Seat" where
  "collect_seat s = s\<lparr>Committed := i32 (Committed s + Bet s), Bet := 0\<rparr>"

definition mp_endByFold :: "mp_game \<Rightarrow> mp_game" where
  "mp_endByFold g =
     (case find (\<lambda>i. UserID (seat g i) \<noteq> 0 \<and> \<not> Folded (seat g i)) (map int [0..<length (seats g)]) of
        None \<Rightarrow> g\<lparr>street := Ended\<rparr>
      | Some w \<Rightarrow>
          (let prize = mp_Pot g;
               g1 = g\<lparr>seats := map collect_seat (seats g)\<rparr>;
               g2 = set_seat g1 w ((seat g1 w)\<lparr>ChipsHand := i32 (ChipsHand (seat g1 w) + prize)\<rparr>)
           in g2\<lparr>lastPayouts := (lastPayouts g2)[nat w := prize], pot := 0, winner := w,
                 winRank := HighCard, street := Ended\<rparr>))"

definition seatDistance :: "int \<Rightarrow> int \<Rightarrow> int \<Rightarrow> int" where
  "seatDistance s from n =
     (let d = go_mod (s - from + n) n in if d = 0 then n else d)"

record seatBucket =
  bSeat :: int
  bCommitted :: int
  bEligible :: bool

definition buckets :: "mp_game \<Rightarrow> seatBucket list" where
  "buckets g =
     map (\<lambda>i. \<lparr>bSeat = i, bCommitted = Committed (seat g i), bEligible = \<not> Folded (seat g i)\<rparr>)
       (filter (\<lambda>i. UserID (seat g i) \<noteq> 0) (map int [0..<length (seats g)]))"

definition levels :: "seatBucket list \<Rightarrow> int list" where
  "levels bs = sort (remdups (filter (\<lambda>c. c > 0) (map bCommitted bs)))"

text \<open>The contenders tied for the best hand so far, with its value.\<close>

definition best_contender :: "mp_game \<Rightarrow> (int list \<times> (hand_rank \<times> int)) \<Rightarrow> int
    \<Rightarrow> int list \<times> (hand_rank \<times> int)" where
  "best_contender g best idx =
     (let v = evaluateBest (Hole (seat g idx) @ board g)
      in if fst best = [] \<or> fst v > fst (snd best)
            \<or> (fst v = fst (snd best) \<and> snd v > snd (snd best))
         then ([idx], v)
         else if fst v = fst (snd best) \<and> snd v = snd (snd best)
         then (fst best @ [idx], snd best)
         else best)"

definition bestAmong :: "mp_game \<Rightarrow> int list \<Rightarrow> int list \<times> hand_rank" where
  "bestAmong g idxs =
     (case foldl (best_contender g) ([], (HighCard, 0)) idxs of
        (ws, v) \<Rightarrow> (ws, fst v))"

record pots =
  awards :: "int \<Rightarrow> int"
  prev :: int
  lastWin :: int
  lastRank :: hand_rank
  winnerCount :: int

definition add_shares :: "int \<Rightarrow> int \<Rightarrow> int list \<Rightarrow> (int \<Rightarrow> int) \<Rightarrow> int \<Rightarrow> (int \<Rightarrow> int)" where
  "add_shares share remainder ws aw k =
     fst (foldl (\<lambda>(aw, i) s. (aw(s := i32 (aw s + (if i < remainder then share + 1 else share))), i + 1))
            (aw, k) ws)"

text \<open>One layer of the side pots.\<close>

definition layer :: "mp_game \<Rightarrow> seatBucket list \<Rightarrow> pots \<Rightarrow> int \<Rightarrow> pots" where
  "layer g bs p lvl =
     (let layerSize = lvl - prev p;
          payers = filter (\<lambda>b. bCommitted b \<ge> lvl) bs;
          potChips = foldl (\<lambda>t b. i32 (t + layerSize)) 0 payers;
          eligible = map bSeat (filter bEligible payers);
          p1 = p\<lparr>prev := lvl\<rparr>
      in if potChips = 0 \<or> eligible = [] then p1
         else (case bestAmong g eligible of
           (ws, rk) \<Rightarrow>
             (if ws = [] then p1
              else
                (let n = int (length ws);
                     share = go_div potChips n; remainder = go_mod potChips n;
                     ws' = sort_key (\<lambda>s. seatDistance s (button g) (SeatCount g)) ws;
                     aw = add_shares share remainder ws' (awards p1) 0
                 in if n = 1 then p1\<lparr>awards := aw, lastWin := hd ws', lastRank := rk, winnerCount := 1\<rparr>
                    else p1\<lparr>awards := aw, lastWin := - 1, lastRank := rk, winnerCount := n\<rparr>))))"

definition side_pots :: "mp_game \<Rightarrow> pots" where
  "side_pots g =
     (let bs = buckets g
      in foldl (layer g bs) \<lparr>awards = (\<lambda>_. 0), prev = 0, lastWin = 0, lastRank = HighCard, winnerCount = 0\<rparr>
           (levels bs))"

text \<open>A seat absent from the \<open>awards\<close> map and a seat awarded 0 are both paid nothing; only a
  seat's \<open>lastPayouts\<close>, which \<open>StartHand\<close> has zeroed, would tell them apart.\<close>

definition mp_resolveShowdown :: "mp_game \<Rightarrow> mp_game" where
  "mp_resolveShowdown g =
     (let p = side_pots g
      in g\<lparr>seats := map (\<lambda>i. (seat g i)\<lparr>ChipsHand := i32 (ChipsHand (seat g i) + awards p i)\<rparr>)
                       (map int [0..<length (seats g)]),
           lastPayouts := map (\<lambda>i. if awards p i \<noteq> 0 then awards p i else lastPayouts g ! nat i)
                            (map int [0..<length (lastPayouts g)]),
           pot := 0,
           winner := (if winnerCount p = 1 then lastWin p else - 1),
           winRank := lastRank p, street := Ended\<rparr>)"

section \<open>Streets\<close>

definition mp_burn :: "mp_game \<Rightarrow> mp_game" where
  "mp_burn g = (if deck g \<noteq> [] then g\<lparr>deck := tl (deck g)\<rparr> else g)"

fun mp_draw_board :: "nat \<Rightarrow> mp_game \<Rightarrow> mp_game option" where
  "mp_draw_board 0 g = Some g"
| "mp_draw_board (Suc n) g =
     (case draw (deck g) of None \<Rightarrow> None
      | Some (c, d) \<Rightarrow> mp_draw_board n (g\<lparr>deck := d, board := board g @ [c]\<rparr>))"

definition postflop :: "mp_game \<Rightarrow> mp_game" where
  "postflop g =
     (let a = firstActiveAfter g (button g) in g\<lparr>toAct := a, lastRaiserIdx := a\<rparr>)"

definition mp_closeStreet :: "mp_game \<Rightarrow> (bool \<times> mp_game) option" where
  "mp_closeStreet g0 =
     (let g = g0\<lparr>pot := mp_Pot g0, seats := map collect_seat (seats g0)\<rparr>
      in case street g of
           Preflop \<Rightarrow> map_option (\<lambda>g. (False, postflop (g\<lparr>street := Flop\<rparr>))) (mp_draw_board 3 (mp_burn g))
         | Flop \<Rightarrow> map_option (\<lambda>g. (False, postflop (g\<lparr>street := Turn\<rparr>))) (mp_draw_board 1 (mp_burn g))
         | Turn \<Rightarrow> map_option (\<lambda>g. (False, postflop (g\<lparr>street := River\<rparr>))) (mp_draw_board 1 (mp_burn g))
         | River \<Rightarrow> Some (True, mp_resolveShowdown (g\<lparr>street := Showdown\<rparr>))
         | _ \<Rightarrow> Some (False, postflop g))"

text \<open>The next seat that must act, or \<open>None\<close> when the street closes.\<close>

fun after_loop :: "mp_game \<Rightarrow> int \<Rightarrow> nat \<Rightarrow> int option" where
  "after_loop g cursor 0 = None"
| "after_loop g cursor (Suc k) =
     (let c = nextOccupied g cursor
      in if UserID (seat g c) = 0 \<or> Folded (seat g c) \<or> AllIn (seat g c) then after_loop g c k
         else if c = lastRaiserIdx g \<and> ToCall g c = 0 then None
         else Some c)"

definition mp_afterAction :: "mp_game \<Rightarrow> (bool \<times> mp_game) option" where
  "mp_afterAction g =
     (if activeCount g \<le> 1 then Some (True, mp_endByFold g)
      else case after_loop g (toAct g) (length (seats g)) of
             Some c \<Rightarrow> Some (False, g\<lparr>toAct := c\<rparr>)
           | None \<Rightarrow> mp_closeStreet g)"

section \<open>Operations\<close>

definition Sit :: "mp_game \<Rightarrow> int \<Rightarrow> int \<Rightarrow> string \<Rightarrow> int \<Rightarrow> bool \<times> mp_game" where
  "Sit g seatIdx uid handle stack =
     (if \<not> in_seats g seatIdx \<or> UserID (seat g seatIdx) \<noteq> 0 \<or> stack \<le> 0 then (False, g)
      else (True, set_seat g seatIdx (empty_seat\<lparr>UserID := uid, Handle := handle, ChipsHand := stack\<rparr>)))"

definition Stand :: "mp_game \<Rightarrow> int \<Rightarrow> int \<Rightarrow> int \<times> mp_game" where
  "Stand g seatIdx uid =
     (if \<not> in_seats g seatIdx \<or> UserID (seat g seatIdx) \<noteq> uid then (0, g)
      else
        (let left = ChipsHand (seat g seatIdx);
             g1 = set_seat g seatIdx empty_seat;
             g2 = (if street g1 \<noteq> Ended \<and> toAct g1 = seatIdx then advanceAction g1 else g1);
             g3 = (if street g1 \<noteq> Ended \<and> activeCount g2 \<le> 1 then mp_endByFold g2 else g2)
         in (left, g3)))"

definition postBlind :: "mp_game \<Rightarrow> int \<Rightarrow> int \<Rightarrow> mp_game" where
  "postBlind g i amount0 =
     (let s = seat g i;
          amount = (if amount0 > ChipsHand s then ChipsHand s else amount0);
          s1 = s\<lparr>ChipsHand := i32 (ChipsHand s - amount), Bet := i32 (Bet s + amount)\<rparr>
      in set_seat g i (if ChipsHand s1 = 0 then s1\<lparr>AllIn := True\<rparr> else s1))"

text \<open>One round of dealing: \<open>k\<close> cards, one to each occupied seat from the cursor on.\<close>

fun deal_round :: "nat \<Rightarrow> nat \<Rightarrow> int \<Rightarrow> mp_game \<Rightarrow> (int \<times> mp_game) option" where
  "deal_round r 0 cursor g = Some (cursor, g)"
| "deal_round r (Suc k) cursor g =
     (case draw (deck g) of None \<Rightarrow> None
      | Some (c, d) \<Rightarrow>
          (let g1 = g\<lparr>deck := d\<rparr>;
               g2 = set_seat g1 cursor ((seat g1 cursor)\<lparr>Hole := (Hole (seat g1 cursor))[r := c]\<rparr>)
           in deal_round r k (nextOccupied g2 cursor) g2))"

definition reset_seat :: "Seat \<Rightarrow> Seat" where
  "reset_seat s = s\<lparr>Folded := False, AllIn := False, Bet := 0, Committed := 0,
                    Hole := [zero_card, zero_card]\<rparr>"

definition mp_StartHand :: "mp_game \<Rightarrow> (bool \<times> mp_game) option" where
  "mp_StartHand g0 =
     (let occ = OccupiedSeats g0
      in if length occ < 2 then Some (False, g0)
         else
           (let g1 = g0\<lparr>seats := map reset_seat (seats g0),
                        lastPayouts := map (\<lambda>_. 0) (lastPayouts g0),
                        handNumber := i64 (handNumber g0 + 1), board := [], pot := 0,
                        winner := - 1, winRank := HighCard\<rparr>;
                g2 = g1\<lparr>button := (if button g1 < 0 then hd occ else nextOccupied g1 (button g1))\<rparr>
            in case shuffle crypto_intn new_deck (rng g2) of (d, r) \<Rightarrow>
                 (let g3 = g2\<lparr>deck := d, rng := r\<rparr>;
                      sb = (if length occ = 2 then button g3 else nextOccupied g3 (button g3));
                      bb = (if length occ = 2 then nextOccupied g3 (button g3) else nextOccupied g3 sb);
                      g4 = postBlind g3 sb (smallBlind g3);
                      g5 = (postBlind g4 bb (bigBlind g4))\<lparr>lastRaiserIdx := bb\<rparr>
                  in case deal_round 0 (length occ) sb g5 of None \<Rightarrow> None
                     | Some (c1, g6) \<Rightarrow>
                       (case deal_round 1 (length occ) c1 g6 of None \<Rightarrow> None
                        | Some (_, g7) \<Rightarrow>
                            Some (True, g7\<lparr>street := Preflop,
                              toAct := (if length occ = 2 then sb else nextOccupied g7 bb)\<rparr>)))))"

text \<open>The chip movement of one action, then \<open>afterAction\<close>.\<close>

definition mp_apply :: "mp_game \<Rightarrow> int \<Rightarrow> hu_action \<Rightarrow> mp_game" where
  "mp_apply g i a =
     (let s = seat g i; toCall = ToCall g i;
          all_in = s\<lparr>Bet := i32 (Bet s + ChipsHand s), ChipsHand := 0, AllIn := True\<rparr>;
          pay = (\<lambda>x. s\<lparr>Bet := i32 (Bet s + x), ChipsHand := i32 (ChipsHand s - x)\<rparr>)
      in case a of
           HuFold \<Rightarrow> set_seat g i (s\<lparr>Folded := True\<rparr>)
         | HuCheckCall \<Rightarrow>
             (if toCall > 0 then set_seat g i (if toCall \<ge> ChipsHand s then all_in else pay toCall)
              else g)
         | HuRaise \<Rightarrow>
             (let needed = i32 (toCall + bigBlind g)
              in (set_seat g i (if needed \<ge> ChipsHand s then all_in else pay needed))\<lparr>lastRaiserIdx := i\<rparr>)
         | HuAllIn \<Rightarrow>
             (let g1 = set_seat g i all_in
              in if ToCall g1 i = 0 \<and> Bet (seat g1 i) > 0 then g1\<lparr>lastRaiserIdx := i\<rparr> else g1))"

definition mp_PlayerAction :: "mp_game \<Rightarrow> int \<Rightarrow> hu_action \<Rightarrow> (bool \<times> mp_game) option" where
  "mp_PlayerAction g seatIdx a =
     (if seatIdx \<noteq> toAct g \<or> street g = Ended then Some (False, g)
      else if \<not> in_seats g seatIdx then None
      else mp_afterAction (mp_apply g seatIdx a))"

definition ChipsAtSeat :: "mp_game \<Rightarrow> int \<Rightarrow> int" where
  "ChipsAtSeat g i = (if \<not> in_seats g i then 0 else ChipsHand (seat g i))"

definition SeatOfUser :: "mp_game \<Rightarrow> int \<Rightarrow> int" where
  "SeatOfUser g uid =
     (case find (\<lambda>i. UserID (seat g i) = uid) (map int [0..<length (seats g)]) of
        Some i \<Rightarrow> i | None \<Rightarrow> - 1)"

section \<open>Snapshots\<close>

record Snapshot =
  snSeats :: "Seat list"
  snButton :: int
  snPot :: int
  snSmallBlind :: int
  snBigBlind :: int
  snHandNumber :: int

definition snapshot_seat :: "Seat \<Rightarrow> Seat" where
  "snapshot_seat s =
     s\<lparr>ChipsHand := i32 (ChipsHand s + i32 (Bet s + Committed s)), Bet := 0, Committed := 0,
       Folded := False, AllIn := False, Hole := [zero_card, zero_card]\<rparr>"

definition SnapshotState :: "mp_game \<Rightarrow> Snapshot" where
  "SnapshotState g =
     \<lparr>snSeats = map snapshot_seat (seats g), snButton = button g, snPot = pot g,
      snSmallBlind = smallBlind g, snBigBlind = bigBlind g, snHandNumber = handNumber g\<rparr>"

definition restore_seat :: "Seat \<Rightarrow> Seat" where
  "restore_seat s =
     (if UserID s \<noteq> 0 \<and> ChipsHand s > 0
      then empty_seat\<lparr>UserID := UserID s, Handle := Handle s, ChipsHand := ChipsHand s\<rparr>
      else empty_seat)"

definition RestoreFromSnapshot :: "Snapshot \<Rightarrow> entropy \<Rightarrow> mp_game" where
  "RestoreFromSnapshot s r =
     (let g = NewGame r (int (length (snSeats s))) (snSmallBlind s) (snBigBlind s);
          restored = map restore_seat (take (length (seats g)) (snSeats s))
      in g\<lparr>seats := restored @ drop (length restored) (seats g),
           button := snButton s, pot := 0, street := Ended, toAct := - 1, winner := - 1,
           handNumber := snHandNumber s\<rparr>)"

section \<open>The best hands of a layer\<close>

definition hand_of :: "mp_game \<Rightarrow> int \<Rightarrow> hand_rank \<times> int" where
  "hand_of g i = evaluateBest (Hole (seat g i) @ board g)"

definition best_inv :: "mp_game \<Rightarrow> int list \<Rightarrow> (int list \<times> (hand_rank \<times> int)) \<Rightarrow> bool" where
  "best_inv g seen b \<longleftrightarrow> fst b \<noteq> [] \<and> (\<forall>j \<in> set seen. value_le (hand_of g j) (snd b))
     \<and> (\<forall>j \<in> set (fst b). hand_of g j = snd b \<and> j \<in> set seen)
     \<and> (distinct seen \<longrightarrow> distinct (fst b))"

lemma best_contender_cases:
  assumes "fst b \<noteq> []"
  shows "best_contender g b i =
    (if \<not> value_le (hand_of g i) (snd b) then ([i], hand_of g i)
     else if hand_of g i = snd b then (fst b @ [i], snd b) else b)"
  using assms
  by (cases "hand_of g i"; cases b; cases "snd b")
    (auto simp: best_contender_def Let_def hand_of_def [symmetric] value_le_def)

lemma best_contender_step:
  assumes "best_inv g seen b"
  shows "best_inv g (seen @ [i]) (best_contender g b i)"
proof (cases "value_le (hand_of g i) (snd b)")
  case False
  then have le: "value_le (snd b) (hand_of g i)" using value_le_total by blast
  have "value_le (hand_of g j) (hand_of g i)" if "j \<in> set seen" for j
    using assms that le value_le_trans unfolding best_inv_def by blast
  then show ?thesis
    using assms False by (simp add: best_inv_def best_contender_cases)
next
  case True
  then show ?thesis
    using assms by (auto simp: best_inv_def best_contender_cases)
qed

lemma best_contender_fold:
  "best_inv g seen b \<Longrightarrow> best_inv g (seen @ idxs) (foldl (best_contender g) b idxs)"
proof (induction idxs arbitrary: seen b)
  case Nil
  then show ?case by simp
next
  case (Cons i idxs)
  from Cons.IH [OF best_contender_step [OF Cons.prems, of i]] show ?case by simp
qed

lemma bestAmong_spec:
  assumes "idxs \<noteq> []" and "bestAmong g idxs = (ws, rk)"
  shows "ws \<noteq> [] \<and> set ws \<subseteq> set idxs
    \<and> (\<forall>i \<in> set ws. \<forall>j \<in> set idxs. value_le (hand_of g j) (hand_of g i))
    \<and> (distinct idxs \<longrightarrow> distinct ws)"
proof -
  obtain i js where idxs: "idxs = i # js" using assms(1) by (cases idxs) auto
  have first: "best_contender g ([], (HighCard, 0)) i = ([i], hand_of g i)"
    by (simp add: best_contender_def hand_of_def)
  have r: "ws = fst (foldl (best_contender g) ([i], hand_of g i) js)"
    using assms(2) by (simp add: bestAmong_def idxs first split: prod.splits)
  have "best_inv g [i] ([i], hand_of g i)" by (simp add: best_inv_def)
  from best_contender_fold [OF this, of js]
  have b: "best_inv g idxs (foldl (best_contender g) ([i], hand_of g i) js)" by (simp add: idxs)
  then have "value_le (hand_of g j) (hand_of g k)" if "k \<in> set ws" "j \<in> set idxs" for j k
    using that unfolding r best_inv_def by metis
  with b show ?thesis unfolding r best_inv_def by blast
qed

section \<open>Side pots\<close>

lemma add_shares_Nil [simp]: "add_shares share r [] aw k = aw"
  by (simp add: add_shares_def)

lemma add_shares_Cons [simp]:
  "add_shares share r (s # ws) aw k
     = add_shares share r ws (aw(s := i32 (aw s + (if k < r then share + 1 else share)))) (k + 1)"
  by (simp add: add_shares_def)

lemma add_shares_sum:
  assumes "finite S" and "set ws \<subseteq> S" and "distinct ws" and "\<forall>s \<in> S. 0 \<le> aw s" and "0 \<le> share" and "0 \<le> k"
    and "sum aw S + (share + 1) * int (length ws) < 2147483648"
  shows "sum (add_shares share r ws aw k) S
      = sum aw S + share * int (length ws) + max 0 (min (r - k) (int (length ws)))
    \<and> (\<forall>s \<in> S. 0 \<le> add_shares share r ws aw k s)
    \<and> (\<forall>s. s \<notin> set ws \<longrightarrow> add_shares share r ws aw k s = aw s)"
  using assms(2-)
proof (induction ws arbitrary: aw k)
  case Nil
  then show ?case by simp
next
  case (Cons s ws)
  let ?a = "if k < r then share + 1 else share"
  have s: "s \<in> S" using Cons.prems(1) by simp
  have le: "aw s \<le> sum aw S" using Cons.prems(3) s assms(1) by (intro member_le_sum) auto
  have nn: "0 \<le> (share + 1) * int (length ws)" using Cons.prems(4) by simp
  have room: "sum aw S + ?a + (share + 1) * int (length ws) < 2147483648"
    using Cons.prems(6) by (auto simp: algebra_simps)
  have i: "i32 (aw s + ?a) = aw s + ?a"
  proof (rule i32_nonneg_id)
    show "0 \<le> aw s + ?a" using Cons.prems(3,4) s by simp
    show "aw s + ?a < 2147483648" using le room nn by linarith
  qed
  define aw1 where "aw1 = aw(s := i32 (aw s + ?a))"
  have aw1: "aw1 s = aw s + ?a" "\<And>x. x \<noteq> s \<Longrightarrow> aw1 x = aw x" using i by (simp_all add: aw1_def)
  have sum: "sum aw1 S = sum aw S + ?a"
    using assms(1) s by (simp add: aw1 sum.remove [OF assms(1) s])
  have nn1: "\<forall>x \<in> S. 0 \<le> aw1 x" using Cons.prems(3,4) aw1 s by (metis add_increasing2 add_nonneg_nonneg zero_le_one)
  define fin where "fin = add_shares share r ws aw1 (k + 1)"
  have ih: "sum fin S = sum aw1 S + share * int (length ws) + max 0 (min (r - (k + 1)) (int (length ws)))
      \<and> (\<forall>x \<in> S. 0 \<le> fin x) \<and> (\<forall>x. x \<notin> set ws \<longrightarrow> fin x = aw1 x)"
    unfolding fin_def using Cons.prems room sum nn1 by (intro Cons.IH) auto
  have "sum aw1 S + share * int (length ws) + max 0 (min (r - (k + 1)) (int (length ws)))
      = sum aw S + share * int (length (s # ws)) + max 0 (min (r - k) (int (length (s # ws))))"
    unfolding sum by (auto simp: algebra_simps)
  moreover have "add_shares share r (s # ws) aw k = fin" by (simp add: fin_def aw1_def)
  ultimately show ?case using ih aw1(2) by auto
qed

lemma foldl_layer_chips:
  assumes "0 \<le> d" and "0 \<le> t" and "t + d * int (length bs) < 2147483648"
  shows "foldl (\<lambda>t b. i32 (t + d)) t bs = t + d * int (length bs)"
  using assms(2,3)
proof (induction bs arbitrary: t)
  case Nil
  then show ?case by simp
next
  case (Cons b bs)
  have "0 \<le> d * int (length bs)" using assms(1) by simp
  moreover have e: "t + d * int (length (b # bs)) = t + d + d * int (length bs)"
    by (simp add: algebra_simps)
  ultimately have "i32 (t + d) = t + d"
    using Cons.prems assms(1) by (intro i32_nonneg_id) linarith+
  with Cons.IH [of "t + d"] Cons.prems assms(1) e show ?case by simp
qed

definition total_committed :: "seatBucket list \<Rightarrow> int" where
  "total_committed bs = (\<Sum>b\<leftarrow>bs. bCommitted b)"

text \<open>What the buckets paid up to a level, and the most any eligible seat paid.\<close>

definition paid :: "seatBucket list \<Rightarrow> int \<Rightarrow> int" where
  "paid bs m = (\<Sum>b\<leftarrow>bs. min (bCommitted b) m)"

definition top_eligible :: "seatBucket list \<Rightarrow> int" where
  "top_eligible bs = foldr max (map bCommitted (filter bEligible bs)) 0"

definition bs_ok :: "seatBucket list \<Rightarrow> bool" where
  "bs_ok bs \<longleftrightarrow> distinct (map bSeat bs) \<and> (\<forall>b \<in> set bs. 0 \<le> bCommitted b)
     \<and> total_committed bs + int (length bs) < 2147483648"

definition won_ok :: "mp_game \<Rightarrow> seatBucket list \<Rightarrow> pots \<Rightarrow> bool" where
  "won_ok g bs p \<longleftrightarrow> (\<forall>i. awards p i \<noteq> 0 \<longrightarrow>
     (\<exists>b \<in> set bs. bSeat b = i \<and> bEligible b
        \<and> (\<forall>b' \<in> set bs. bEligible b' \<and> bCommitted b \<le> bCommitted b'
             \<longrightarrow> value_le (hand_of g (bSeat b')) (hand_of g i))))"

definition pots_inv :: "mp_game \<Rightarrow> seatBucket list \<Rightarrow> int \<Rightarrow> pots \<Rightarrow> bool" where
  "pots_inv g bs l p \<longleftrightarrow> prev p = l
     \<and> sum (awards p) (set (map bSeat bs)) = paid bs (min l (top_eligible bs))
     \<and> (\<forall>s \<in> set (map bSeat bs). 0 \<le> awards p s) \<and> won_ok g bs p"

lemma top_eligible_ge: "b \<in> set bs \<Longrightarrow> bEligible b \<Longrightarrow> bCommitted b \<le> top_eligible bs"
proof -
  have "x \<in> set xs \<Longrightarrow> x \<le> foldr max xs 0" for x :: int and xs
    by (induction xs) (auto simp: le_max_iff_disj)
  moreover assume "b \<in> set bs" "bEligible b"
  ultimately show ?thesis by (simp add: top_eligible_def)
qed

lemma top_eligible_cases:
  "top_eligible bs = 0 \<or> (\<exists>b \<in> set bs. bEligible b \<and> bCommitted b = top_eligible bs)"
proof -
  have "foldr max xs 0 = 0 \<or> foldr max xs 0 \<in> set xs" for xs :: "int list"
    by (induction xs) (auto simp: max_def)
  from this [of "map bCommitted (filter bEligible bs)"] show ?thesis by (auto simp: top_eligible_def)
qed

lemma top_eligible_nonneg: "0 \<le> top_eligible bs"
proof -
  have "0 \<le> foldr max xs 0" for xs :: "int list" by (induction xs) (auto simp: le_max_iff_disj)
  then show ?thesis by (simp add: top_eligible_def)
qed

lemma paid_step:
  assumes "\<forall>b \<in> set bs. bCommitted b \<le> l \<or> lvl \<le> bCommitted b" and "l < lvl"
  shows "paid bs lvl = paid bs l + (lvl - l) * int (length (filter (\<lambda>b. bCommitted b \<ge> lvl) bs))"
  using assms by (induction bs) (auto simp: paid_def algebra_simps)

lemma paid_le: "\<forall>b \<in> set bs. 0 \<le> bCommitted b \<Longrightarrow> paid bs m \<le> total_committed bs"
  by (induction bs) (auto simp: paid_def total_committed_def)

lemma paid_nonneg: "\<forall>b \<in> set bs. 0 \<le> bCommitted b \<Longrightarrow> 0 \<le> m \<Longrightarrow> 0 \<le> paid bs m"
  by (induction bs) (auto simp: paid_def)

lemma paid_zero: "\<forall>b \<in> set bs. 0 \<le> bCommitted b \<Longrightarrow> paid bs 0 = 0"
  by (induction bs) (auto simp: paid_def min_def)

lemma layer_step:
  assumes bs: "bs_ok bs" and l: "0 \<le> l" "l < lvl" and at: "\<exists>b \<in> set bs. bCommitted b = lvl"
    and gap: "\<forall>b \<in> set bs. bCommitted b \<le> l \<or> lvl \<le> bCommitted b" and inv: "pots_inv g bs l p"
  shows "pots_inv g bs lvl (layer g bs p lvl)"
proof -
  define payers where "payers = filter (\<lambda>b. bCommitted b \<ge> lvl) bs"
  define eligible where "eligible = map bSeat (filter bEligible payers)"
  define chips where "chips = (lvl - l) * int (length payers)"
  define S where "S = set (map bSeat bs)"
  have nn: "\<forall>b \<in> set bs. 0 \<le> bCommitted b" using bs by (simp add: bs_ok_def)
  have pos: "0 < length payers" using at by (auto simp: payers_def filter_empty_conv)
  have step: "paid bs lvl = paid bs l + chips"
    using paid_step [OF gap l(2)] by (simp add: chips_def payers_def)
  have chips: "0 < chips" "paid bs l + chips + int (length bs) < 2147483648" "0 \<le> paid bs l"
    using l pos step paid_le [OF nn, of lvl] paid_nonneg [OF nn l(1)] bs by (auto simp: chips_def bs_ok_def)
  have prev: "prev p = l" and sum: "sum (awards p) S = paid bs (min l (top_eligible bs))"
    and aw: "\<forall>s \<in> S. 0 \<le> awards p s" and won: "won_ok g bs p"
    using inv by (simp_all add: pots_inv_def S_def)
  have fold: "foldl (\<lambda>t b. i32 (t + (lvl - l))) 0 payers = chips"
    using foldl_layer_chips [of "lvl - l" 0 payers] chips l by (simp add: chips_def)
  have elig: "eligible \<noteq> [] \<longleftrightarrow> lvl \<le> top_eligible bs"
  proof
    assume "eligible \<noteq> []"
    then obtain b where "b \<in> set bs" "bEligible b" "lvl \<le> bCommitted b"
      by (auto simp: eligible_def payers_def filter_empty_conv)
    then show "lvl \<le> top_eligible bs" using top_eligible_ge [of b bs] by linarith
  next
    assume "lvl \<le> top_eligible bs"
    then obtain b where "b \<in> set bs" "bEligible b" "bCommitted b = top_eligible bs"
      using top_eligible_cases [of bs] l by auto
    then show "eligible \<noteq> []"
      using \<open>lvl \<le> top_eligible bs\<close>
      by (auto simp: eligible_def payers_def filter_empty_conv intro!: bexI [of _ b])
  qed
  show ?thesis
  proof (cases "eligible = []")
    case True
    have "top_eligible bs \<le> l"
    proof (cases "top_eligible bs = 0")
      case False
      then obtain b where "b \<in> set bs" "bCommitted b = top_eligible bs"
        using top_eligible_cases [of bs] by auto
      then show ?thesis using gap elig True by fastforce
    qed (use l in simp)
    then have "min lvl (top_eligible bs) = min l (top_eligible bs)" using l by simp
    moreover have "filter bEligible payers = []" using True by (simp add: eligible_def)
    then have "layer g bs p lvl = p\<lparr>prev := lvl\<rparr>"
      by (simp add: layer_def Let_def flip: payers_def)
    ultimately show ?thesis using sum aw won by (simp add: pots_inv_def won_ok_def S_def)
  next
    case False
    obtain ws rk where best: "bestAmong g eligible = (ws, rk)" by fastforce
    note spec = bestAmong_spec [OF False best]
    have dist: "distinct eligible"
      using bs by (simp add: eligible_def payers_def bs_ok_def distinct_map inj_on_def filter_filter)
    define n where "n = int (length ws)"
    define ws' where "ws' = sort_key (\<lambda>s. seatDistance s (button g) (SeatCount g)) ws"
    have ws': "set ws' = set ws" "distinct ws'" "int (length ws') = n" "0 < n"
      using spec dist by (auto simp: ws'_def n_def)
    define share rem where "share = go_div chips n" and "rem = go_mod chips n"
    have sr: "share * n + rem = chips" "0 \<le> share" "0 \<le> rem" "rem < n"
      using chips(1) ws'(4) by (simp_all add: share_def rem_def div_mult_mod_eq pos_imp_zdiv_nonneg_iff)
    have nle: "n \<le> int (length bs)"
    proof -
      have "length ws' \<le> length eligible"
        using spec dist ws' by (metis card_mono distinct_card List.finite_set)
      also have "\<dots> \<le> length bs" by (simp add: eligible_def payers_def le_trans [OF length_filter_le])
      finally show ?thesis using ws'(3) by simp
    qed
    have sub: "set ws' \<subseteq> S" using spec ws' by (auto simp: S_def eligible_def payers_def)
    have minl: "min lvl (top_eligible bs) = lvl" "min l (top_eligible bs) = l"
      using elig False l by auto
    define aw' where "aw' = add_shares share rem ws' (awards p) 0"
    have shares: "sum aw' S = sum (awards p) S + share * int (length ws') + max 0 (min (rem - 0) (int (length ws')))
      \<and> (\<forall>s \<in> S. 0 \<le> aw' s) \<and> (\<forall>s. s \<notin> set ws' \<longrightarrow> aw' s = awards p s)"
      unfolding aw'_def
    proof (rule add_shares_sum [OF _ sub ws'(2) aw sr(2)])
      show "sum (awards p) S + (share + 1) * int (length ws') < 2147483648"
        using chips(2) sum minl ws'(3) nle sr by (simp add: algebra_simps)
    qed (simp_all add: S_def)
    then have sum': "sum aw' S = paid bs lvl"
      using sum minl ws'(3,4) sr step by simp
    have won': "won_ok g bs (p\<lparr>awards := aw'\<rparr>)"
      unfolding won_ok_def
    proof (intro allI impI)
      fix i assume i: "awards (p\<lparr>awards := aw'\<rparr>) i \<noteq> 0"
      show "\<exists>b \<in> set bs. bSeat b = i \<and> bEligible b
        \<and> (\<forall>b' \<in> set bs. bEligible b' \<and> bCommitted b \<le> bCommitted b'
             \<longrightarrow> value_le (hand_of g (bSeat b')) (hand_of g i))"
      proof (cases "i \<in> set ws'")
        case True
        then have "i \<in> set eligible" using ws'(1) spec by auto
        then obtain b where b: "b \<in> set bs" "bSeat b = i" "bEligible b" "lvl \<le> bCommitted b"
          by (auto simp: eligible_def payers_def)
        moreover have "value_le (hand_of g (bSeat b')) (hand_of g i)"
          if "b' \<in> set bs" "bEligible b'" "bCommitted b \<le> bCommitted b'" for b'
          using that b True ws'(1) spec by (auto simp: eligible_def payers_def)
        ultimately show ?thesis by blast
      next
        case False
        then have "awards p i \<noteq> 0" using shares i by simp
        then show ?thesis using won by (simp add: won_ok_def)
      qed
    qed
    have lay: "layer g bs p lvl = (if n = 1
        then p\<lparr>prev := lvl, awards := aw', lastWin := hd ws', lastRank := rk, winnerCount := 1\<rparr>
        else p\<lparr>prev := lvl, awards := aw', lastWin := - 1, lastRank := rk, winnerCount := n\<rparr>)"
      using False best spec chips(1) fold prev
      unfolding layer_def Let_def payers_def [symmetric] eligible_def [symmetric] n_def [symmetric]
        ws'_def [symmetric] prev fold share_def [symmetric] rem_def [symmetric] aw'_def [symmetric]
      by (simp add: share_def rem_def ws'_def n_def aw'_def)
    show ?thesis
      using sum' shares won' minl unfolding lay by (simp add: pots_inv_def won_ok_def S_def)
  qed
qed

lemma levels_fold:
  assumes "bs_ok bs" and "sorted_wrt (<) ls" and "0 \<le> l"
    and "\<forall>c. c \<in> set ls \<longleftrightarrow> l < c \<and> c \<in> set (map bCommitted bs)" and "pots_inv g bs l p"
  shows "\<exists>L. pots_inv g bs L (foldl (layer g bs) p ls) \<and> top_eligible bs \<le> L"
  using assms(2-)
proof (induction ls arbitrary: l p)
  case Nil
  have "top_eligible bs \<le> l"
    using top_eligible_cases [of bs] Nil.prems(2,3) by (force simp: not_less)
  with Nil.prems(4) show ?case by auto
next
  case (Cons lvl ls)
  have lvl: "l < lvl" "\<exists>b \<in> set bs. bCommitted b = lvl"
    using Cons.prems(3) [rule_format, of lvl] by auto
  have gap: "\<forall>b \<in> set bs. bCommitted b \<le> l \<or> lvl \<le> bCommitted b"
  proof
    fix b assume b: "b \<in> set bs"
    show "bCommitted b \<le> l \<or> lvl \<le> bCommitted b"
    proof (cases "l < bCommitted b")
      case True
      with b Cons.prems(3) have "bCommitted b \<in> set (lvl # ls)" by auto
      with Cons.prems(1) show ?thesis by auto
    qed simp
  qed
  have step: "pots_inv g bs lvl (layer g bs p lvl)"
    by (rule layer_step [OF assms(1) Cons.prems(2) lvl gap Cons.prems(4)])
  have rest: "\<forall>c. c \<in> set ls \<longleftrightarrow> lvl < c \<and> c \<in> set (map bCommitted bs)"
  proof
    fix c
    have "c \<in> set (lvl # ls) \<longleftrightarrow> l < c \<and> c \<in> set (map bCommitted bs)" using Cons.prems(3) by blast
    moreover have "c \<in> set ls \<Longrightarrow> lvl < c" using Cons.prems(1) by simp
    ultimately show "c \<in> set ls \<longleftrightarrow> lvl < c \<and> c \<in> set (map bCommitted bs)"
      using lvl(1) by auto
  qed
  show ?case
    using Cons.IH [of lvl "layer g bs p lvl"] Cons.prems(1,2) lvl(1) rest step by simp
qed

lemma side_pots_spec:
  assumes "bs_ok (buckets g)"
  shows "sum (awards (side_pots g)) (set (map bSeat (buckets g))) = paid (buckets g) (top_eligible (buckets g))
    \<and> (\<forall>s \<in> set (map bSeat (buckets g)). 0 \<le> awards (side_pots g) s)
    \<and> won_ok g (buckets g) (side_pots g)"
proof -
  let ?bs = "buckets g"
  let ?p0 = "\<lparr>awards = (\<lambda>_. 0), prev = 0, lastWin = 0, lastRank = HighCard, winnerCount = 0\<rparr>"
  have nn: "\<forall>b \<in> set ?bs. 0 \<le> bCommitted b" using assms by (simp add: bs_ok_def)
  have "min 0 (top_eligible ?bs) = 0" using top_eligible_nonneg by simp
  then have p0: "pots_inv g ?bs 0 ?p0" by (simp add: pots_inv_def won_ok_def paid_zero [OF nn])
  have srt: "sorted_wrt (<) (levels ?bs)"
    by (simp add: levels_def strict_sorted_iff)
  have lv: "\<forall>c. c \<in> set (levels ?bs) \<longleftrightarrow> 0 < c \<and> c \<in> set (map bCommitted ?bs)"
    by (auto simp: levels_def)
  obtain L where L: "pots_inv g ?bs L (foldl (layer g ?bs) ?p0 (levels ?bs))" "top_eligible ?bs \<le> L"
    using levels_fold [OF assms srt _ lv p0] by auto
  have "side_pots g = foldl (layer g ?bs) ?p0 (levels ?bs)" by (simp add: side_pots_def Let_def)
  moreover have "min L (top_eligible ?bs) = top_eligible ?bs" using L(2) by simp
  ultimately show ?thesis using L(1) by (simp add: pots_inv_def)
qed

section \<open>Chips\<close>

definition mp_chips :: "mp_game \<Rightarrow> int" where
  "mp_chips g = (\<Sum>s\<leftarrow>seats g. ChipsHand s + Bet s) + pot g"

definition committed_total :: "mp_game \<Rightarrow> int" where
  "committed_total g = (\<Sum>s\<leftarrow>seats g. Committed s)"

text \<open>What nobody left in the hand may win: the chips above the largest stake of an unfolded seat.\<close>

definition orphaned :: "mp_game \<Rightarrow> int" where
  "orphaned g = total_committed (buckets g) - paid (buckets g) (top_eligible (buckets g))"

definition seat_ok :: "Seat \<Rightarrow> bool" where
  "seat_ok s \<longleftrightarrow> 0 \<le> ChipsHand s \<and> 0 \<le> Bet s \<and> 0 \<le> Committed s \<and> length (Hole s) = 2
     \<and> (UserID s = 0 \<longrightarrow> ChipsHand s = 0 \<and> Bet s = 0 \<and> Committed s = 0)"

text \<open>The table's money: no seat negative, and every sum of it within an int32.\<close>

definition money_ok :: "mp_game \<Rightarrow> bool" where
  "money_ok g \<longleftrightarrow> 2 \<le> length (seats g) \<and> length (seats g) \<le> 9 \<and> length (lastPayouts g) = length (seats g)
     \<and> (\<forall>s \<in> set (seats g). seat_ok s) \<and> 0 \<le> pot g \<and> 0 \<le> smallBlind g \<and> 0 \<le> bigBlind g
     \<and> mp_chips g + bigBlind g < 2147483600"

lemma sum_map_int_seats: "sum f (set (map int [0..<n])) = (\<Sum>i\<leftarrow>[0..<n]. f (int i))"
proof (induction n)
  case (Suc n)
  have "int n \<notin> int ` {0..<n}" by auto
  with Suc show ?case by (simp add: add.commute)
qed simp

lemma seats_nth_sum: "(\<Sum>i\<leftarrow>[0..<length (seats g)]. f (seat g (int i))) = (\<Sum>s\<leftarrow>seats g. f s)"
proof -
  have "map (\<lambda>i. f (seat g (int i))) [0..<length (seats g)] = map f (seats g)"
    by (rule nth_equalityI) (simp_all add: seat_def)
  then show ?thesis by simp
qed

lemma bucket_seats:
  "map bSeat (buckets g) = filter (\<lambda>i. UserID (seat g i) \<noteq> 0) (map int [0..<length (seats g)])"
  by (simp add: buckets_def o_def)

lemma total_committed_buckets:
  assumes "\<forall>s \<in> set (seats g). seat_ok s"
  shows "total_committed (buckets g) = committed_total g"
proof -
  have "total_committed (buckets g)
      = (\<Sum>i\<leftarrow>filter (\<lambda>i. UserID (seat g i) \<noteq> 0) (map int [0..<length (seats g)]). Committed (seat g i))"
    by (simp add: total_committed_def buckets_def o_def)
  also have "\<dots> = (\<Sum>i\<leftarrow>map int [0..<length (seats g)]. Committed (seat g i))"
  proof -
    have "(\<Sum>i\<leftarrow>filter (\<lambda>i. UserID (seat g i) \<noteq> 0) ks. Committed (seat g i)) = (\<Sum>i\<leftarrow>ks. Committed (seat g i))"
      if "\<forall>i \<in> set ks. UserID (seat g i) = 0 \<longrightarrow> Committed (seat g i) = 0" for ks
      using that by (induction ks) auto
    moreover have "UserID (seat g i) = 0 \<longrightarrow> Committed (seat g i) = 0"
      if "i \<in> set (map int [0..<length (seats g)])" for i
      using that assms by (auto simp: seat_def seat_ok_def)
    ultimately show ?thesis by blast
  qed
  also have "\<dots> = committed_total g"
    using seats_nth_sum [of Committed g] by (simp add: committed_total_def o_def)
  finally show ?thesis .
qed

lemma buckets_ok:
  assumes "money_ok g" and "committed_total g \<le> mp_chips g"
  shows "bs_ok (buckets g)"
proof -
  have "distinct (map bSeat (buckets g))" by (simp add: bucket_seats distinct_map)
  moreover have "0 \<le> bCommitted b" if "b \<in> set (buckets g)" for b
    using that assms(1) by (auto simp: buckets_def money_ok_def seat_ok_def seat_def)
  moreover have "length (buckets g) \<le> 9"
  proof -
    have "length (buckets g) \<le> length (map int [0..<length (seats g)])"
      by (metis bucket_seats length_filter_le length_map)
    then show ?thesis using assms(1) by (simp add: money_ok_def)
  qed
  ultimately show ?thesis
    using assms total_committed_buckets [of g] by (simp add: bs_ok_def money_ok_def)
qed

lemma money_seat: "money_ok g \<Longrightarrow> i < length (seats g) \<Longrightarrow> seat_ok (seat g (int i))"
  by (auto simp: money_ok_def seat_def)

lemma seat_chips_le:
  assumes "money_ok g" and "i < length (seats g)"
  shows "ChipsHand (seat g (int i)) + Bet (seat g (int i)) + pot g \<le> mp_chips g"
proof -
  have "ChipsHand (seats g ! i) + Bet (seats g ! i) \<le> (\<Sum>s\<leftarrow>seats g. ChipsHand s + Bet s)"
    using assms by (intro nth_sum_list_le [where f = "\<lambda>s. ChipsHand s + Bet s"])
      (auto simp: money_ok_def seat_ok_def)
  then show ?thesis by (simp add: mp_chips_def seat_def)
qed

lemma awards_bounds:
  assumes "money_ok g" and "committed_total g \<le> pot g" and "\<forall>s \<in> set (seats g). Bet s = 0"
  shows "(\<forall>i. 0 \<le> awards (side_pots g) i) \<and> (\<forall>i. awards (side_pots g) i \<le> pot g)
    \<and> (\<Sum>i\<leftarrow>[0..<length (seats g)]. awards (side_pots g) (int i)) = committed_total g - orphaned g
    \<and> 0 \<le> orphaned g
    \<and> (\<forall>i < length (seats g). UserID (seat g (int i)) = 0 \<longrightarrow> awards (side_pots g) (int i) = 0)"
proof -
  let ?aw = "awards (side_pots g)"
  define S where "S = set (map bSeat (buckets g))"
  have sok: "\<forall>s \<in> set (seats g). seat_ok s" using assms(1) by (simp add: money_ok_def)
  have "0 \<le> (\<Sum>s\<leftarrow>seats g. ChipsHand s + Bet s)"
    using sok by (intro sum_list_nonneg) (auto simp: seat_ok_def)
  then have "pot g \<le> mp_chips g" by (simp add: mp_chips_def)
  then have bs: "bs_ok (buckets g)" using buckets_ok assms by simp
  have tot: "total_committed (buckets g) = committed_total g"
    using total_committed_buckets [OF sok] .
  note sp = side_pots_spec [OF bs, folded S_def]
  have out: "?aw i = 0" if "i \<notin> S" for i
    using sp that by (auto simp: won_ok_def S_def)
  have nn: "0 \<le> ?aw i" for i using sp out [of i] by (cases "i \<in> S") auto
  have nnb: "\<forall>b \<in> set (buckets g). 0 \<le> bCommitted b" using bs by (simp add: bs_ok_def)
  have sum: "sum ?aw S = committed_total g - orphaned g" using sp tot by (simp add: orphaned_def)
  have orph: "0 \<le> orphaned g" using paid_le [OF nnb] by (simp add: orphaned_def)
  have fin: "finite S" by (simp add: S_def)
  have le: "?aw i \<le> pot g" for i
  proof (cases "i \<in> S")
    case True
    then have "?aw i \<le> sum ?aw S" using fin nn by (intro member_le_sum) auto
    with sum orph assms(2) show ?thesis by simp
  next
    case False
    with out assms(1) show ?thesis by (simp add: money_ok_def)
  qed
  have sub: "S \<subseteq> set (map int [0..<length (seats g)])" unfolding S_def bucket_seats by auto
  have "sum ?aw (set (map int [0..<length (seats g)])) = sum ?aw S"
    using sub out by (intro sum.mono_neutral_right) auto
  then have all: "(\<Sum>i\<leftarrow>[0..<length (seats g)]. ?aw (int i)) = committed_total g - orphaned g"
    using sum sum_map_int_seats [of ?aw "length (seats g)"] by simp
  have "?aw (int i) = 0" if "UserID (seat g (int i)) = 0" for i
    using that by (intro out) (auto simp: S_def bucket_seats)
  then show ?thesis using nn le all orph by blast
qed

lemma seat_map:
  "i < length (seats g) \<Longrightarrow>
     seat (g\<lparr>seats := map f (map int [0..<length (seats g)])\<rparr>) (int i) = f (int i)"
  by (simp add: seat_def)

lemma resolve_seat:
  assumes "i < length (seats g)"
  shows "seat (mp_resolveShowdown g) (int i)
    = (seat g (int i))\<lparr>ChipsHand := i32 (ChipsHand (seat g (int i)) + awards (side_pots g) (int i))\<rparr>"
  using assms by (simp add: mp_resolveShowdown_def seat_def Let_def)

lemma length_resolve [simp]: "length (seats (mp_resolveShowdown g)) = length (seats g)"
  by (simp add: mp_resolveShowdown_def Let_def)

lemma buckets_cong:
  assumes "length (seats g') = length (seats g)"
    and "\<And>i. i < length (seats g) \<Longrightarrow> UserID (seat g' (int i)) = UserID (seat g (int i))
      \<and> Committed (seat g' (int i)) = Committed (seat g (int i))
      \<and> Folded (seat g' (int i)) = Folded (seat g (int i))"
  shows "buckets g' = buckets g"
  unfolding buckets_def using assms by (auto intro!: map_cong filter_cong)

lemma resolve_money:
  assumes m: "money_ok g" and p: "committed_total g \<le> pot g" and b: "\<forall>s \<in> set (seats g). Bet s = 0"
  shows "money_ok (mp_resolveShowdown g)" (is ?A)
    and "mp_chips (mp_resolveShowdown g) = mp_chips g - (pot g - committed_total g) - orphaned g" (is ?B)
    and "buckets (mp_resolveShowdown g) = buckets g" (is ?C)
    and "\<forall>s \<in> set (seats (mp_resolveShowdown g)). Bet s = 0" (is ?D)
proof -
  note ab = awards_bounds [OF m p b]
  have hand: "ChipsHand (seat g (int i)) + Bet (seat g (int i)) + pot g \<le> mp_chips g"
    "seat_ok (seat g (int i))" "Bet (seat g (int i)) = 0" if "i < length (seats g)" for i
    using seat_chips_le [OF m that] money_seat [OF m that] b that by (auto simp: seat_def)
  have i32: "i32 (ChipsHand (seat g (int i)) + awards (side_pots g) (int i))
      = ChipsHand (seat g (int i)) + awards (side_pots g) (int i)" if "i < length (seats g)" for i
    using hand [OF that] ab m
    by (intro i32_nonneg_id) (smt (verit, best) seat_ok_def money_ok_def)+
  have seat': "seat (mp_resolveShowdown g) (int i)
      = (seat g (int i))\<lparr>ChipsHand := ChipsHand (seat g (int i)) + awards (side_pots g) (int i)\<rparr>"
    if "i < length (seats g)" for i
    using resolve_seat [OF that] i32 [OF that] by simp
  show C: ?C by (rule buckets_cong) (simp_all add: seat')
  have all: "\<forall>s \<in> set (seats (mp_resolveShowdown g)). seat_ok s \<and> Bet s = 0"
  proof
    fix s assume "s \<in> set (seats (mp_resolveShowdown g))"
    then obtain i where i: "i < length (seats g)" "s = seat (mp_resolveShowdown g) (int i)"
      by (auto simp: in_set_conv_nth seat_def)
    then show "seat_ok s \<and> Bet s = 0" using seat' hand [OF i(1)] ab by (auto simp: seat_ok_def)
  qed
  then show ?D by blast
  have "(\<Sum>s\<leftarrow>seats (mp_resolveShowdown g). ChipsHand s + Bet s)
      = (\<Sum>i\<leftarrow>[0..<length (seats g)]. ChipsHand (seat (mp_resolveShowdown g) (int i)) + Bet (seat (mp_resolveShowdown g) (int i)))"
    using seats_nth_sum [of "\<lambda>s. ChipsHand s + Bet s" "mp_resolveShowdown g"] by simp
  also have "\<dots> = (\<Sum>i\<leftarrow>[0..<length (seats g)]. (ChipsHand (seat g (int i)) + Bet (seat g (int i)))
      + awards (side_pots g) (int i))"
    by (intro arg_cong [where f = sum_list] map_cong refl) (simp add: seat')
  also have "\<dots> = (\<Sum>s\<leftarrow>seats g. ChipsHand s + Bet s) + (committed_total g - orphaned g)"
    using ab seats_nth_sum [of "\<lambda>s. ChipsHand s + Bet s" g] by (simp add: sum_list_addf)
  finally show B: ?B by (simp add: mp_chips_def mp_resolveShowdown_def Let_def)
  show ?A
    using m all B ab p by (simp add: money_ok_def) (simp add: mp_resolveShowdown_def Let_def)
qed

lemma foldl_bets:
  assumes "\<forall>s \<in> set ss. 0 \<le> Bet s" and "0 \<le> t" and "t + (\<Sum>s\<leftarrow>ss. Bet s) < 2147483648"
  shows "foldl (\<lambda>t s. i32 (t + Bet s)) t ss = t + (\<Sum>s\<leftarrow>ss. Bet s)"
  using assms
proof (induction ss arbitrary: t)
  case (Cons a ss)
  have "0 \<le> (\<Sum>s\<leftarrow>ss. Bet s)" using Cons.prems(1) by (intro sum_list_nonneg) auto
  then have "i32 (t + Bet a) = t + Bet a" using Cons.prems by (intro i32_nonneg_id) auto
  with Cons show ?case by simp
qed simp

lemma mp_Pot_eq:
  assumes "money_ok g"
  shows "mp_Pot g = pot g + (\<Sum>s\<leftarrow>seats g. Bet s)"
    and "pot g + (\<Sum>s\<leftarrow>seats g. Bet s) \<le> mp_chips g"
    and "mp_chips g = (\<Sum>s\<leftarrow>seats g. ChipsHand s) + (\<Sum>s\<leftarrow>seats g. Bet s) + pot g"
proof -
  have "0 \<le> (\<Sum>s\<leftarrow>seats g. ChipsHand s)"
    using assms by (intro sum_list_nonneg) (auto simp: money_ok_def seat_ok_def)
  moreover show e: "mp_chips g = (\<Sum>s\<leftarrow>seats g. ChipsHand s) + (\<Sum>s\<leftarrow>seats g. Bet s) + pot g"
    by (simp add: mp_chips_def sum_list_addf)
  ultimately show le: "pot g + (\<Sum>s\<leftarrow>seats g. Bet s) \<le> mp_chips g" by simp
  show "mp_Pot g = pot g + (\<Sum>s\<leftarrow>seats g. Bet s)"
    unfolding mp_Pot_def using assms le
    by (intro foldl_bets) (auto simp: money_ok_def seat_ok_def)
qed

text \<open>Moving the bets into the pot moves no chips in or out.\<close>

definition collected :: "mp_game \<Rightarrow> mp_game" where
  "collected g = g\<lparr>pot := mp_Pot g, seats := map collect_seat (seats g)\<rparr>"

lemma collect_money:
  assumes m: "money_ok g" and c: "committed_total g \<le> pot g"
  shows "money_ok (collected g)"
    and "mp_chips (collected g) = mp_chips g"
    and "\<forall>s \<in> set (seats (collected g)). Bet s = 0"
    and "pot (collected g) - committed_total (collected g) = pot g - committed_total g"
    and "(\<Sum>s\<leftarrow>seats (collected g). ChipsHand s) = (\<Sum>s\<leftarrow>seats g. ChipsHand s)"
proof -
  note mp = mp_Pot_eq [OF m]
  have sok: "\<forall>s \<in> set (seats g). seat_ok s" using m by (simp add: money_ok_def)
  have small: "i32 (Committed s + Bet s) = Committed s + Bet s" if s: "s \<in> set (seats g)" for s
  proof -
    obtain i where i: "i < length (seats g)" "s = seats g ! i" using s by (metis in_set_conv_nth)
    have "Committed s \<le> committed_total g" unfolding committed_total_def i(2)
      using sok i(1) by (intro nth_sum_list_le) (auto simp: seat_ok_def)
    moreover have "Bet s \<le> (\<Sum>s\<leftarrow>seats g. Bet s)" unfolding i(2)
      using sok i(1) by (intro nth_sum_list_le) (auto simp: seat_ok_def)
    moreover have "0 \<le> Committed s" "0 \<le> Bet s" using sok s by (auto simp: seat_ok_def)
    moreover have "mp_chips g < 2147483600" using m by (simp add: money_ok_def)
    ultimately show ?thesis using c mp by (intro i32_nonneg_id) linarith+
  qed
  have sum_c: "(\<Sum>s\<leftarrow>map collect_seat (seats g). Committed s)
      = (\<Sum>s\<leftarrow>seats g. Committed s) + (\<Sum>s\<leftarrow>seats g. Bet s)"
  proof -
    have e: "map (\<lambda>s. Committed (collect_seat s)) (seats g) = map (\<lambda>s. Committed s + Bet s) (seats g)"
      using small by (intro map_cong) (simp_all add: collect_seat_def)
    show ?thesis unfolding map_map o_def e by (simp add: sum_list_addf)
  qed
  have sum_h: "(\<Sum>s\<leftarrow>map collect_seat (seats g). f (ChipsHand s)) = (\<Sum>s\<leftarrow>seats g. f (ChipsHand s))" for f :: "int \<Rightarrow> int"
    by (simp add: o_def collect_seat_def)
  show z: "\<forall>s \<in> set (seats (collected g)). Bet s = 0" by (simp add: collected_def collect_seat_def)
  show h: "(\<Sum>s\<leftarrow>seats (collected g). ChipsHand s) = (\<Sum>s\<leftarrow>seats g. ChipsHand s)"
    using sum_h [of id] by (simp add: collected_def)
  have b0: "(\<Sum>s\<leftarrow>seats (collected g). Bet s) = 0"
    using z by (induction "seats (collected g)") (simp_all add: sum_list_0 map_eq_conv cong: map_cong)
  show chips: "mp_chips (collected g) = mp_chips g"
    using h b0 mp by (simp add: mp_chips_def sum_list_addf) (simp add: collected_def)
  show "pot (collected g) - committed_total (collected g) = pot g - committed_total g"
    using sum_c mp by (simp add: collected_def committed_total_def)
  have "\<forall>s \<in> set (seats (collected g)). seat_ok s"
    using sok small by (auto simp: collected_def collect_seat_def seat_ok_def)
  moreover have "0 \<le> (\<Sum>s\<leftarrow>seats g. Bet s)"
    using sok by (intro sum_list_nonneg) (auto simp: seat_ok_def)
  ultimately show "money_ok (collected g)"
    using m chips mp by (simp add: money_ok_def) (simp add: collected_def)
qed

lemma in_seats_nat: "in_seats g i \<Longrightarrow> nat i < length (seats g) \<and> int (nat i) = i"
  by (auto simp: in_seats_def SeatCount_def nat_less_iff)

lemma set_seat_simps [simp]:
  "length (seats (set_seat g i s)) = length (seats g)" "pot (set_seat g i s) = pot g"
  "street (set_seat g i s) = street g" "deck (set_seat g i s) = deck g" "board (set_seat g i s) = board g"
  "toAct (set_seat g i s) = toAct g" "button (set_seat g i s) = button g"
  "lastRaiserIdx (set_seat g i s) = lastRaiserIdx g" "lastPayouts (set_seat g i s) = lastPayouts g"
  "bigBlind (set_seat g i s) = bigBlind g" "smallBlind (set_seat g i s) = smallBlind g"
  "SeatCount (set_seat g i s) = SeatCount g" "handNumber (set_seat g i s) = handNumber g"
  by (simp_all add: set_seat_def SeatCount_def)

lemma seat_set_seat:
  "in_seats g i \<Longrightarrow> in_seats g j \<Longrightarrow> seat (set_seat g i s) j = (if i = j then s else seat g j)"
  by (auto simp: set_seat_def seat_def in_seats_def SeatCount_def nth_list_update)

lemma set_seat_sums:
  fixes f :: "Seat \<Rightarrow> int"
  assumes "in_seats g i"
  shows "(\<Sum>s\<leftarrow>seats (set_seat g i s'). f s) = (\<Sum>s\<leftarrow>seats g. f s) - f (seat g i) + f s'"
  using in_seats_nat [OF assms] by (simp add: set_seat_def seat_def sum_list_update)

lemma set_seat_chips:
  "in_seats g i \<Longrightarrow> mp_chips (set_seat g i s)
     = mp_chips g - (ChipsHand (seat g i) + Bet (seat g i)) + (ChipsHand s + Bet s)"
  by (simp add: mp_chips_def set_seat_sums)

lemma set_seat_committed:
  "in_seats g i \<Longrightarrow> committed_total (set_seat g i s) = committed_total g - Committed (seat g i) + Committed s"
  by (simp add: committed_total_def set_seat_sums)

lemma set_seat_ok:
  "\<forall>s \<in> set (seats g). seat_ok s \<Longrightarrow> seat_ok s' \<Longrightarrow> \<forall>s \<in> set (seats (set_seat g i s')). seat_ok s"
  by (auto simp: set_seat_def dest!: set_update_subset_insert [THEN subsetD])

lemma set_seat_money:
  assumes "money_ok g" and "in_seats g i" and "seat_ok s"
    and "ChipsHand s + Bet s = ChipsHand (seat g i) + Bet (seat g i)"
  shows "money_ok (set_seat g i s)" and "mp_chips (set_seat g i s) = mp_chips g"
proof -
  show c: "mp_chips (set_seat g i s) = mp_chips g" using set_seat_chips [OF assms(2)] assms(4) by simp
  show "money_ok (set_seat g i s)"
    using assms c set_seat_ok [of g s i] by (simp add: money_ok_def)
qed

lemma money_seat_at: "money_ok g \<Longrightarrow> in_seats g i \<Longrightarrow> seat_ok (seat g i)"
  using money_seat [of g "nat i"] in_seats_nat [of g i] by auto

lemma seat_chips_at: "money_ok g \<Longrightarrow> in_seats g i \<Longrightarrow> ChipsHand (seat g i) + Bet (seat g i) + pot g \<le> mp_chips g"
  using seat_chips_le [of g "nat i"] in_seats_nat [of g i] by auto

text \<open>Fields the money does not depend on.\<close>

lemma money_frame:
  "money_ok (g\<lparr>toAct := a\<rparr>) = money_ok g" "money_ok (g\<lparr>lastRaiserIdx := a\<rparr>) = money_ok g"
  "money_ok (g\<lparr>street := st\<rparr>) = money_ok g" "money_ok (g\<lparr>deck := d\<rparr>) = money_ok g"
  "money_ok (g\<lparr>board := d\<rparr>) = money_ok g" "money_ok (g\<lparr>button := a\<rparr>) = money_ok g"
  "money_ok (g\<lparr>rng := r\<rparr>) = money_ok g"
  "mp_chips (g\<lparr>toAct := a\<rparr>) = mp_chips g" "mp_chips (g\<lparr>lastRaiserIdx := a\<rparr>) = mp_chips g"
  "mp_chips (g\<lparr>street := st\<rparr>) = mp_chips g" "mp_chips (g\<lparr>deck := d\<rparr>) = mp_chips g"
  "mp_chips (g\<lparr>board := d\<rparr>) = mp_chips g" "mp_chips (g\<lparr>button := a\<rparr>) = mp_chips g"
  "mp_chips (g\<lparr>rng := r\<rparr>) = mp_chips g"
  "committed_total (g\<lparr>toAct := a\<rparr>) = committed_total g"
  "committed_total (g\<lparr>lastRaiserIdx := a\<rparr>) = committed_total g"
  "committed_total (g\<lparr>street := st\<rparr>) = committed_total g" "committed_total (g\<lparr>deck := d\<rparr>) = committed_total g"
  "committed_total (g\<lparr>board := d\<rparr>) = committed_total g"
  "activeCount (g\<lparr>toAct := a\<rparr>) = activeCount g" "activeCount (g\<lparr>lastRaiserIdx := a\<rparr>) = activeCount g"
  "activeCount (g\<lparr>street := st\<rparr>) = activeCount g" "activeCount (g\<lparr>deck := d\<rparr>) = activeCount g"
  "activeCount (g\<lparr>board := d\<rparr>) = activeCount g"
  by (simp_all add: money_ok_def mp_chips_def committed_total_def activeCount_def)

lemma activeCount_find:
  assumes "activeCount g \<noteq> 0"
  shows "\<exists>w. find (\<lambda>i. UserID (seat g i) \<noteq> 0 \<and> \<not> Folded (seat g i)) (map int [0..<length (seats g)]) = Some w
    \<and> in_seats g w \<and> UserID (seat g w) \<noteq> 0 \<and> \<not> Folded (seat g w)"
proof -
  have "filter (\<lambda>s. UserID s \<noteq> 0 \<and> \<not> Folded s) (seats g) \<noteq> []"
    using assms by (auto simp: activeCount_def)
  then obtain i where i: "i < length (seats g)" "UserID (seats g ! i) \<noteq> 0 \<and> \<not> Folded (seats g ! i)"
    by (auto simp: filter_empty_conv in_set_conv_nth)
  have "find (\<lambda>i. UserID (seat g i) \<noteq> 0 \<and> \<not> Folded (seat g i)) (map int [0..<length (seats g)]) \<noteq> None"
    using i by (auto simp: find_None_iff seat_def)
  then obtain w where w: "find (\<lambda>i. UserID (seat g i) \<noteq> 0 \<and> \<not> Folded (seat g i)) (map int [0..<length (seats g)]) = Some w"
    by blast
  then have "UserID (seat g w) \<noteq> 0 \<and> \<not> Folded (seat g w) \<and> w \<in> set (map int [0..<length (seats g)])"
    by (auto simp: find_Some_iff)
  with w show ?thesis by (auto simp: in_seats_def SeatCount_def)
qed

lemma activeCount_map:
  "activeCount g = int (length (filter id (map (\<lambda>s. UserID s \<noteq> 0 \<and> \<not> Folded s) (seats g))))"
  by (simp add: activeCount_def filter_map o_def)

lemma endByFold_money:
  assumes m: "money_ok g" and c: "committed_total g \<le> pot g" and a: "activeCount g \<noteq> 0"
  shows "money_ok (mp_endByFold g)" and "mp_chips (mp_endByFold g) = mp_chips g"
    and "street (mp_endByFold g) = Ended" and "pot (mp_endByFold g) = 0"
    and "\<forall>s \<in> set (seats (mp_endByFold g)). Bet s = 0"
    and "length (seats (mp_endByFold g)) = length (seats g)"
    and "activeCount (mp_endByFold g) = activeCount g"
    and "\<exists>w. in_seats g w \<and> winner (mp_endByFold g) = w \<and> UserID (seat g w) \<noteq> 0 \<and> \<not> Folded (seat g w)
      \<and> ChipsHand (seat (mp_endByFold g) w) = ChipsHand (seat g w) + mp_Pot g"
proof -
  obtain w where w: "find (\<lambda>i. UserID (seat g i) \<noteq> 0 \<and> \<not> Folded (seat g i)) (map int [0..<length (seats g)]) = Some w"
    "in_seats g w" "UserID (seat g w) \<noteq> 0" "\<not> Folded (seat g w)"
    using activeCount_find [OF a] by blast
  define g1 where "g1 = g\<lparr>seats := map collect_seat (seats g)\<rparr>"
  define s1 where "s1 = (seat g1 w)\<lparr>ChipsHand := ChipsHand (seat g1 w) + mp_Pot g\<rparr>"
  note col = collect_money [OF m c]
  note mp = mp_Pot_eq [OF m]
  have w1: "in_seats g1 w" using w(2) by (simp add: in_seats_def SeatCount_def g1_def)
  have sw: "seat g1 w = collect_seat (seat g w)"
    using in_seats_nat [OF w(2)] by (simp add: g1_def seat_def)
  have hand: "ChipsHand (seat g1 w) = ChipsHand (seat g w)" by (simp add: sw collect_seat_def)
  have "ChipsHand (seat g w) \<le> (\<Sum>s\<leftarrow>seats g. ChipsHand s)"
    using w(2) m unfolding seat_def
    by (intro nth_sum_list_le) (auto simp: money_ok_def seat_ok_def in_seats_def SeatCount_def)
  then have le: "ChipsHand (seat g w) + mp_Pot g \<le> mp_chips g" using mp by linarith
  have nnp: "0 \<le> mp_Pot g" using mp m by (auto simp: money_ok_def seat_ok_def intro!: sum_list_nonneg add_nonneg_nonneg)
  have ok_w: "seat_ok (seat g w)" using money_seat_at [OF m w(2)] .
  have "i32 (ChipsHand (seat g w) + mp_Pot g) = ChipsHand (seat g w) + mp_Pot g"
    using le m ok_w nnp by (intro i32_nonneg_id) (auto simp: money_ok_def seat_ok_def)
  then have e: "mp_endByFold g = (set_seat g1 w s1)\<lparr>lastPayouts := (lastPayouts g)[nat w := mp_Pot g],
      pot := 0, winner := w, winRank := HighCard, street := Ended\<rparr>"
    using w(1) by (simp add: mp_endByFold_def Let_def s1_def hand flip: g1_def) (simp add: g1_def set_seat_def)
  have c1: "collected g = g1\<lparr>pot := mp_Pot g\<rparr>" by (simp add: collected_def g1_def)
  have chips1: "mp_chips g1 = mp_chips g - mp_Pot g + pot g"
    using col(2) unfolding c1 by (simp add: mp_chips_def g1_def)
  have bets1: "\<forall>s \<in> set (seats g1). Bet s = 0" using col(3) by (simp add: c1)
  have b1: "Bet (seat g1 w) = 0" by (simp add: sw collect_seat_def)
  have ok1: "\<forall>s \<in> set (seats g1). seat_ok s" using col(1) by (simp add: money_ok_def c1)
  have "seat_ok (seat g1 w)" using ok1 in_seats_nat [OF w1] by (simp add: seat_def)
  then have s1: "seat_ok s1" using nnp w(3) by (auto simp: s1_def seat_ok_def sw collect_seat_def)
  show "street (mp_endByFold g) = Ended" "pot (mp_endByFold g) = 0"
    "length (seats (mp_endByFold g)) = length (seats g)" by (simp_all add: e g1_def)
  show z: "\<forall>s \<in> set (seats (mp_endByFold g)). Bet s = 0"
    using bets1 b1 by (auto simp: e set_seat_def s1_def dest!: set_update_subset_insert [THEN subsetD])
  show chips: "mp_chips (mp_endByFold g) = mp_chips g"
  proof -
    have "mp_chips (set_seat g1 w s1) = mp_chips g1 + mp_Pot g"
      using set_seat_chips [OF w1, of s1] by (simp add: s1_def)
    with chips1 show ?thesis by (simp add: e mp_chips_def) (simp add: g1_def)
  qed
  show "money_ok (mp_endByFold g)"
    using m chips set_seat_ok [OF ok1 s1, of w] by (simp add: money_ok_def e) (simp add: g1_def)
  have "map (\<lambda>s. UserID s \<noteq> 0 \<and> \<not> Folded s) (seats (mp_endByFold g)) = map (\<lambda>s. UserID s \<noteq> 0 \<and> \<not> Folded s) (seats g)"
    using in_seats_nat [OF w(2)] by (intro nth_equalityI)
      (auto simp: e set_seat_def g1_def s1_def seat_def nth_list_update collect_seat_def)
  then show "activeCount (mp_endByFold g) = activeCount g" by (simp only: activeCount_map)
  show "\<exists>w. in_seats g w \<and> winner (mp_endByFold g) = w \<and> UserID (seat g w) \<noteq> 0 \<and> \<not> Folded (seat g w)
      \<and> ChipsHand (seat (mp_endByFold g) w) = ChipsHand (seat g w) + mp_Pot g"
    using w in_seats_nat [OF w1] by (intro exI [of _ w])
      (simp add: e seat_def set_seat_def s1_def hand [unfolded seat_def])
qed

section \<open>Actions keep the chips\<close>

lemma foldl_max_bounds:
  assumes "\<forall>s \<in> set ss. Bet s \<le> B" and "m \<le> B"
  shows "m \<le> foldl (\<lambda>m s. if Bet s > m then Bet s else m) m ss
    \<and> foldl (\<lambda>m s. if Bet s > m then Bet s else m) m ss \<le> B
    \<and> (\<forall>s \<in> set ss. Bet s \<le> foldl (\<lambda>m s. if Bet s > m then Bet s else m) m ss)"
  using assms
proof (induction ss arbitrary: m)
  case (Cons a ss)
  have "(if Bet a > m then Bet a else m) \<le> B" using Cons.prems by auto
  from Cons.IH [OF _ this] Cons.prems(1) show ?case by (auto split: if_splits)
qed simp

lemma i32_0: "i32 0 = 0"
  by (simp add: i32_def)

lemma mp_chips_nonneg: "money_ok g \<Longrightarrow> 0 \<le> mp_chips g"
proof -
  assume m: "money_ok g"
  then have "0 \<le> (\<Sum>s\<leftarrow>seats g. ChipsHand s + Bet s)"
    by (intro sum_list_nonneg) (auto simp: money_ok_def seat_ok_def)
  with m show ?thesis by (simp add: mp_chips_def money_ok_def)
qed

lemma ToCall_bounds:
  assumes m: "money_ok g"
  shows "0 \<le> ToCall g i \<and> ToCall g i \<le> mp_chips g"
proof (cases "in_seats g i")
  case True
  define M where "M = foldl (\<lambda>m s. if Bet s > m then Bet s else m) 0 (seats g)"
  have chips0: "0 \<le> mp_chips g" using mp_chips_nonneg [OF m] .
  have "\<forall>s \<in> set (seats g). Bet s \<le> mp_chips g"
  proof
    fix s assume "s \<in> set (seats g)"
    then obtain j where "j < length (seats g)" "s = seat g (int j)" by (auto simp: in_set_conv_nth seat_def)
    then show "Bet s \<le> mp_chips g" using seat_chips_le [OF m] money_seat [OF m] m
      by (fastforce simp: seat_ok_def money_ok_def)
  qed
  then have M: "0 \<le> M" "M \<le> mp_chips g" using foldl_max_bounds [of "seats g" "mp_chips g" 0] chips0 by (auto simp: M_def)
  have b: "0 \<le> Bet (seat g i)" using money_seat_at [OF m True] by (simp add: seat_ok_def)
  have "Bet (seat g i) \<le> mp_chips g"
    using seat_chips_at [OF m True] money_seat_at [OF m True] m by (auto simp: seat_ok_def money_ok_def)
  then have "i32 (M - Bet (seat g i)) = M - Bet (seat g i)"
    using M b m by (intro i32_id) (auto simp: money_ok_def)
  then show ?thesis using True M b by (simp add: ToCall_def Let_def flip: M_def)
next
  case False
  with mp_chips_nonneg [OF m] show ?thesis by (simp add: ToCall_def)
qed

lemma activeCount_set_seat:
  assumes "in_seats g i" and "UserID s = UserID (seat g i)" and "Folded s = Folded (seat g i)"
  shows "activeCount (set_seat g i s) = activeCount g"
proof -
  have "map (\<lambda>s. UserID s \<noteq> 0 \<and> \<not> Folded s) (seats (set_seat g i s)) = map (\<lambda>s. UserID s \<noteq> 0 \<and> \<not> Folded s) (seats g)"
    using assms in_seats_nat [OF assms(1)] by (intro nth_equalityI) (auto simp: set_seat_def seat_def nth_list_update)
  then show ?thesis by (simp only: activeCount_map)
qed

lemma filter_update_length:
  assumes "k < length xs"
  shows "length (filter P (xs[k := x])) + (if P (xs ! k) then 1 else 0)
    = length (filter P xs) + (if P x then 1 else 0)"
  using assms
proof (induction xs arbitrary: k)
  case (Cons y ys)
  then show ?case by (cases k) auto
qed simp

lemma activeCount_fold:
  assumes "in_seats g i"
  shows "activeCount (set_seat g i s) + (if UserID (seat g i) \<noteq> 0 \<and> \<not> Folded (seat g i) then 1 else 0)
    = activeCount g + (if UserID s \<noteq> 0 \<and> \<not> Folded s then 1 else 0)"
  using filter_update_length [of "nat i" "seats g" "\<lambda>s. UserID s \<noteq> 0 \<and> \<not> Folded s" s] in_seats_nat [OF assms]
  by (auto simp: activeCount_def set_seat_def seat_def)

text \<open>Paying \<open>x\<close> of the stack into the bet.\<close>

lemma pay_money:
  fixes a :: bool
  assumes m: "money_ok g" and i: "in_seats g i" and x: "0 \<le> x" "x \<le> ChipsHand (seat g i)"
  defines "s' \<equiv> (seat g i)\<lparr>Bet := i32 (Bet (seat g i) + x), ChipsHand := i32 (ChipsHand (seat g i) - x), AllIn := a\<rparr>"
  shows "money_ok (set_seat g i s') \<and> mp_chips (set_seat g i s') = mp_chips g
    \<and> committed_total (set_seat g i s') = committed_total g \<and> activeCount (set_seat g i s') = activeCount g"
proof -
  have ok: "seat_ok (seat g i)" using money_seat_at [OF m i] .
  have le: "ChipsHand (seat g i) + Bet (seat g i) + pot g \<le> mp_chips g" using seat_chips_at [OF m i] .
  have b: "i32 (Bet (seat g i) + x) = Bet (seat g i) + x"
    using ok le x m by (intro i32_nonneg_id) (auto simp: seat_ok_def money_ok_def)
  have h: "i32 (ChipsHand (seat g i) - x) = ChipsHand (seat g i) - x"
    using ok le x m by (intro i32_nonneg_id) (auto simp: seat_ok_def money_ok_def)
  have "seat_ok s'" using ok x by (auto simp: s'_def seat_ok_def b h)
  then show ?thesis
    using set_seat_money [OF m i, of s'] set_seat_committed [OF i, of s'] activeCount_set_seat [OF i, of s']
    by (simp add: s'_def b h)
qed

lemma pay_same: "ai = AllIn s \<Longrightarrow> s\<lparr>Bet := x, ChipsHand := y\<rparr> = s\<lparr>Bet := x, ChipsHand := y, AllIn := ai\<rparr>"
  by simp

lemma apply_money:
  assumes m: "money_ok g" and i: "in_seats g i"
  shows "money_ok (mp_apply g i a) \<and> mp_chips (mp_apply g i a) = mp_chips g
    \<and> committed_total (mp_apply g i a) = committed_total g \<and> pot (mp_apply g i a) = pot g
    \<and> street (mp_apply g i a) = street g \<and> deck (mp_apply g i a) = deck g
    \<and> activeCount g \<le> activeCount (mp_apply g i a) + 1"
proof -
  let ?s = "seat g i"
  have ok: "seat_ok ?s" using money_seat_at [OF m i] .
  note tc = ToCall_bounds [OF m, of i]
  have pay: "money_ok g' \<and> mp_chips g' = mp_chips g \<and> committed_total g' = committed_total g \<and> pot g' = pot g
      \<and> street g' = street g \<and> deck g' = deck g \<and> activeCount g' = activeCount g"
    if "0 \<le> x" and "g' = set_seat g i (if x \<ge> ChipsHand ?s
        then ?s\<lparr>Bet := i32 (Bet ?s + ChipsHand ?s), ChipsHand := 0, AllIn := True\<rparr>
        else ?s\<lparr>Bet := i32 (Bet ?s + x), ChipsHand := i32 (ChipsHand ?s - x)\<rparr>)" for x g'
  proof (cases "x \<ge> ChipsHand ?s")
    case True
    have "0 \<le> ChipsHand ?s" using ok by (simp add: seat_ok_def)
    from pay_money [OF m i this order_refl, of True, unfolded diff_self i32_0] True
    show ?thesis unfolding that(2) by simp
  next
    case False
    then show ?thesis unfolding that(2)
      using pay_money [OF m i that(1), of "AllIn ?s"] pay_same [of "AllIn ?s" ?s] by simp
  qed
  show ?thesis
  proof (cases a)
    case HuFold
    have "seat_ok (?s\<lparr>Folded := True\<rparr>)" using ok by (simp add: seat_ok_def)
    then show ?thesis
      using HuFold set_seat_money [OF m i, of "?s\<lparr>Folded := True\<rparr>"] set_seat_committed [OF i]
        activeCount_fold [OF i, of "?s\<lparr>Folded := True\<rparr>"]
      by (simp add: mp_apply_def Let_def split: if_splits)
  next
    case HuCheckCall
    then show ?thesis using pay [of "ToCall g i"] tc m by (simp add: mp_apply_def Let_def)
  next
    case HuRaise
    have n: "i32 (ToCall g i + bigBlind g) = ToCall g i + bigBlind g"
      using tc m by (intro i32_nonneg_id) (auto simp: money_ok_def)
    have "0 \<le> ToCall g i + bigBlind g" using tc m by (auto simp: money_ok_def)
    note r = pay [OF this refl]
    show ?thesis unfolding mp_apply_def Let_def HuRaise hu_action.case n
      using r by (simp add: money_frame split del: if_split)
  next
    case HuAllIn
    have "0 \<le> ChipsHand ?s" using ok by (simp add: seat_ok_def)
    from pay [OF this refl] HuAllIn show ?thesis
      by (simp add: mp_apply_def Let_def money_frame)
  qed
qed

end
