(* ===== verification/HoldemSafety.thy ===== *)
theory HoldemSafety
  imports HoldemMP
begin

text \<open>
  The multi-seat hold'em engine in play: the invariant of a running hand, the effect of every
  operation on it and on the chips, and the properties of the engine, among them the hands that
  never settle.
\<close>

section \<open>A running hand\<close>

primrec cards_needed :: "Street \<Rightarrow> nat" where
  "cards_needed Preflop = 8"
| "cards_needed Flop = 4"
| "cards_needed Turn = 2"
| "cards_needed River = 0"
| "cards_needed Showdown = 0"
| "cards_needed Ended = 0"

text \<open>
  Between hands nothing is in the middle; during a hand the pot covers what the seats have
  committed, at least two seats compete and the deck can finish the board.
\<close>

definition mp_inv :: "mp_game \<Rightarrow> bool" where
  "mp_inv g \<longleftrightarrow> money_ok g \<and> committed_total g \<le> 2147483600
     \<and> (if street g = Ended then pot g = 0 \<and> (\<forall>s \<in> set (seats g). Bet s = 0)
        else committed_total g \<le> pot g \<and> street g \<noteq> Showdown \<and> 2 \<le> activeCount g
             \<and> cards_needed (street g) \<le> length (deck g))"

text \<open>The chips a hand loses at showdown: what the pot held beyond the commitments, and the orphaned layers.\<close>

definition lost :: "mp_game \<Rightarrow> mp_game \<Rightarrow> int" where
  "lost g g' =
     (if street g' = Ended \<and> 2 \<le> activeCount g' then (pot g - committed_total g) + orphaned g' else 0)"

lemma mp_draw_board_ok:
  "n \<le> length (deck g) \<Longrightarrow>
     mp_draw_board n g = Some (g\<lparr>board := board g @ take n (deck g), deck := drop n (deck g)\<rparr>)"
proof (induction n arbitrary: g)
  case (Suc n)
  then obtain c d where d: "deck g = c # d" by (cases "deck g") auto
  with Suc.IH [of "g\<lparr>deck := d, board := board g @ [c]\<rparr>"] Suc.prems show ?case by simp
qed simp

lemma activeCount_collect: "activeCount (collected g) = activeCount g"
  by (simp only: activeCount_map) (simp add: collected_def collect_seat_def o_def)

lemma activeCount_resolve: "activeCount (mp_resolveShowdown g) = activeCount g"
proof -
  have "map (\<lambda>s. UserID s \<noteq> 0 \<and> \<not> Folded s) (seats (mp_resolveShowdown g)) = map (\<lambda>s. UserID s \<noteq> 0 \<and> \<not> Folded s) (seats g)"
    by (intro nth_equalityI) (simp_all add: mp_resolveShowdown_def seat_def Let_def)
  then show ?thesis by (simp only: activeCount_map)
qed

lemma committed_le:
  assumes m: "money_ok g" and c: "committed_total g \<le> pot g"
  shows "committed_total g \<le> mp_chips g"
proof -
  have "0 \<le> (\<Sum>s\<leftarrow>seats g. Bet s)"
    using m by (intro sum_list_nonneg) (auto simp: money_ok_def seat_ok_def)
  then show ?thesis using mp_Pot_eq(2) [OF m] c by linarith
qed

lemma committed_buckets:
  assumes "money_ok g" and "money_ok g'" and "buckets g' = buckets g"
  shows "committed_total g' = committed_total g"
  using total_committed_buckets [of g] total_committed_buckets [of g'] assms by (simp add: money_ok_def)

lemma closeStreet_inv:
  assumes m: "money_ok g" and c: "committed_total g \<le> pot g" and st: "street g \<noteq> Ended" "street g \<noteq> Showdown"
    and a: "2 \<le> activeCount g" and d: "cards_needed (street g) \<le> length (deck g)"
  shows "\<exists>e g'. mp_closeStreet g = Some (e, g') \<and> mp_inv g' \<and> (e \<longleftrightarrow> street g' = Ended)
    \<and> mp_chips g' = mp_chips g - lost g g' \<and> activeCount g' = activeCount g
    \<and> (street g' \<noteq> Ended \<longrightarrow> pot g' - committed_total g' = pot g - committed_total g)"
proof -
  define g1 where "g1 = collected g"
  note col = collect_money [OF m c, folded g1_def]
  have frame: "street g1 = street g" "deck g1 = deck g" "board g1 = board g"
    by (simp_all add: g1_def collected_def)
  have act: "activeCount g1 = activeCount g" by (simp add: g1_def activeCount_collect)
  have le: "committed_total g1 \<le> pot g1" using col(4) c by linarith
  have small: "committed_total g1 \<le> 2147483600"
    using committed_le [OF col(1) le] col(1) by (simp add: money_ok_def)
  have deal: "\<exists>g'. map_option (\<lambda>g. (False, postflop (g\<lparr>street := s\<rparr>))) (mp_draw_board n (mp_burn g1)) = Some (False, g')
      \<and> mp_inv g' \<and> street g' = s \<and> mp_chips g' = mp_chips g \<and> activeCount g' = activeCount g
      \<and> pot g' - committed_total g' = pot g - committed_total g"
    if "n + 1 + cards_needed s \<le> length (deck g)" "s \<noteq> Ended" "s \<noteq> Showdown" for n s
  proof -
    have b: "mp_burn g1 = g1\<lparr>deck := tl (deck g)\<rparr>" using frame by (cases "deck g") (simp_all add: mp_burn_def)
    let ?g2 = "g1\<lparr>deck := drop n (tl (deck g)), board := board g @ take n (tl (deck g))\<rparr>"
    have d2: "mp_draw_board n (mp_burn g1) = Some ?g2"
      unfolding b using that frame by (subst mp_draw_board_ok) auto
    show ?thesis
      unfolding d2 using col(1,2,4) le small act a that
      by (simp add: postflop_def Let_def mp_inv_def money_frame)
  qed
  have cs: "mp_closeStreet g =
      (case street g1 of
           Preflop \<Rightarrow> map_option (\<lambda>g. (False, postflop (g\<lparr>street := Flop\<rparr>))) (mp_draw_board 3 (mp_burn g1))
         | Flop \<Rightarrow> map_option (\<lambda>g. (False, postflop (g\<lparr>street := Turn\<rparr>))) (mp_draw_board 1 (mp_burn g1))
         | Turn \<Rightarrow> map_option (\<lambda>g. (False, postflop (g\<lparr>street := River\<rparr>))) (mp_draw_board 1 (mp_burn g1))
         | River \<Rightarrow> Some (True, mp_resolveShowdown (g1\<lparr>street := Showdown\<rparr>))
         | _ \<Rightarrow> Some (False, postflop g1))"
    unfolding mp_closeStreet_def Let_def g1_def collected_def by (rule refl)
  show ?thesis
  proof (cases "street g")
    case Preflop
    with deal [of 3 Flop] d obtain g' where
      "map_option (\<lambda>g. (False, postflop (g\<lparr>street := Flop\<rparr>))) (mp_draw_board 3 (mp_burn g1)) = Some (False, g')"
      and "mp_inv g'" "street g' = Flop" "mp_chips g' = mp_chips g" "activeCount g' = activeCount g"
        "pot g' - committed_total g' = pot g - committed_total g" by auto
    with Preflop show ?thesis unfolding cs by (intro exI [of _ False] exI [of _ g']) (simp add: frame lost_def)
  next
    case Flop
    with deal [of 1 Turn] d obtain g' where
      "map_option (\<lambda>g. (False, postflop (g\<lparr>street := Turn\<rparr>))) (mp_draw_board 1 (mp_burn g1)) = Some (False, g')"
      and "mp_inv g'" "street g' = Turn" "mp_chips g' = mp_chips g" "activeCount g' = activeCount g"
        "pot g' - committed_total g' = pot g - committed_total g" by auto
    with Flop show ?thesis unfolding cs by (intro exI [of _ False] exI [of _ g']) (simp add: frame lost_def)
  next
    case Turn
    with deal [of 1 River] d obtain g' where
      "map_option (\<lambda>g. (False, postflop (g\<lparr>street := River\<rparr>))) (mp_draw_board 1 (mp_burn g1)) = Some (False, g')"
      and "mp_inv g'" "street g' = River" "mp_chips g' = mp_chips g" "activeCount g' = activeCount g"
        "pot g' - committed_total g' = pot g - committed_total g" by auto
    with Turn show ?thesis unfolding cs by (intro exI [of _ False] exI [of _ g']) (simp add: frame lost_def)
  next
    case River
    let ?g2 = "g1\<lparr>street := Showdown\<rparr>"
    let ?g3 = "mp_resolveShowdown ?g2"
    have m2: "money_ok ?g2" "committed_total ?g2 \<le> pot ?g2" "\<forall>s \<in> set (seats ?g2). Bet s = 0"
      using col le by (simp_all add: money_frame)
    note r = resolve_money [OF m2]
    have orph: "orphaned ?g3 = orphaned ?g2" by (simp only: orphaned_def r(3))
    have fin: "street ?g3 = Ended" "pot ?g3 = 0" by (simp_all add: mp_resolveShowdown_def Let_def)
    have ct: "committed_total ?g3 = committed_total ?g2" by (rule committed_buckets [OF m2(1) r(1) r(3)])
    have "mp_inv ?g3" using r fin ct small by (simp add: mp_inv_def money_frame)
    moreover have "activeCount ?g3 = activeCount g" using act by (simp add: activeCount_resolve money_frame)
    moreover have "mp_chips ?g3 = mp_chips g - lost g ?g3"
      using r(2) orph fin col(2,4) \<open>activeCount ?g3 = activeCount g\<close> a by (simp add: lost_def money_frame)
    ultimately show ?thesis unfolding cs using River fin frame by auto
  qed (use st in auto)
qed

lemma committed_endByFold:
  assumes "activeCount g \<noteq> 0"
  shows "committed_total (mp_endByFold g) = committed_total (collected g)"
proof -
  obtain w where w: "find (\<lambda>i. UserID (seat g i) \<noteq> 0 \<and> \<not> Folded (seat g i)) (map int [0..<length (seats g)]) = Some w"
    "in_seats g w"
    using activeCount_find [OF assms] by blast
  define g1 where "g1 = g\<lparr>seats := map collect_seat (seats g)\<rparr>"
  have i: "in_seats g1 w" using w(2) by (simp add: g1_def in_seats_def SeatCount_def)
  have "committed_total (set_seat g1 w ((seat g1 w)\<lparr>ChipsHand := x\<rparr>)) = committed_total g1" for x
    using set_seat_committed [OF i] by simp
  moreover have "committed_total g1 = committed_total (collected g)"
    by (simp add: g1_def collected_def committed_total_def)
  ultimately show ?thesis
    by (simp add: mp_endByFold_def w Let_def g1_def [symmetric] committed_total_def)
qed

lemma mp_endByFold_inv:
  assumes m: "money_ok g" and c: "committed_total g \<le> pot g" and a: "activeCount g \<noteq> 0"
  shows "mp_inv (mp_endByFold g)"
proof -
  note e = endByFold_money [OF m c a]
  note col = collect_money [OF m c]
  have "committed_total (collected g) \<le> pot (collected g)" using col(4) c by linarith
  from committed_le [OF col(1) this] col(1)
  have "committed_total (mp_endByFold g) \<le> 2147483600"
    unfolding committed_endByFold [OF a] by (simp add: money_ok_def)
  with e show ?thesis by (simp add: mp_inv_def)
qed

lemma mp_afterAction_inv:
  assumes m: "money_ok g" and c: "committed_total g \<le> pot g" and st: "street g \<noteq> Ended" "street g \<noteq> Showdown"
    and a: "activeCount g \<noteq> 0" and d: "cards_needed (street g) \<le> length (deck g)"
  shows "\<exists>e g'. mp_afterAction g = Some (e, g') \<and> mp_inv g' \<and> (e \<longleftrightarrow> street g' = Ended)
    \<and> mp_chips g' = mp_chips g - lost g g'
    \<and> (street g' \<noteq> Ended \<longrightarrow> pot g' - committed_total g' = pot g - committed_total g)"
proof (cases "activeCount g \<le> 1")
  case True
  note e = endByFold_money [OF m c a]
  have "lost g (mp_endByFold g) = 0" using True e(7) by (simp add: lost_def)
  with True e(2,3) mp_endByFold_inv [OF m c a] show ?thesis by (auto simp: mp_afterAction_def)
next
  case False
  show ?thesis
  proof (cases "after_loop g (toAct g) (length (seats g))")
    case None
    with False closeStreet_inv [OF m c st _ d] show ?thesis
      by (simp add: mp_afterAction_def) blast
  next
    case (Some k)
    have "committed_total g \<le> 2147483600"
      using committed_le [OF m c] m by (simp add: money_ok_def)
    with Some False m c st d show ?thesis
      by (auto simp: mp_afterAction_def mp_inv_def money_frame lost_def)
  qed
qed

lemma action_inv:
  assumes inv: "mp_inv g" and run: "street g \<noteq> Ended" and i: "in_seats g (toAct g)"
  shows "\<exists>e g'. mp_PlayerAction g (toAct g) a = Some (e, g') \<and> mp_inv g' \<and> (e \<longleftrightarrow> street g' = Ended)
    \<and> mp_chips g' = mp_chips g - lost g g'
    \<and> (street g' \<noteq> Ended \<longrightarrow> pot g' - committed_total g' = pot g - committed_total g)"
proof -
  have m: "money_ok g" using inv by (simp add: mp_inv_def)
  note am = apply_money [OF m i, of a]
  have "lost g = lost (mp_apply g (toAct g) a)" by (rule ext) (simp add: lost_def am)
  moreover have "activeCount (mp_apply g (toAct g) a) \<noteq> 0" using am inv run by (auto simp: mp_inv_def)
  ultimately show ?thesis
    using mp_afterAction_inv [of "mp_apply g (toAct g) a"] am inv run i
    by (simp add: mp_PlayerAction_def mp_inv_def)
qed

section \<open>Sitting, standing and dealing\<close>

lemma set_seat_totals:
  assumes "in_seats g i"
  shows "mp_chips (set_seat g i s) = mp_chips g - (ChipsHand (seat g i) + Bet (seat g i)) + (ChipsHand s + Bet s)"
  using set_seat_chips [OF assms] by simp

lemma set_seat_all:
  "\<forall>s \<in> set (seats g). P s \<Longrightarrow> P s' \<Longrightarrow> \<forall>s \<in> set (seats (set_seat g i s')). P s"
  by (auto simp: set_seat_def dest!: set_update_subset_insert [THEN subsetD])

lemma Sit_inv:
  assumes inv: "mp_inv g" and uid: "uid \<noteq> 0" and small: "mp_chips g + stack + bigBlind g < 2147483600"
  shows "mp_inv (snd (Sit g i uid h stack))
    \<and> mp_chips (snd (Sit g i uid h stack)) = mp_chips g + (if fst (Sit g i uid h stack) then stack else 0)
    \<and> street (snd (Sit g i uid h stack)) = street g"
proof (cases "fst (Sit g i uid h stack)")
  case False
  then have "snd (Sit g i uid h stack) = g" by (auto simp: Sit_def split: if_splits)
  with False inv show ?thesis by simp
next
  case True
  let ?s = "empty_seat\<lparr>UserID := uid, Handle := h, ChipsHand := stack\<rparr>"
  have i: "in_seats g i" "UserID (seat g i) = 0" "0 < stack"
    and eq: "snd (Sit g i uid h stack) = set_seat g i ?s"
    using True by (auto simp: Sit_def split: if_splits)
  have m: "money_ok g" using inv by (simp add: mp_inv_def)
  have old: "ChipsHand (seat g i) = 0" "Bet (seat g i) = 0" "Committed (seat g i) = 0"
    using money_seat_at [OF m i(1)] i(2) by (simp_all add: seat_ok_def)
  have ch: "mp_chips (set_seat g i ?s) = mp_chips g + stack"
    using set_seat_totals [OF i(1)] old by (simp add: empty_seat_def)
  have "seat_ok ?s" using i(3) uid by (simp add: seat_ok_def empty_seat_def)
  then have ok: "\<forall>s \<in> set (seats (set_seat g i ?s)). seat_ok s"
    using m by (intro set_seat_all) (auto simp: money_ok_def)
  have "money_ok (set_seat g i ?s)" using m small ch ok by (simp add: money_ok_def)
  moreover have "activeCount (set_seat g i ?s) = activeCount g + 1"
    using activeCount_fold [OF i(1), of ?s] i(2) uid by (simp add: empty_seat_def)
  moreover have "committed_total (set_seat g i ?s) = committed_total g"
    using set_seat_committed [OF i(1)] old by (simp add: empty_seat_def)
  moreover have "\<forall>s \<in> set (seats g). Bet s = 0 \<Longrightarrow> \<forall>s \<in> set (seats (set_seat g i ?s)). Bet s = 0"
    by (intro set_seat_all) (auto simp: empty_seat_def)
  ultimately show ?thesis using inv ch True eq by (simp add: mp_inv_def split: if_splits)
qed

lemma advanceAction_frame: "\<exists>a. advanceAction g = g\<lparr>toAct := a\<rparr>"
  by (auto simp: advanceAction_def)

lemma Stand_inv:
  assumes inv: "mp_inv g" and i: "in_seats g i" and own: "UserID (seat g i) = uid"
  shows "mp_inv (snd (Stand g i uid)) \<and> fst (Stand g i uid) = ChipsHand (seat g i)
    \<and> mp_chips (snd (Stand g i uid)) = mp_chips g - ChipsHand (seat g i) - Bet (seat g i)"
proof -
  define g1 where "g1 = set_seat g i empty_seat"
  define g2 where "g2 = (if street g1 \<noteq> Ended \<and> toAct g1 = i then advanceAction g1 else g1)"
  have m: "money_ok g" using inv by (simp add: mp_inv_def)
  have old: "seat_ok (seat g i)" by (rule money_seat_at [OF m i])
  have ch: "mp_chips g1 = mp_chips g - ChipsHand (seat g i) - Bet (seat g i)"
    using set_seat_totals [OF i] by (simp add: g1_def empty_seat_def)
  have ct: "committed_total g1 \<le> committed_total g" "committed_total g1 \<le> 2147483600"
    using set_seat_committed [OF i] old inv by (simp_all add: g1_def empty_seat_def seat_ok_def mp_inv_def)
  have "\<forall>s \<in> set (seats g1). seat_ok s"
    unfolding g1_def using m by (intro set_seat_all) (auto simp: money_ok_def seat_ok_def empty_seat_def)
  then have m1: "money_ok g1" using m ch old by (simp add: money_ok_def g1_def seat_ok_def)
  have a1: "activeCount g \<le> activeCount g1 + 1"
    using activeCount_fold [OF i, of empty_seat] by (simp add: g1_def empty_seat_def split: if_splits)
  obtain a where g2: "g2 = g1\<lparr>toAct := a\<rparr>"
  proof (cases "street g1 \<noteq> Ended \<and> toAct g1 = i")
    case True
    then show ?thesis using that advanceAction_frame [of g1] by (auto simp: g2_def)
  next
    case False
    then have "g2 = g1\<lparr>toAct := toAct g1\<rparr>" by (auto simp: g2_def)
    then show ?thesis by (rule that)
  qed
  have res: "Stand g i uid = (ChipsHand (seat g i),
      if street g1 \<noteq> Ended \<and> activeCount g2 \<le> 1 then mp_endByFold g2 else g2)"
    unfolding Stand_def Let_def g1_def [symmetric] g2_def [symmetric] using i own by simp
  show ?thesis
  proof (cases "street g1 \<noteq> Ended \<and> activeCount g2 \<le> 1")
    case True
    have h: "money_ok g2" "committed_total g2 \<le> pot g2" "activeCount g2 \<noteq> 0"
      using True m1 ct inv a1 by (auto simp: g2 money_frame mp_inv_def g1_def split: if_splits)
    from mp_endByFold_inv [OF h] endByFold_money(2) [OF h] show ?thesis
      using True ch by (simp add: res g2 money_frame)
  next
    case False
    have "\<forall>s \<in> set (seats g). Bet s = 0 \<Longrightarrow> \<forall>s \<in> set (seats g1). Bet s = 0"
      unfolding g1_def by (intro set_seat_all) (auto simp: empty_seat_def)
    with False m1 ct ch inv show ?thesis
      by (auto simp: res g2 money_frame mp_inv_def g1_def split: if_splits)
  qed
qed

lemma find_SomeD: "find P xs = Some x \<Longrightarrow> x \<in> set xs \<and> P x"
  by (induction xs) (auto split: if_splits)

lemma nextOccupied_seat:
  assumes nn: "0 \<le> k" and occ: "in_seats g j" "UserID (seat g j) \<noteq> 0"
  shows "in_seats g (nextOccupied g k) \<and> UserID (seat g (nextOccupied g k)) \<noteq> 0"
proof -
  let ?n = "SeatCount g"
  let ?is = "map (\<lambda>i. go_mod (k + int i) ?n) [1..<Suc (length (seats g))]"
  have n: "0 < ?n" using occ(1) by (auto simp: in_seats_def)
  have md: "go_mod (k + int i) ?n = (k + int i) mod ?n" for i
    using nn n by simp
  define i where "i = nat ((j - k - 1) mod ?n) + 1"
  have r: "0 \<le> (j - k - 1) mod ?n" "(j - k - 1) mod ?n < ?n" using n by simp_all
  have "(k + int i) mod ?n = (k + 1 + (j - k - 1) mod ?n) mod ?n" using r by (simp add: i_def algebra_simps)
  also have "\<dots> = (k + 1 + (j - k - 1)) mod ?n" by (simp only: mod_add_right_eq)
  also have "\<dots> = j" using occ(1) by (simp add: in_seats_def)
  finally have "j = go_mod (k + int i) ?n" by (simp only: md)
  moreover have "i \<in> set [1..<Suc (length (seats g))]" using r by (auto simp: i_def SeatCount_def)
  ultimately have "j \<in> set ?is" unfolding set_map by (rule image_eqI)
  then obtain x where x: "find (\<lambda>idx. UserID (seat g idx) \<noteq> 0) ?is = Some x"
    using occ(2) by (cases "find (\<lambda>idx. UserID (seat g idx) \<noteq> 0) ?is") (auto simp: find_None_iff)
  then have "x \<in> set ?is" "UserID (seat g x) \<noteq> 0" by (blast dest: find_SomeD)+
  moreover from this(1) have "in_seats g x" using n by (auto simp: in_seats_def md)
  ultimately show ?thesis using x by (simp add: nextOccupied_def)
qed

lemma postBlind_money:
  assumes m: "money_ok g" and i: "in_seats g i" and x: "0 \<le> x"
  shows "money_ok (postBlind g i x) \<and> mp_chips (postBlind g i x) = mp_chips g
    \<and> committed_total (postBlind g i x) = committed_total g \<and> activeCount (postBlind g i x) = activeCount g"
proof -
  let ?s = "seat g i"
  define amt where "amt = (if x > ChipsHand ?s then ChipsHand ?s else x)"
  have ok: "seat_ok ?s" using money_seat_at [OF m i] .
  have a: "0 \<le> amt" "amt \<le> ChipsHand ?s" using x ok by (auto simp: amt_def seat_ok_def)
  define b where "b = (if i32 (ChipsHand ?s - amt) = 0 then True else AllIn ?s)"
  have "postBlind g i x = set_seat g i (?s\<lparr>Bet := i32 (Bet ?s + amt), ChipsHand := i32 (ChipsHand ?s - amt), AllIn := b\<rparr>)"
    unfolding postBlind_def Let_def amt_def [symmetric] b_def by (cases "seat g i") simp
  with pay_money [OF m i a, of b] show ?thesis by simp
qed

lemma postBlind_frame [simp]:
  "street (postBlind g i x) = street g" "deck (postBlind g i x) = deck g" "pot (postBlind g i x) = pot g"
  "length (seats (postBlind g i x)) = length (seats g)" "smallBlind (postBlind g i x) = smallBlind g"
  "bigBlind (postBlind g i x) = bigBlind g" "SeatCount (postBlind g i x) = SeatCount g"
  "button (postBlind g i x) = button g" "handNumber (postBlind g i x) = handNumber g" "board (postBlind g i x) = board g"
  by (simp_all add: postBlind_def Let_def set_seat_def SeatCount_def)

text \<open>What dealing a card to every seat in turn leaves alone.\<close>

lemma deal_round_ok:
  assumes "k \<le> length (deck g)" and "money_ok g" and "in_seats g c" and "UserID (seat g c) \<noteq> 0"
  shows "\<exists>c' g'. deal_round r k c g = Some (c', g') \<and> money_ok g' \<and> mp_chips g' = mp_chips g
    \<and> committed_total g' = committed_total g \<and> activeCount g' = activeCount g \<and> pot g' = pot g
    \<and> street g' = street g \<and> length (deck g') + k = length (deck g) \<and> length (seats g') = length (seats g)
    \<and> in_seats g' c' \<and> UserID (seat g' c') \<noteq> 0 \<and> handNumber g' = handNumber g \<and> board g' = board g"
  using assms
proof (induction k arbitrary: g c)
  case (Suc k)
  then obtain x d where d: "deck g = x # d" by (cases "deck g") auto
  define g1 where "g1 = g\<lparr>deck := d\<rparr>"
  define s where "s = (seat g1 c)\<lparr>Hole := (Hole (seat g1 c))[r := x]\<rparr>"
  define g2 where "g2 = set_seat g1 c s"
  have m1: "money_ok g1" and i1: "in_seats g1 c" and u: "UserID (seat g1 c) \<noteq> 0"
    using Suc.prems by (simp_all add: g1_def money_frame in_seats_def SeatCount_def seat_def)
  have "seat_ok s" using money_seat_at [OF m1 i1] by (simp add: s_def seat_ok_def)
  then have m2: "money_ok g2" "mp_chips g2 = mp_chips g1" "committed_total g2 = committed_total g1"
      "activeCount g2 = activeCount g1"
    using set_seat_money [OF m1 i1, of s] set_seat_committed [OF i1, of s] activeCount_set_seat [OF i1, of s]
    by (simp_all add: g2_def s_def)
  have i2: "in_seats g2 c" and u2: "UserID (seat g2 c) \<noteq> 0"
    using i1 u by (simp_all add: g2_def in_seats_def s_def seat_set_seat)
  have c2: "in_seats g2 (nextOccupied g2 c)" "UserID (seat g2 (nextOccupied g2 c)) \<noteq> 0"
    using nextOccupied_seat [OF _ i2 u2, of c] i2 by (simp_all add: in_seats_def)
  have "k \<le> length (deck g2)" using Suc.prems(1) d by (simp add: g2_def g1_def)
  from Suc.IH [OF this m2(1) c2] show ?case
    using m2 d by (simp add: Let_def g1_def [symmetric] s_def [symmetric] g2_def [symmetric])
      (simp add: g2_def g1_def money_frame)
qed simp

lemma OccupiedSeats_at: "i \<in> set (OccupiedSeats g) \<longleftrightarrow> in_seats g i \<and> UserID (seat g i) \<noteq> 0"
  by (auto simp: OccupiedSeats_def in_seats_def SeatCount_def image_iff intro!: bexI [of _ "nat i"])

lemma OccupiedSeats_length: "length (OccupiedSeats g) = length (filter (\<lambda>s. UserID s \<noteq> 0) (seats g))"
proof -
  have "map (seat g) (OccupiedSeats g) = filter (\<lambda>s. UserID s \<noteq> 0) (map (seat g) (map int [0..<length (seats g)]))"
    by (simp add: OccupiedSeats_def filter_map o_def)
  also have "map (seat g) (map int [0..<length (seats g)]) = seats g"
    by (rule nth_equalityI) (simp_all add: seat_def)
  finally show ?thesis by (metis length_map)
qed

text \<open>The table after the resets at the top of \<open>StartHand\<close>: nobody has bet and everyone plays.\<close>

definition cleared :: "mp_game \<Rightarrow> mp_game" where
  "cleared g = g\<lparr>seats := map reset_seat (seats g), lastPayouts := map (\<lambda>_. 0) (lastPayouts g),
     handNumber := i64 (handNumber g + 1), board := [], pot := 0, winner := - 1, winRank := HighCard\<rparr>"

lemma cleared_money:
  assumes "money_ok g"
  shows "money_ok (cleared g) \<and> mp_chips (cleared g) = (\<Sum>s\<leftarrow>seats g. ChipsHand s)
    \<and> committed_total (cleared g) = 0 \<and> activeCount (cleared g) = int (length (OccupiedSeats g))
    \<and> length (OccupiedSeats g) \<le> 9"
proof -
  have ch: "mp_chips (cleared g) = (\<Sum>s\<leftarrow>seats g. ChipsHand s)"
    by (simp add: mp_chips_def cleared_def reset_seat_def o_def)
  have "0 \<le> (\<Sum>s\<leftarrow>seats g. Bet s)"
    using assms by (intro sum_list_nonneg) (auto simp: money_ok_def seat_ok_def)
  then have "(\<Sum>s\<leftarrow>seats g. ChipsHand s) \<le> mp_chips g"
    using mp_Pot_eq(3) [OF assms] assms by (simp add: money_ok_def)
  then have "money_ok (cleared g)"
    using assms ch by (auto simp: money_ok_def cleared_def reset_seat_def seat_ok_def)
  moreover have "length (OccupiedSeats g) \<le> 9"
    using length_filter_le [of _ "seats g"] assms
    by (simp add: OccupiedSeats_length money_ok_def) (meson le_trans length_filter_le)
  ultimately show ?thesis
    using ch by (simp add: cleared_def committed_total_def reset_seat_def o_def activeCount_def
        OccupiedSeats_length filter_map)
qed

lemma postBlind_user:
  assumes "in_seats g i" and "in_seats g j"
  shows "in_seats (postBlind g i x) j \<and> UserID (seat (postBlind g i x) j) = UserID (seat g j)"
  using assms by (simp add: in_seats_def) (simp add: postBlind_def Let_def seat_set_seat in_seats_def)

text \<open>The two blinds, and the two rounds of dealing.\<close>

lemma blinds_ok:
  assumes m: "money_ok g" and sb: "in_seats g sb" "UserID (seat g sb) \<noteq> 0" and bb: "in_seats g bb"
  defines "g' \<equiv> (postBlind (postBlind g sb (smallBlind g)) bb (bigBlind g))\<lparr>lastRaiserIdx := bb\<rparr>"
  shows "money_ok g' \<and> mp_chips g' = mp_chips g \<and> committed_total g' = committed_total g
    \<and> activeCount g' = activeCount g \<and> in_seats g' sb \<and> UserID (seat g' sb) \<noteq> 0"
proof -
  have bl: "0 \<le> smallBlind g" "0 \<le> bigBlind g" using m by (simp_all add: money_ok_def)
  note p = postBlind_money [OF m sb(1) bl(1)]
  have "in_seats (postBlind g sb (smallBlind g)) bb" using bb by (simp add: in_seats_def)
  note q = postBlind_money [OF conjunct1 [OF p] this bl(2)]
  have "UserID (seat g' sb) = UserID (seat g sb)" "in_seats g' sb"
    using postBlind_user [OF sb(1) sb(1), of "smallBlind g"]
      postBlind_user [OF \<open>in_seats (postBlind g sb (smallBlind g)) bb\<close>, of sb "bigBlind g"]
    by (simp_all add: g'_def seat_def in_seats_def SeatCount_def)
  then show ?thesis using p q sb(2) by (simp add: g'_def money_frame)
qed

text \<open>The cards that may still come, or are on the board; while a hand runs nobody has been paid.\<close>

definition tidy :: "mp_game \<Rightarrow> bool" where
  "tidy g \<longleftrightarrow> (\<forall>c \<in> set (deck g) \<union> set (board g). valid_card c)
     \<and> (street g \<noteq> Ended \<longrightarrow> (\<forall>x \<in> set (lastPayouts g). x = 0))"

lemma tidy_mono:
  assumes "tidy g" and "set (deck g') \<union> set (board g') \<subseteq> set (deck g) \<union> set (board g)"
    and "street g' \<noteq> Ended \<longrightarrow> street g \<noteq> Ended \<and> lastPayouts g' = lastPayouts g"
  shows "tidy g'"
proof -
  have "valid_card c" if "c \<in> set (deck g') \<union> set (board g')" for c
    using assms(1,2) that by (auto simp: tidy_def dest: subsetD)
  then show ?thesis using assms(1,3) by (simp add: tidy_def)
qed

lemma deal_round_pool:
  "deal_round r k c g = Some (c', g') \<Longrightarrow> set (deck g') \<subseteq> set (deck g) \<and> board g' = board g
    \<and> lastPayouts g' = lastPayouts g"
proof (induction k arbitrary: c g)
  case (Suc k)
  then obtain x d where d: "deck g = x # d" by (cases "deck g") auto
  let ?g1 = "g\<lparr>deck := d\<rparr>"
  let ?g2 = "set_seat ?g1 c ((seat ?g1 c)\<lparr>Hole := (Hole (seat ?g1 c))[r := x]\<rparr>)"
  have "deal_round r k (nextOccupied ?g2 c) ?g2 = Some (c', g')" using Suc.prems d by (simp add: Let_def)
  from Suc.IH [OF this] d show ?case by auto
qed simp

lemma deal_two_rounds:
  assumes "money_ok g" and "in_seats g c" and "UserID (seat g c) \<noteq> 0" and "n + n \<le> length (deck g)"
  shows "\<exists>c1 g1 c2 g2. deal_round 0 n c g = Some (c1, g1) \<and> deal_round 1 n c1 g1 = Some (c2, g2)
    \<and> money_ok g2 \<and> mp_chips g2 = mp_chips g \<and> committed_total g2 = committed_total g
    \<and> activeCount g2 = activeCount g \<and> pot g2 = pot g \<and> length (deck g2) + n + n = length (deck g)
    \<and> in_seats g2 c2 \<and> UserID (seat g2 c2) \<noteq> 0 \<and> handNumber g2 = handNumber g
    \<and> length (seats g2) = length (seats g) \<and> set (deck g2) \<subseteq> set (deck g) \<and> board g2 = board g
    \<and> lastPayouts g2 = lastPayouts g"
proof -
  obtain c1 g1 where 1: "deal_round 0 n c g = Some (c1, g1)" "money_ok g1" "mp_chips g1 = mp_chips g"
      "committed_total g1 = committed_total g" "activeCount g1 = activeCount g" "pot g1 = pot g"
      "length (deck g1) + n = length (deck g)" "in_seats g1 c1" "UserID (seat g1 c1) \<noteq> 0"
      "handNumber g1 = handNumber g" "length (seats g1) = length (seats g)"
    using deal_round_ok [of n g c 0] assms by auto
  then have "n \<le> length (deck g1)" using assms(4) by simp
  from deal_round_ok [OF this 1(2,8,9), of 1] obtain c2 g2 where
    2: "deal_round 1 n c1 g1 = Some (c2, g2)" "money_ok g2" "mp_chips g2 = mp_chips g1"
      "committed_total g2 = committed_total g1" "activeCount g2 = activeCount g1" "pot g2 = pot g1"
      "length (deck g2) + n = length (deck g1)" "in_seats g2 c2" "UserID (seat g2 c2) \<noteq> 0"
      "handNumber g2 = handNumber g1" "length (seats g2) = length (seats g1)"
    by blast
  show ?thesis using 1 2 deal_round_pool [OF 1(1)] deal_round_pool [OF 2(1)]
    by (intro exI [of _ c1] exI [of _ g1] exI [of _ c2] exI [of _ g2]) auto
qed

text \<open>The table when the deck is shuffled and the button moved, before the blinds.\<close>

lemma shuffled_table:
  fixes d :: "card list" and r :: entropy
  assumes m: "money_ok g" and occ: "2 \<le> length (OccupiedSeats g)"
  defines "b \<equiv> if button (cleared g) < 0 then hd (OccupiedSeats g) else nextOccupied (cleared g) (button (cleared g))"
  defines "g3 \<equiv> (cleared g)\<lparr>button := b, deck := d, rng := r\<rparr>"
  shows "money_ok g3 \<and> mp_chips g3 = (\<Sum>s\<leftarrow>seats g. ChipsHand s) \<and> committed_total g3 = 0
      \<and> activeCount g3 = int (length (OccupiedSeats g)) \<and> in_seats g3 b \<and> UserID (seat g3 b) \<noteq> 0"
    and "in_seats g3 k \<Longrightarrow> in_seats g3 (nextOccupied g3 k) \<and> UserID (seat g3 (nextOccupied g3 k)) \<noteq> 0"
proof -
  have occ_at: "in_seats g3 i \<and> UserID (seat g3 i) \<noteq> 0" if "i \<in> set (OccupiedSeats g)" for i
    using that by (auto simp: OccupiedSeats_at in_seats_def g3_def cleared_def seat_def reset_seat_def SeatCount_def)
  obtain j where j: "j \<in> set (OccupiedSeats g)" using occ by (cases "OccupiedSeats g") auto
  note next_ok = nextOccupied_seat [OF _ conjunct1 [OF occ_at [OF j]] conjunct2 [OF occ_at [OF j]]]
  show "in_seats g3 (nextOccupied g3 k) \<and> UserID (seat g3 (nextOccupied g3 k)) \<noteq> 0" if "in_seats g3 k"
    using next_ok that by (simp add: in_seats_def)
  have "nextOccupied (cleared g) = nextOccupied g3"
    by (intro ext) (simp add: nextOccupied_def g3_def seat_def SeatCount_def)
  moreover have "hd (OccupiedSeats g) \<in> set (OccupiedSeats g)" using occ by (cases "OccupiedSeats g") auto
  ultimately have "in_seats g3 b \<and> UserID (seat g3 b) \<noteq> 0"
    using occ_at [of "hd (OccupiedSeats g)"] next_ok [of "button (cleared g)"] by (auto simp: b_def not_less)
  then show "money_ok g3 \<and> mp_chips g3 = (\<Sum>s\<leftarrow>seats g. ChipsHand s) \<and> committed_total g3 = 0
      \<and> activeCount g3 = int (length (OccupiedSeats g)) \<and> in_seats g3 b \<and> UserID (seat g3 b) \<noteq> 0"
    using cleared_money [OF m] by (simp add: g3_def money_frame) (simp add: activeCount_def committed_total_def)
qed

lemma mp_StartHand_inv:
  assumes inv: "mp_inv g"
  shows "\<exists>ok g'. mp_StartHand g = Some (ok, g') \<and> mp_inv g' \<and> (ok \<longleftrightarrow> 2 \<le> length (OccupiedSeats g))
    \<and> (\<not> ok \<longrightarrow> g' = g)
    \<and> (ok \<longrightarrow> street g' = Preflop \<and> in_seats g' (toAct g') \<and> mp_chips g' = (\<Sum>s\<leftarrow>seats g. ChipsHand s)
         \<and> committed_total g' = pot g' \<and> handNumber g' = i64 (handNumber g + 1) \<and> tidy g')"
proof (cases "length (OccupiedSeats g) < 2")
  case True
  then show ?thesis using inv by (auto simp: mp_StartHand_def)
next
  case False
  let ?n = "length (OccupiedSeats g)"
  have m: "money_ok g" using inv by (simp add: mp_inv_def)
  have n: "2 \<le> ?n" using False by simp
  define b where "b = (if button (cleared g) < 0 then hd (OccupiedSeats g)
    else nextOccupied (cleared g) (button (cleared g)))"
  obtain d r where dr: "shuffle crypto_intn new_deck (rng ((cleared g)\<lparr>button := b\<rparr>)) = (d, r)" by fastforce
  define g3 where "g3 = (cleared g)\<lparr>button := b, deck := d, rng := r\<rparr>"
  note t = shuffled_table [OF m n, where d = d and r = r, folded b_def, folded g3_def]
  have "mset d = mset new_deck"
    using crypto.shuffle_mset [of new_deck "rng ((cleared g)\<lparr>button := b\<rparr>)"] new_deck_length dr by simp
  then have dl: "length d = 52" using new_deck_length by (metis size_mset)
  define sb where "sb = (if ?n = 2 then button g3 else nextOccupied g3 (button g3))"
  define bb where "bb = (if ?n = 2 then nextOccupied g3 (button g3) else nextOccupied g3 sb)"
  have bt: "button g3 = b" by (simp add: g3_def)
  have sb: "in_seats g3 sb" "UserID (seat g3 sb) \<noteq> 0" and bb: "in_seats g3 bb"
    using t(1) t(2) [of b] t(2) [of sb] by (auto simp: sb_def bb_def bt)
  define g5 where "g5 = (postBlind (postBlind g3 sb (smallBlind g3)) bb (bigBlind g3))\<lparr>lastRaiserIdx := bb\<rparr>"
  note p5 = blinds_ok [OF conjunct1 [OF t(1)] sb bb, folded g5_def]
  have "lastPayouts (postBlind h i x) = lastPayouts h" for h i x by (simp add: postBlind_def Let_def)
  then have "deck g5 = d" "pot g5 = 0" "handNumber g5 = i64 (handNumber g + 1)" "board g5 = []"
    "\<forall>x \<in> set (lastPayouts g5). x = 0"
    by (simp_all add: g5_def g3_def cleared_def)
  with deal_two_rounds [of g5 sb ?n] p5 t(1) dl cleared_money [OF m]
  obtain c6 g6 c7 g7 where deal: "deal_round 0 ?n sb g5 = Some (c6, g6)" "deal_round 1 ?n c6 g6 = Some (c7, g7)"
    and p7: "money_ok g7" "mp_chips g7 = (\<Sum>s\<leftarrow>seats g. ChipsHand s)" "committed_total g7 = 0"
      "activeCount g7 = int ?n" "pot g7 = 0" "length (deck g7) + ?n + ?n = 52" "in_seats g7 c7"
      "UserID (seat g7 c7) \<noteq> 0" "handNumber g7 = i64 (handNumber g + 1)" "length (seats g7) = length (seats g5)"
      "set (deck g7) \<subseteq> set d" "board g7 = []" "\<forall>x \<in> set (lastPayouts g7). x = 0"
    by auto
  then have len: "SeatCount g7 = SeatCount g3" by (simp add: SeatCount_def g5_def)
  define a where "a = (if ?n = 2 then sb else nextOccupied g7 bb)"
  have "mp_StartHand g = Some (True, g7\<lparr>street := Preflop, toAct := a\<rparr>)"
    unfolding mp_StartHand_def Let_def cleared_def [symmetric] b_def [symmetric] dr prod.case
      g3_def [symmetric] sb_def [symmetric] bb_def [symmetric] postBlind_frame g5_def [symmetric]
      deal option.case a_def [symmetric]
    using False by (simp only: if_False)
  moreover have "in_seats g7 a"
    using sb bb nextOccupied_seat [OF _ p7(7,8), of bb] by (auto simp: a_def in_seats_def len)
  moreover have "mp_inv (g7\<lparr>street := Preflop, toAct := a\<rparr>)"
    using p7(1,3,4,5,6) n cleared_money [OF m] by (simp add: mp_inv_def money_frame)
  moreover have "tidy (g7\<lparr>street := Preflop, toAct := a\<rparr>)"
    using p7(11,12,13) mset_eq_setD [OF \<open>mset d = mset new_deck\<close>] new_deck_valid by (auto simp: tidy_def)
  ultimately show ?thesis
    using p7(2,3,5,9) n
    by (intro exI [of _ True] exI [of _ "g7\<lparr>street := Preflop, toAct := a\<rparr>"])
      (simp add: money_frame in_seats_def SeatCount_def)
qed

section \<open>A table to evaluate\<close>

text \<open>
  The river of a three-handed hand: Ann folded after putting in 100, Bob is all-in for 60, and
  Cid, who put in 80 and has \<open>b\<close> chips bet on this street, is to act.
\<close>

definition demo_mp :: "int \<Rightarrow> mp_game" where
  "demo_mp b = \<lparr>deck = [],
     seats = [\<lparr>UserID = 7, Handle = ''ann'', ChipsHand = 50, Bet = 0, Committed = 100,
                Hole = [mk_card 14 0, mk_card 14 1], Folded = True, AllIn = False\<rparr>,
              \<lparr>UserID = 8, Handle = ''bob'', ChipsHand = 0, Bet = 0, Committed = 60,
                Hole = [mk_card 13 0, mk_card 13 1], Folded = False, AllIn = True\<rparr>,
              \<lparr>UserID = 9, Handle = ''cid'', ChipsHand = 40, Bet = b, Committed = 80,
                Hole = [mk_card 12 0, mk_card 4 1], Folded = False, AllIn = False\<rparr>],
     board = [mk_card 2 0, mk_card 5 1, mk_card 7 2, mk_card 9 3, mk_card 11 0],
     button = 0, toAct = 2, pot = 240, street = River, smallBlind = 1, bigBlind = 2, rng = (\<lambda>_. 0),
     lastRaiserIdx = 2, winner = - 1, winRank = HighCard, lastPayouts = [0, 0, 0], handNumber = 4\<rparr>"

lemma demo_mp_inv: "0 \<le> b \<Longrightarrow> b < 1000 \<Longrightarrow> mp_inv (demo_mp b)"
  by (simp add: mp_inv_def money_ok_def seat_ok_def mp_chips_def committed_total_def demo_mp_def activeCount_def)

lemma demo_mp_seats: "in_seats (demo_mp b) i \<longleftrightarrow> i = 0 \<or> i = 1 \<or> i = 2"
  by (auto simp: in_seats_def SeatCount_def demo_mp_def)

section \<open>Reachable tables\<close>

inductive hold_reach :: "mp_game \<Rightarrow> bool" where
  new: "0 \<le> sb \<Longrightarrow> 0 \<le> bb \<Longrightarrow> bb < 2147483600 \<Longrightarrow> hold_reach (NewGame r cap sb bb)"
| sit: "hold_reach g \<Longrightarrow> uid \<noteq> 0 \<Longrightarrow> mp_chips g + stack + bigBlind g < 2147483600 \<Longrightarrow>
    hold_reach (snd (Sit g i uid h stack))"
| stand: "hold_reach g \<Longrightarrow> hold_reach (snd (Stand g i uid))"
| start: "hold_reach g \<Longrightarrow> mp_StartHand g = Some (ok, g') \<Longrightarrow> hold_reach g'"
| act: "hold_reach g \<Longrightarrow> mp_PlayerAction g i a = Some (e, g') \<Longrightarrow> hold_reach g'"

lemma NewGame_inv:
  assumes "0 \<le> sb" and "0 \<le> bb" and "bb < 2147483600"
  shows "mp_inv (NewGame r cap sb bb)"
proof -
  have "\<exists>n. seats (NewGame r cap sb bb) = replicate n empty_seat \<and> lastPayouts (NewGame r cap sb bb) = replicate n 0
      \<and> 2 \<le> n \<and> n \<le> 9"
    by (auto simp: NewGame_def Let_def)
  then obtain n where "seats (NewGame r cap sb bb) = replicate n empty_seat"
    "lastPayouts (NewGame r cap sb bb) = replicate n 0" "2 \<le> n" "n \<le> 9" by blast
  with assms show ?thesis
    by (simp add: mp_inv_def money_ok_def mp_chips_def committed_total_def sum_list_replicate)
      (simp add: NewGame_def Let_def empty_seat_def seat_ok_def)
qed

lemma mp_PlayerAction_inv:
  assumes "mp_inv g" and "mp_PlayerAction g i a = Some (e, g')"
  shows "mp_inv g'"
  using assms action_inv [of g a]
  by (auto simp: mp_PlayerAction_def split: if_splits)

lemma hold_reach_inv: "hold_reach g \<Longrightarrow> mp_inv g"
proof (induction rule: hold_reach.induct)
  case (stand g i uid)
  then show ?case
    using Stand_inv [of g i uid] by (cases "in_seats g i \<and> UserID (seat g i) = uid") (auto simp: Stand_def)
next
  case (start g ok g')
  then show ?case using mp_StartHand_inv [of g] by auto
qed (auto intro: NewGame_inv Sit_inv [THEN conjunct1] mp_PlayerAction_inv)



text \<open>
  one action at a running table: it returns, keeps the table's invariant, reports the end of
  the hand exactly when the street is Ended, and conserves every chip on the table except those
  that a showdown leaves unpaid, what the pot held beyond the commitments of the seats still
  taken, and the stakes above the largest stake of an unfolded seat.
\<close>
theorem holdem_action_accounts:
  assumes "mp_inv g" and "street g \<noteq> Ended" and "in_seats g (toAct g)"
  shows "\<exists>e g'. mp_PlayerAction g (toAct g) a = Some (e, g') \<and> mp_inv g' \<and> (e \<longleftrightarrow> street g' = Ended)
    \<and> mp_chips g' = mp_chips g - lost g g'"
  using action_inv [OF assms] by blast

theorem holdem_action_accounts_witness:
  "\<exists>e g'. mp_PlayerAction (demo_mp 0) 2 HuCheckCall = Some (e, g') \<and> mp_inv g'
     \<and> mp_chips g' = 330 - lost (demo_mp 0) g'"
proof -
  have "toAct (demo_mp 0) = 2" "street (demo_mp 0) \<noteq> Ended" "mp_chips (demo_mp 0) = 330"
    by (simp_all add: demo_mp_def mp_chips_def)
  then show ?thesis
    using holdem_action_accounts [of "demo_mp 0" HuCheckCall] demo_mp_inv [of 0] demo_mp_seats [of 0 2] by auto
qed

section \<open>The showdown in terms of the seats\<close>

definition contends :: "Seat \<Rightarrow> bool" where
  "contends s \<longleftrightarrow> UserID s \<noteq> 0 \<and> \<not> Folded s"

definition top_stake :: "mp_game \<Rightarrow> int" where
  "top_stake g = foldr max (map Committed (filter contends (seats g))) 0"

lemma seats_map: "map (seat g) (map int [0..<length (seats g)]) = seats g"
  by (rule nth_equalityI) (simp_all add: seat_def)

lemma buckets_seats:
  "map bCommitted (filter bEligible (buckets g)) = map Committed (filter contends (seats g))"
  "map bCommitted (buckets g) = map Committed (filter (\<lambda>s. UserID s \<noteq> 0) (seats g))"
proof -
  have "map bCommitted (filter bEligible (buckets g))
      = map Committed (filter contends (map (seat g) (map int [0..<length (seats g)])))"
    by (simp add: buckets_def filter_map o_def contends_def conj_commute)
  then show "map bCommitted (filter bEligible (buckets g)) = map Committed (filter contends (seats g))"
    by (simp only: seats_map)
  have "map bCommitted (buckets g)
      = map Committed (filter (\<lambda>s. UserID s \<noteq> 0) (map (seat g) (map int [0..<length (seats g)])))"
    by (simp add: buckets_def filter_map o_def)
  then show "map bCommitted (buckets g) = map Committed (filter (\<lambda>s. UserID s \<noteq> 0) (seats g))"
    by (simp only: seats_map)
qed

lemma top_eligible_stake: "top_eligible (buckets g) = top_stake g"
  by (simp only: top_eligible_def top_stake_def buckets_seats)

lemma paid_seats:
  assumes "\<forall>s \<in> set (seats g). seat_ok s" and "0 \<le> m"
  shows "paid (buckets g) m = (\<Sum>s\<leftarrow>seats g. min (Committed s) m)"
proof -
  have "paid (buckets g) m = (\<Sum>c\<leftarrow>map bCommitted (buckets g). min c m)" by (simp add: paid_def o_def)
  also have "\<dots> = (\<Sum>s\<leftarrow>filter (\<lambda>s. UserID s \<noteq> 0) (seats g). min (Committed s) m)"
    by (simp add: buckets_seats o_def)
  also have "(\<Sum>s\<leftarrow>filter (\<lambda>s. UserID s \<noteq> 0) ss. min (Committed s) m) = (\<Sum>s\<leftarrow>ss. min (Committed s) m)"
    if "\<forall>s \<in> set ss. seat_ok s" for ss
    using that assms(2) by (induction ss) (auto simp: seat_ok_def)
  finally show ?thesis using assms(1) by simp
qed

lemma won_seats:
  assumes "won_ok g (buckets g) p" and "awards p i \<noteq> 0"
  shows "contends (seat g i) \<and> (\<forall>j. in_seats g j \<and> contends (seat g j) \<and> Committed (seat g i) \<le> Committed (seat g j)
    \<longrightarrow> value_le (hand_of g j) (hand_of g i))"
proof -
  obtain b where b: "b \<in> set (buckets g)" "bSeat b = i" "bEligible b"
    and best: "\<And>b'. b' \<in> set (buckets g) \<Longrightarrow> bEligible b' \<Longrightarrow> bCommitted b \<le> bCommitted b'
      \<Longrightarrow> value_le (hand_of g (bSeat b')) (hand_of g i)"
    using assms unfolding won_ok_def by blast
  have i: "contends (seat g i)" "bCommitted b = Committed (seat g i)"
    using b by (auto simp: buckets_def contends_def)
  have "value_le (hand_of g j) (hand_of g i)"
    if "in_seats g j" "contends (seat g j)" "Committed (seat g i) \<le> Committed (seat g j)" for j
  proof -
    have "\<lparr>bSeat = j, bCommitted = Committed (seat g j), bEligible = True\<rparr> \<in> set (buckets g)"
      using that in_seats_nat [OF that(1)]
      by (auto simp: buckets_def contends_def image_iff intro!: bexI [of _ "nat j"])
    from best [OF this] that(3) i(2) show ?thesis by simp
  qed
  with i(1) show ?thesis by blast
qed



section \<open>Hands that do not end\<close>

text \<open>Seats that may still act.\<close>

definition live :: "Seat \<Rightarrow> bool" where
  "live s \<longleftrightarrow> UserID s \<noteq> 0 \<and> \<not> Folded s \<and> \<not> AllIn s"

text \<open>The last raiser is out of the action (folded or all-in), somebody is not, and nobody owes chips.\<close>

definition stalled :: "mp_game \<Rightarrow> bool" where
  "stalled g \<longleftrightarrow> street g \<noteq> Ended \<and> in_seats g (toAct g) \<and> live (seat g (toAct g))
     \<and> \<not> live (seat g (lastRaiserIdx g)) \<and> 2 \<le> activeCount g
     \<and> (\<forall>i. in_seats g i \<and> live (seat g i) \<longrightarrow> ToCall g i = 0)"

fun mp_checks :: "nat \<Rightarrow> mp_game \<Rightarrow> (bool \<times> mp_game) option" where
  "mp_checks 0 g = Some (False, g)"
| "mp_checks (Suc n) g =
     (case mp_PlayerAction g (toAct g) HuCheckCall of
        None \<Rightarrow> None
      | Some (e, g') \<Rightarrow> if e then Some (e, g') else mp_checks n g')"

text \<open>The walk over the occupied seats comes back to where it started within one round.\<close>

lemma find_upt_le:
  assumes "a \<le> D" "D < b" "P (f D)"
  shows "\<exists>d. a \<le> d \<and> d \<le> D \<and> find P (map f [a..<b]) = Some (f d)"
proof -
  obtain x where x: "find P (map f [a..<b]) = Some x"
    using assms by (cases "find P (map f [a..<b])") (auto simp: find_None_iff)
  then obtain i where i: "i < b - a" "x = f (a + i)" "\<forall>j < i. \<not> P (f (a + j))"
    by (auto simp: find_Some_iff)
  have "\<not> D - a < i" using i(3) assms by auto
  then show ?thesis using x i assms by (intro exI [of _ "a + i"]) auto
qed

lemma nextOccupied_step:
  assumes c: "in_seats g c" and D: "1 \<le> D" "D \<le> length (seats g)"
    and occ: "UserID (seat g ((c + int D) mod SeatCount g)) \<noteq> 0"
  shows "\<exists>d. 1 \<le> d \<and> d \<le> D \<and> nextOccupied g c = (c + int d) mod SeatCount g"
proof -
  have n: "0 < SeatCount g" "0 \<le> c" using c by (auto simp: in_seats_def)
  have "\<exists>d. 1 \<le> d \<and> d \<le> D \<and> find (\<lambda>idx. UserID (seat g idx) \<noteq> 0)
      (map (\<lambda>i. go_mod (c + int i) (SeatCount g)) [1..<Suc (length (seats g))]) = Some (go_mod (c + int d) (SeatCount g))"
    by (rule find_upt_le [where f = "\<lambda>i. go_mod (c + int i) (SeatCount g)"]) (use D occ n in simp_all)
  then obtain d where "1 \<le> d" "d \<le> D" "nextOccupied g c = go_mod (c + int d) (SeatCount g)"
    unfolding nextOccupied_def by auto
  with n show ?thesis by (intro exI [of _ d]) simp
qed

lemma after_loop_None:
  assumes "\<not> live (seat g (lastRaiserIdx g))" and "in_seats g c"
    and "1 \<le> D" "D \<le> length (seats g)" "D \<le> k" and "after_loop g c k = None"
  shows "\<not> live (seat g ((c + int D) mod SeatCount g))"
  using assms(2-)
proof (induction k arbitrary: c D)
  case (Suc k)
  show ?case
  proof (cases "UserID (seat g ((c + int D) mod SeatCount g)) = 0")
    case False
    then obtain d where d: "1 \<le> d" "d \<le> D" "nextOccupied g c = (c + int d) mod SeatCount g"
      using nextOccupied_step Suc.prems(1,2,3) by blast
    let ?c = "nextOccupied g c"
    have n: "0 < SeatCount g" using Suc.prems(1) by (auto simp: in_seats_def)
    have here: "\<not> live (seat g ?c)" "after_loop g ?c k = None \<or> lastRaiserIdx g = ?c"
      using Suc.prems(5) assms(1) by (auto simp: live_def Let_def split: if_splits)
    show ?thesis
    proof (cases "d = D")
      case True
      then show ?thesis using here d by simp
    next
      case neq: False
      have "in_seats g ?c" using n by (simp add: d in_seats_def)
      moreover have "after_loop g ?c k = None"
        using Suc.prems(5) here(1) assms(1) by (auto simp: live_def Let_def split: if_splits)
      moreover have "(?c + int (D - d)) mod SeatCount g = (c + int D) mod SeatCount g"
        unfolding d(3) mod_add_left_eq using d(2) by (simp add: of_nat_diff)
      ultimately show ?thesis using Suc.IH [of ?c "D - d"] Suc.prems(2,3,4) d neq by simp
    qed
  qed (simp add: live_def)
qed simp

lemma after_loop_in:
  assumes "in_seats g j" "UserID (seat g j) \<noteq> 0"
  shows "in_seats g c \<Longrightarrow> after_loop g c k = Some x \<Longrightarrow> in_seats g x"
proof (induction k arbitrary: c)
  case (Suc k)
  have "in_seats g (nextOccupied g c)" using nextOccupied_seat [OF _ assms, of c] Suc.prems by (simp add: in_seats_def)
  with Suc show ?case by (auto simp: Let_def split: if_splits)
qed simp

lemma after_loop_live:
  assumes "\<not> live (seat g (lastRaiserIdx g))" and "after_loop g c k = Some x"
  shows "live (seat g x)"
  using assms by (induction k arbitrary: c) (auto simp: live_def Let_def split: if_splits)

text \<open>A check in a stalled hand only passes the turn.\<close>

lemma stalled_check:
  assumes "stalled g"
  shows "\<exists>c. mp_PlayerAction g (toAct g) HuCheckCall = Some (False, g\<lparr>toAct := c\<rparr>) \<and> stalled (g\<lparr>toAct := c\<rparr>)"
proof -
  have s: "street g \<noteq> Ended" "in_seats g (toAct g)" "live (seat g (toAct g))"
    "\<not> live (seat g (lastRaiserIdx g))" "2 \<le> activeCount g"
    "\<forall>i. in_seats g i \<and> live (seat g i) \<longrightarrow> ToCall g i = 0"
    using assms by (simp_all add: stalled_def)
  have app: "mp_apply g (toAct g) HuCheckCall = g" using s by (simp add: mp_apply_def Let_def)
  have "(toAct g + int (length (seats g))) mod SeatCount g = toAct g"
    using s(2) by (simp add: in_seats_def SeatCount_def)
  moreover have "1 \<le> length (seats g)" using s(2) by (simp add: in_seats_def SeatCount_def)
  ultimately obtain c where c: "after_loop g (toAct g) (length (seats g)) = Some c"
    using after_loop_None [OF s(4,2), of "length (seats g)" "length (seats g)"] s(3) by force
  have "mp_PlayerAction g (toAct g) HuCheckCall = Some (False, g\<lparr>toAct := c\<rparr>)"
    using s app c by (simp add: mp_PlayerAction_def mp_afterAction_def)
  moreover have "in_seats g c" using after_loop_in [OF s(2) _ s(2) c] s(3) by (simp add: live_def)
  moreover have "live (seat g c)" by (rule after_loop_live [OF s(4) c])
  ultimately show ?thesis
    using s by (intro exI [of _ c]) (simp add: stalled_def money_frame in_seats_def SeatCount_def seat_def ToCall_def)
qed

text \<open>
  once the last raiser has folded or is all-in and nobody left owes chips, the street cannot
  be closed by checking: any number of checks leaves the table as it was except for the turn, so
  the board is never completed, no showdown happens and the pot stays where it is.
\<close>
theorem checks_never_close_street:
  assumes "stalled g"
  shows "\<exists>c. mp_checks n g = Some (False, g\<lparr>toAct := c\<rparr>)"
proof -
  have "\<exists>c. mp_checks n g = Some (False, g\<lparr>toAct := c\<rparr>)" if "stalled g" for g
    using that
  proof (induction n arbitrary: g)
    case 0
    have "g = g\<lparr>toAct := toAct g\<rparr>" by simp
    then show ?case by (metis mp_checks.simps(1))
  next
    case (Suc n)
    from stalled_check [OF Suc.prems] obtain c where
      "mp_PlayerAction g (toAct g) HuCheckCall = Some (False, g\<lparr>toAct := c\<rparr>)" "stalled (g\<lparr>toAct := c\<rparr>)" by blast
    with Suc.IH [of "g\<lparr>toAct := c\<rparr>"] show ?case by simp
  qed
  then show ?thesis using assms .
qed

theorem checks_never_close_street_witness:
  "\<exists>c. mp_checks 1000 ((demo_mp 0)\<lparr>lastRaiserIdx := 1\<rparr>) = Some (False, (demo_mp 0)\<lparr>lastRaiserIdx := 1, toAct := c\<rparr>)"
proof -
  let ?g = "(demo_mp 0)\<lparr>lastRaiserIdx := 1\<rparr>"
  have s: "in_seats ?g i \<longleftrightarrow> i = 0 \<or> i = 1 \<or> i = 2" for i
    using demo_mp_seats [of 0 i] by (simp add: in_seats_def SeatCount_def)
  have "ToCall ?g i = 0" for i
    unfolding ToCall_def s by (auto simp: demo_mp_def seat_def i32_0 Let_def)
  then have "stalled ?g"
    unfolding stalled_def s by (simp add: demo_mp_def live_def seat_def activeCount_def)
  from checks_never_close_street [OF this, of 1000] show ?thesis by simp
qed

section \<open>Leaving and restarting\<close>

text \<open>
  a player who stands up leaves with exactly the stack in front of the seat, and the chips
  already bet on this street leave the table with nobody: the table's total drops by the stack and
  by the bet, whatever the street.
\<close>
theorem stand_forfeits_bet:
  assumes "mp_inv g" and "in_seats g i" and "UserID (seat g i) = uid"
  shows "mp_inv (snd (Stand g i uid)) \<and> fst (Stand g i uid) = ChipsHand (seat g i)
    \<and> mp_chips (snd (Stand g i uid)) + fst (Stand g i uid) = mp_chips g - Bet (seat g i)"
  using Stand_inv [OF assms] by simp

theorem stand_forfeits_bet_witness:
  "fst (Stand (demo_mp 10) 2 9) = 40 \<and> mp_chips (snd (Stand (demo_mp 10) 2 9)) = 290 \<and> mp_chips (demo_mp 10) = 340"
proof -
  have "UserID (seat (demo_mp 10) 2) = 9" "ChipsHand (seat (demo_mp 10) 2) = 40" "Bet (seat (demo_mp 10) 2) = 10"
    "mp_chips (demo_mp 10) = 340"
    by (simp_all add: demo_mp_def seat_def mp_chips_def)
  with stand_forfeits_bet [of "demo_mp 10" 2 9] demo_mp_inv [of 10] demo_mp_seats [of 10 2] show ?thesis by simp
qed

lemma snapshot_chips:
  assumes "seat_ok s" and "ChipsHand s + Bet s + Committed s < 2147483648"
  shows "ChipsHand (restore_seat (snapshot_seat s)) + Bet (restore_seat (snapshot_seat s))
    = ChipsHand s + Bet s + Committed s"
proof -
  have "i32 (Bet s + Committed s) = Bet s + Committed s"
    "i32 (ChipsHand s + (Bet s + Committed s)) = ChipsHand s + (Bet s + Committed s)"
    using assms by (simp_all add: seat_ok_def i32_nonneg_id)
  then show ?thesis
    using assms by (auto simp: restore_seat_def snapshot_seat_def empty_seat_def seat_ok_def)
qed

text \<open>
  saving a table and restoring it: the next boot finds the stacks with bets and commitments
  folded back in.  Stopped during a hand, the table keeps its chips up to what the pot held beyond
  the commitments of the seats still taken; stopped between hands, where the commitments of the
  settled hand are still recorded, it comes back with those chips once more.
\<close>
theorem restart_table_chips:
  assumes "mp_inv g" and "mp_chips g + committed_total g < 2147483648"
  shows "mp_chips (RestoreFromSnapshot (SnapshotState g) r)
      = mp_chips g + (if street g = Ended then committed_total g else committed_total g - pot g)
    \<and> street (RestoreFromSnapshot (SnapshotState g) r) = Ended
    \<and> handNumber (RestoreFromSnapshot (SnapshotState g) r) = handNumber g"
proof -
  let ?g' = "RestoreFromSnapshot (SnapshotState g) r"
  have m: "money_ok g" using assms(1) by (simp add: mp_inv_def)
  have len: "2 \<le> length (seats g)" "length (seats g) \<le> 9" using m by (simp_all add: money_ok_def)
  have "seats ?g' = map (restore_seat \<circ> snapshot_seat) (seats g)"
    using len by (simp add: RestoreFromSnapshot_def SnapshotState_def NewGame_def Let_def)
  then have "mp_chips ?g' = (\<Sum>s\<leftarrow>seats g. ChipsHand (restore_seat (snapshot_seat s)) + Bet (restore_seat (snapshot_seat s)))"
    by (simp add: mp_chips_def o_def) (simp add: RestoreFromSnapshot_def Let_def)
  also have "\<dots> = (\<Sum>s\<leftarrow>seats g. ChipsHand s + Bet s + Committed s)"
  proof (intro arg_cong [where f = sum_list] map_cong refl snapshot_chips)
    fix s assume s: "s \<in> set (seats g)"
    then show "seat_ok s" using m by (simp add: money_ok_def)
    have "ChipsHand s + Bet s + Committed s \<le> (\<Sum>s\<leftarrow>seats g. ChipsHand s + Bet s + Committed s)"
      using s m by (intro member_le_sum_list) (auto simp: money_ok_def seat_ok_def)
    also have "\<dots> \<le> mp_chips g + committed_total g"
      using m by (simp add: mp_chips_def committed_total_def sum_list_addf money_ok_def)
    finally show "ChipsHand s + Bet s + Committed s < 2147483648" using assms(2) by simp
  qed
  also have "\<dots> = mp_chips g - pot g + committed_total g"
    by (simp add: mp_chips_def committed_total_def sum_list_addf)
  finally have "mp_chips ?g' = mp_chips g - pot g + committed_total g" .
  moreover have "street g = Ended \<Longrightarrow> pot g = 0" using assms(1) by (simp add: mp_inv_def)
  ultimately show ?thesis by (simp add: RestoreFromSnapshot_def SnapshotState_def Let_def)
qed

theorem restart_table_chips_witness:
  "mp_chips (RestoreFromSnapshot (SnapshotState ((demo_mp 0)\<lparr>street := Ended, pot := 0\<rparr>)) (\<lambda>_. 0)) = 330
   \<and> mp_chips ((demo_mp 0)\<lparr>street := Ended, pot := 0\<rparr>) = 90"
proof -
  let ?g = "(demo_mp 0)\<lparr>street := Ended, pot := 0\<rparr>"
  have inv: "mp_inv ?g" and c: "mp_chips ?g = 90" "committed_total ?g = 240"
    by (simp_all add: mp_inv_def money_ok_def seat_ok_def mp_chips_def committed_total_def demo_mp_def)
  show ?thesis using restart_table_chips [OF inv, of "\<lambda>_. 0"] c by simp
qed

section \<open>Cards in play and payouts\<close>

lemma endByFold_frame: "deck (mp_endByFold g) = deck g" "board (mp_endByFold g) = board g" "street (mp_endByFold g) = Ended"
  by (simp_all add: mp_endByFold_def Let_def set_seat_def split: option.splits)

lemma Sit_frame:
  "deck (snd (Sit g i u h x)) = deck g" "board (snd (Sit g i u h x)) = board g"
  "street (snd (Sit g i u h x)) = street g" "lastPayouts (snd (Sit g i u h x)) = lastPayouts g"
  by (simp_all add: Sit_def)

lemma Stand_frame:
  "deck (snd (Stand g i u)) = deck g \<and> board (snd (Stand g i u)) = board g
    \<and> (street (snd (Stand g i u)) \<noteq> Ended \<longrightarrow> street g \<noteq> Ended \<and> lastPayouts (snd (Stand g i u)) = lastPayouts g)"
proof -
  obtain a where a: "advanceAction (set_seat g i empty_seat) = (set_seat g i empty_seat)\<lparr>toAct := a\<rparr>"
    using advanceAction_frame by blast
  show ?thesis by (simp add: Stand_def Let_def a endByFold_frame)
qed

lemma mp_draw_board_pool:
  "mp_draw_board n g = Some g' \<Longrightarrow> set (deck g') \<union> set (board g') = set (deck g) \<union> set (board g)
    \<and> street g' = street g \<and> lastPayouts g' = lastPayouts g"
proof (induction n arbitrary: g)
  case (Suc n)
  then obtain x d where d: "deck g = x # d" by (cases "deck g") auto
  with Suc.prems have "mp_draw_board n (g\<lparr>deck := d, board := board g @ [x]\<rparr>) = Some g'" by simp
  from Suc.IH [OF this] d show ?case by auto
qed simp

lemma mp_burn_pool:
  "set (deck (mp_burn g)) \<subseteq> set (deck g)" "board (mp_burn g) = board g" "lastPayouts (mp_burn g) = lastPayouts g"
  "street (mp_burn g) = street g"
  by (auto simp: mp_burn_def dest: list.set_sel(2))

lemma closeStreet_frame:
  assumes "mp_closeStreet g = Some (e, g')" and "street g \<noteq> Ended"
  shows "set (deck g') \<union> set (board g') \<subseteq> set (deck g) \<union> set (board g)
    \<and> (street g' \<noteq> Ended \<longrightarrow> lastPayouts g' = lastPayouts g)"
proof -
  have deal: "set (deck x) \<union> set (board x) \<subseteq> set (deck g) \<union> set (board g) \<and> lastPayouts x = lastPayouts g"
    if "mp_draw_board n (mp_burn (g\<lparr>pot := p, seats := s\<rparr>)) = Some x" for n p s x
    using mp_draw_board_pool [OF that] mp_burn_pool [of "g\<lparr>pot := p, seats := s\<rparr>"] by auto
  show ?thesis
    using assms by (cases "street g") (auto simp: mp_closeStreet_def Let_def postflop_def mp_resolveShowdown_def
        simp del: mp_draw_board.simps dest!: deal)
qed

lemma PlayerAction_tidy:
  assumes "tidy g" and "mp_inv g" and "mp_PlayerAction g i a = Some (e, g')"
  shows "tidy g'"
proof (cases "i \<noteq> toAct g \<or> street g = Ended")
  case True
  then show ?thesis using assms by (auto simp: mp_PlayerAction_def)
next
  case False
  define h where "h = mp_apply g i a"
  have fr: "deck h = deck g" "board h = board g" "street h = street g" "lastPayouts h = lastPayouts g"
    by (simp_all add: h_def mp_apply_def Let_def split: hu_action.splits)
  have "mp_afterAction h = Some (e, g')" using assms(3) False by (auto simp: mp_PlayerAction_def h_def split: if_splits)
  then have "set (deck g') \<union> set (board g') \<subseteq> set (deck h) \<union> set (board h)
      \<and> (street g' \<noteq> Ended \<longrightarrow> lastPayouts g' = lastPayouts h)"
    using closeStreet_frame [of h e g'] False fr(3)
    by (auto simp: mp_afterAction_def endByFold_frame split: if_splits option.splits)
  with tidy_mono [OF assms(1), of g'] fr False show ?thesis by simp
qed

lemma StartHand_tidy:
  assumes "tidy g" and "mp_inv g" and "mp_StartHand g = Some (b, g')"
  shows "tidy g'"
  using mp_StartHand_inv [OF assms(2)] assms(1,3) by (cases b) auto

lemma hold_reach_tidy: "hold_reach g \<Longrightarrow> tidy g"
proof (induction rule: hold_reach.induct)
  case (new sb bb r cap)
  then show ?case by (auto simp: tidy_def NewGame_def Let_def)
next
  case (sit g uid stack i h)
  then show ?case by (rule_tac tidy_mono [of g]) (simp_all add: Sit_frame)
next
  case (stand g i uid)
  then show ?case using Stand_frame [of g i uid] by (rule_tac tidy_mono [of g]) auto
next
  case (start g ok g')
  then show ?case by (blast intro: StartHand_tidy hold_reach_inv)
next
  case (act g i a e g')
  then show ?case by (blast intro: PlayerAction_tidy hold_reach_inv)
qed

end
