(* ===== verification/HoldemTable.thy ===== *)
theory HoldemTable
  imports HoldemSafety Ledger
begin

text \<open>
  The actor of one hold'em table and the registry of tables
  (\<open>internal/doors/holdem/multiplayer/coordinator.go\<close>, \<open>registry.go\<close>): the commands,
  the masked snapshots it broadcasts, the settlement it hands to the ledger, the delayed start of
  the next hand, the subscribers' channels, and the creation, saving and restoring of tables.
  A goroutine the code spawns is recorded (\<open>settled\<close>, \<open>scheduled\<close>) and runs as a step of
  its own; \<open>None\<close> is a panic.
\<close>

section \<open>Views\<close>

record SeatView =
  vUserID :: int
  vHandle :: string
  vChipsHand :: int
  vBet :: int
  vHole :: "card list"
  HoleShown :: bool
  vFolded :: bool
  vAllIn :: bool

record TableSnapshot =
  tsTableID :: int
  tsSeats :: "SeatView list"
  tsBoard :: "card list"
  tsPot :: int
  tsStreet :: Street
  tsToAct :: int
  tsButton :: int
  tsBigBlind :: int
  tsSmallBlind :: int
  tsWinner :: int
  tsWinRank :: hand_rank
  tsHandRunning :: bool
  tsCapSeats :: int
  tsOccupiedSeats :: int

record payoutWire =
  SeatIndex :: int
  Amount :: int
  Reason :: string

text \<open>The map that \<open>buildSettlement\<close> turns into JSON.\<close>

record HandDetails =
  dBoard :: "string list"
  dPayouts :: "payoutWire list"

record subscriber =
  seatUser :: int
  send :: "TableSnapshot list"
  closed :: bool

record Coordinator =
  cTableID :: int
  cName :: string
  game :: mp_game
  subs :: "nat list"
  chans :: "nat \<Rightarrow> subscriber"
  next_sub :: nat
  shut :: bool
  onSettlement :: bool
  settled :: "HandDetails Settlement list"
  scheduled :: nat

definition NewCoordinator :: "entropy \<Rightarrow> int \<Rightarrow> string \<Rightarrow> int \<Rightarrow> int \<Rightarrow> int \<Rightarrow> Coordinator" where
  "NewCoordinator r tid nm capSeats sb bb =
     \<lparr>cTableID = tid, cName = nm, game = NewGame r capSeats sb bb, subs = [],
      chans = (\<lambda>_. \<lparr>seatUser = 0, send = [], closed = False\<rparr>), next_sub = 0, shut = False,
      onSettlement = False, settled = [], scheduled = 0\<rparr>"

definition seatView :: "int \<Rightarrow> bool \<Rightarrow> Seat \<Rightarrow> SeatView" where
  "seatView viewer atShowdown s =
     (let shown = (UserID s = viewer \<and> viewer \<noteq> 0) \<or> (atShowdown \<and> UserID s \<noteq> 0 \<and> \<not> Folded s)
      in \<lparr>vUserID = UserID s, vHandle = Handle s, vChipsHand = ChipsHand s, vBet = Bet s,
          vHole = (if shown then Hole s else [zero_card, zero_card]), HoleShown = shown,
          vFolded = Folded s, vAllIn = AllIn s\<rparr>)"

definition snapshotFor :: "Coordinator \<Rightarrow> int \<Rightarrow> TableSnapshot" where
  "snapshotFor c viewer =
     (let g = game c; atShowdown = (street g = Showdown \<or> street g = Ended)
      in \<lparr>tsTableID = cTableID c, tsSeats = map (seatView viewer atShowdown) (seats g),
          tsBoard = board g, tsPot = mp_Pot g, tsStreet = street g, tsToAct = toAct g,
          tsButton = button g, tsBigBlind = bigBlind g, tsSmallBlind = go_div (bigBlind g) 2,
          tsWinner = winner g, tsWinRank = winRank g, tsHandRunning = (street g \<noteq> Ended),
          tsCapSeats = SeatCount g, tsOccupiedSeats = int (length (OccupiedSeats g))\<rparr>)"

section \<open>Settlement\<close>

definition encodeCardWire :: "card \<Rightarrow> string option" where
  "encodeCardWire c =
     (case slice_get ''  23456789TJQKA'' (rank c) of
        None \<Rightarrow> None
      | Some r \<Rightarrow> Some
          ((if rank c = 10 then ''10'' else [r])
           @ (if suit c = 0 then ''c'' else if suit c = 1 then ''d'' else if suit c = 2 then ''h''
              else if suit c = 3 then ''s'' else ''?'')))"

definition movement_at :: "mp_game \<Rightarrow> int \<Rightarrow> PlayerMovement option" where
  "movement_at g i =
     (let s = seat g i;
          pay = (if i < int (length (lastPayouts g)) then lastPayouts g ! nat i else 0)
      in if UserID s = 0 \<or> (Committed s = 0 \<and> pay = 0) then None
         else Some \<lparr>mUserID = UserID s, mHandle = Handle s, Wagered = Committed s, Payout = pay,
                    Stack = ChipsHand s\<rparr>)"

fun encode_board :: "card list \<Rightarrow> string list option" where
  "encode_board [] = Some []"
| "encode_board (c # cs) =
     (case encodeCardWire c of None \<Rightarrow> None | Some x \<Rightarrow> map_option (Cons x) (encode_board cs))"

definition buildSettlement :: "Coordinator \<Rightarrow> HandDetails Settlement option" where
  "buildSettlement c =
     (let g = game c;
          reason = (if length (board g) = 5 then ''showdown'' else ''fold-walkover'');
          pw = map (\<lambda>i. \<lparr>SeatIndex = i, Amount = lastPayouts g ! nat i, Reason = reason\<rparr>)
                 (filter (\<lambda>i. lastPayouts g ! nat i > 0) (map int [0..<length (lastPayouts g)]))
      in map_option (\<lambda>b. \<lparr>TableID = cTableID c, GameKey = ''holdem-mp'', HandNumber = handNumber g,
             Movements = List.map_filter (movement_at g) (map int [0..<length (seats g)]),
             Details = \<lparr>dBoard = b, dPayouts = pw\<rparr>\<rparr>)
           (encode_board (board g)))"

section \<open>Subscribers\<close>

definition try_send :: "TableSnapshot \<Rightarrow> subscriber \<Rightarrow> subscriber option" where
  "try_send m s =
     (if closed s then None
      else if length (send s) < 4 then Some (s\<lparr>send := send s @ [m]\<rparr>)
      else Some s)"

text \<open>The loop over the copied list of subscribers.\<close>

fun broadcast_loop :: "Coordinator \<Rightarrow> nat list \<Rightarrow> Coordinator option" where
  "broadcast_loop c [] = Some c"
| "broadcast_loop c (s # ss) =
     (case try_send (snapshotFor c (seatUser (chans c s))) (chans c s) of
        None \<Rightarrow> None
      | Some x \<Rightarrow> broadcast_loop (c\<lparr>chans := (chans c)(s := x)\<rparr>) ss)"

definition broadcast :: "Coordinator \<Rightarrow> Coordinator option" where
  "broadcast c = broadcast_loop c (subs c)"

definition unsubscribe :: "nat \<Rightarrow> Coordinator \<Rightarrow> Coordinator" where
  "unsubscribe s c =
     (if closed (chans c s) then c
      else c\<lparr>chans := (chans c)(s := (chans c s)\<lparr>closed := True\<rparr>), subs := remove1 s (subs c)\<rparr>)"

definition shutdownSubs :: "Coordinator \<Rightarrow> Coordinator" where
  "shutdownSubs c =
     c\<lparr>shut := True,
       chans := fold (\<lambda>s ch. if closed (ch s) then ch else ch(s := (ch s)\<lparr>closed := True\<rparr>)) (subs c) (chans c),
       subs := []\<rparr>"

section \<open>The actor\<close>

datatype command =
    CmdSit int int string int
  | CmdStand int
  | CmdAction int hu_action
  | CmdStartHand
  | CmdSnapshot int

record cmdReply =
  ok :: bool
  err :: string
  rChips :: int
  snapshot :: "TableSnapshot option"

definition reply :: "bool \<Rightarrow> cmdReply" where
  "reply b = \<lparr>ok = b, err = '''', rChips = 0, snapshot = None\<rparr>"

definition maybeStart :: "Coordinator \<Rightarrow> Coordinator option" where
  "maybeStart c =
     (if street (game c) \<noteq> Ended then Some c
      else if length (OccupiedSeats (game c)) < 2 then Some c
      else map_option (\<lambda>(_, g). c\<lparr>game := g\<rparr>) (mp_StartHand (game c)))"

definition handleEnd :: "Coordinator \<Rightarrow> Coordinator option" where
  "handleEnd c =
     map_option (\<lambda>c. c\<lparr>scheduled := Suc (scheduled c)\<rparr>)
       (if onSettlement c then map_option (\<lambda>s. c\<lparr>settled := settled c @ [s]\<rparr>) (buildSettlement c)
        else Some c)"

definition process :: "Coordinator \<Rightarrow> command \<Rightarrow> (cmdReply \<times> Coordinator) option" where
  "process c cm =
     (case cm of
        CmdSit uid i h stack \<Rightarrow>
          (case Sit (game c) i uid h stack of (okay, g) \<Rightarrow>
             if okay then
               map_option (Pair (reply True)) (Option.bind (maybeStart (c\<lparr>game := g\<rparr>)) broadcast)
             else Some (reply False, c))
      | CmdStand uid \<Rightarrow>
          (let i = SeatOfUser (game c) uid
           in if i < 0 then Some ((reply False)\<lparr>err := ''not seated''\<rparr>, c)
              else case Stand (game c) i uid of (left, g) \<Rightarrow>
                map_option (Pair ((reply True)\<lparr>rChips := left\<rparr>)) (broadcast (c\<lparr>game := g\<rparr>)))
      | CmdAction uid a \<Rightarrow>
          (let i = SeatOfUser (game c) uid
           in if i < 0 then Some ((reply False)\<lparr>err := ''not seated''\<rparr>, c)
              else case mp_PlayerAction (game c) i a of
                None \<Rightarrow> None
              | Some (ended, g) \<Rightarrow>
                  map_option (Pair (reply True))
                    (case broadcast (c\<lparr>game := g\<rparr>) of None \<Rightarrow> None
                     | Some c1 \<Rightarrow> if ended then handleEnd c1 else Some c1))
      | CmdStartHand \<Rightarrow>
          (case mp_StartHand (game c) of
             None \<Rightarrow> None
           | Some (okay, g) \<Rightarrow>
               if okay then map_option (Pair (reply True)) (broadcast (c\<lparr>game := g\<rparr>))
               else Some (reply False, c\<lparr>game := g\<rparr>))
      | CmdSnapshot uid \<Rightarrow> Some ((reply True)\<lparr>snapshot := Some (snapshotFor c uid)\<rparr>, c))"

text \<open>
  The halves of \<open>Subscribe\<close>: the caller registers the channel under the lock, a goroutine pushes
  the first snapshot it gets from the actor.  The goroutine of \<open>handleEnd\<close> sends the start of the
  next hand after its pause unless the table was shut down.
\<close>

definition Subscribe :: "int \<Rightarrow> Coordinator \<Rightarrow> nat \<times> Coordinator" where
  "Subscribe uid c =
     (next_sub c, c\<lparr>chans := (chans c)(next_sub c := \<lparr>seatUser = uid, send = [], closed = False\<rparr>),
                    subs := subs c @ [next_sub c], next_sub := Suc (next_sub c)\<rparr>)"

definition initialSnapshot :: "nat \<Rightarrow> Coordinator \<Rightarrow> Coordinator option" where
  "initialSnapshot s c =
     map_option (\<lambda>x. c\<lparr>chans := (chans c)(s := x)\<rparr>)
       (try_send (snapshotFor c (seatUser (chans c s))) (chans c s))"

definition scheduledStart :: "Coordinator \<Rightarrow> Coordinator option" where
  "scheduledStart c =
     (if shut c then Some (c\<lparr>scheduled := scheduled c - 1\<rparr>)
      else map_option (\<lambda>(_, c'). c'\<lparr>scheduled := scheduled c - 1\<rparr>) (process c CmdStartHand))"

section \<open>The table never panics\<close>

definition chans_ok :: "Coordinator \<Rightarrow> bool" where
  "chans_ok c \<longleftrightarrow> distinct (subs c) \<and> (\<forall>s \<in> set (subs c). s < next_sub c \<and> \<not> closed (chans c s))"

definition table_inv :: "Coordinator \<Rightarrow> bool" where
  "table_inv c \<longleftrightarrow> mp_inv (game c) \<and> tidy (game c) \<and> chans_ok c"

definition cmd_ok :: "Coordinator \<Rightarrow> command \<Rightarrow> bool" where
  "cmd_ok c cm = (case cm of
     CmdSit uid i h stack \<Rightarrow> uid \<noteq> 0 \<and> mp_chips (game c) + stack + bigBlind (game c) < 2147483600
   | _ \<Rightarrow> True)"

text \<open>What the actor's steps may change besides the game: the channels' contents, not their state.\<close>

definition only_sends :: "Coordinator \<Rightarrow> Coordinator \<Rightarrow> bool" where
  "only_sends c c' \<longleftrightarrow> (\<exists>ch. c' = c\<lparr>chans := ch\<rparr>
     \<and> (\<forall>s. closed (ch s) = closed (chans c s) \<and> seatUser (ch s) = seatUser (chans c s)))"

lemma only_sends_refl: "only_sends c c"
  by (auto simp: only_sends_def intro!: exI [of _ "chans c"])

lemma only_sends_trans: "only_sends a b \<Longrightarrow> only_sends b c \<Longrightarrow> only_sends a c"
  by (auto simp: only_sends_def)

lemma only_sends_game: "only_sends c c' \<Longrightarrow> game c' = game c \<and> settled c' = settled c
    \<and> scheduled c' = scheduled c \<and> onSettlement c' = onSettlement c \<and> chans_ok c' = chans_ok c \<and> cTableID c' = cTableID c"
  by (auto simp: only_sends_def chans_ok_def)

lemma try_send_ok: "\<not> closed s \<Longrightarrow> \<exists>x. try_send m s = Some x \<and> closed x = closed s \<and> seatUser x = seatUser s"
  by (auto simp: try_send_def)

lemma ht_broadcast_loop_ok:
  "\<forall>s \<in> set ss. \<not> closed (chans c s) \<Longrightarrow> \<exists>c'. broadcast_loop c ss = Some c' \<and> only_sends c c'"
proof (induction ss arbitrary: c)
  case (Cons s ss)
  then obtain x where x: "try_send (snapshotFor c (seatUser (chans c s))) (chans c s) = Some x"
    and fr: "closed x = closed (chans c s)" "seatUser x = seatUser (chans c s)"
    using try_send_ok by (metis list.set_intros(1))
  let ?c = "c\<lparr>chans := (chans c)(s := x)\<rparr>"
  have os: "only_sends c ?c"
    unfolding only_sends_def using fr by (intro exI [of _ "(chans c)(s := x)"]) simp
  have "\<forall>t \<in> set ss. \<not> closed (chans ?c t)" using Cons.prems fr by auto
  from Cons.IH [OF this] obtain c' where "broadcast_loop ?c ss = Some c'" "only_sends ?c c'" by blast
  then show ?case using x only_sends_trans [OF os] by auto
qed (auto simp: only_sends_refl)

lemma broadcast_ok: "chans_ok c \<Longrightarrow> \<exists>c'. broadcast c = Some c' \<and> only_sends c c'"
  unfolding broadcast_def by (rule ht_broadcast_loop_ok) (simp add: chans_ok_def)

lemma encodeCardWire_valid: "valid_card c \<Longrightarrow> encodeCardWire c \<noteq> None"
  by (simp add: encodeCardWire_def valid_card_def slice_get_def)

lemma encode_board_valid: "\<forall>c \<in> set cs. valid_card c \<Longrightarrow> encode_board cs \<noteq> None"
  by (induction cs) (auto dest: encodeCardWire_valid)

lemma buildSettlement_ok: "tidy (game c) \<Longrightarrow> \<exists>s. buildSettlement c = Some s"
  using encode_board_valid [of "board (game c)"] by (auto simp: buildSettlement_def Let_def tidy_def)

lemma handleEnd_ok:
  assumes "table_inv c"
  shows "\<exists>c'. handleEnd c = Some c' \<and> table_inv c' \<and> game c' = game c"
  using assms buildSettlement_ok [of c]
  by (auto simp: handleEnd_def table_inv_def chans_ok_def)

lemma ht_broadcast_inv:
  assumes "mp_inv g" and "tidy g" and "chans_ok c"
  shows "\<exists>c'. broadcast (c\<lparr>game := g\<rparr>) = Some c' \<and> table_inv c' \<and> game c' = g
    \<and> settled c' = settled c \<and> scheduled c' = scheduled c \<and> onSettlement c' = onSettlement c \<and> cTableID c' = cTableID c"
proof -
  have "chans_ok (c\<lparr>game := g\<rparr>)" using assms(3) by (simp add: chans_ok_def)
  from broadcast_ok [OF this] assms show ?thesis
    by (auto dest: only_sends_game simp: table_inv_def chans_ok_def)
qed

lemma SeatOfUser_seat:
  assumes "\<not> SeatOfUser g u < 0"
  shows "in_seats g (SeatOfUser g u) \<and> UserID (seat g (SeatOfUser g u)) = u"
proof (cases "find (\<lambda>i. UserID (seat g i) = u) (map int [0..<length (seats g)])")
  case None
  then show ?thesis using assms by (simp add: SeatOfUser_def)
next
  case (Some i)
  from find_SomeD [OF this] Some show ?thesis by (auto simp: SeatOfUser_def in_seats_def SeatCount_def)
qed

lemma Stand_tidy: "tidy g \<Longrightarrow> tidy (snd (Stand g i u))"
  using Stand_frame [of g i u] by (rule_tac tidy_mono [of g]) auto

lemma Sit_tidy: "tidy g \<Longrightarrow> tidy (snd (Sit g i u h x))"
  by (rule_tac tidy_mono [of g]) (simp_all add: Sit_frame)

lemma maybeStart_ok:
  assumes "mp_inv (game c)" and "tidy (game c)"
  shows "\<exists>g. maybeStart c = Some (c\<lparr>game := g\<rparr>) \<and> mp_inv g \<and> tidy g"
proof (cases "street (game c) \<noteq> Ended \<or> length (OccupiedSeats (game c)) < 2")
  case True
  then show ?thesis using assms by (intro exI [of _ "game c"]) (auto simp: maybeStart_def)
next
  case False
  then show ?thesis using mp_StartHand_inv [OF assms(1)] by (auto simp: maybeStart_def)
qed

lemma ht_process_inv:
  assumes inv: "table_inv c" and okc: "cmd_ok c cm"
  shows "\<exists>r c'. process c cm = Some (r, c') \<and> table_inv c'"
proof -
  have g: "mp_inv (game c)" "tidy (game c)" "chans_ok c" using inv by (simp_all add: table_inv_def)
  show ?thesis
  proof (cases cm)
    case (CmdSit uid i h stack)
    obtain b g' where sit: "Sit (game c) i uid h stack = (b, g')" by fastforce
    have "mp_inv g'" "tidy g'"
      using Sit_inv [OF g(1), of uid stack i h] Sit_tidy [OF g(2), of i uid h stack] okc sit CmdSit
      by (simp_all add: cmd_ok_def)
    then obtain g'' where "maybeStart (c\<lparr>game := g'\<rparr>) = Some (c\<lparr>game := g''\<rparr>)" "mp_inv g''" "tidy g''"
      using maybeStart_ok [of "c\<lparr>game := g'\<rparr>"] by auto
    then show ?thesis using ht_broadcast_inv [of g'' c] g(3) inv sit CmdSit by (auto simp: process_def)
  next
    case (CmdStand uid)
    define i where "i = SeatOfUser (game c) uid"
    show ?thesis
    proof (cases "i < 0")
      case False
      then have i: "in_seats (game c) i" "UserID (seat (game c) i) = uid"
        using SeatOfUser_seat [of "game c" uid] by (simp_all add: i_def)
      have "mp_inv (snd (Stand (game c) i uid))" "tidy (snd (Stand (game c) i uid))"
        using Stand_inv [OF g(1) i] Stand_tidy [OF g(2)] by simp_all
      from ht_broadcast_inv [OF this g(3)] False CmdStand show ?thesis
        by (auto simp: process_def Let_def i_def [symmetric] split: prod.splits)
    qed (use CmdStand inv in \<open>simp add: process_def i_def\<close>)
  next
    case (CmdAction uid a)
    define i where "i = SeatOfUser (game c) uid"
    show ?thesis
    proof (cases "i < 0")
      case False
      then have i: "in_seats (game c) i" using SeatOfUser_seat [of "game c" uid] by (simp add: i_def)
      obtain e g' where act: "mp_PlayerAction (game c) i a = Some (e, g')"
        using action_inv [OF g(1), of a] i by (cases "i = toAct (game c) \<and> street (game c) \<noteq> Ended")
          (auto simp: mp_PlayerAction_def)
      have "mp_inv g'" "tidy g'" using mp_PlayerAction_inv [OF g(1) act] PlayerAction_tidy [OF g(2,1) act] .
      from ht_broadcast_inv [OF this g(3)] obtain c1 where
        "broadcast (c\<lparr>game := g'\<rparr>) = Some c1" "table_inv c1" by blast
      with handleEnd_ok [of c1] act False CmdAction show ?thesis
        by (auto simp: process_def Let_def i_def [symmetric])
    qed (use CmdAction inv in \<open>simp add: process_def i_def\<close>)
  next
    case CmdStartHand
    from mp_StartHand_inv [OF g(1)] obtain b g' where s: "mp_StartHand (game c) = Some (b, g')" "mp_inv g'"
      "\<not> b \<longrightarrow> g' = game c" by blast
    have "tidy g'" by (rule StartHand_tidy [OF g(2,1) s(1)])
    then show ?thesis using ht_broadcast_inv [of g' c] s g(3) inv CmdStartHand by (auto simp: process_def)
  qed (use inv in \<open>simp add: process_def\<close>)
qed

inductive table_reach :: "Coordinator \<Rightarrow> bool" where
  new: "0 \<le> sb \<Longrightarrow> 0 \<le> bb \<Longrightarrow> bb < 2147483600 \<Longrightarrow>
    table_reach ((NewCoordinator r tid nm cap sb bb)\<lparr>onSettlement := h\<rparr>)"
| cmd: "table_reach c \<Longrightarrow> \<not> shut c \<Longrightarrow> cmd_ok c cm \<Longrightarrow> process c cm = Some (r, c') \<Longrightarrow> table_reach c'"
| start: "table_reach c \<Longrightarrow> 0 < scheduled c \<Longrightarrow> scheduledStart c = Some c' \<Longrightarrow> table_reach c'"
| subscribe: "table_reach c \<Longrightarrow> table_reach (snd (Subscribe uid c))"
| first: "table_reach c \<Longrightarrow> s \<in> set (subs c) \<Longrightarrow> initialSnapshot s c = Some c' \<Longrightarrow> table_reach c'"
| unsubscribe: "table_reach c \<Longrightarrow> table_reach (unsubscribe s c)"
| shutdown: "table_reach c \<Longrightarrow> table_reach (shutdownSubs c)"

lemma scheduledStart_inv:
  assumes "table_inv c"
  shows "\<exists>c'. scheduledStart c = Some c' \<and> table_inv c'"
  using ht_process_inv [OF assms, of CmdStartHand] assms
  by (auto simp: scheduledStart_def table_inv_def chans_ok_def cmd_ok_def)

lemma initialSnapshot_inv:
  assumes "table_inv c" and "s \<in> set (subs c)"
  shows "\<exists>c'. initialSnapshot s c = Some c' \<and> table_inv c'"
proof -
  have "\<not> closed (chans c s)" using assms by (simp add: table_inv_def chans_ok_def)
  from try_send_ok [OF this] obtain x where "try_send (snapshotFor c (seatUser (chans c s))) (chans c s) = Some x"
    "closed x = closed (chans c s)" by blast
  then show ?thesis using assms(1) by (auto simp: initialSnapshot_def table_inv_def chans_ok_def)
qed

lemma ht_table_reach_inv: "table_reach c \<Longrightarrow> table_inv c"
proof (induction rule: table_reach.induct)
  case (new sb bb h r tid nm cap)
  then have "hold_reach (NewGame r cap sb bb)" by (intro hold_reach.new)
  from hold_reach_inv [OF this] hold_reach_tidy [OF this] show ?case
    by (simp add: NewCoordinator_def table_inv_def chans_ok_def)
next
  case (cmd c cm r c')
  then show ?case using ht_process_inv [of c cm] by simp
next
  case (start c c')
  then show ?case using scheduledStart_inv [of c] by simp
next
  case (subscribe c uid)
  then show ?case by (auto simp: Subscribe_def table_inv_def chans_ok_def)
next
  case (first c s c')
  then show ?case using initialSnapshot_inv [of c s] by simp
next
  case (unsubscribe c s)
  then show ?case by (auto simp: unsubscribe_def table_inv_def chans_ok_def)
next
  case (shutdown c)
  then show ?case by (simp add: shutdownSubs_def table_inv_def chans_ok_def)
qed

section \<open>The books of a hand\<close>

lemma nth_chips_user: "n < length ys \<Longrightarrow> UserID (ys[j := (ys ! j)\<lparr>ChipsHand := x\<rparr>] ! n) = UserID (ys ! n)"
  by (cases "j = n") simp_all

lemma endByFold_user: "in_seats g k \<Longrightarrow> UserID (seat (mp_endByFold g) k) = UserID (seat g k)"
  by (auto simp: mp_endByFold_def Let_def seat_def set_seat_def in_seats_def SeatCount_def nth_chips_user
      collect_seat_def split: option.splits)

lemma sum_list_zeros: "\<forall>x \<in> set xs. x = 0 \<Longrightarrow> sum_list xs = (0::int)"
  by (induction xs) auto

lemma endByFold_payouts:
  assumes m: "money_ok g" and a: "activeCount g \<noteq> 0" and z: "\<forall>x \<in> set (lastPayouts g). x = 0"
  shows "sum_list (lastPayouts (mp_endByFold g)) = mp_Pot g
    \<and> (\<forall>i. in_seats g i \<and> UserID (seat g i) = 0 \<longrightarrow> lastPayouts (mp_endByFold g) ! nat i = 0)"
proof -
  obtain w where w: "find (\<lambda>i. UserID (seat g i) \<noteq> 0 \<and> \<not> Folded (seat g i)) (map int [0..<length (seats g)]) = Some w"
    "in_seats g w" "UserID (seat g w) \<noteq> 0"
    using activeCount_find [OF a] by blast
  have lp: "lastPayouts (mp_endByFold g) = (lastPayouts g)[nat w := mp_Pot g]"
    by (simp add: mp_endByFold_def w Let_def set_seat_def)
  have len: "length (lastPayouts g) = length (seats g)" "nat w < length (seats g)"
    using m in_seats_nat [OF w(2)] by (simp_all add: money_ok_def)
  have zero: "lastPayouts g ! k = 0" if "k < length (seats g)" for k using z that len by simp
  have "sum_list (lastPayouts g) = 0" by (rule sum_list_zeros [OF z])
  then have "sum_list (lastPayouts (mp_endByFold g)) = mp_Pot g"
    using len zero [of "nat w"] sum_list_update [of "nat w" "lastPayouts g" "\<lambda>x. x" "mp_Pot g"] by (simp add: lp)
  moreover have "lastPayouts (mp_endByFold g) ! nat i = 0" if "in_seats g i" "UserID (seat g i) = 0" for i
  proof -
    have "i \<noteq> w" using that(2) w(3) by auto
    then have "nat i \<noteq> nat w" using that(1) w(2) by (simp add: in_seats_def eq_nat_nat_iff)
    then show ?thesis using zero [of "nat i"] in_seats_nat [OF that(1)] by (simp add: lp)
  qed
  ultimately show ?thesis by blast
qed

lemma resolve_payouts:
  assumes "money_ok g" and "committed_total g \<le> pot g" and "\<forall>s \<in> set (seats g). Bet s = 0"
    and z: "\<forall>x \<in> set (lastPayouts g). x = 0"
  shows "sum_list (lastPayouts (mp_resolveShowdown g)) = committed_total g - orphaned g
    \<and> (\<forall>i. in_seats g i \<and> UserID (seat g i) = 0 \<longrightarrow> lastPayouts (mp_resolveShowdown g) ! nat i = 0)"
proof -
  have len: "length (lastPayouts g) = length (seats g)" using assms(1) by (simp add: money_ok_def)
  have lp: "lastPayouts (mp_resolveShowdown g) = map (awards (side_pots g)) (map int [0..<length (seats g)])"
    using z len by (simp add: mp_resolveShowdown_def Let_def)
  note ab = awards_bounds [OF assms(1-3)]
  have "lastPayouts (mp_resolveShowdown g) ! nat i = 0" if "in_seats g i" "UserID (seat g i) = 0" for i
  proof -
    have "\<forall>k < length (seats g). UserID (seat g (int k)) = 0 \<longrightarrow> awards (side_pots g) (int k) = 0"
      using ab by blast
    then have "awards (side_pots g) (int (nat i)) = 0" using that in_seats_nat [OF that(1)] by metis
    then show ?thesis using in_seats_nat [OF that(1)] by (simp add: lp)
  qed
  then show ?thesis using ab by (simp add: lp o_def)
qed

lemma closeStreet_payouts:
  assumes m: "money_ok g" and c: "committed_total g \<le> pot g" and z: "\<forall>x \<in> set (lastPayouts g). x = 0"
    and a: "2 \<le> activeCount g" and close: "mp_closeStreet g = Some (True, g')"
  shows "sum_list (lastPayouts g') = committed_total g' + (pot g - committed_total g) - lost g g'
    \<and> (\<forall>i. in_seats g' i \<and> UserID (seat g' i) = 0 \<longrightarrow> lastPayouts g' ! nat i = 0)"
proof -
  define g2 where "g2 = (collected g)\<lparr>street := Showdown\<rparr>"
  have g': "g' = mp_resolveShowdown g2"
    using close by (cases "street g") (auto simp: mp_closeStreet_def Let_def g2_def collected_def simp del: mp_draw_board.simps)
  note col = collect_money [OF m c]
  have m2: "money_ok g2" "committed_total g2 \<le> pot g2" "\<forall>s \<in> set (seats g2). Bet s = 0"
    "\<forall>x \<in> set (lastPayouts g2). x = 0"
    using col c z by (simp_all add: g2_def money_frame) (simp add: collected_def)
  note rp = resolve_payouts [OF m2] and rm = resolve_money [OF m2(1-3)]
  have ct: "committed_total g' = committed_total g2" unfolding g' by (rule committed_buckets [OF m2(1) rm(1) rm(3)])
  have orph: "orphaned g' = orphaned g2" by (simp only: g' orphaned_def rm(3))
  have "activeCount g' = activeCount g"
    by (simp add: g' activeCount_resolve g2_def money_frame activeCount_collect)
  then have "lost g g' = (pot g - committed_total g) + orphaned g2"
    using a orph by (simp add: lost_def g' mp_resolveShowdown_def Let_def)
  moreover have "in_seats g2 i \<and> UserID (seat g2 i) = UserID (seat g' i)" if "in_seats g' i" for i
    using that resolve_seat [of "nat i" g2] in_seats_nat [of g2 i] by (simp add: g' in_seats_def SeatCount_def)
  ultimately show ?thesis using rp ct by (auto simp: g')
qed

lemma action_payouts:
  assumes inv: "mp_inv g" and td: "tidy g" and run: "street g \<noteq> Ended" and i: "in_seats g (toAct g)"
    and act: "mp_PlayerAction g (toAct g) a = Some (True, g')"
  shows "sum_list (lastPayouts g') = committed_total g' + (pot g - committed_total g) - lost g g'
    \<and> (\<forall>i. in_seats g' i \<and> UserID (seat g' i) = 0 \<longrightarrow> lastPayouts g' ! nat i = 0)"
proof -
  define h where "h = mp_apply g (toAct g) a"
  have m: "money_ok g" using inv by (simp add: mp_inv_def)
  note am = apply_money [OF m i, of a, folded h_def]
  have hm: "money_ok h" "committed_total h \<le> pot h" "activeCount h \<noteq> 0"
    using am inv run by (auto simp: mp_inv_def)
  have lp: "lastPayouts h = lastPayouts g" by (simp add: h_def mp_apply_def Let_def split: hu_action.splits)
  then have z: "\<forall>x \<in> set (lastPayouts h). x = 0" using td run by (simp add: tidy_def)
  have l: "lost h = lost g" by (rule ext) (simp add: lost_def am)
  have after: "mp_afterAction h = Some (True, g')"
    using act run i by (simp add: mp_PlayerAction_def h_def)
  show ?thesis
  proof (cases "activeCount h \<le> 1")
    case True
    then have g': "g' = mp_endByFold h" using after by (simp add: mp_afterAction_def)
    note e = endByFold_money [OF hm] and col = collect_money [OF hm(1,2)]
    have "mp_Pot h = committed_total g' + (pot h - committed_total h)"
      using col(4) by (simp add: g' committed_endByFold [OF hm(3)] collected_def)
    moreover have "lost h g' = 0" using e(7) True by (simp add: lost_def g')
    moreover have "in_seats h k \<and> UserID (seat h k) = UserID (seat g' k)" if "in_seats g' k" for k
      using that e(6) endByFold_user [of h k] by (simp add: g' in_seats_def SeatCount_def)
    ultimately show ?thesis using endByFold_payouts [OF hm(1,3) z] am l by (auto simp: g')
  next
    case False
    then have "mp_closeStreet h = Some (True, g')"
      using after by (auto simp: mp_afterAction_def split: option.splits)
    from closeStreet_payouts [OF hm(1,2) z _ this] False am l show ?thesis by simp
  qed
qed

text \<open>The sums over the settlement's movements.\<close>

lemma movement_sums:
  assumes "length (lastPayouts g) = length (seats g)" and "\<forall>s \<in> set (seats g). seat_ok s"
    and "\<forall>i. in_seats g i \<and> UserID (seat g i) = 0 \<longrightarrow> lastPayouts g ! nat i = 0"
  defines "ms \<equiv> List.map_filter (movement_at g) (map int [0..<length (seats g)])"
  shows "(\<Sum>m\<leftarrow>ms. Payout m) = sum_list (lastPayouts g)" and "(\<Sum>m\<leftarrow>ms. Wagered m) = committed_total g"
proof -
  have at: "UserID (seat g (int k)) = 0 \<longrightarrow> lastPayouts g ! k = 0 \<and> Committed (seat g (int k)) = 0"
    if "k < length (seats g)" for k
    using that assms(2) assms(3) [rule_format, of "int k"]
    by (auto simp: in_seats_def SeatCount_def seat_def seat_ok_def)
  have one: "(\<Sum>m\<leftarrow>List.map_filter (movement_at g) (map int ks). Payout m) = (\<Sum>k\<leftarrow>ks. lastPayouts g ! k)
      \<and> (\<Sum>m\<leftarrow>List.map_filter (movement_at g) (map int ks). Wagered m) = (\<Sum>k\<leftarrow>ks. Committed (seat g (int k)))"
    if "\<forall>k \<in> set ks. k < length (seats g)" for ks
    using that
  proof (induction ks)
    case (Cons k ks)
    then show ?case using at [of k] assms(1)
      by (auto simp: map_filter_simps movement_at_def Let_def split: if_splits)
  qed (simp add: map_filter_simps)
  have idx: "\<forall>k \<in> set [0..<length (seats g)]. k < length (seats g)" by simp
  have "map ((!) (lastPayouts g)) [0..<length (seats g)] = lastPayouts g"
    using assms(1) by (metis map_nth)
  then show "(\<Sum>m\<leftarrow>ms. Payout m) = sum_list (lastPayouts g)" using one [OF idx] by (simp add: ms_def)
  show "(\<Sum>m\<leftarrow>ms. Wagered m) = committed_total g"
    using one [OF idx] seats_nth_sum [of Committed g] by (simp add: ms_def committed_total_def)
qed

section \<open>Properties\<close>


text \<open>Another deal of the same hand, as far as the viewer can tell.\<close>

definition redeal :: "int \<Rightarrow> (Seat \<Rightarrow> card list) \<Rightarrow> card list \<Rightarrow> entropy \<Rightarrow> mp_game \<Rightarrow> mp_game" where
  "redeal viewer f d r g =
     g\<lparr>seats := map (\<lambda>s. if UserID s = viewer then s else s\<lparr>Hole := f s\<rparr>) (seats g), deck := d, rng := r\<rparr>"


text \<open>
  the settlement that the table hands to the ledger when an action ends a hand balances: the
  payouts add up to the stakes, plus what players who left during the hand had put in, less the
  chips a showdown leaves unpaid.
\<close>
theorem settlement_balances:
  assumes "table_inv c" and "onSettlement c" and "street (game c) \<noteq> Ended"
    and "SeatOfUser (game c) uid = toAct (game c)" and "0 \<le> toAct (game c)"
    and "process c (CmdAction uid a) = Some (r, c')" and "street (game c') = Ended"
  shows "\<exists>s. settled c' = settled c @ [s] \<and> scheduled c' = Suc (scheduled c)
    \<and> GameKey s = ''holdem-mp'' \<and> TableID s = cTableID c \<and> HandNumber s = handNumber (game c')
    \<and> (\<Sum>m\<leftarrow>Movements s. Payout m) = (\<Sum>m\<leftarrow>Movements s. Wagered m)
        + (pot (game c) - committed_total (game c)) - lost (game c) (game c')"
proof -
  define g where "g = game c"
  have g: "mp_inv g" "tidy g" "chans_ok c" "street g \<noteq> Ended" "SeatOfUser g uid = toAct g" "\<not> toAct g < 0"
    using assms by (simp_all add: table_inv_def g_def)
  have i: "in_seats g (toAct g)" using SeatOfUser_seat [of g uid] g(5,6) by simp
  from action_inv [OF g(1,4) i, of a] obtain e g' where
    act: "mp_PlayerAction g (toAct g) a = Some (e, g')" "mp_inv g'" "e \<longleftrightarrow> street g' = Ended" by blast
  from ht_broadcast_inv [OF act(2) PlayerAction_tidy [OF g(2,1) act(1)] g(3)] obtain c1 where
    b: "broadcast (c\<lparr>game := g'\<rparr>) = Some c1" "table_inv c1" "game c1 = g'" "settled c1 = settled c"
      "scheduled c1 = scheduled c" "onSettlement c1" "cTableID c1 = cTableID c" using assms(2) by auto
  have p: "process c (CmdAction uid a) = map_option (Pair (reply True)) (if e then handleEnd c1 else Some c1)"
    using g(5,6) act(1) b(1) by (simp add: process_def Let_def g_def)
  have e: e
  proof (rule ccontr)
    assume "\<not> e"
    with p assms(6) b(3) have "game c' = g'" by simp
    with assms(7) act(3) \<open>\<not> e\<close> show False by simp
  qed
  obtain s where s: "buildSettlement c1 = Some s" using buildSettlement_ok [of c1] b(2) by (auto simp: table_inv_def)
  have c': "c' = c1\<lparr>settled := settled c1 @ [s], scheduled := Suc (scheduled c1)\<rparr>"
    using p assms(6) e s b(6) by (simp add: handleEnd_def)
  have mv: "GameKey s = ''holdem-mp''" "TableID s = cTableID c" "HandNumber s = handNumber g'"
    "Movements s = List.map_filter (movement_at g') (map int [0..<length (seats g')])"
    using s b(3,7) by (auto simp: buildSettlement_def Let_def)
  note pay = action_payouts [OF g(1,2,4) i, of a g']
  have "money_ok g'" using act(2) by (simp add: mp_inv_def)
  then have sums: "(\<Sum>m\<leftarrow>Movements s. Payout m) = sum_list (lastPayouts g')"
    "(\<Sum>m\<leftarrow>Movements s. Wagered m) = committed_total g'"
    using movement_sums [of g'] pay act(1) e mv(4) by (simp_all add: money_ok_def)
  show ?thesis
    using sums pay act(1) e mv b c' by (intro exI [of _ s]) (simp add: g_def)
qed

text \<open>
  the delayed start of the next hand does not look at the street: when it fires at a table
  where a hand is already running, because somebody sat down during the pause, that hand is dealt
  over, and everything in its pot and bets leaves the table without a settlement.
\<close>
theorem scheduled_start_wipes_pot:
  assumes "table_inv c" and "\<not> shut c" and "street (game c) \<noteq> Ended"
  shows "\<exists>c'. scheduledStart c = Some c' \<and> street (game c') = Preflop \<and> settled c' = settled c
    \<and> mp_chips (game c') = mp_chips (game c) - mp_Pot (game c)"
proof -
  have g: "mp_inv (game c)" "tidy (game c)" "chans_ok c" using assms(1) by (simp_all add: table_inv_def)
  then have m: "money_ok (game c)" by (simp add: mp_inv_def)
  have "activeCount (game c) \<le> int (length (OccupiedSeats (game c)))"
  proof -
    have "length (filter (\<lambda>s. UserID s \<noteq> 0 \<and> \<not> Folded s) ss) \<le> length (filter (\<lambda>s. UserID s \<noteq> 0) ss)" for ss
      by (induction ss) auto
    then show ?thesis by (simp add: activeCount_def OccupiedSeats_length)
  qed
  then have "2 \<le> length (OccupiedSeats (game c))" using g(1) assms(3) by (auto simp: mp_inv_def)
  with mp_StartHand_inv [OF g(1)] obtain g' where s: "mp_StartHand (game c) = Some (True, g')" "mp_inv g'" "tidy g'"
    "street g' = Preflop" "mp_chips g' = (\<Sum>s\<leftarrow>seats (game c). ChipsHand s)" by auto
  from ht_broadcast_inv [OF s(2,3) g(3)] obtain c1 where
    "broadcast (c\<lparr>game := g'\<rparr>) = Some c1" "game c1 = g'" "settled c1 = settled c" by blast
  then show ?thesis
    using s assms(2) mp_Pot_eq [OF m] by (simp add: scheduledStart_def process_def)
qed

text \<open>
  a player whose leaving ends the hand ends it silently: the last contender is paid, but no
  settlement reaches the ledger and no next hand is scheduled.
\<close>
theorem stand_ends_hand_silently:
  assumes "table_inv c" and "street (game c) \<noteq> Ended" and "0 \<le> SeatOfUser (game c) uid"
    and "activeCount (set_seat (game c) (SeatOfUser (game c) uid) empty_seat) \<le> 1"
  shows "\<exists>r c'. process c (CmdStand uid) = Some (r, c') \<and> street (game c') = Ended
    \<and> settled c' = settled c \<and> scheduled c' = scheduled c"
proof -
  define g where "g = game c"
  define i where "i = SeatOfUser g uid"
  have g: "mp_inv g" "tidy g" "chans_ok c" using assms(1) by (simp_all add: table_inv_def g_def)
  have i: "in_seats g i" "UserID (seat g i) = uid" "\<not> i < 0"
    using SeatOfUser_seat [of g uid] assms(3) by (simp_all add: g_def i_def)
  obtain a where adv: "advanceAction (set_seat g i empty_seat) = (set_seat g i empty_seat)\<lparr>toAct := a\<rparr>"
    using advanceAction_frame by blast
  have "street (snd (Stand g i uid)) = Ended"
    using i assms(2) [folded g_def] assms(4) [folded g_def, folded i_def]
    by (simp add: Stand_def Let_def adv endByFold_frame money_frame)
  moreover have "mp_inv (snd (Stand g i uid))" "tidy (snd (Stand g i uid))"
    using Stand_inv [OF g(1) i(1,2)] Stand_tidy [OF g(2)] by simp_all
  ultimately show ?thesis
    using ht_broadcast_inv [OF _ _ g(3), of "snd (Stand g i uid)"] i(3)
    by (auto simp: process_def Let_def g_def i_def split: prod.splits)
qed

lemma broadcast_closed: "s \<in> set ss \<Longrightarrow> closed (chans c s) \<Longrightarrow> broadcast_loop c ss = None"
proof (induction ss arbitrary: c)
  case (Cons t ss)
  show ?case
  proof (cases "try_send (snapshotFor c (seatUser (chans c t))) (chans c t)")
    case (Some x)
    then have "\<not> closed (chans c t)" by (simp add: try_send_def split: if_splits)
    then have "s \<noteq> t" using Cons.prems(2) by auto
    with Cons.prems Cons.IH [of "c\<lparr>chans := (chans c)(t := x)\<rparr>"] Some show ?thesis by auto
  qed simp
qed simp

text \<open>
  a subscriber that unsubscribes between the actor's copy of the subscriber list and its sends,
  or before its own first snapshot has been pushed, brings the process down: both sends hit the
  closed channel.
\<close>
theorem unsubscribe_race_panics:
  assumes "table_inv c" and "s \<in> set (subs c)"
  shows "broadcast_loop (unsubscribe s c) (subs c) = None \<and> initialSnapshot s (unsubscribe s c) = None"
proof -
  have "closed (chans (unsubscribe s c) s)" by (simp add: unsubscribe_def)
  with assms(2) show ?thesis by (simp add: broadcast_closed initialSnapshot_def try_send_def)
qed

section \<open>A table to evaluate\<close>

definition demo_table :: Coordinator where
  "demo_table = \<lparr>cTableID = 3, cName = ''main'', game = demo_mp 0, subs = [0],
     chans = (\<lambda>_. \<lparr>seatUser = 9, send = [], closed = False\<rparr>), next_sub = 1, shut = False,
     onSettlement = True, settled = [], scheduled = 1\<rparr>"

lemma ht_demo_table_inv: "table_inv demo_table"
  using demo_mp_inv [of 0] by (simp add: table_inv_def demo_table_def chans_ok_def tidy_def)
    (simp add: demo_mp_def valid_card_def)

lemma demo_table_game: "game demo_table = demo_mp 0" "scheduled demo_table = 1" "settled demo_table = []"
  "shut demo_table = False" "onSettlement demo_table = True" "subs demo_table = [0]"
  by (simp_all add: demo_table_def)

lemma demo_seat: "SeatOfUser (demo_mp 0) 9 = 2" "toAct (demo_mp 0) = 2" "street (demo_mp 0) = River"
  by (simp_all add: SeatOfUser_def demo_mp_def seat_def)



lemma process_action_game:
  assumes inv: "table_inv c" and u: "\<not> SeatOfUser (game c) uid < 0" and p: "process c (CmdAction uid a) = Some (r, c')"
  shows "\<exists>e. mp_PlayerAction (game c) (SeatOfUser (game c) uid) a = Some (e, game c')"
proof -
  have g: "mp_inv (game c)" "tidy (game c)" "chans_ok c" using inv by (simp_all add: table_inv_def)
  obtain e g' where act: "mp_PlayerAction (game c) (SeatOfUser (game c) uid) a = Some (e, g')"
    using p u by (auto simp: process_def Let_def split: option.splits)
  from ht_broadcast_inv [OF mp_PlayerAction_inv [OF g(1) act] PlayerAction_tidy [OF g(2,1) act] g(3)] obtain c1 where
    b: "broadcast (c\<lparr>game := g'\<rparr>) = Some c1" "table_inv c1" "game c1 = g'" by blast
  from handleEnd_ok [OF b(2)] b p u act have "game c' = g'" by (auto simp: process_def Let_def split: if_splits)
  with act show ?thesis by blast
qed

lemma demo_fold:
  "\<exists>g'. mp_PlayerAction (demo_mp 0) 2 HuFold = Some (True, g') \<and> street g' = Ended \<and> activeCount g' = 1"
proof -
  let ?h = "set_seat (demo_mp 0) 2 ((seat (demo_mp 0) 2)\<lparr>Folded := True\<rparr>)"
  have i: "in_seats (demo_mp 0) 2" using demo_mp_seats by simp
  have m: "money_ok (demo_mp 0)" "committed_total (demo_mp 0) \<le> pot (demo_mp 0)"
    using demo_mp_inv [of 0] by (simp_all add: mp_inv_def demo_seat)
  have ap: "mp_apply (demo_mp 0) 2 HuFold = ?h" by (simp add: mp_apply_def Let_def)
  have h: "activeCount ?h = 1" by (simp add: activeCount_def demo_mp_def set_seat_def seat_def)
  have mh: "money_ok ?h" "committed_total ?h \<le> pot ?h" using apply_money [OF m(1) i, of HuFold] m(2) ap by simp_all
  have "mp_PlayerAction (demo_mp 0) 2 HuFold = Some (True, mp_endByFold ?h)"
    using h i ap by (simp add: mp_PlayerAction_def mp_afterAction_def demo_seat)
  moreover have "activeCount (mp_endByFold ?h) = 1" using endByFold_money(7) [OF mh] h by simp
  ultimately show ?thesis using endByFold_frame by blast
qed

theorem settlement_balances_witness:
  "\<exists>r c' s. process demo_table (CmdAction 9 HuFold) = Some (r, c') \<and> settled c' = [s]
     \<and> (\<Sum>m\<leftarrow>Movements s. Payout m) = (\<Sum>m\<leftarrow>Movements s. Wagered m)"
proof -
  obtain r c' where p: "process demo_table (CmdAction 9 HuFold) = Some (r, c')"
    using ht_process_inv [OF ht_demo_table_inv, of "CmdAction 9 HuFold"] by (auto simp: cmd_ok_def)
  then have "street (game c') = Ended \<and> activeCount (game c') = 1"
    using process_action_game [OF ht_demo_table_inv _ p] demo_fold by (auto simp: demo_table_game demo_seat)
  moreover from this have "lost (demo_mp 0) (game c') = 0" by (simp add: lost_def)
  moreover have "pot (demo_mp 0) = committed_total (demo_mp 0)" by (simp add: demo_mp_def committed_total_def)
  ultimately show ?thesis
    using settlement_balances [OF ht_demo_table_inv _ _ _ _ p] p by (auto simp: demo_table_game demo_seat)
qed

theorem scheduled_start_wipes_pot_witness:
  "\<exists>c'. scheduledStart demo_table = Some c' \<and> settled c' = [] \<and> mp_chips (game c') = 90"
proof -
  have "mp_chips (demo_mp 0) = 330" "mp_Pot (demo_mp 0) = 240"
    by (simp_all add: demo_mp_def mp_chips_def mp_Pot_def i32_id)
  then show ?thesis
    using scheduled_start_wipes_pot [OF ht_demo_table_inv] by (auto simp: demo_table_game demo_seat)
qed

theorem stand_ends_hand_silently_witness:
  "\<exists>r c'. process demo_table (CmdStand 9) = Some (r, c') \<and> street (game c') = Ended \<and> settled c' = []"
proof -
  have "activeCount (set_seat (demo_mp 0) 2 empty_seat) \<le> 1"
    by (simp add: activeCount_def demo_mp_def set_seat_def empty_seat_def)
  then show ?thesis
    using stand_ends_hand_silently [OF ht_demo_table_inv, of 9] by (auto simp: demo_table_game demo_seat)
qed

theorem unsubscribe_race_panics_witness:
  "broadcast_loop (unsubscribe 0 demo_table) [0] = None"
  using unsubscribe_race_panics [OF ht_demo_table_inv, of 0] by (simp add: demo_table_game)

end
