(* ===== verification/HoldemRegistry.thy ===== *)
theory HoldemRegistry
  imports HoldemTable "HOL-Library.AList"
begin

text \<open>
  The registry of hold'em tables (\<open>internal/doors/holdem/multiplayer/registry.go\<close>): creating,
  finding, listing and dropping tables, and the rows of \<open>holdem_tables\<close> that \<open>Persist\<close>
  writes and \<open>Restore\<close> reads at the next boot.  A row whose snapshot does not decode carries
  \<open>None\<close>; JSON itself keeps what the record \<open>Snapshot\<close> holds.  Which actors answer in
  time and which statements succeed are arguments.
\<close>

section \<open>State and operations\<close>

record Registry =
  tables :: "(int \<times> Coordinator) list"
  nextID :: int
  persistence :: bool
  ledger :: bool

record HoldemRow =
  hrID :: int
  hrName :: string
  hrCapSeats :: int
  hrSmallBlind :: int
  hrBigBlind :: int
  hrSnapshot :: "Snapshot option"

record TableInfo =
  tiID :: int
  tiName :: string
  tiCapSeats :: int
  tiOccupied :: int
  tiBB :: int

definition NewRegistry :: "bool \<Rightarrow> bool \<Rightarrow> Registry" where
  "NewRegistry pers led = \<lparr>tables = [], nextID = 0, persistence = pers, ledger = led\<rparr>"

definition installSettlementHook :: "Registry \<Rightarrow> Coordinator \<Rightarrow> Coordinator" where
  "installSettlementHook r c = (if ledger r then c\<lparr>onSettlement := True\<rparr> else c)"

definition Create :: "Registry \<Rightarrow> entropy \<Rightarrow> string \<Rightarrow> int \<Rightarrow> int \<Rightarrow> int \<Rightarrow> Coordinator \<times> Registry" where
  "Create r e nm capSeats sb bb =
     (let i = i64 (nextID r + 1);
          c = installSettlementHook r (NewCoordinator e i nm capSeats sb bb)
      in (c, r\<lparr>nextID := i, tables := AList.update i c (tables r)\<rparr>))"

definition Get :: "Registry \<Rightarrow> int \<Rightarrow> Coordinator option" where
  "Get r i = map_of (tables r) i"

definition ListTables :: "Registry \<Rightarrow> TableInfo list" where
  "ListTables r =
     map (\<lambda>(_, c). \<lparr>tiID = cTableID c, tiName = cName c, tiCapSeats = SeatCount (game c),
            tiOccupied = int (length (OccupiedSeats (game c))), tiBB = bigBlind (game c)\<rparr>) (tables r)"

definition Drop :: "Registry \<Rightarrow> int \<Rightarrow> Registry" where
  "Drop r i = r\<lparr>tables := AList.delete i (tables r)\<rparr>"

section \<open>Saving and restoring\<close>

definition hasSeats :: "Snapshot \<Rightarrow> bool" where
  "hasSeats s = list_ex (\<lambda>s. UserID s \<noteq> 0 \<and> ChipsHand s > 0) (snSeats s)"

definition restoredTable :: "Registry \<Rightarrow> entropy \<Rightarrow> HoldemRow \<Rightarrow> Snapshot \<Rightarrow> Coordinator" where
  "restoredTable r e row snap =
     installSettlementHook r
       ((NewCoordinator e (hrID row) (hrName row) 2 0 0)\<lparr>game := RestoreFromSnapshot snap e\<rparr>)"

fun restore_loop :: "entropy \<Rightarrow> HoldemRow list \<Rightarrow> Registry \<Rightarrow> HoldemRow list \<Rightarrow> Registry \<times> HoldemRow list" where
  "restore_loop e [] r db = (r, db)"
| "restore_loop e (row # rows) r db =
     (case hrSnapshot row of
        None \<Rightarrow> restore_loop e rows r db
      | Some snap \<Rightarrow>
          if \<not> hasSeats snap then restore_loop e rows r (filter (\<lambda>x. hrID x \<noteq> hrID row) db)
          else restore_loop e rows
                 (r\<lparr>tables := AList.update (hrID row) (restoredTable r e row snap) (tables r),
                    nextID := (if hrID row > nextID r then hrID row else nextID r)\<rparr>) db)"

text \<open>\<open>answer\<close> is what \<open>ListHoldemTables\<close> returned, \<open>None\<close> for an error.\<close>

definition Restore :: "entropy \<Rightarrow> HoldemRow list option \<Rightarrow> Registry \<Rightarrow> HoldemRow list \<Rightarrow> bool \<times> Registry \<times> HoldemRow list" where
  "Restore e answer r db =
     (if \<not> persistence r then (True, r, db)
      else case answer of None \<Rightarrow> (False, r, db) | Some rows \<Rightarrow> (True, restore_loop e rows r db))"

definition upsert :: "HoldemRow \<Rightarrow> HoldemRow list \<Rightarrow> HoldemRow list" where
  "upsert row db =
     (if list_ex (\<lambda>x. hrID x = hrID row) db then map (\<lambda>x. if hrID x = hrID row then row else x) db
      else insort_key hrID row db)"

definition row_of :: "Coordinator \<Rightarrow> HoldemRow" where
  "row_of c =
     \<lparr>hrID = cTableID c, hrName = cName c, hrCapSeats = i32 (SeatCount (game c)),
      hrSmallBlind = go_div (bigBlind (game c)) 2, hrBigBlind = bigBlind (game c),
      hrSnapshot = Some (SnapshotState (game c))\<rparr>"

definition Persist :: "(int \<Rightarrow> bool) \<Rightarrow> (int \<Rightarrow> bool) \<Rightarrow> Registry \<Rightarrow> HoldemRow list \<Rightarrow> HoldemRow list" where
  "Persist answers stored r db =
     (if \<not> persistence r then db
      else foldl (\<lambda>db (_, c). if answers (cTableID c) \<and> stored (cTableID c) then upsert (row_of c) db else db)
             db (tables r))"

section \<open>The registry's invariant\<close>

definition reg_ok :: "Registry \<Rightarrow> bool" where
  "reg_ok r \<longleftrightarrow> distinct (map fst (tables r)) \<and> 0 \<le> nextID r
     \<and> (\<forall>i c. Get r i = Some c \<longrightarrow> i \<le> nextID r \<and> cTableID c = i)"

lemma hook_id [simp]: "cTableID (installSettlementHook r c) = cTableID c" "game (installSettlementHook r c) = game c"
  by (simp_all add: installSettlementHook_def)

lemma NewRegistry_ok: "reg_ok (NewRegistry p l)"
  by (simp add: reg_ok_def NewRegistry_def Get_def)

lemma Drop_ok: "reg_ok r \<Longrightarrow> reg_ok (Drop r i) \<and> Get (Drop r i) = (Get r)(i := None)"
  by (auto simp: reg_ok_def Drop_def Get_def distinct_delete delete_conv' fun_eq_iff)

lemma Get_update:
  "Get (r\<lparr>tables := AList.update i c (tables r), nextID := n\<rparr>) = (Get r)(i \<mapsto> c)"
  "Get (r\<lparr>tables := AList.update i c (tables r)\<rparr>) = (Get r)(i \<mapsto> c)"
  by (simp_all add: Get_def update_conv' fun_eq_iff)

lemma restoredTable_id [simp]: "cTableID (restoredTable r e row s) = hrID row"
  by (simp add: restoredTable_def NewCoordinator_def)

lemma restore_loop_ok: "reg_ok r \<Longrightarrow> reg_ok (fst (restore_loop e rows r db))"
proof (induction rows arbitrary: r db)
  case (Cons row rows)
  have "reg_ok (r\<lparr>tables := AList.update (hrID row) (restoredTable r e row s) (tables r),
      nextID := (if hrID row > nextID r then hrID row else nextID r)\<rparr>)" for s
    using Cons.prems unfolding reg_ok_def Get_update by (auto simp: distinct_update split: if_splits) fastforce+
  with Cons show ?case by (auto split: option.splits)
qed simp

text \<open>
  table ids are fresh: in a registry that creations, drops and a restore have built, \<open>Create\<close>
  takes an id no live table has, the new table is found under it, and every other table stays.
\<close>
theorem create_takes_fresh_id:
  assumes "reg_ok r" and "nextID r < 9223372036854775807" and "Create r e nm cap sb bb = (c, r')"
  shows "reg_ok r' \<and> Get r (cTableID c) = None \<and> Get r' = (Get r)(cTableID c \<mapsto> c)
    \<and> game c = NewGame e cap sb bb \<and> reg_ok (Drop r' i) \<and> reg_ok (fst (restore_loop e rows r' db))"
proof -
  have n: "i64 (nextID r + 1) = nextID r + 1" using assms(1,2) by (simp add: reg_ok_def i64_id)
  have c: "c = installSettlementHook r (NewCoordinator e (nextID r + 1) nm cap sb bb)" "cTableID c = nextID r + 1"
    and r': "r' = r\<lparr>tables := AList.update (nextID r + 1) c (tables r), nextID := nextID r + 1\<rparr>"
    using assms(3) by (auto simp: Create_def Let_def n NewCoordinator_def)
  have new: "Get r (nextID r + 1) = None"
    using assms(1) by (cases "Get r (nextID r + 1)") (fastforce simp: reg_ok_def)+
  have G: "Get r' = (Get r)(cTableID c \<mapsto> c)" by (simp add: r' c(2) Get_update)
  have ok: "reg_ok r'"
    using assms(1) c(2) unfolding reg_ok_def G by (auto simp: r' distinct_update split: if_splits) fastforce
  then show ?thesis using new G c Drop_ok [OF ok] restore_loop_ok [OF ok] by (simp add: NewCoordinator_def)
qed

section \<open>A restart\<close>

lemma upsert_rows:
  assumes "distinct (map hrID db)"
  shows "distinct (map hrID (upsert row db)) \<and> set (upsert row db) = insert row {x \<in> set db. hrID x \<noteq> hrID row}"
proof (cases "list_ex (\<lambda>x. hrID x = hrID row) db")
  case True
  have "map hrID (map (\<lambda>x. if hrID x = hrID row then row else x) db) = map hrID db" by simp
  with True assms show ?thesis
    by (auto simp: upsert_def list_ex_iff image_iff simp del: map_map)
next
  case False
  then have "\<forall>x \<in> set db. hrID x \<noteq> hrID row" by (simp add: list_ex_iff)
  with False assms show ?thesis
    by (auto simp: upsert_def set_insort_key distinct_insort_key image_iff)
qed

lemma persist_rows:
  assumes "distinct (map fst ts)" and "\<forall>(i, c) \<in> set ts. cTableID c = i" and "distinct (map hrID db)"
  shows "distinct (map hrID (foldl (\<lambda>db (_, c). upsert (row_of c) db) db ts))
    \<and> set (foldl (\<lambda>db (_, c). upsert (row_of c) db) db ts)
        = row_of ` snd ` set ts \<union> {x \<in> set db. hrID x \<notin> fst ` set ts}"
  using assms
proof (induction ts arbitrary: db)
  case (Cons t ts)
  obtain i c where t: "t = (i, c)" by (cases t)
  have i: "hrID (row_of c) = i" "i \<notin> fst ` set ts" using Cons.prems t by (auto simp: row_of_def)
  note u = upsert_rows [OF Cons.prems(3), of "row_of c"]
  from Cons.IH [of "upsert (row_of c) db"] Cons.prems u i show ?case by (auto simp: t)
qed simp

lemma restoredTable_cong: "ledger r' = ledger r \<Longrightarrow> restoredTable r' = restoredTable r"
  by (intro ext) (simp add: restoredTable_def installSettlementHook_def)

lemma restoredTable_upd [simp]:
  "restoredTable (r\<lparr>tables := ts, nextID := n\<rparr>) = restoredTable r" "restoredTable (r\<lparr>tables := ts\<rparr>) = restoredTable r"
  by (rule restoredTable_cong, simp)+

lemma restore_loop_other:
  "\<forall>row \<in> set rows. hrID row = i \<longrightarrow> (\<forall>s. hrSnapshot row = Some s \<longrightarrow> \<not> hasSeats s) \<Longrightarrow>
    Get (fst (restore_loop e rows r db)) i = Get r i"
  by (induction rows arbitrary: r db) (auto simp: Get_update split: option.splits)

lemma restore_loop_Get:
  assumes "distinct (map hrID rows)" and "row \<in> set rows" and "hrSnapshot row = Some s" and "hasSeats s"
  shows "Get (fst (restore_loop e rows r db)) (hrID row) = Some (restoredTable r e row s)"
  using assms(1,2)
proof (induction rows arbitrary: r db)
  case (Cons x rows)
  show ?case
  proof (cases "x = row")
    case True
    then have "\<forall>y \<in> set rows. hrID y = hrID row \<longrightarrow> (\<forall>s. hrSnapshot y = Some s \<longrightarrow> \<not> hasSeats s)"
      using Cons.prems(1) by (auto simp: image_iff)
    from restore_loop_other [OF this] True assms(3,4) show ?thesis by (simp add: Get_update)
  next
    case False
    then have "row \<in> set rows" "distinct (map hrID rows)" using Cons.prems by auto
    from Cons.IH [OF this(2,1)] show ?thesis
      by (auto split: option.splits)
  qed
qed simp

lemma restore_loop_max:
  "nextID r = 0 \<or> Get r (nextID r) \<noteq> None \<Longrightarrow>
    nextID (fst (restore_loop e rows r db)) = 0
    \<or> Get (fst (restore_loop e rows r db)) (nextID (fst (restore_loop e rows r db))) \<noteq> None"
proof (induction rows arbitrary: r db)
  case (Cons row rows)
  show ?case
  proof (cases "hrSnapshot row")
    case (Some snap)
    let ?r = "r\<lparr>tables := AList.update (hrID row) (restoredTable r e row snap) (tables r),
      nextID := (if hrID row > nextID r then hrID row else nextID r)\<rparr>"
    have "nextID ?r = 0 \<or> Get ?r (nextID ?r) \<noteq> None" using Cons.prems by (auto simp: Get_update)
    with Cons.IH [of ?r] Cons.IH [OF Cons.prems] Some show ?thesis by auto
  qed (use Cons in auto)
qed simp

definition restarted :: "Registry \<Rightarrow> entropy \<Rightarrow> Registry" where
  "restarted r e =
     fst (snd (Restore e (Some (Persist (\<lambda>_. True) (\<lambda>_. True) r [])) (NewRegistry True (ledger r)) []))"

text \<open>What a table comes back as, or that it does not.\<close>

definition comes_back :: "Registry \<Rightarrow> entropy \<Rightarrow> Coordinator \<Rightarrow> Coordinator option" where
  "comes_back r e c =
     (if hasSeats (SnapshotState (game c)) then Some (restoredTable r e (row_of c) (SnapshotState (game c))) else None)"

lemma restart_tables:
  assumes "reg_ok r" and "persistence r"
  shows "reg_ok (restarted r e) \<and> (\<forall>i. Get (restarted r e) i = Option.bind (Get r i) (comes_back r e))
    \<and> (nextID (restarted r e) = 0 \<or> Get (restarted r e) (nextID (restarted r e)) \<noteq> None)"
proof -
  define db where "db = Persist (\<lambda>_. True) (\<lambda>_. True) r []"
  define r0 where "r0 = NewRegistry True (ledger r)"
  have dt: "distinct (map fst (tables r))" and ids: "\<forall>i c. Get r i = Some c \<longrightarrow> cTableID c = i"
    using assms(1) by (auto simp: reg_ok_def)
  have "\<forall>(i, c) \<in> set (tables r). cTableID c = i"
    using ids dt by (auto simp: Get_def)
  from persist_rows [OF dt this, of "[]"] assms(2)
  have db: "distinct (map hrID db)" "set db = row_of ` snd ` set (tables r)"
    by (simp_all add: db_def Persist_def)
  have res: "restarted r e = fst (restore_loop e db r0 [])"
    by (simp add: restarted_def Restore_def db_def r0_def NewRegistry_def)
  have cong: "restoredTable r0 = restoredTable r" by (rule restoredTable_cong) (simp add: r0_def NewRegistry_def)
  have none: "Get r0 i = None" for i by (simp add: r0_def NewRegistry_def Get_def)
  have in_db: "row \<in> set db \<longleftrightarrow> (\<exists>i c. Get r i = Some c \<and> row = row_of c)" for row
    using dt unfolding db(2) by (force simp: Get_def)
  have "Get (restarted r e) i = Option.bind (Get r i) (comes_back r e)" for i
  proof (cases "\<exists>c. Get r i = Some c \<and> hasSeats (SnapshotState (game c))")
    case True
    then obtain c where c: "Get r i = Some c" "hasSeats (SnapshotState (game c))" by blast
    have "row_of c \<in> set db" "hrSnapshot (row_of c) = Some (SnapshotState (game c))" "hrID (row_of c) = i"
      using c ids in_db by (auto simp: row_of_def)
    from restore_loop_Get [OF db(1) this(1,2) c(2), of e r0 "[]"] this(3) c show ?thesis
      by (simp add: res cong comes_back_def)
  next
    case False
    have "\<forall>row \<in> set db. hrID row = i \<longrightarrow> (\<forall>s. hrSnapshot row = Some s \<longrightarrow> \<not> hasSeats s)"
      using False ids in_db by (auto simp: row_of_def)
    from restore_loop_other [OF this, of e r0 "[]"] False none show ?thesis
      by (cases "Get r i") (auto simp: res comes_back_def)
  qed
  moreover have "reg_ok (restarted r e)" unfolding res by (rule restore_loop_ok) (simp add: r0_def NewRegistry_ok)
  moreover have "nextID r0 = 0" by (simp add: r0_def NewRegistry_def)
  ultimately show ?thesis using restore_loop_max [of r0 e db "[]"] res by simp
qed


text \<open>
  a restart in which every table is saved and read back: a table survives exactly when some
  seat of its snapshot has chips; it has its id and name and the game of its snapshot, and every
  other id is free.  The id counter restarts at the largest surviving id, or at zero.
\<close>
theorem restart_keeps_seated_tables:
  assumes "reg_ok r" and "persistence r"
  shows "reg_ok (restarted r e) \<and> (\<forall>i. Get (restarted r e) i = Option.bind (Get r i) (comes_back r e))
    \<and> (nextID (restarted r e) = 0 \<or> Get (restarted r e) (nextID (restarted r e)) \<noteq> None)"
  by (rule restart_tables [OF assms])

text \<open>
  the table with the largest id comes to a restart with nobody seated: the next table created
  takes that id again and counts its hands from zero, so the ledger refuses the settlement of
  every hand whose number the old table already used: no row is written for it.
\<close>
theorem restart_reuses_table_id:
  assumes "reg_ok r" and "persistence r" and "Get r n = Some c" and "0 < n" and "n < 9223372036854775807"
    and "\<forall>i c'. Get r i = Some c' \<and> hasSeats (SnapshotState (game c')) \<longrightarrow> i < n"
    and "n = 1 \<or> (\<exists>c'. Get r (n - 1) = Some c' \<and> hasSeats (SnapshotState (game c')))"
    and "Create (restarted r e) e' nm cap sb bb = (new, r')"
    and "h \<in> set (hand_rows db)" and "hand_game h = ''holdem-mp''" and "hand_table h = n"
    and "buildSettlement t = Some s" and "cTableID t = cTableID new" and "handNumber (game t) = hand_no h"
  shows "cTableID new = n \<and> handNumber (game new) = 0
    \<and> hand_rows (snd (SettleHand db s)) = hand_rows db \<and> round_rows (snd (SettleHand db s)) = round_rows db"
proof -
  note k = restart_tables [OF assms(1,2), of e]
  have below: "i < n" if "Get (restarted r e) i \<noteq> None" for i
    using k that assms(6) by (cases "Get r i") (auto simp: comes_back_def split: if_splits)
  have "n - 1 \<le> nextID (restarted r e)"
  proof (cases "n = 1")
    case False
    then obtain c' where "Get r (n - 1) = Some c'" "hasSeats (SnapshotState (game c'))" using assms(7) by blast
    then have "Get (restarted r e) (n - 1) = Some (restoredTable r e (row_of c') (SnapshotState (game c')))"
      using k by (simp add: comes_back_def)
    then show ?thesis using k unfolding reg_ok_def by blast
  qed (use k in \<open>simp add: reg_ok_def\<close>)
  moreover have "nextID (restarted r e) < n" using k below assms(4) by force
  ultimately have n: "nextID (restarted r e) = n - 1" by simp
  have new: "cTableID new = n" "handNumber (game new) = 0"
    using assms(4,5,8) by (auto simp: Create_def Let_def n i64_id NewCoordinator_def NewGame_def)
  have "hand_taken db s"
    using assms(9-14) new by (auto simp: hand_taken_def list_ex_iff buildSettlement_def Let_def)
  then have "hand_rows (snd (SettleHand db s)) = hand_rows db \<and> round_rows (snd (SettleHand db s)) = round_rows db"
    using SettleHand_taken [of db s] by (cases "filter (\<lambda>m. mUserID m \<noteq> 0) (Movements s) = []")
      (simp_all add: SettleHand_def Let_def)
  with new show ?thesis by blast
qed

section \<open>Registries to evaluate\<close>

theorem create_takes_fresh_id_witness:
  "(let (c, r) = Create (NewRegistry True True) (\<lambda>_. 0) ''main'' 6 1 2
    in cTableID c = 1 \<and> Get r 1 = Some c \<and> reg_ok (Drop r 1))"
proof -
  obtain c r where cr: "Create (NewRegistry True True) (\<lambda>_. 0) ''main'' 6 1 2 = (c, r)" by fastforce
  have "nextID (NewRegistry True True) < 9223372036854775807" by (simp add: NewRegistry_def)
  from create_takes_fresh_id [OF NewRegistry_ok this cr, of 1] have
    k: "Get r = (Get (NewRegistry True True))(cTableID c \<mapsto> c)" "reg_ok (Drop r 1)" by blast+
  have "cTableID c = 1" using cr by (auto simp: Create_def Let_def NewRegistry_def NewCoordinator_def i64_id)
  then show ?thesis using k by (simp add: cr)
qed

definition demo_registry :: Registry where
  "demo_registry = \<lparr>tables = [(3, demo_table)], nextID = 3, persistence = True, ledger = True\<rparr>"

lemma demo_registry_ok: "reg_ok demo_registry" "persistence demo_registry"
  by (simp_all add: reg_ok_def demo_registry_def Get_def demo_table_def)

theorem restart_keeps_seated_tables_witness:
  "Get (restarted demo_registry (\<lambda>_. 0)) 3 \<noteq> None \<and> Get (restarted demo_registry (\<lambda>_. 0)) 4 = None"
proof -
  have "hasSeats (SnapshotState (game demo_table))"
    by (simp add: demo_table_def demo_mp_def hasSeats_def SnapshotState_def snapshot_seat_def i32_id)
  moreover have "Get demo_registry 3 = Some demo_table" "Get demo_registry 4 = None"
    by (simp_all add: demo_registry_def Get_def)
  ultimately show ?thesis
    using restart_keeps_seated_tables [OF demo_registry_ok, of "\<lambda>_. 0"]
    by (simp add: comes_back_def)
qed

definition empty_table_registry :: Registry where
  "empty_table_registry = \<lparr>tables = [(1, NewCoordinator (\<lambda>_. 0) 1 ''main'' 6 1 2)], nextID = 1,
     persistence = True, ledger = True\<rparr>"

theorem restart_reuses_table_id_witness:
  "\<exists>s. buildSettlement (demo_table\<lparr>cTableID := 1\<rparr>) = Some s
     \<and> cTableID (fst (Create (restarted empty_table_registry (\<lambda>_. 0)) (\<lambda>_. 0) ''again'' 6 1 2)) = 1
     \<and> round_rows (snd (SettleHand \<lparr>hand_rows = [\<lparr>hand_id = 1, hand_game = ''holdem-mp'', hand_table = 1,
           hand_no = 4, hand_details = d\<rparr>], round_rows = [], next_hand = 2, lfaults = (\<lambda>_. False),
           lstmts = 0\<rparr> s)) = []"
proof -
  let ?r = "empty_table_registry"
  have ok: "reg_ok ?r" "persistence ?r"
    by (simp_all add: reg_ok_def empty_table_registry_def Get_def NewCoordinator_def)
  have no: "\<not> hasSeats (SnapshotState (game (NewCoordinator (\<lambda>_. 0) 1 ''main'' 6 1 2)))"
    by (simp add: hasSeats_def SnapshotState_def NewCoordinator_def NewGame_def empty_seat_def snapshot_seat_def
        list_ex_iff i32_0)
  have get: "Get ?r i = (if i = 1 then Some (NewCoordinator (\<lambda>_. 0) 1 ''main'' 6 1 2) else None)" for i
    by (simp add: empty_table_registry_def Get_def)
  have "table_inv (demo_table\<lparr>cTableID := 1\<rparr>)" using ht_demo_table_inv by (simp add: table_inv_def chans_ok_def)
  then obtain s where s: "buildSettlement (demo_table\<lparr>cTableID := 1\<rparr>) = Some s"
    using buildSettlement_ok by (metis table_inv_def)
  obtain new r' where cr: "Create (restarted ?r (\<lambda>_. 0)) (\<lambda>_. 0) ''again'' 6 1 2 = (new, r')" by fastforce
  let ?h = "\<lparr>hand_id = 1, hand_game = ''holdem-mp'', hand_table = 1, hand_no = 4, hand_details = d\<rparr>"
  let ?db = "\<lparr>hand_rows = [?h], round_rows = [], next_hand = 2, lfaults = (\<lambda>_. False), lstmts = 0\<rparr>"
  note bk = restart_tables [OF ok, of "\<lambda>_. 0"]
  have "Get (restarted ?r (\<lambda>_. 0)) i = None" for i using bk get no by (simp add: comes_back_def)
  then have "nextID (restarted ?r (\<lambda>_. 0)) = 0" using bk by (metis (no_types))
  then have new: "cTableID new = 1"
    using cr by (auto simp: Create_def Let_def NewCoordinator_def i64_id)
  have "handNumber (game (demo_table\<lparr>cTableID := 1\<rparr>)) = 4" by (simp add: demo_table_def demo_mp_def)
  then have "round_rows (snd (SettleHand ?db s)) = []"
    using restart_reuses_table_id [OF ok, of 1 _ _ _ _ _ _ _ _ _ ?h ?db, OF _ _ _ _ _ cr _ _ _ s] get no new
    by (auto split: if_splits)
  with s cr new show ?thesis by auto
qed

end
