(* ===== verification/GoStrings.thy ===== *)
theory GoStrings
  imports Prelude
begin

text \<open>
  Go strings as lists of bytes, the operations of \<open>strings\<close>, \<open>strconv\<close>, \<open>net\<close> and
  \<open>net/netip\<close> that the modelled code calls, and the facts about them that its proofs use:
  digits in a base read back as the number, a joined list splits into the same list.

  A string is its UTF-8 bytes.  \<open>strings.ToLower\<close> maps a text of ASCII bytes byte by byte;
  for any other text it consults the Unicode tables, which are the argument \<open>u\<close>.
\<close>

section \<open>Bytes\<close>

abbreviation code :: "char \<Rightarrow> nat" where
  "code c \<equiv> of_char c"

definition is_ascii :: "string \<Rightarrow> bool" where
  "is_ascii s = list_all (\<lambda>c. code c < 128) s"

definition lower_byte :: "char \<Rightarrow> char" where
  "lower_byte c = (if 65 \<le> code c \<and> code c \<le> 90 then char_of (code c + 32) else c)"

definition ToLower :: "(string \<Rightarrow> string) \<Rightarrow> string \<Rightarrow> string" where
  "ToLower u s = (if is_ascii s then map lower_byte s else u s)"

text \<open>\<open>strings.EqualFold\<close>; \<open>ef\<close> decides where a text is not ASCII.\<close>

definition EqualFold :: "(string \<Rightarrow> string \<Rightarrow> bool) \<Rightarrow> string \<Rightarrow> string \<Rightarrow> bool" where
  "EqualFold ef a b = (if is_ascii a \<and> is_ascii b then map lower_byte a = map lower_byte b else ef a b)"

lemma code_lower_byte: "code (lower_byte c) = (if 65 \<le> code c \<and> code c \<le> 90 then code c + 32 else code c)"
  by (simp add: lower_byte_def)

lemma code_inject: "code c = code d \<longleftrightarrow> c = d"
  by simp

lemma lower_byte_idem [simp]: "lower_byte (lower_byte c) = lower_byte c"
  by (simp add: code_inject [symmetric] code_lower_byte del: of_char_eq_iff)

lemma is_ascii_lower [simp]: "is_ascii (map lower_byte s) = is_ascii s"
  by (auto simp: is_ascii_def list_all_iff code_lower_byte)

lemma ToLower_idem: "is_ascii s \<Longrightarrow> ToLower u (ToLower u s) = ToLower u s"
  by (simp add: ToLower_def comp_def)

section \<open>Prefixes, trimming and splitting\<close>

definition HasPrefix :: "string \<Rightarrow> string \<Rightarrow> bool" where
  "HasPrefix s p = (take (length p) s = p)"

definition HasSuffix :: "string \<Rightarrow> string \<Rightarrow> bool" where
  "HasSuffix s p = (length p \<le> length s \<and> drop (length s - length p) s = p)"

definition TrimPrefix :: "string \<Rightarrow> string \<Rightarrow> string" where
  "TrimPrefix s p = (if HasPrefix s p then drop (length p) s else s)"

lemma HasPrefix_append: "HasPrefix (p @ s) p"
  by (simp add: HasPrefix_def)

lemma HasPrefix_iff: "HasPrefix s p \<longleftrightarrow> (\<exists>r. s = p @ r)"
  unfolding HasPrefix_def by (metis append_eq_conv_conj append_take_drop_id)

text \<open>The encodings of the characters that \<open>unicode.IsSpace\<close> accepts.\<close>

definition spaces :: "string list" where
  "spaces =
     map (map char_of :: nat list \<Rightarrow> string)
       ([[9], [10], [11], [12], [13], [32], [194, 133], [194, 160], [225, 154, 128],
         [226, 128, 168], [226, 128, 169], [226, 128, 175], [226, 129, 159], [227, 128, 128]]
        @ map (\<lambda>i. [226, 128, i]) [128..<139])"

function TrimLeft :: "string list \<Rightarrow> string \<Rightarrow> string" where
  "TrimLeft ws s = (case find (\<lambda>w. w \<noteq> [] \<and> HasPrefix s w) ws of
       None \<Rightarrow> s | Some w \<Rightarrow> TrimLeft ws (drop (length w) s))"
  by auto
termination
proof (relation "measure (\<lambda>(_, s). length s)", goal_cases)
  case (2 ws s w)
  then have "w \<noteq> []" "HasPrefix s w" by (auto simp: find_Some_iff)
  then show ?case by (auto simp: HasPrefix_iff)
qed simp

declare TrimLeft.simps [simp del]

definition TrimSpace :: "string \<Rightarrow> string" where
  "TrimSpace s = rev (TrimLeft (map rev spaces) (rev (TrimLeft spaces s)))"

lemma TrimLeft_None: "find (\<lambda>w. w \<noteq> [] \<and> HasPrefix s w) ws = None \<Longrightarrow> TrimLeft ws s = s"
  by (simp add: TrimLeft.simps)

lemma TrimLeft_Some:
  "find (\<lambda>w. w \<noteq> [] \<and> HasPrefix s w) ws = Some w \<Longrightarrow> TrimLeft ws s = TrimLeft ws (drop (length w) s)"
  using TrimLeft.simps [of ws s] by simp

lemma TrimLeft_suffix: "\<exists>p. s = p @ TrimLeft ws s"
proof (induction ws s rule: TrimLeft.induct)
  case (1 ws s)
  show ?case
  proof (cases "find (\<lambda>w. w \<noteq> [] \<and> HasPrefix s w) ws")
    case None
    then show ?thesis by (simp add: TrimLeft_None)
  next
    case (Some w)
    with 1 obtain p where "drop (length w) s = p @ TrimLeft ws (drop (length w) s)" by blast
    moreover have "s = w @ drop (length w) s"
      using Some by (auto simp: find_Some_iff HasPrefix_iff)
    ultimately have "s = (w @ p) @ TrimLeft ws s" by (simp add: TrimLeft_Some [OF Some])
    then show ?thesis by blast
  qed
qed

lemma TrimLeft_stop: "list_all (\<lambda>w. w = [] \<or> \<not> HasPrefix (TrimLeft ws s) w) ws"
proof (induction ws s rule: TrimLeft.induct)
  case (1 ws s)
  show ?case
  proof (cases "find (\<lambda>w. w \<noteq> [] \<and> HasPrefix s w) ws")
    case None
    then have "TrimLeft ws s = s" by (rule TrimLeft_None)
    moreover have "list_all (\<lambda>w. w = [] \<or> \<not> HasPrefix s w) ws"
      using None by (auto simp: find_None_iff list_all_iff)
    ultimately show ?thesis by simp
  next
    case (Some w)
    then have "TrimLeft ws s = TrimLeft ws (drop (length w) s)" by (rule TrimLeft_Some)
    with 1 Some show ?thesis by simp
  qed
qed

lemma TrimLeft_id: "list_all (\<lambda>w. w = [] \<or> \<not> HasPrefix s w) ws \<Longrightarrow> TrimLeft ws s = s"
proof -
  assume "list_all (\<lambda>w. w = [] \<or> \<not> HasPrefix s w) ws"
  then have "find (\<lambda>w. w \<noteq> [] \<and> HasPrefix s w) ws = None" by (auto simp: find_None_iff list_all_iff)
  then show ?thesis by (rule TrimLeft_None)
qed

fun split_on :: "char \<Rightarrow> string \<Rightarrow> string list" where
  "split_on c [] = [[]]"
| "split_on c (x # s) =
     (if x = c then [] # split_on c s
      else case split_on c s of [] \<Rightarrow> [[x]] | f # fs \<Rightarrow> (x # f) # fs)"

fun join :: "string \<Rightarrow> string list \<Rightarrow> string" where
  "join sep [] = []"
| "join sep [s] = s"
| "join sep (s # t # ss) = s @ sep @ join sep (t # ss)"

lemma split_on_free: "c \<notin> set s \<Longrightarrow> split_on c s = [s]"
  by (induction s) auto

lemma split_on_append: "c \<notin> set s \<Longrightarrow> split_on c (s @ c # t) = s # split_on c t"
  by (induction s) auto

lemma split_join: "xs \<noteq> [] \<Longrightarrow> \<forall>x \<in> set xs. c \<notin> set x \<Longrightarrow> split_on c (join [c] xs) = xs"
  by (induction "[c]" xs rule: join.induct) (auto simp: split_on_free split_on_append)

lemma join_inject:
  assumes "\<forall>x \<in> set xs. c \<notin> set x" "\<forall>y \<in> set ys. c \<notin> set y"
    and "xs \<noteq> []" "ys \<noteq> []" and "join [c] xs = join [c] ys"
  shows "xs = ys"
  using assms split_join by metis

lemma set_join: "set (join [c] xs) \<subseteq> insert c (\<Union> (set ` set xs))"
  by (induction "[c]" xs rule: join.induct) auto

section \<open>Numbers\<close>

definition digit :: "nat \<Rightarrow> char" where
  "digit d = (if d < 10 then char_of (48 + d) else char_of (87 + d))"

definition digit_value :: "char \<Rightarrow> nat option" where
  "digit_value c =
     (if 48 \<le> code c \<and> code c \<le> 57 then Some (code c - 48)
      else if 97 \<le> code c \<and> code c \<le> 102 then Some (code c - 87)
      else if 65 \<le> code c \<and> code c \<le> 70 then Some (code c - 55)
      else None)"

fun digits :: "nat \<Rightarrow> nat \<Rightarrow> string" where
  "digits b n = (if n < b \<or> b < 2 then [digit n] else digits b (n div b) @ [digit (n mod b)])"

declare digits.simps [simp del]

definition number :: "nat \<Rightarrow> string \<Rightarrow> nat" where
  "number b s = foldl (\<lambda>a c. a * b + (case digit_value c of None \<Rightarrow> 0 | Some d \<Rightarrow> d)) 0 s"

lemma code_digit: "d < 16 \<Longrightarrow> code (digit d) = (if d < 10 then 48 + d else 87 + d)"
  by (simp add: digit_def)

lemma digit_value_digit [simp]: "d < 16 \<Longrightarrow> digit_value (digit d) = Some d"
  by (simp add: digit_value_def code_digit)

lemma digits_nonempty [simp]: "digits b n \<noteq> []"
  by (simp add: digits.simps [of b n])

lemma number_digits:
  assumes "2 \<le> b" "b \<le> 16"
  shows "number b (digits b n) = n"
  using assms
proof (induction b n rule: digits.induct)
  case (1 b n)
  show ?case
  proof (cases "n < b")
    case True
    with 1 show ?thesis by (simp add: digits.simps [of b n] number_def)
  next
    case False
    with 1 have IH: "number b (digits b (n div b)) = n div b" by simp
    have "n mod b < b" using 1 by simp
    with 1 have "digit_value (digit (n mod b)) = Some (n mod b)" by (intro digit_value_digit) linarith
    with False 1 have "number b (digits b n) = number b (digits b (n div b)) * b + n mod b"
      by (simp add: digits.simps [of b n] number_def)
    then show ?thesis by (simp only: IH div_mult_mod_eq)
  qed
qed

lemma digits_set: "2 \<le> b \<Longrightarrow> b \<le> 16 \<Longrightarrow> c \<in> set (digits b n) \<Longrightarrow> \<exists>d < b. c = digit d"
proof (induction b n rule: digits.induct)
  case (1 b n)
  have "n mod b < b" using 1 by simp
  with 1 show ?case
  proof (cases "n < b")
    case False
    then have "c \<in> set (digits b (n div b)) \<or> c = digit (n mod b)"
      using 1 False by (auto simp: digits.simps [of b n])
    with 1 False \<open>n mod b < b\<close> show ?thesis by fastforce
  qed (auto simp: digits.simps [of b n])
qed

lemma digits_inject: "2 \<le> b \<Longrightarrow> b \<le> 16 \<Longrightarrow> digits b m = digits b n \<Longrightarrow> m = n"
  by (metis number_digits)

lemma digits_free:
  assumes "2 \<le> b" "b \<le> 16" "digit_value c = None"
  shows "c \<notin> set (digits b n)"
proof
  assume "c \<in> set (digits b n)"
  then obtain d where "d < b" "c = digit d" using digits_set assms by blast
  then show False using assms by simp
qed

section \<open>UTF-8\<close>

text \<open>
  The number of characters of a valid UTF-8 text (what \<open>len([]rune(s))\<close> and the limits of
  \<open>varchar\<close> columns count), and its characters.
\<close>

definition utf8_length :: "string \<Rightarrow> nat" where
  "utf8_length s = length (filter (\<lambda>c. code c div 64 \<noteq> 2) s)"

fun utf8_chars :: "string \<Rightarrow> string list" where
  "utf8_chars [] = []"
| "utf8_chars (c # s) =
     (case utf8_chars s of
        [] \<Rightarrow> [[c]]
      | d # ds \<Rightarrow> if d \<noteq> [] \<and> code (hd d) div 64 = 2 then (c # d) # ds else [c] # d # ds)"

end
