(* ===== verification/IpKey.thy ===== *)
theory IpKey
  imports GoStrings
begin

text \<open>
  The key under which a network source is counted
  (\<^verbatim>\<open>src/internal/security/netlimit/collapse.go\<close>): an IPv4 address is its own key, an IPv6
  address counts as its /64.  A \<open>net.Addr\<close> is the text that its \<open>String\<close> method gives, \<open>None\<close>
  for nil.  \<open>net.SplitHostPort\<close> and the part of \<open>net/netip\<close> that the code uses are written
  out: an address is parsed and printed the way Go does it.  The theorem says that two
  addresses get the same key exactly when they are the same IPv4 address (mapped or not) or
  lie in the same IPv6 /64.
\<close>

section \<open>net.SplitHostPort\<close>

text \<open>The host; \<open>None\<close> for the error results, which make the caller use the whole text.\<close>

definition SplitHostPort :: "string \<Rightarrow> string option" where
  "SplitHostPort s =
     (let r = dropWhile (\<lambda>c. c \<noteq> CHR '':'') (rev s) in
      if r = [] then None
      else let i = length r - 1 in
        if hd s = CHR ''['' then
          (let host = takeWhile (\<lambda>c. c \<noteq> CHR '']'') (tl s); e = Suc (length host) in
           if e \<ge> length s \<or> Suc e \<noteq> i then None
           else if CHR ''['' \<in> set (tl s) \<or> CHR '']'' \<in> set (drop (Suc e) s) then None
           else Some host)
        else (let host = take i s in
           if CHR '':'' \<in> set host then None
           else if CHR ''['' \<in> set s \<or> CHR '']'' \<in> set s then None
           else Some host))"

section \<open>net/netip\<close>

text \<open>The four bytes of an IPv4 address, or the eight groups and the zone of an IPv6 address.\<close>

datatype netip = V4 "nat list" | V6 "nat list" string

definition parse_field :: "string \<Rightarrow> nat option" where
  "parse_field f =
     (if f = [] \<or> \<not> list_all (\<lambda>c. 48 \<le> code c \<and> code c \<le> 57) f then None
      else if length f > 1 \<and> hd f = CHR ''0'' then None
      else if number 10 f > 255 then None else Some (number 10 f))"

definition parseIPv4 :: "string \<Rightarrow> nat list option" where
  "parseIPv4 s =
     (let fs = split_on CHR ''.'' s in if length fs = 4 then those (map parse_field fs) else None)"

text \<open>
  The loop of \<open>parseIPv6\<close> over the groups: the groups read so far, the position of the ellipsis
  when one was seen, the text left.
\<close>

function v6_loop :: "nat list \<Rightarrow> nat option \<Rightarrow> string \<Rightarrow> (nat list \<times> nat option) option" where
  "v6_loop gs ell s =
     (if 8 \<le> length gs then (if s = [] then Some (gs, ell) else None)
      else let h = takeWhile (\<lambda>c. digit_value c \<noteq> None) s; r = drop (length h) s; gs' = gs @ [number 16 h] in
        if h = [] \<or> length h > 4 then None
        else if r = [] then Some (gs', ell)
        else if hd r = CHR ''.'' then
          (if ell = None \<and> length gs \<noteq> 6 \<or> length gs + 2 > 8 then None
           else map_option (\<lambda>q. (gs @ [q ! 0 * 256 + q ! 1, q ! 2 * 256 + q ! 3], ell)) (parseIPv4 s))
        else if hd r \<noteq> CHR '':'' \<or> tl r = [] then None
        else if hd (tl r) = CHR '':'' then
          (if ell \<noteq> None then None
           else if tl (tl r) = [] then Some (gs', Some (length gs'))
           else v6_loop gs' (Some (length gs')) (tl (tl r)))
        else v6_loop gs' ell (tl r))"
  by pat_completeness auto
termination
proof (relation "measure (\<lambda>(_, _, s). length s)", goal_cases)
  case 1
  show ?case by simp
next
  case (2 gs ell s h r gs')
  then have "length (tl (tl r)) < length s"
    by (cases s) (auto simp: length_tl split: if_splits)
  then show ?case by simp
next
  case (3 gs ell s h r gs')
  then have "length (tl r) < length s"
    by (cases s) (auto split: if_splits)
  then show ?case by simp
qed

declare v6_loop.simps [simp del]

definition v6_finish :: "nat list \<times> nat option \<Rightarrow> nat list option" where
  "v6_finish p =
     (case p of (gs, ell) \<Rightarrow>
        (case ell of
           None \<Rightarrow> if length gs < 8 then None else Some gs
         | Some e \<Rightarrow> if length gs < 8 then Some (take e gs @ replicate (8 - length gs) 0 @ drop e gs) else None))"

definition parseIPv6 :: "string \<Rightarrow> netip option" where
  "parseIPv6 t =
     (let s = takeWhile (\<lambda>c. c \<noteq> CHR ''%'') t; z = drop (length s) t in
      if length z = 1 then None
      else if HasPrefix s ''::'' then
        (if length s = 2 then Some (V6 (replicate 8 0) (tl z))
         else map_option (\<lambda>gs. V6 gs (tl z)) (Option.bind (v6_loop [] (Some 0) (drop 2 s)) v6_finish))
      else map_option (\<lambda>gs. V6 gs (tl z)) (Option.bind (v6_loop [] None s) v6_finish))"

definition ParseAddr :: "string \<Rightarrow> netip option" where
  "ParseAddr s =
     (case find (\<lambda>c. c \<in> {CHR ''.'', CHR '':'', CHR ''%''}) s of
        None \<Rightarrow> None
      | Some c \<Rightarrow> if c = CHR ''.'' then map_option (\<lambda>q. V4 q) (parseIPv4 s)
                  else if c = CHR '':'' then parseIPv6 s else None)"

definition Is4In6 :: "nat list \<Rightarrow> bool" where
  "Is4In6 gs = (take 6 gs = [0, 0, 0, 0, 0, 65535])"

definition Unmap :: "nat list \<Rightarrow> nat list" where
  "Unmap gs = [gs ! 6 div 256, gs ! 6 mod 256, gs ! 7 div 256, gs ! 7 mod 256]"

definition string4 :: "nat list \<Rightarrow> string" where
  "string4 q = join ''.'' (map (digits 10) q)"

text \<open>The run of zero groups that \<open>appendTo6\<close> elides: the first of the longest, of two at least.\<close>

definition zero_run :: "nat list \<Rightarrow> nat \<times> nat" where
  "zero_run gs =
     fold (\<lambda>i (s, e). let l = length (takeWhile (\<lambda>g. g = 0) (drop i gs))
                      in if 2 \<le> l \<and> e - s < l then (i, i + l) else (s, e)) [0..<8] (255, 255)"

definition string6 :: "nat list \<Rightarrow> string" where
  "string6 gs =
     (case zero_run gs of (s, e) \<Rightarrow>
        if 8 \<le> s then join '':'' (map (digits 16) gs)
        else join '':'' (map (digits 16) (take s gs)) @ ''::'' @ join '':'' (map (digits 16) (drop e gs)))"

text \<open>\<open>ip.Prefix(64).String()\<close>: the zone is dropped, the low four groups are masked.\<close>

definition prefix64 :: "nat list \<Rightarrow> string" where
  "prefix64 gs = string6 (take 4 gs @ replicate 4 0) @ ''/64''"

section \<open>The key\<close>

definition collapseHostPort :: "string \<Rightarrow> string" where
  "collapseHostPort s =
     (if s = [] then []
      else let host = (case SplitHostPort s of None \<Rightarrow> s | Some h \<Rightarrow> h) in
        (case ParseAddr host of
           None \<Rightarrow> host
         | Some (V4 q) \<Rightarrow> string4 q
         | Some (V6 gs z) \<Rightarrow> if Is4In6 gs then string4 (Unmap gs) else prefix64 gs))"

definition CollapseIP :: "string option \<Rightarrow> string" where
  "CollapseIP addr = (case addr of None \<Rightarrow> [] | Some s \<Rightarrow> collapseHostPort s)"

text \<open>\<open>None\<close> is the address error.\<close>

definition CollapseIPString :: "string \<Rightarrow> string option" where
  "CollapseIPString s = (let key = collapseHostPort s in if key = [] then None else Some key)"

section \<open>Parsed addresses are well formed\<close>

definition netip_ok :: "netip \<Rightarrow> bool" where
  "netip_ok a =
     (case a of
        V4 q \<Rightarrow> length q = 4 \<and> list_all (\<lambda>b. b < 256) q
      | V6 gs z \<Rightarrow> length gs = 8 \<and> list_all (\<lambda>g. g < 65536) gs)"

lemma digit_value_less: "digit_value c = Some d \<Longrightarrow> d < 16"
  by (auto simp: digit_value_def split: if_splits)

lemma number_foldl_less:
  "foldl (\<lambda>a c. a * 16 + (case digit_value c of None \<Rightarrow> 0 | Some d \<Rightarrow> d)) a s < (a + 1) * 16 ^ length s"
proof (induction s arbitrary: a)
  case Nil
  then show ?case by simp
next
  case (Cons c s)
  let ?d = "case digit_value c of None \<Rightarrow> 0 | Some d \<Rightarrow> d"
  have "?d < 16" using digit_value_less by (auto split: option.splits)
  then have "a * 16 + ?d + 1 \<le> (a + 1) * 16" by simp
  then have "(a * 16 + ?d + 1) * 16 ^ length s \<le> (a + 1) * 16 * 16 ^ length s" by (rule mult_le_mono1)
  with Cons [of "a * 16 + ?d"]
  have "foldl (\<lambda>a c. a * 16 + (case digit_value c of None \<Rightarrow> 0 | Some d \<Rightarrow> d)) (a * 16 + ?d) s
      < (a + 1) * 16 * 16 ^ length s" by (rule less_le_trans)
  then show ?case by (simp only: foldl_Cons length_Cons power_Suc mult.assoc)
qed

lemma number_group: "length h \<le> 4 \<Longrightarrow> number 16 h < 65536"
proof -
  assume "length h \<le> 4"
  then have "(16::nat) ^ length h \<le> 16 ^ 4" by (intro power_increasing) auto
  with number_foldl_less [of 0 h] show ?thesis by (simp add: number_def)
qed

lemma those_map: "those (map f xs) = Some ys \<Longrightarrow> length ys = length xs \<and> (\<forall>y \<in> set ys. \<exists>x \<in> set xs. f x = Some y)"
  by (induction xs arbitrary: ys) (simp, fastforce split: option.splits)

lemma parseIPv4_ok: "parseIPv4 s = Some q \<Longrightarrow> length q = 4 \<and> list_all (\<lambda>b. b < 256) q"
  unfolding parseIPv4_def Let_def
  by (auto split: if_splits dest!: those_map simp: parse_field_def list_all_iff)

lemma v6_loop_ok:
  assumes "v6_loop gs ell s = Some (gs', ell')" "length gs \<le> 8" "list_all (\<lambda>g. g < 65536) gs"
    and "case ell of None \<Rightarrow> True | Some e \<Rightarrow> e \<le> length gs"
  shows "length gs' \<le> 8 \<and> list_all (\<lambda>g. g < 65536) gs'
    \<and> (case ell' of None \<Rightarrow> True | Some e \<Rightarrow> e \<le> length gs')"
  using assms
proof (induction gs ell s arbitrary: gs' ell' rule: v6_loop.induct)
  case (1 gs ell s)
  define h where "h = takeWhile (\<lambda>c. digit_value c \<noteq> None) s"
  define r where "r = drop (length h) s"
  let ?gs = "gs @ [number 16 h]"
  have ok: "length ?gs \<le> 8 \<and> list_all (\<lambda>g. g < 65536) ?gs"
    if "length gs < 8" "length h \<le> 4" using that 1(4-6) number_group by simp
  have mono: "case ell of None \<Rightarrow> True | Some e \<Rightarrow> e \<le> length ?gs"
    using 1(6) by (auto split: option.splits)
  note run = 1(3) [unfolded v6_loop.simps [of gs ell s] Let_def, folded h_def, folded r_def]
  note IH1 = 1(1) [OF _ h_def r_def refl] and IH2 = 1(2) [OF _ h_def r_def refl]
  show ?case
  proof (cases "8 \<le> length gs")
    case True
    with 1(4-6) run show ?thesis by (auto split: if_splits)
  next
    case room: False
    with run have h: "h \<noteq> []" "length h \<le> 4" by (simp_all split: if_splits)
    consider (last) "r = []" | (v4) "r \<noteq> []" "hd r = CHR ''.''" | (colon) "r \<noteq> []" "hd r \<noteq> CHR ''.''"
      by blast
    then show ?thesis
    proof cases
      case last
      with ok mono run room h show ?thesis by auto
    next
      case v4
      with room h run obtain q where q: "parseIPv4 s = Some q" "length gs + 2 \<le> 8" "ell' = ell"
        "gs' = gs @ [q ! 0 * 256 + q ! 1, q ! 2 * 256 + q ! 3]"
        by (auto split: if_splits)
      then obtain a b c d where "q = [a, b, c, d]" "a < 256" "b < 256" "c < 256" "d < 256"
        using parseIPv4_ok [OF q(1)] by (auto simp: numeral_eq_Suc length_Suc_conv)
      with q 1(4-6) show ?thesis by (auto split: option.splits)
    next
      case colon
      with room h run have r: "hd r = CHR '':''" "tl r \<noteq> []" by (simp_all split: if_splits)
      show ?thesis
      proof (cases "hd (tl r) = CHR '':''")
        case True
        with room h run colon r have "ell = None" by (simp split: if_splits)
        show ?thesis
        proof (cases "tl (tl r) = []")
          case stop: True
          with True room h run colon r \<open>ell = None\<close> have "gs' = ?gs" "ell' = Some (length ?gs)" by auto
          with ok room h show ?thesis by simp
        next
          case False
          with True room h run colon r \<open>ell = None\<close>
          have "v6_loop ?gs (Some (length ?gs)) (tl (tl r)) = Some (gs', ell')" by simp
          with IH1 room h colon r True False \<open>ell = None\<close> ok show ?thesis by simp
        qed
      next
        case False
        with room h run colon r have "v6_loop ?gs ell (tl r) = Some (gs', ell')" by simp
        with IH2 room h colon r False ok mono show ?thesis by simp
      qed
    qed
  qed
qed

lemma v6_finish_ok:
  assumes "v6_finish (gs, ell) = Some gs'" "length gs \<le> 8" "list_all (\<lambda>g. g < 65536) gs"
    and "case ell of None \<Rightarrow> True | Some e \<Rightarrow> e \<le> length gs"
  shows "length gs' = 8 \<and> list_all (\<lambda>g. g < 65536) gs'"
proof (cases ell)
  case None
  with assms show ?thesis by (simp add: v6_finish_def split: if_splits)
next
  case (Some e)
  then have "gs' = take e gs @ replicate (8 - length gs) 0 @ drop e gs"
    using assms by (simp add: v6_finish_def split: if_splits)
  moreover have "list_all (\<lambda>g. g < 65536) (take e gs @ drop e gs)" using assms by simp
  then have "list_all (\<lambda>g. g < 65536) (take e gs @ replicate (8 - length gs) 0 @ drop e gs)"
    unfolding list_all_append by (simp add: list_all_iff)
  ultimately show ?thesis using assms Some by simp
qed

lemma v6_run_ok:
  assumes "Option.bind (v6_loop [] ell s) v6_finish = Some gs" "ell = None \<or> ell = Some 0"
  shows "length gs = 8 \<and> list_all (\<lambda>g. g < 65536) gs"
proof -
  obtain gs1 ell1 where "v6_loop [] ell s = Some (gs1, ell1)" and fin: "v6_finish (gs1, ell1) = Some gs"
    using assms(1) by (auto simp: bind_eq_Some_conv)
  then have "length gs1 \<le> 8 \<and> list_all (\<lambda>g. g < 65536) gs1
      \<and> (case ell1 of None \<Rightarrow> True | Some e \<Rightarrow> e \<le> length gs1)"
    using assms(2) by (intro v6_loop_ok [of "[]" ell s]) auto
  with fin show ?thesis using v6_finish_ok by blast
qed

lemma parseIPv6_V6:
  assumes "parseIPv6 t = Some a"
  shows "\<exists>gs z. a = V6 gs z \<and> length gs = 8 \<and> list_all (\<lambda>g. g < 65536) gs"
proof -
  define s where "s = takeWhile (\<lambda>c. c \<noteq> CHR ''%'') t"
  show ?thesis
  proof (cases "HasPrefix s ''::'' \<and> length s = 2")
    case True
    with assms show ?thesis
      by (auto simp: parseIPv6_def s_def [symmetric] Let_def list_all_iff split: if_splits)
  next
    case False
    with assms obtain gs ell s' where "a = V6 gs (tl (drop (length s) t))"
      "Option.bind (v6_loop [] ell s') v6_finish = Some gs" "ell = None \<or> ell = Some 0"
      by (auto simp: parseIPv6_def s_def [symmetric] Let_def split: if_splits)
    then show ?thesis using v6_run_ok by blast
  qed
qed

lemma ParseAddr_ok:
  assumes "ParseAddr s = Some a"
  shows "netip_ok a"
proof (cases "find (\<lambda>c. c \<in> {CHR ''.'', CHR '':'', CHR ''%''}) s = Some CHR ''.''")
  case True
  with assms show ?thesis by (auto simp: ParseAddr_def netip_ok_def dest: parseIPv4_ok)
next
  case False
  with assms have "parseIPv6 s = Some a" by (auto simp: ParseAddr_def split: option.splits if_splits)
  then show ?thesis using parseIPv6_V6 by (fastforce simp: netip_ok_def)
qed

section \<open>What a key identifies\<close>

text \<open>The source that a key is meant to stand for: an IPv4 address, or the /64 of an IPv6 address.\<close>

definition source :: "netip \<Rightarrow> nat list + nat list" where
  "source a =
     (case a of V4 q \<Rightarrow> Inl q | V6 gs z \<Rightarrow> if Is4In6 gs then Inl (Unmap gs) else Inr (take 4 gs))"

definition host_of :: "string \<Rightarrow> string" where
  "host_of s = (case SplitHostPort s of None \<Rightarrow> s | Some h \<Rightarrow> h)"

definition key_of :: "nat list + nat list \<Rightarrow> string" where
  "key_of src = (case src of Inl q \<Rightarrow> string4 q | Inr p \<Rightarrow> prefix64 p)"

definition src_ok :: "nat list + nat list \<Rightarrow> bool" where
  "src_ok src =
     (case src of Inl q \<Rightarrow> length q = 4 | Inr p \<Rightarrow> length p = 4)"

lemma ParseAddr_Nil: "ParseAddr [] = None"
  by (simp add: ParseAddr_def)

lemma source_ok: "netip_ok a \<Longrightarrow> src_ok (source a)"
  by (auto simp: netip_ok_def source_def src_ok_def Unmap_def split: netip.splits)

lemma collapse_key_of:
  assumes "ParseAddr (host_of s) = Some a"
  shows "collapseHostPort s = key_of (source a)"
proof (cases a)
  case (V4 q)
  with assms ParseAddr_Nil show ?thesis
    by (cases "s = []") (auto simp: collapseHostPort_def host_of_def source_def key_of_def SplitHostPort_def)
next
  case (V6 gs z)
  have "prefix64 (take 4 gs) = prefix64 gs" by (simp add: prefix64_def)
  with V6 assms ParseAddr_Nil show ?thesis
    by (cases "s = []") (auto simp: collapseHostPort_def host_of_def source_def key_of_def SplitHostPort_def)
qed

text \<open>The text of a masked address: its groups up to the last that is not zero, then the ellipsis.\<close>

definition strip_zeros :: "nat list \<Rightarrow> nat list" where
  "strip_zeros gs = rev (dropWhile (\<lambda>g. g = 0) (rev gs))"

lemma prefix64_string:
  assumes "length p = 4"
  shows "prefix64 p = join '':'' (map (digits 16) (strip_zeros p)) @ ''::/64''"
proof -
  from assms obtain a b c d where p: "p = [a, b, c, d]"
    by (auto simp: numeral_eq_Suc length_Suc_conv)
  have up: "[0..<8] = [0, 1, 2, 3, 4, 5, 6, 7 :: nat]" by (simp add: upt_rec)
  have "zero_run [a, b, c, d, 0, 0, 0, 0] = (length (strip_zeros p), 8)"
    unfolding zero_run_def up p strip_zeros_def
    by (cases "d = 0"; cases "c = 0"; cases "b = 0"; cases "a = 0") (simp_all add: Let_def)
  then show ?thesis
    unfolding p
    by (cases "d = 0"; cases "c = 0"; cases "b = 0"; cases "a = 0")
      (simp_all add: prefix64_def string6_def numeral_eq_Suc strip_zeros_def)
qed

lemma strip_zeros_inject:
  assumes "length p = length q" "strip_zeros p = strip_zeros q"
  shows "p = q"
proof -
  have split: "rev p = replicate (length p - length (strip_zeros p)) 0 @ rev (strip_zeros p)" for p :: "nat list"
  proof -
    have "takeWhile (\<lambda>g. g = 0) (rev p) = replicate (length (takeWhile (\<lambda>g. g = 0) (rev p))) 0"
      by (rule replicate_eqI) (auto dest: set_takeWhileD)
    moreover have "length (takeWhile (\<lambda>g. g = 0) (rev p)) = length p - length (strip_zeros p)"
      unfolding strip_zeros_def
      by (metis add_diff_cancel_right' length_append length_rev takeWhile_dropWhile_id)
    ultimately show ?thesis unfolding strip_zeros_def by (metis rev_rev_ident takeWhile_dropWhile_id)
  qed
  from split [of p] split [of q] assms have "rev p = rev q" by simp
  then show ?thesis by simp
qed

lemma hex_free: "CHR '':'' \<notin> set (digits 16 n)" "CHR ''/'' \<notin> set (digits b n) \<or> b < 2 \<or> 16 < b"
  by (rule digits_free; simp add: digit_value_def) (use digits_free in \<open>force simp: digit_value_def\<close>)

lemma join_Nil_iff: "(\<forall>x \<in> set xs. x \<noteq> []) \<Longrightarrow> join [c] xs = [] \<longleftrightarrow> xs = []"
  by (induction "[c]" xs rule: join.induct) auto

lemma join_digits_inject:
  assumes "digit_value c = None" "2 \<le> b" "b \<le> 16" "join [c] (map (digits b) p) = join [c] (map (digits b) q)"
  shows "p = q"
proof (cases "p = [] \<or> q = []")
  case True
  with assms(4) join_Nil_iff [of "map (digits b) p" c] join_Nil_iff [of "map (digits b) q" c] show ?thesis
    by auto
next
  case False
  with assms have "map (digits b) p = map (digits b) q"
    by (intro join_inject [of _ c]) (auto simp: digits_free)
  then show ?thesis
    using assms digits_inject by (metis (mono_tags, lifting) inj_on_def list.inj_map_strong)
qed

lemma key_of_inject:
  assumes "src_ok s" "src_ok t" "key_of s = key_of t"
  shows "s = t"
proof -
  have slash: "CHR ''/'' \<notin> set (string4 q)" for q
    using set_join [of "CHR ''.''" "map (digits 10) q"]
    by (auto simp: string4_def dest!: subsetD) (use hex_free(2) [of 10] in auto)
  have pslash: "CHR ''/'' \<in> set (prefix64 p)" for p by (simp add: prefix64_def)
  show ?thesis
  proof (cases s; cases t)
    fix p q assume st: "s = Inl p" "t = Inl q"
    with assms have "join ''.'' (map (digits 10) p) = join ''.'' (map (digits 10) q)"
      by (simp add: key_of_def string4_def)
    then have "p = q" by (intro join_digits_inject [of "CHR ''.''" 10]) (simp_all add: digit_value_def)
    with st show ?thesis by simp
  next
    fix p q assume st: "s = Inr p" "t = Inr q"
    with assms have len: "length p = 4" "length q = 4" by (simp_all add: src_ok_def)
    with st assms have "join '':'' (map (digits 16) (strip_zeros p)) = join '':'' (map (digits 16) (strip_zeros q))"
      by (simp add: key_of_def prefix64_string)
    then have "strip_zeros p = strip_zeros q"
      by (intro join_digits_inject [of "CHR '':''" 16]) (simp_all add: digit_value_def)
    with st len show ?thesis using strip_zeros_inject by simp
  next
    fix p q assume "s = Inl p" "t = Inr q"
    with assms slash [of p] pslash [of q] show ?thesis by (simp add: key_of_def)
  next
    fix p q assume "s = Inr p" "t = Inl q"
    with assms slash [of q] pslash [of p] show ?thesis by (simp add: key_of_def)
  qed
qed

text \<open>
  Two remote addresses whose hosts parse get the same key exactly when they are one source:
  the same IPv4 address, written plainly or mapped into IPv6, or IPv6 addresses of one /64,
  whatever the port, the zone, the low 64 bits or the way the address is written.
\<close>

theorem key_identifies_source:
  assumes "ParseAddr (host_of s) = Some a" and "ParseAddr (host_of t) = Some b"
  shows "CollapseIP (Some s) = CollapseIP (Some t) \<longleftrightarrow> source a = source b"
  using assms key_of_inject source_ok ParseAddr_ok
  by (auto simp: CollapseIP_def collapse_key_of)

lemma replicate_3: "replicate 3 x = [x, x, x]"
  by (simp add: numeral_eq_Suc)

lemmas parse_simps = host_of_def SplitHostPort_def ParseAddr_def parseIPv6_def HasPrefix_def v6_loop.simps
  v6_finish_def number_def digit_value_def parseIPv4_def parse_field_def replicate_3

lemma demo_hosts:
  "ParseAddr (host_of ''[2001:db8:1:2::7]:22'') = Some (V6 [8193, 3512, 1, 2, 0, 0, 0, 7] [])"
  "ParseAddr (host_of ''2001:DB8:1:2:ffff:0:192.0.2.1'') = Some (V6 [8193, 3512, 1, 2, 65535, 0, 49152, 513] [])"
  by (simp_all add: parse_simps)

theorem key_identifies_source_witness:
  "CollapseIP (Some ''[2001:db8:1:2::7]:22'') = CollapseIP (Some ''2001:DB8:1:2:ffff:0:192.0.2.1'')"
  using key_identifies_source [OF demo_hosts]
  by (simp add: source_def Is4In6_def)

end
