(* ===== verification/NetLimit.thy ===== *)
theory NetLimit
  imports IpKey Complex_Main
begin

text \<open>
  The connection gates of the SSH listener (\<^verbatim>\<open>src/internal/security/netlimit\<close>): the per-source
  cap on open connections and token bucket with the collector of idle entries
  (\<^verbatim>\<open>tracker.go\<close>), the accept loop over them (\<^verbatim>\<open>listener.go\<close>), the process-wide cap on
  unauthenticated handshakes, and the connection wrapper that gives its slot back once
  (\<^verbatim>\<open>deadline_conn.go\<close>), as the transport uses them.

  An \<open>*ipState\<close> is an index into the store \<open>states\<close>, because a connection keeps its pointer after
  the collector removed the entry from the map.  The bucket of \<open>golang.org/x/time/rate\<close> is a
  parameter: the pair \<open>rl\<close> of its constructor and its \<open>Allow\<close> at a time.  Times are nanoseconds.
\<close>

section \<open>State\<close>

record Config =
  MaxConnPerIP :: int
  PerIPRate :: rat
  PerIPBurst :: int
  MaxUnauthHandshakes :: int
  IdleEvict :: int

datatype RejectReason = RejectIPConcurrent | RejectIPRate | RejectGlobalUnauth | RejectIPBanned

record 'b ipState =
  concurrent :: int
  lastSeenNs :: int
  bucket :: "'b option"

record 'b Tracker =
  cfg :: Config
  perIP :: "(string \<times> nat) list"
  states :: "'b ipState list"
  global :: int
  rejected :: "(string option \<times> RejectReason) list"

type_synonym 'b limiter = "(rat \<Rightarrow> int \<Rightarrow> 'b) \<times> (int \<Rightarrow> 'b \<Rightarrow> bool \<times> 'b)"

definition five_minutes :: int where
  "five_minutes = 300000000000"

definition NewTracker :: "Config \<Rightarrow> 'b Tracker" where
  "NewTracker c =
     \<lparr>cfg = (if IdleEvict c \<le> 0 then c\<lparr>IdleEvict := five_minutes\<rparr> else c), perIP = [], states = [],
      global = 0, rejected = []\<rparr>"

definition UpdateConfig :: "Config \<Rightarrow> 'b Tracker \<Rightarrow> 'b Tracker" where
  "UpdateConfig c t = t\<lparr>cfg := (if IdleEvict c \<le> 0 then c\<lparr>IdleEvict := IdleEvict (cfg t)\<rparr> else c)\<rparr>"

section \<open>The atomic operations\<close>

definition upd_state :: "nat \<Rightarrow> ('b ipState \<Rightarrow> 'b ipState) \<Rightarrow> 'b Tracker \<Rightarrow> 'b Tracker" where
  "upd_state p f t = t\<lparr>states := (states t)[p := f (states t ! p)]\<rparr>"

definition gc :: "int \<Rightarrow> 'b Tracker \<Rightarrow> 'b Tracker" where
  "gc now t =
     (let cutoff = now - IdleEvict (cfg t)
      in t\<lparr>perIP := filter (\<lambda>(k, p). \<not> (concurrent (states t ! p) = 0 \<and> lastSeenNs (states t ! p) < cutoff))
                    (perIP t)\<rparr>)"

definition getOrCreate :: "'b limiter \<Rightarrow> string \<Rightarrow> 'b Tracker \<Rightarrow> nat \<times> 'b Tracker" where
  "getOrCreate rl key t =
     (case map_of (perIP t) key of
        Some p \<Rightarrow> (p, t)
      | None \<Rightarrow>
          (let p = length (states t); c = cfg t;
               st = \<lparr>concurrent = 0, lastSeenNs = 0,
                     bucket = (if PerIPRate c > 0 \<and> PerIPBurst c > 0
                               then Some (fst rl (PerIPRate c) (PerIPBurst c)) else None)\<rparr>
           in (p, t\<lparr>perIP := (key, p) # perIP t, states := states t @ [st]\<rparr>)))"

definition take_token :: "'b limiter \<Rightarrow> int \<Rightarrow> nat \<Rightarrow> 'b Tracker \<Rightarrow> bool \<times> 'b Tracker" where
  "take_token rl now p t =
     (case bucket (states t ! p) of
        None \<Rightarrow> (True, t)
      | Some b \<Rightarrow> (case snd rl now b of (okay, b') \<Rightarrow> (okay, upd_state p (bucket_update (\<lambda>_. Some b')) t)))"

definition add_concurrent :: "nat \<Rightarrow> int \<Rightarrow> 'b Tracker \<Rightarrow> int \<times> 'b Tracker" where
  "add_concurrent p d t =
     (let n = concurrent (states t ! p) + d in (n, upd_state p (concurrent_update (\<lambda>_. n)) t))"

definition touch :: "int \<Rightarrow> nat \<Rightarrow> 'b Tracker \<Rightarrow> 'b Tracker" where
  "touch now p = upd_state p (lastSeenNs_update (\<lambda>_. now))"

definition reject :: "string option \<Rightarrow> RejectReason \<Rightarrow> 'b Tracker \<Rightarrow> 'b Tracker" where
  "reject addr why t = t\<lparr>rejected := rejected t @ [(addr, why)]\<rparr>"

section \<open>Acquiring and releasing a connection\<close>

text \<open>
  What a caller gets: no gating for an address without a key, a release for the entry \<open>p\<close> with the
  cap \<open>mx\<close> read at that moment, or the reason of the refusal.
\<close>

datatype acquired = Ungated | Admitted nat int | Refused RejectReason

definition AcquireConn ::
  "(string \<Rightarrow> bool) option \<Rightarrow> 'b limiter \<Rightarrow> int \<Rightarrow> string option \<Rightarrow> 'b Tracker \<Rightarrow> acquired \<times> 'b Tracker" where
  "AcquireConn banned rl now addr t =
     (let key = CollapseIP addr in
      if key = [] then (Ungated, t)
      else if (case banned of None \<Rightarrow> False | Some b \<Rightarrow> b key)
        then (Refused RejectIPBanned, reject addr RejectIPBanned t)
      else
        (case getOrCreate rl key t of (p, t1) \<Rightarrow>
         case take_token rl now p t1 of (okay, t2) \<Rightarrow>
           if \<not> okay then (Refused RejectIPRate, reject addr RejectIPRate t2)
           else
             (let mx = MaxConnPerIP (cfg t) in
              if mx > 0 then
                (case add_concurrent p 1 t2 of (n, t3) \<Rightarrow>
                   if n > mx then
                     (Refused RejectIPConcurrent, reject addr RejectIPConcurrent (snd (add_concurrent p (- 1) t3)))
                   else (Admitted p mx, touch now p t3))
              else (Admitted p mx, touch now p t2))))"

definition release :: "int \<Rightarrow> nat \<Rightarrow> int \<Rightarrow> 'b Tracker \<Rightarrow> 'b Tracker" where
  "release now p mx t = touch now p (if mx > 0 then snd (add_concurrent p (- 1) t) else t)"

text \<open>A wrapped connection: what was acquired and whether it was released.\<close>

record trackedConn =
  tcSlot :: acquired
  tcReleased :: bool

definition tc_Close :: "int \<Rightarrow> trackedConn \<Rightarrow> 'b Tracker \<Rightarrow> trackedConn \<times> 'b Tracker" where
  "tc_Close now c t =
     (if tcReleased c then (c, t)
      else (c\<lparr>tcReleased := True\<rparr>, case tcSlot c of Admitted p mx \<Rightarrow> release now p mx t | _ \<Rightarrow> t))"

text \<open>
  \<open>Accept\<close> over what the inner listener returns, an error (\<open>None\<close>) or a connection from an
  address at a time.  The first component counts the refused connections it closed on the way.
\<close>

fun Accept ::
  "(string \<Rightarrow> bool) option \<Rightarrow> 'b limiter \<Rightarrow> (int \<times> string option) option list \<Rightarrow> 'b Tracker
   \<Rightarrow> nat \<times> trackedConn option \<times> (int \<times> string option) option list \<times> 'b Tracker" where
  "Accept banned rl [] t = (0, None, [], t)"
| "Accept banned rl (None # inc) t = (0, None, inc, t)"
| "Accept banned rl (Some (now, addr) # inc) t =
     (case AcquireConn banned rl now addr t of
        (Refused r, t') \<Rightarrow> (case Accept banned rl inc t' of (n, res) \<Rightarrow> (Suc n, res))
      | (got, t') \<Rightarrow> (0, Some \<lparr>tcSlot = got, tcReleased = False\<rparr>, inc, t'))"

section \<open>Connections in parallel\<close>

text \<open>
  Every accepted connection runs \<open>AcquireConn\<close> and later its release while others do the same and
  the collector runs.  A connection is at one of these points of the code; its source's key comes
  with it.  Each step is one atomic operation of the source.
\<close>

datatype conn =
    Looked string nat int \<comment> \<open>after \<open>getOrCreate\<close>\<close>
  | Tokened string nat int \<comment> \<open>after the token bucket\<close>
  | Over string nat int \<comment> \<open>the increment went over the cap, not undone yet\<close>
  | Counted string nat int \<comment> \<open>counted, \<open>lastSeenNs\<close> not stored yet\<close>
  | Open string nat int \<comment> \<open>admitted\<close>
  | Closing nat \<comment> \<open>released, \<open>lastSeenNs\<close> not stored yet\<close>
  | Gone

record 'b sys =
  tracker :: "'b Tracker"
  conns :: "conn list"

fun counted :: "nat \<Rightarrow> conn \<Rightarrow> bool" where
  "counted p (Over k q mx) = (q = p)"
| "counted p (Counted k q mx) = (q = p \<and> mx > 0)"
| "counted p (Open k q mx) = (q = p \<and> mx > 0)"
| "counted p _ = False"

fun admitted_at :: "nat \<Rightarrow> conn \<Rightarrow> bool" where
  "admitted_at p (Counted k q mx) = (q = p \<and> mx > 0)"
| "admitted_at p (Open k q mx) = (q = p \<and> mx > 0)"
| "admitted_at p _ = False"

text \<open>The admitted connections of a source, the ones between lookup and count, the entry held.\<close>

fun open_of :: "string \<Rightarrow> conn \<Rightarrow> bool" where
  "open_of k (Open k' q mx) = (k' = k)"
| "open_of k _ = False"

fun in_window :: "conn \<Rightarrow> bool" where
  "in_window (Looked k q mx) = True"
| "in_window (Tokened k q mx) = True"
| "in_window _ = False"

fun held :: "conn \<Rightarrow> (string \<times> nat \<times> int) option" where
  "held (Looked k q mx) = Some (k, q, mx)"
| "held (Tokened k q mx) = Some (k, q, mx)"
| "held (Over k q mx) = Some (k, q, mx)"
| "held (Counted k q mx) = Some (k, q, mx)"
| "held (Open k q mx) = Some (k, q, mx)"
| "held _ = None"

text \<open>
  The flag tells whether the collector may run while a connection is between its lookup and its
  count (\<open>True\<close>: as the code allows it).
\<close>

inductive nl_step :: "bool \<Rightarrow> (string \<Rightarrow> bool) option \<Rightarrow> 'b limiter \<Rightarrow> 'b sys \<Rightarrow> 'b sys \<Rightarrow> bool"
  for racy banned rl where
  Arrive: "\<lbrakk>CollapseIP addr = key; key \<noteq> []; \<not> (case banned of None \<Rightarrow> False | Some b \<Rightarrow> b key);
     getOrCreate rl key (tracker s) = (p, t)\<rbrakk>
   \<Longrightarrow> nl_step racy banned rl s
        (s\<lparr>tracker := t, conns := conns s @ [Looked key p (MaxConnPerIP (cfg (tracker s)))]\<rparr>)"
| Ban: "\<lbrakk>CollapseIP addr = key; key \<noteq> []; banned = Some b; b key\<rbrakk>
   \<Longrightarrow> nl_step racy banned rl s
        (s\<lparr>tracker := reject addr RejectIPBanned (tracker s), conns := conns s @ [Gone]\<rparr>)"
| Token: "\<lbrakk>i < length (conns s); conns s ! i = Looked k p mx; take_token rl now p (tracker s) = (okay, t)\<rbrakk>
   \<Longrightarrow> nl_step racy banned rl s
        (if okay then s\<lparr>tracker := t, conns := (conns s)[i := Tokened k p mx]\<rparr>
         else s\<lparr>tracker := reject addr RejectIPRate t, conns := (conns s)[i := Gone]\<rparr>)"
| Count: "\<lbrakk>i < length (conns s); conns s ! i = Tokened k p mx; mx > 0;
     add_concurrent p 1 (tracker s) = (n, t)\<rbrakk>
   \<Longrightarrow> nl_step racy banned rl s
        (s\<lparr>tracker := t, conns := (conns s)[i := (if n > mx then Over k p mx else Counted k p mx)]\<rparr>)"
| Uncapped: "\<lbrakk>i < length (conns s); conns s ! i = Tokened k p mx; mx \<le> 0\<rbrakk>
   \<Longrightarrow> nl_step racy banned rl s (s\<lparr>conns := (conns s)[i := Counted k p mx]\<rparr>)"
| Undo: "\<lbrakk>i < length (conns s); conns s ! i = Over k p mx; add_concurrent p (- 1) (tracker s) = (n, t)\<rbrakk>
   \<Longrightarrow> nl_step racy banned rl s
        (s\<lparr>tracker := reject addr RejectIPConcurrent t, conns := (conns s)[i := Gone]\<rparr>)"
| Admit: "\<lbrakk>i < length (conns s); conns s ! i = Counted k p mx\<rbrakk>
   \<Longrightarrow> nl_step racy banned rl s
        (s\<lparr>tracker := touch now p (tracker s), conns := (conns s)[i := Open k p mx]\<rparr>)"
| Close: "\<lbrakk>i < length (conns s); conns s ! i = Open k p mx\<rbrakk>
   \<Longrightarrow> nl_step racy banned rl s
        (s\<lparr>tracker := (if mx > 0 then snd (add_concurrent p (- 1) (tracker s)) else tracker s),
           conns := (conns s)[i := Closing p]\<rparr>)"
| Closed: "\<lbrakk>i < length (conns s); conns s ! i = Closing p\<rbrakk>
   \<Longrightarrow> nl_step racy banned rl s
        (s\<lparr>tracker := touch now p (tracker s), conns := (conns s)[i := Gone]\<rparr>)"
| Gc: "racy \<or> list_all (\<lambda>c. \<not> in_window c) (conns s)
   \<Longrightarrow> nl_step racy banned rl s (s\<lparr>tracker := gc now (tracker s)\<rparr>)"

inductive nl_reach :: "bool \<Rightarrow> (string \<Rightarrow> bool) option \<Rightarrow> 'b limiter \<Rightarrow> Config \<Rightarrow> 'b sys \<Rightarrow> bool"
  for racy banned rl c where
  start: "nl_reach racy banned rl c \<lparr>tracker = NewTracker c, conns = []\<rparr>"
| step: "nl_reach racy banned rl c s \<Longrightarrow> nl_step racy banned rl s s' \<Longrightarrow> nl_reach racy banned rl c s'"

section \<open>The counters are exact\<close>

definition howmany :: "('a \<Rightarrow> bool) \<Rightarrow> 'a list \<Rightarrow> int" where
  "howmany P xs = sum_list (map (\<lambda>x. if P x then 1 else 0) xs)"

lemma howmany_Nil [simp]: "howmany P [] = 0"
  by (simp add: howmany_def)

lemma howmany_snoc [simp]: "howmany P (xs @ [x]) = howmany P xs + (if P x then 1 else 0)"
  by (simp add: howmany_def)

lemma howmany_nonneg [simp]: "0 \<le> howmany P xs"
  unfolding howmany_def by (intro sum_list_nonneg) auto

lemma howmany_update:
  "i < length xs \<Longrightarrow>
     howmany P (xs[i := x]) = howmany P xs - (if P (xs ! i) then 1 else 0) + (if P x then 1 else 0)"
  unfolding howmany_def by (rule sum_list_update)

lemma howmany_pos: "x \<in> set xs \<Longrightarrow> P x \<Longrightarrow> 1 \<le> howmany P xs"
  using sum_list_nonneg_elem_le [of xs "\<lambda>x. if P x then 1 else 0" x] by (simp add: howmany_def)

lemma howmany_mono: "(\<And>x. x \<in> set xs \<Longrightarrow> P x \<Longrightarrow> Q x) \<Longrightarrow> howmany P xs \<le> howmany Q xs"
  unfolding howmany_def by (intro sum_list_mono) auto

lemma howmany_zero: "\<forall>x \<in> set xs. \<not> P x \<Longrightarrow> howmany P xs = 0"
  by (induction xs) (simp_all add: howmany_def)

definition nl_inv :: "int \<Rightarrow> 'b sys \<Rightarrow> bool" where
  "nl_inv m s \<longleftrightarrow>
     MaxConnPerIP (cfg (tracker s)) = m
     \<and> (\<forall>p < length (states (tracker s)).
          concurrent (states (tracker s) ! p) = howmany (counted p) (conns s)
          \<and> (0 < m \<longrightarrow> howmany (admitted_at p) (conns s) \<le> m))
     \<and> (\<forall>c \<in> set (conns s). \<forall>k p mx. held c = Some (k, p, mx) \<longrightarrow> p < length (states (tracker s)) \<and> mx = m)
     \<and> (\<forall>k p. map_of (perIP (tracker s)) k = Some p \<longrightarrow> p < length (states (tracker s)))
     \<and> distinct (map fst (perIP (tracker s)))"

lemma upd_state_simps [simp]:
  "cfg (upd_state p f t) = cfg t" "perIP (upd_state p f t) = perIP t"
  "length (states (upd_state p f t)) = length (states t)"
  by (simp_all add: upd_state_def)

lemma upd_state_concurrent:
  "(\<And>st. concurrent (f st) = concurrent st) \<Longrightarrow>
     q < length (states t) \<Longrightarrow> concurrent (states (upd_state p f t) ! q) = concurrent (states t ! q)"
  by (cases "p < length (states t)") (auto simp: upd_state_def nth_list_update)

lemma touch_simps [simp]:
  "cfg (touch now p t) = cfg t" "perIP (touch now p t) = perIP t"
  "length (states (touch now p t)) = length (states t)"
  "q < length (states t) \<Longrightarrow> concurrent (states (touch now p t) ! q) = concurrent (states t ! q)"
  by (simp_all add: touch_def upd_state_concurrent)

lemma reject_simps [simp]:
  "cfg (reject a w t) = cfg t" "perIP (reject a w t) = perIP t" "states (reject a w t) = states t"
  "global (reject a w t) = global t"
  by (simp_all add: reject_def)

lemma take_token_frame:
  assumes "take_token rl now p t = (okay, t')"
  shows "cfg t' = cfg t" "perIP t' = perIP t" "length (states t') = length (states t)"
    "q < length (states t) \<Longrightarrow> concurrent (states t' ! q) = concurrent (states t ! q)"
  using assms by (auto simp: take_token_def upd_state_concurrent split: option.splits prod.splits)

lemma add_concurrent_frame:
  assumes "add_concurrent p d t = (n, t')"
  shows "cfg t' = cfg t" "perIP t' = perIP t" "length (states t') = length (states t)"
    "n = concurrent (states t ! p) + d"
    "q < length (states t) \<Longrightarrow>
       concurrent (states t' ! q) = (if q = p then concurrent (states t ! q) + d else concurrent (states t ! q))"
  using assms by (auto simp: add_concurrent_def Let_def upd_state_def nth_list_update)

lemma getOrCreate_frame:
  assumes "getOrCreate rl k t = (p, t')" "distinct (map fst (perIP t))"
    and "\<forall>k p. map_of (perIP t) k = Some p \<longrightarrow> p < length (states t)"
  shows "cfg t' = cfg t" "length (states t) \<le> length (states t')" "p < length (states t')"
    "map_of (perIP t') k = Some p" "distinct (map fst (perIP t'))"
    "\<forall>k p. map_of (perIP t') k = Some p \<longrightarrow> p < length (states t')"
    "k' \<noteq> k \<Longrightarrow> map_of (perIP t') k' = map_of (perIP t) k'"
    "map_of (perIP t) k = Some q \<Longrightarrow> q = p"
    "q < length (states t') \<Longrightarrow>
       concurrent (states t' ! q) = (if q < length (states t) then concurrent (states t ! q) else 0)"
proof -
  have "cfg t' = cfg t \<and> length (states t) \<le> length (states t') \<and> p < length (states t')
      \<and> map_of (perIP t') k = Some p \<and> distinct (map fst (perIP t'))
      \<and> (\<forall>k p. map_of (perIP t') k = Some p \<longrightarrow> p < length (states t'))
      \<and> (k' \<noteq> k \<longrightarrow> map_of (perIP t') k' = map_of (perIP t) k')
      \<and> (map_of (perIP t) k = Some q \<longrightarrow> q = p)
      \<and> (q < length (states t') \<longrightarrow>
         concurrent (states t' ! q) = (if q < length (states t) then concurrent (states t ! q) else 0))"
  proof (cases "map_of (perIP t) k")
    case None
    then have "k \<notin> fst ` set (perIP t)" by (simp add: map_of_eq_None_iff)
    with None assms show ?thesis
      by (auto simp: getOrCreate_def Let_def nth_append less_Suc_eq split: if_splits)
  next
    case (Some q)
    with assms show ?thesis by (auto simp: getOrCreate_def)
  qed
  then show "cfg t' = cfg t" "length (states t) \<le> length (states t')" "p < length (states t')"
    "map_of (perIP t') k = Some p" "distinct (map fst (perIP t'))"
    "\<forall>k p. map_of (perIP t') k = Some p \<longrightarrow> p < length (states t')"
    "k' \<noteq> k \<Longrightarrow> map_of (perIP t') k' = map_of (perIP t) k'"
    "map_of (perIP t) k = Some q \<Longrightarrow> q = p"
    "q < length (states t') \<Longrightarrow>
       concurrent (states t' ! q) = (if q < length (states t) then concurrent (states t ! q) else 0)"
    by blast+
qed

lemma gc_simps [simp]: "cfg (gc now t) = cfg t" "states (gc now t) = states t"
  by (simp_all add: gc_def Let_def)

lemma lookup_kept:
  assumes "distinct (map fst entries)"
  shows "map_of (filter keep entries) k = Some p \<longleftrightarrow> map_of entries k = Some p \<and> keep (k, p)"
  using assms by (simp add: map_of_eq_Some_iff distinct_map_filter conj_commute)

lemma gc_perIP:
  assumes "distinct (map fst (perIP t))"
  shows "distinct (map fst (perIP (gc now t)))"
    "map_of (perIP (gc now t)) k = Some p \<Longrightarrow> map_of (perIP t) k = Some p"
    "map_of (perIP t) k = Some p \<Longrightarrow> concurrent (states t ! p) \<noteq> 0 \<Longrightarrow> map_of (perIP (gc now t)) k = Some p"
  using assms
  by (auto simp: gc_def Let_def lookup_kept distinct_map_filter)

lemma nl_inv_start: "nl_inv (MaxConnPerIP c) \<lparr>tracker = NewTracker c, conns = []\<rparr>"
  by (simp add: nl_inv_def NewTracker_def)

text \<open>One connection moving on while the counter it holds follows.\<close>

lemma nl_inv_move:
  assumes inv: "nl_inv m s" and i: "i < length (conns s)"
    and frame: "cfg t = cfg (tracker s)" "perIP t = perIP (tracker s)"
      "length (states t) = length (states (tracker s))"
    and held: "\<And>k p mx. held c = Some (k, p, mx) \<Longrightarrow> held (conns s ! i) = Some (k, p, mx)"
    and count: "\<And>q. q < length (states t) \<Longrightarrow>
       concurrent (states t ! q) = concurrent (states (tracker s) ! q)
         - (if counted q (conns s ! i) then 1 else 0) + (if counted q c then 1 else 0)"
    and cap: "\<And>q. q < length (states t) \<Longrightarrow> 0 < m \<Longrightarrow> admitted_at q c \<Longrightarrow> \<not> admitted_at q (conns s ! i) \<Longrightarrow>
       howmany (admitted_at q) (conns s) < m"
  shows "nl_inv m (s\<lparr>tracker := t, conns := (conns s)[i := c]\<rparr>)"
  unfolding nl_inv_def
proof (intro conjI allI impI ballI)
  have e: "\<forall>c \<in> set (conns s). \<forall>k p mx. held c = Some (k, p, mx) \<longrightarrow> p < length (states (tracker s)) \<and> mx = m"
    using inv by (simp add: nl_inv_def)
  fix d k p mx
  assume d: "d \<in> set (conns (s\<lparr>tracker := t, conns := (conns s)[i := c]\<rparr>))" and h: "held d = Some (k, p, mx)"
  have "held d = Some (k, p, mx) \<longrightarrow> (\<exists>d' \<in> set (conns s). held d' = Some (k, p, mx))"
    using d held i by (auto dest!: set_update_subset_insert [THEN subsetD])
  with e h frame show "p < length (states (tracker (s\<lparr>tracker := t, conns := (conns s)[i := c]\<rparr>)))" "mx = m"
    by auto
next
  fix q assume q: "q < length (states (tracker (s\<lparr>tracker := t, conns := (conns s)[i := c]\<rparr>)))"
  then show "concurrent (states (tracker (s\<lparr>tracker := t, conns := (conns s)[i := c]\<rparr>)) ! q)
      = howmany (counted q) (conns (s\<lparr>tracker := t, conns := (conns s)[i := c]\<rparr>))"
    using inv frame count [of q] i by (simp add: nl_inv_def howmany_update)
  assume "0 < m"
  with q show "howmany (admitted_at q) (conns (s\<lparr>tracker := t, conns := (conns s)[i := c]\<rparr>)) \<le> m"
    using inv frame cap [of q] i by (auto simp: nl_inv_def howmany_update)
qed (use inv frame in \<open>auto simp: nl_inv_def\<close>)

lemma nl_inv_heldD:
  "nl_inv m s \<Longrightarrow> c \<in> set (conns s) \<Longrightarrow> held c = Some (k, p, mx) \<Longrightarrow>
     p < length (states (tracker s)) \<and> mx = m"
  unfolding nl_inv_def by blast

lemma nl_inv_held:
  assumes "nl_inv m s" "i < length (conns s)" "held (conns s ! i) = Some (k, p, mx)"
  shows "p < length (states (tracker s))" "mx = m"
  using assms nth_mem [OF assms(2)] unfolding nl_inv_def by blast+

lemma nl_inv_counter:
  assumes "nl_inv m s" "p < length (states (tracker s))"
  shows "concurrent (states (tracker s) ! p) = howmany (counted p) (conns s)"
  using assms by (simp add: nl_inv_def)

lemma admitted_counted: "howmany (admitted_at p) xs \<le> howmany (counted p) xs"
proof (rule howmany_mono)
  fix x show "admitted_at p x \<Longrightarrow> counted p x" by (cases x) auto
qed

lemma nl_step_inv:
  assumes "nl_step racy banned rl s s'" "nl_inv m s"
  shows "nl_inv m s'"
  using assms
proof (induction rule: nl_step.cases)
  case (Arrive addr key s p t)
  have inv: "nl_inv m s" using Arrive by simp
  then have "distinct (map fst (perIP (tracker s)))"
    "\<forall>k p. map_of (perIP (tracker s)) k = Some p \<longrightarrow> p < length (states (tracker s))"
    by (simp_all add: nl_inv_def)
  note frame = getOrCreate_frame [OF Arrive(6) this]
  have fresh: "howmany (counted q) (conns s) = 0 \<and> howmany (admitted_at q) (conns s) = 0"
    if "\<not> q < length (states (tracker s))" for q
  proof -
    have "\<not> counted q c" if "c \<in> set (conns s)" for c
      using inv that \<open>\<not> q < _\<close> unfolding nl_inv_def by (cases c) fastforce+
    then show ?thesis using admitted_counted [of q "conns s"] howmany_zero [of "conns s" "counted q"]
      by (smt (verit) howmany_nonneg)
  qed
  show ?case
    unfolding Arrive(2) nl_inv_def
  proof (intro conjI allI impI ballI)
    fix q assume "q < length (states (tracker (s\<lparr>tracker := t,
        conns := conns s @ [Looked key p (MaxConnPerIP (cfg (tracker s)))]\<rparr>)))"
    then show "concurrent (states (tracker (s\<lparr>tracker := t,
        conns := conns s @ [Looked key p (MaxConnPerIP (cfg (tracker s)))]\<rparr>)) ! q)
      = howmany (counted q) (conns (s\<lparr>tracker := t,
        conns := conns s @ [Looked key p (MaxConnPerIP (cfg (tracker s)))]\<rparr>))"
      using frame(9) [of q] fresh [of q] nl_inv_counter [OF inv, of q] by (simp split: if_splits)
    assume "0 < m"
    show "howmany (admitted_at q) (conns (s\<lparr>tracker := t,
        conns := conns s @ [Looked key p (MaxConnPerIP (cfg (tracker s)))]\<rparr>)) \<le> m"
      using \<open>0 < m\<close> inv fresh [of q] by (cases "q < length (states (tracker s))") (simp_all add: nl_inv_def)
  qed (use inv frame in \<open>auto simp: nl_inv_def dest: less_le_trans\<close>)
next
  case (Ban addr key b s)
  then show ?case by (simp add: nl_inv_def)
next
  case (Token i s k p mx now okay t)
  note frame = take_token_frame [OF Token(5)]
  show ?case
  proof (cases okay)
    case True
    with Token frame show ?thesis by (auto intro!: nl_inv_move)
  next
    case False
    with Token frame show ?thesis by (auto intro!: nl_inv_move)
  qed
next
  case (Count i s k p mx n t)
  note frame = add_concurrent_frame [OF Count(6)]
  have p: "p < length (states (tracker s))" "mx = m" using nl_inv_held [of m s i] Count by auto
  with Count have n: "n = howmany (counted p) (conns s) + 1" using frame(4) nl_inv_counter by simp
  have "howmany (admitted_at p) (conns s) < m" if "n \<le> mx"
    using that n p admitted_counted [of p "conns s"] by linarith
  with Count frame p show ?case by (auto intro!: nl_inv_move split: if_splits)
next
  case (Uncapped i s k p mx)
  then have "nl_inv m (s\<lparr>tracker := tracker s, conns := (conns s)[i := Counted k p mx]\<rparr>)"
    by (intro nl_inv_move) auto
  with Uncapped show ?case by simp
next
  case (Undo i s k p mx n t addr)
  note frame = add_concurrent_frame [OF Undo(5)]
  with Undo show ?case by (auto intro!: nl_inv_move)
next
  case (Admit i s k p mx now)
  then show ?case by (auto intro!: nl_inv_move)
next
  case (Close i s k p mx)
  obtain n t where a: "add_concurrent p (- 1) (tracker s) = (n, t)" by fastforce
  note frame = add_concurrent_frame [OF a]
  show ?case
  proof (cases "mx > 0")
    case True
    with Close a frame show ?thesis by (auto intro!: nl_inv_move)
  next
    case False
    then have "nl_inv m (s\<lparr>tracker := tracker s, conns := (conns s)[i := Closing p]\<rparr>)"
      using Close by (intro nl_inv_move) auto
    with False Close show ?thesis by simp
  qed
next
  case (Closed i s p now)
  then show ?case by (auto intro!: nl_inv_move)
next
  case (Gc s now)
  then have inv: "nl_inv m s" by simp
  then have d: "distinct (map fst (perIP (tracker s)))"
    and v: "\<forall>k p. map_of (perIP (tracker s)) k = Some p \<longrightarrow> p < length (states (tracker s))"
    unfolding nl_inv_def by blast+
  have "\<forall>k p. map_of (perIP (gc now (tracker s))) k = Some p \<longrightarrow> p < length (states (tracker s))"
    using v gc_perIP(2) [OF d] by blast
  with inv gc_perIP(1) [OF d] Gc show ?case by (simp only: nl_inv_def) simp
qed

lemma nl_reach_inv: "nl_reach racy banned rl c s \<Longrightarrow> nl_inv (MaxConnPerIP c) s"
proof (induction rule: nl_reach.induct)
  case start
  then show ?case by (rule nl_inv_start)
next
  case (step s s')
  then show ?case using nl_step_inv by blast
qed

section \<open>One entry per source while the collector keeps clear\<close>

definition one_entry :: "'b sys \<Rightarrow> bool" where
  "one_entry s \<longleftrightarrow>
     (\<forall>c \<in> set (conns s). \<forall>k p mx. held c = Some (k, p, mx) \<longrightarrow> 0 < mx \<longrightarrow>
        map_of (perIP (tracker s)) k = Some p)"

lemma one_entryD:
  "one_entry s \<Longrightarrow> c \<in> set (conns s) \<Longrightarrow> held c = Some (k, p, mx) \<Longrightarrow> 0 < mx \<Longrightarrow>
     map_of (perIP (tracker s)) k = Some p"
  unfolding one_entry_def by blast

lemma one_entry_move:
  assumes "one_entry s" "i < length (conns s)" "perIP t = perIP (tracker s)"
    and "\<And>k p mx. held c = Some (k, p, mx) \<Longrightarrow> held (conns s ! i) = Some (k, p, mx)"
  shows "one_entry (s\<lparr>tracker := t, conns := (conns s)[i := c]\<rparr>)"
proof -
  have "map_of (perIP t) k = Some p"
    if d: "d \<in> set ((conns s)[i := c])" and h: "held d = Some (k, p, mx)" "0 < mx" for d k p mx
  proof -
    have "\<exists>e \<in> set (conns s). held e = Some (k, p, mx)"
      using set_update_subset_insert [THEN subsetD, OF d] assms(2,4) h(1) by auto
    with assms(1,3) h(2) show ?thesis using one_entryD by fastforce
  qed
  then show ?thesis by (simp add: one_entry_def)
qed

lemma one_entry_gc:
  assumes inv: "nl_inv m s" and one: "one_entry s" and quiet: "list_all (\<lambda>c. \<not> in_window c) (conns s)"
  shows "one_entry (s\<lparr>tracker := gc now (tracker s)\<rparr>)"
  unfolding one_entry_def
proof (intro ballI allI impI)
  fix c k p mx
  assume "c \<in> set (conns (s\<lparr>tracker := gc now (tracker s)\<rparr>))" and h: "held c = Some (k, p, mx)" and mx: "0 < mx"
  then have c: "c \<in> set (conns s)" by simp
  with one h mx have "map_of (perIP (tracker s)) k = Some p" by (simp add: one_entry_def)
  moreover have "counted p c" using quiet c h mx by (cases c) (auto simp: list_all_iff)
  then have "concurrent (states (tracker s) ! p) \<noteq> 0"
    using howmany_pos [OF c, of "counted p"] nl_inv_heldD [OF inv c h] nl_inv_counter [OF inv, of p] by simp
  ultimately show "map_of (perIP (tracker (s\<lparr>tracker := gc now (tracker s)\<rparr>))) k = Some p"
    using inv by (simp add: nl_inv_def gc_perIP(3))
qed

lemma nl_step_one_entry:
  assumes "nl_step False banned rl s s'" "nl_inv m s" "one_entry s"
  shows "one_entry s'"
  using assms
proof (induction rule: nl_step.cases)
  case (Arrive addr key s p t)
  have "distinct (map fst (perIP (tracker s)))"
    "\<forall>k p. map_of (perIP (tracker s)) k = Some p \<longrightarrow> p < length (states (tracker s))"
    using Arrive by (simp_all add: nl_inv_def)
  note frame = getOrCreate_frame [OF Arrive(6) this]
  have "map_of (perIP t) k = Some q" if "map_of (perIP (tracker s)) k = Some q" for k q
    using frame(4) frame(7) [of k] frame(8) [of q] that by (cases "k = key") auto
  with Arrive frame(4) show ?case by (auto simp: one_entry_def)
next
  case (Ban addr key b s)
  then show ?case by (simp add: one_entry_def)
next
  case (Token i s k p mx now okay t)
  then show ?case using take_token_frame [OF Token(5)] by (cases okay) (auto intro!: one_entry_move)
next
  case (Count i s k p mx n t)
  then show ?case using add_concurrent_frame [OF Count(6)] by (auto intro!: one_entry_move split: if_splits)
next
  case (Uncapped i s k p mx)
  then have "one_entry (s\<lparr>tracker := tracker s, conns := (conns s)[i := Counted k p mx]\<rparr>)"
    by (intro one_entry_move) auto
  with Uncapped show ?case by simp
next
  case (Undo i s k p mx n t addr)
  then show ?case using add_concurrent_frame [OF Undo(5)] by (auto intro!: one_entry_move)
next
  case (Admit i s k p mx now)
  then show ?case by (auto intro!: one_entry_move)
next
  case (Close i s k p mx)
  obtain n t where a: "add_concurrent p (- 1) (tracker s) = (n, t)" by fastforce
  note frame = add_concurrent_frame [OF a]
  show ?case
  proof (cases "mx > 0")
    case True
    with Close a frame show ?thesis by (auto intro!: one_entry_move)
  next
    case False
    then have "one_entry (s\<lparr>tracker := tracker s, conns := (conns s)[i := Closing p]\<rparr>)"
      using Close by (intro one_entry_move) auto
    with False Close show ?thesis by simp
  qed
next
  case (Closed i s p now)
  then show ?case by (auto intro!: one_entry_move)
next
  case (Gc s now)
  then show ?case using one_entry_gc by auto
qed

lemma nl_reach_one_entry: "nl_reach False banned rl c s \<Longrightarrow> one_entry s"
proof (induction rule: nl_reach.induct)
  case start
  then show ?case by (simp add: one_entry_def)
next
  case (step s s')
  then show ?case using nl_step_one_entry nl_reach_inv by blast
qed

lemma open_of_admitted:
  assumes "one_entry s" "nl_inv m s" "0 < m"
  shows "howmany (open_of k) (conns s) \<le> m"
proof (cases "map_of (perIP (tracker s)) k")
  case None
  have "\<not> open_of k c" if c: "c \<in> set (conns s)" for c
  proof
    assume "open_of k c"
    then obtain p mx where "held c = Some (k, p, mx)" by (cases c) auto
    with c None assms nl_inv_heldD one_entryD show False by fastforce
  qed
  with assms show ?thesis by (simp add: howmany_zero)
next
  case (Some p)
  have "admitted_at p c" if c: "c \<in> set (conns s)" and k: "open_of k c" for c
  proof -
    from k obtain q mx where o: "c = Open k q mx" by (cases c) auto
    then have "mx = m" using nl_inv_heldD [OF assms(2) c] by simp
    moreover have "map_of (perIP (tracker s)) k = Some q"
      using one_entryD [OF assms(1) c] o assms(3) \<open>mx = m\<close> by simp
    ultimately show ?thesis using Some o assms(3) by simp
  qed
  then have "howmany (open_of k) (conns s) \<le> howmany (admitted_at p) (conns s)" by (rule howmany_mono)
  moreover have "howmany (admitted_at p) (conns s) \<le> m"
    using assms(2,3) Some unfolding nl_inv_def by blast
  ultimately show ?thesis by linarith
qed

text \<open>
  C13: Whatever the interleaving of arriving and closing connections, an entry's counter is the
  number of connections counted on it, and no entry admits more than \<open>MaxConnPerIP\<close>; as long as
  the collector does not run while a connection is between its lookup and its count, this is a
  bound on the open connections of every source.
\<close>

theorem conn_cap_holds:
  assumes "nl_reach racy banned rl c s" and "0 < MaxConnPerIP c"
  shows "(\<forall>p < length (states (tracker s)).
            concurrent (states (tracker s) ! p) = howmany (counted p) (conns s)
            \<and> howmany (admitted_at p) (conns s) \<le> MaxConnPerIP c)
    \<and> (\<not> racy \<longrightarrow> (\<forall>k. howmany (open_of k) (conns s) \<le> MaxConnPerIP c))"
proof -
  have inv: "nl_inv (MaxConnPerIP c) s" using nl_reach_inv assms by blast
  have "howmany (open_of k) (conns s) \<le> MaxConnPerIP c" if "\<not> racy" for k
  proof -
    from that have "racy = False" by simp
    with assms(1) have "one_entry s" using nl_reach_one_entry by (simp only:)
    then show ?thesis using open_of_admitted inv assms by blast
  qed
  with inv assms show ?thesis by (simp add: nl_inv_def)
qed

section \<open>The collector between lookup and count\<close>

text \<open>From a state whose map is empty, one more connection that the collector overtakes.\<close>

lemma overtaken:
  assumes r: "nl_reach True None rl c s" and m: "0 < MaxConnPerIP c" and rate: "PerIPRate c \<le> 0"
    and k: "CollapseIP addr = k" "k \<noteq> []" and empty: "perIP (tracker s) = []"
    and cfg: "MaxConnPerIP (cfg (tracker s)) = MaxConnPerIP c" "PerIPRate (cfg (tracker s)) = PerIPRate c"
  shows "\<exists>s' p. nl_reach True None rl c s' \<and> perIP (tracker s') = []
    \<and> cfg (tracker s') = cfg (tracker s)
    \<and> conns s' = conns s @ [Open k p (MaxConnPerIP c)]"
proof -
  let ?m = "MaxConnPerIP c" and ?p = "length (states (tracker s))" and ?i = "length (conns s)"
  let ?new = "\<lparr>concurrent = 0, lastSeenNs = 0, bucket = None\<rparr> :: 'a ipState"
  let ?t1 = "(tracker s)\<lparr>perIP := [(k, ?p)], states := states (tracker s) @ [?new]\<rparr>"
  let ?s1 = "s\<lparr>tracker := ?t1, conns := conns s @ [Looked k ?p ?m]\<rparr>"
  have "getOrCreate rl k (tracker s) = (?p, ?t1)"
    using rate cfg empty by (simp add: getOrCreate_def Let_def)
  with k cfg have "nl_step True None rl s ?s1"
    using nl_step.Arrive [of addr k None rl s ?p ?t1 True] by simp
  with r have r1: "nl_reach True None rl c ?s1" by (rule nl_reach.step)
  let ?now = "IdleEvict (cfg (tracker s)) + 1"
  let ?t2 = "(tracker s)\<lparr>states := states (tracker s) @ [?new]\<rparr>"
  let ?s2 = "s\<lparr>tracker := ?t2, conns := conns s @ [Looked k ?p ?m]\<rparr>"
  have g: "?s1\<lparr>tracker := gc ?now (tracker ?s1)\<rparr> = ?s2" using empty by (simp add: gc_def Let_def)
  have "nl_step True None rl ?s1 ?s2" using nl_step.Gc [of True ?s1 None rl ?now] unfolding g by simp
  with r1 have r2: "nl_reach True None rl c ?s2" by (rule nl_reach.step)
  let ?s3 = "s\<lparr>tracker := ?t2, conns := conns s @ [Tokened k ?p ?m]\<rparr>"
  have "take_token rl 0 ?p ?t2 = (True, ?t2)" by (simp add: take_token_def)
  then have "nl_step True None rl ?s2 ?s3"
    using nl_step.Token [of ?i ?s2 k ?p ?m rl 0 True ?t2 True None] by simp
  with r2 have r3: "nl_reach True None rl c ?s3" by (rule nl_reach.step)
  let ?t4 = "(tracker s)\<lparr>states := states (tracker s) @ [?new\<lparr>concurrent := 1\<rparr>]\<rparr>"
  let ?s4 = "s\<lparr>tracker := ?t4, conns := conns s @ [Counted k ?p ?m]\<rparr>"
  have "add_concurrent ?p 1 ?t2 = (1, ?t4)" by (simp add: add_concurrent_def upd_state_def Let_def)
  with m have "nl_step True None rl ?s3 ?s4"
    using nl_step.Count [of ?i ?s3 k ?p ?m 1 ?t4 True None rl] by simp
  with r3 have r4: "nl_reach True None rl c ?s4" by (rule nl_reach.step)
  let ?s5 = "s\<lparr>tracker := touch 0 ?p ?t4, conns := conns s @ [Open k ?p ?m]\<rparr>"
  have "nl_step True None rl ?s4 ?s5"
    using nl_step.Admit [of ?i ?s4 k ?p ?m True None rl 0] by simp
  with r4 have "nl_reach True None rl c ?s5" by (rule nl_reach.step)
  with empty show ?thesis by (intro exI [of _ ?s5] exI [of _ ?p]) simp
qed

text \<open>
  The collector may remove an entry that a connection has looked up and not counted yet.  Then
  the cap does not bind: one source can have any number of connections open at once.
\<close>

theorem collector_defeats_cap:
  assumes "0 < MaxConnPerIP c" and "PerIPRate c \<le> 0" and "CollapseIP addr \<noteq> []"
  shows "\<exists>s. nl_reach True None rl c s \<and> howmany (open_of (CollapseIP addr)) (conns s) = int n"
proof -
  have "\<exists>s. nl_reach True None rl c s \<and> perIP (tracker s) = []
      \<and> MaxConnPerIP (cfg (tracker s)) = MaxConnPerIP c \<and> PerIPRate (cfg (tracker s)) = PerIPRate c
      \<and> howmany (open_of (CollapseIP addr)) (conns s) = int n"
  proof (induction n)
    case 0
    show ?case
      by (intro exI [of _ "\<lparr>tracker = NewTracker c, conns = []\<rparr>"] conjI nl_reach.start)
        (simp_all add: NewTracker_def)
  next
    case (Suc n)
    then obtain s where s: "nl_reach True None rl c s" "perIP (tracker s) = []"
      "MaxConnPerIP (cfg (tracker s)) = MaxConnPerIP c" "PerIPRate (cfg (tracker s)) = PerIPRate c"
      "howmany (open_of (CollapseIP addr)) (conns s) = int n" by blast
    from overtaken [OF s(1) assms(1,2) refl assms(3) s(2-4)] s show ?case by fastforce
  qed
  then show ?thesis by blast
qed

text \<open>Run alone, \<open>AcquireConn\<close> is a sequence of these steps.\<close>

definition outcome :: "string \<Rightarrow> acquired \<Rightarrow> conn" where
  "outcome key a = (case a of Admitted p mx \<Rightarrow> Open key p mx | _ \<Rightarrow> Gone)"

lemma AcquireConn_steps:
  assumes "CollapseIP addr = key" "key \<noteq> []" and acq: "AcquireConn banned rl now addr (tracker s) = (a, t)"
  shows "(nl_step racy banned rl)\<^sup>*\<^sup>* s (s\<lparr>tracker := t, conns := conns s @ [outcome key a]\<rparr>)"
proof (cases "case banned of None \<Rightarrow> False | Some b \<Rightarrow> b key")
  case True
  then obtain b where "banned = Some b" "b key" by (cases banned) auto
  with assms nl_step.Ban [of addr key banned b racy rl s] show ?thesis
    by (auto simp: AcquireConn_def outcome_def Let_def intro: r_into_rtranclp)
next
  case allowed: False
  let ?i = "length (conns s)" and ?m = "MaxConnPerIP (cfg (tracker s))"
  obtain p t1 where g: "getOrCreate rl key (tracker s) = (p, t1)" by fastforce
  obtain okay t2 where tk: "take_token rl now p t1 = (okay, t2)" by fastforce
  note run = acq [unfolded AcquireConn_def, simplified assms(1) g Let_def tk prod.case]
  let ?s1 = "s\<lparr>tracker := t1, conns := conns s @ [Looked key p ?m]\<rparr>"
  have s1: "nl_step racy banned rl s ?s1"
    using assms(1,2) allowed g by (intro nl_step.Arrive) auto
  show ?thesis
  proof (cases okay)
    case False
    have "nl_step racy banned rl ?s1 (s\<lparr>tracker := reject addr RejectIPRate t2, conns := conns s @ [Gone]\<rparr>)"
      using nl_step.Token [of ?i ?s1 key p ?m rl now okay t2 racy banned addr] tk False by simp
    with s1 have "(nl_step racy banned rl)\<^sup>*\<^sup>* s (s\<lparr>tracker := reject addr RejectIPRate t2, conns := conns s @ [Gone]\<rparr>)"
      by (meson converse_rtranclp_into_rtranclp r_into_rtranclp)
    with run assms(2) allowed False show ?thesis by (auto simp: outcome_def split: if_splits)
  next
    case True
    let ?s2 = "s\<lparr>tracker := t2, conns := conns s @ [Tokened key p ?m]\<rparr>"
    have "nl_step racy banned rl ?s1 ?s2"
      using nl_step.Token [of ?i ?s1 key p ?m rl now okay t2 racy banned addr] tk True by simp
    with s1 have s2: "(nl_step racy banned rl)\<^sup>*\<^sup>* s ?s2"
      by (meson converse_rtranclp_into_rtranclp r_into_rtranclp)
    obtain n t3 where ac: "add_concurrent p 1 t2 = (n, t3)" by fastforce
    let ?ok = "s\<lparr>tracker := touch now p (if ?m > 0 then t3 else t2), conns := conns s @ [Open key p ?m]\<rparr>"
    consider (uncapped) "?m \<le> 0" | (admitted) "?m > 0" "n \<le> ?m" | (over) "?m > 0" "n > ?m" by linarith
    then show ?thesis
    proof cases
      case uncapped
      let ?s3 = "s\<lparr>tracker := t2, conns := conns s @ [Counted key p ?m]\<rparr>"
      have "nl_step racy banned rl ?s2 (?s2\<lparr>conns := (conns ?s2)[?i := Counted key p ?m]\<rparr>)"
        using uncapped by (intro nl_step.Uncapped) auto
      then have "nl_step racy banned rl ?s2 ?s3" by simp
      moreover have "nl_step racy banned rl ?s3 ?ok"
        using nl_step.Admit [of ?i ?s3 key p ?m racy banned rl now] uncapped by simp
      ultimately have "(nl_step racy banned rl)\<^sup>*\<^sup>* s ?ok" using s2 by (meson rtranclp.rtrancl_into_rtrancl)
      with run assms(2) allowed True uncapped show ?thesis by (auto simp: outcome_def split: if_splits)
    next
      case admitted
      let ?s3 = "s\<lparr>tracker := t3, conns := conns s @ [Counted key p ?m]\<rparr>"
      have "nl_step racy banned rl ?s2 ?s3"
        using nl_step.Count [of ?i ?s2 key p ?m n t3 racy banned rl] admitted ac by simp
      moreover have "nl_step racy banned rl ?s3 ?ok"
        using nl_step.Admit [of ?i ?s3 key p ?m racy banned rl now] admitted by simp
      ultimately have "(nl_step racy banned rl)\<^sup>*\<^sup>* s ?ok" using s2 by (meson rtranclp.rtrancl_into_rtrancl)
      with run assms(2) allowed True admitted ac show ?thesis by (auto simp: outcome_def split: if_splits)
    next
      case over
      obtain n' t4 where un: "add_concurrent p (- 1) t3 = (n', t4)" by fastforce
      let ?s3 = "s\<lparr>tracker := t3, conns := conns s @ [Over key p ?m]\<rparr>"
      let ?no = "s\<lparr>tracker := reject addr RejectIPConcurrent t4, conns := conns s @ [Gone]\<rparr>"
      have "nl_step racy banned rl ?s2 ?s3"
        using nl_step.Count [of ?i ?s2 key p ?m n t3 racy banned rl] over ac by simp
      moreover have "nl_step racy banned rl ?s3 ?no"
        using nl_step.Undo [of ?i ?s3 key p ?m n' t4 racy banned rl addr] un by simp
      ultimately have "(nl_step racy banned rl)\<^sup>*\<^sup>* s ?no" using s2 by (meson rtranclp.rtrancl_into_rtrancl)
      with run assms(2) allowed True over ac un show ?thesis by (auto simp: outcome_def split: if_splits)
    qed
  qed
qed

lemma nl_reach_steps:
  assumes "(nl_step racy banned rl)\<^sup>*\<^sup>* s s'" "nl_reach racy banned rl c s"
  shows "nl_reach racy banned rl c s'"
  using assms by (induction rule: rtranclp_induct) (auto intro: nl_reach.step)

section \<open>Witnesses\<close>

definition demo_rl :: "nat limiter" where
  "demo_rl = (\<lambda>r b. nat b, \<lambda>now n. if n > 0 then (True, n - 1) else (False, 0))"

definition demo_config :: Config where
  "demo_config = \<lparr>MaxConnPerIP = 1, PerIPRate = 1, PerIPBurst = 3, MaxUnauthHandshakes = 1, IdleEvict = 0\<rparr>"

lemma demo_key: "CollapseIP (Some ''192.0.2.1:50'') = ''192.0.2.1''"
  by (simp add: CollapseIP_def collapseHostPort_def parse_simps string4_def digits.simps digit_def char_of_def bit_Suc_0_iff)

lemma demo_two_connections:
  "\<exists>s. nl_reach False None demo_rl demo_config s \<and> conns s = [Open ''192.0.2.1'' 0 1, Gone]"
proof -
  let ?s0 = "\<lparr>tracker = NewTracker demo_config, conns = []\<rparr> :: nat sys"
  let ?acq = "\<lambda>now. AcquireConn None demo_rl now (Some ''192.0.2.1:50'')"
  obtain t1 t2 where a: "?acq 5 (tracker ?s0) = (Admitted 0 1, t1)" "?acq 6 t1 = (Refused RejectIPConcurrent, t2)"
    by (simp add: AcquireConn_def demo_key getOrCreate_def take_token_def add_concurrent_def touch_def
        upd_state_def demo_rl_def demo_config_def NewTracker_def Let_def)
  let ?s1 = "?s0\<lparr>tracker := t1, conns := [Open ''192.0.2.1'' 0 1]\<rparr>"
  have "nl_reach False None demo_rl demo_config ?s1"
    using nl_reach_steps [OF AcquireConn_steps [OF demo_key _ a(1)] nl_reach.start] by (simp add: outcome_def)
  then have "nl_reach False None demo_rl demo_config (?s1\<lparr>tracker := t2, conns := conns ?s1 @ [Gone]\<rparr>)"
    using nl_reach_steps [OF AcquireConn_steps [OF demo_key _, of None demo_rl 6 ?s1 _ t2 False]] a(2)
    by (fastforce simp: outcome_def)
  then show ?thesis by force
qed

theorem conn_cap_holds_witness:
  "\<exists>s. nl_reach False None demo_rl demo_config s \<and> conns s = [Open ''192.0.2.1'' 0 1, Gone]
     \<and> howmany (open_of ''192.0.2.1'') (conns s) \<le> 1"
proof -
  obtain s where s: "nl_reach False None demo_rl demo_config s" "conns s = [Open ''192.0.2.1'' 0 1, Gone]"
    using demo_two_connections by blast
  with conn_cap_holds [OF s(1)] show ?thesis by (auto simp: demo_config_def)
qed

theorem collector_defeats_cap_witness:
  "\<exists>s. nl_reach True None demo_rl (demo_config\<lparr>PerIPRate := 0\<rparr>) s
     \<and> howmany (open_of ''192.0.2.1'') (conns s) = 3"
  using collector_defeats_cap [of "demo_config\<lparr>PerIPRate := 0\<rparr>" "Some ''192.0.2.1:50''" demo_rl 3]
  by (simp add: demo_config_def demo_key)

end
