(* ===== verification/Handshake.thy ===== *)
theory Handshake
  imports NetLimit
begin

text \<open>
  The cap on handshakes in flight: \<open>AcquireHandshake\<close> of
  \<^verbatim>\<open>src/internal/security/netlimit/tracker.go\<close>, the connection wrapper of \<^verbatim>\<open>deadline_conn.go\<close>
  whose hook gives the slot back, and the two places of \<^verbatim>\<open>src/internal/transport/server.go\<close> that
  use them: the callback on a new connection and the end of a successful authentication.  The
  theorem bounds the slots held and shows that none leaks and none is returned twice, whatever
  the order in which authentications and closes happen.
\<close>

section \<open>The wrapped connection\<close>

record DeadlineConn =
  cleared :: bool
  hasHook :: bool
  fired :: bool
  deadline :: "int option"
  dcClosed :: bool

definition WrapWithDeadline :: "int \<Rightarrow> int \<Rightarrow> bool \<Rightarrow> DeadlineConn" where
  "WrapWithDeadline now grace hook =
     \<lparr>cleared = False, hasHook = hook, fired = False,
      deadline = (if grace > 0 then Some (now + grace) else None), dcClosed = False\<rparr>"

definition ClearDeadline :: "DeadlineConn \<Rightarrow> DeadlineConn" where
  "ClearDeadline c = (if cleared c then c else c\<lparr>cleared := True, deadline := None\<rparr>)"

text \<open>The first component tells whether the hook is called now.\<close>

definition fireOnce :: "DeadlineConn \<Rightarrow> bool \<times> DeadlineConn" where
  "fireOnce c = (if fired c \<or> \<not> hasHook c then (False, c) else (True, c\<lparr>fired := True\<rparr>))"

definition FireOnClose :: "DeadlineConn \<Rightarrow> bool \<times> DeadlineConn" where
  "FireOnClose c = fireOnce c"

definition dc_Close :: "DeadlineConn \<Rightarrow> bool \<times> DeadlineConn" where
  "dc_Close c = (case fireOnce c of (f, c') \<Rightarrow> (f, c'\<lparr>dcClosed := True\<rparr>))"

definition clearHandshakeState :: "DeadlineConn \<Rightarrow> bool \<times> DeadlineConn" where
  "clearHandshakeState c = FireOnClose (ClearDeadline c)"

section \<open>Slots\<close>

text \<open>\<open>Some True\<close>: a slot was taken, \<open>Some False\<close>: the cap is off, \<open>None\<close>: refused.\<close>

definition AcquireHandshake :: "string option \<Rightarrow> 'b Tracker \<Rightarrow> bool option \<times> 'b Tracker" where
  "AcquireHandshake addr t =
     (let mx = MaxUnauthHandshakes (cfg t) in
      if mx \<le> 0 then (Some False, t)
      else (let n = global t + 1; t1 = t\<lparr>global := n\<rparr> in
            if n > mx then (None, reject addr RejectGlobalUnauth (t1\<lparr>global := global t1 - 1\<rparr>))
            else (Some True, t1)))"

text \<open>
  The callback on a new connection: \<open>None\<close> when it was refused and closed.  Without a tracker the
  wrapper has no hook.
\<close>

definition ConnCallback :: "bool \<Rightarrow> int \<Rightarrow> int \<Rightarrow> string option \<Rightarrow> 'b Tracker \<Rightarrow> DeadlineConn option \<times> 'b Tracker" where
  "ConnCallback tracked now grace addr t =
     (if tracked then
        (case AcquireHandshake addr t of
           (None, t') \<Rightarrow> (None, t')
         | (Some _, t') \<Rightarrow> (Some (WrapWithDeadline now grace True), t'))
      else (Some (WrapWithDeadline now grace False), t))"

section \<open>Handshakes in parallel\<close>

text \<open>
  A connection over the cap whose increment is not undone yet, a refused one, and an admitted one:
  its wrapper, whether it holds a slot, whether the release ran.  Calling the hook and its
  decrement are two steps, since \<open>fireOnce\<close> calls it after unlocking.
\<close>

record hconn =
  hc :: DeadlineConn
  slot :: bool
  returned :: bool

datatype hs = HOver | HRefused | HHeld hconn

datatype hop = OpClear | OpFire | OpClose

fun hop_apply :: "hop \<Rightarrow> DeadlineConn \<Rightarrow> DeadlineConn" where
  "hop_apply OpClear c = ClearDeadline c"
| "hop_apply OpFire c = snd (FireOnClose c)"
| "hop_apply OpClose c = snd (dc_Close c)"

record 'b hsys =
  htracker :: "'b Tracker"
  hss :: "hs list"

inductive hs_step :: "'b hsys \<Rightarrow> 'b hsys \<Rightarrow> bool" where
  HAdd: "\<lbrakk>mx = MaxUnauthHandshakes (cfg (htracker s)); mx > 0; n = global (htracker s) + 1\<rbrakk>
   \<Longrightarrow> hs_step s (s\<lparr>htracker := (htracker s)\<lparr>global := n\<rparr>,
        hss := hss s @ [if n > mx then HOver
                        else HHeld \<lparr>hc = WrapWithDeadline now grace True, slot = True, returned = False\<rparr>]\<rparr>)"
| HFree: "MaxUnauthHandshakes (cfg (htracker s)) \<le> 0
   \<Longrightarrow> hs_step s (s\<lparr>hss := hss s @ [HHeld \<lparr>hc = WrapWithDeadline now grace True, slot = False, returned = False\<rparr>]\<rparr>)"
| HUndo: "\<lbrakk>i < length (hss s); hss s ! i = HOver\<rbrakk>
   \<Longrightarrow> hs_step s (s\<lparr>htracker := reject addr RejectGlobalUnauth ((htracker s)\<lparr>global := global (htracker s) - 1\<rparr>),
                     hss := (hss s)[i := HRefused]\<rparr>)"
| HOp: "\<lbrakk>i < length (hss s); hss s ! i = HHeld h\<rbrakk>
   \<Longrightarrow> hs_step s (s\<lparr>hss := (hss s)[i := HHeld (h\<lparr>hc := hop_apply op (hc h)\<rparr>)]\<rparr>)"
| HReturn: "\<lbrakk>i < length (hss s); hss s ! i = HHeld h; fired (hc h); \<not> returned h\<rbrakk>
   \<Longrightarrow> hs_step s (s\<lparr>htracker := (if slot h then (htracker s)\<lparr>global := global (htracker s) - 1\<rparr> else htracker s),
                     hss := (hss s)[i := HHeld (h\<lparr>returned := True\<rparr>)]\<rparr>)"

inductive hs_reach :: "Config \<Rightarrow> 'b hsys \<Rightarrow> bool" for c where
  start: "hs_reach c \<lparr>htracker = NewTracker c, hss = []\<rparr>"
| step: "hs_reach c s \<Longrightarrow> hs_step s s' \<Longrightarrow> hs_reach c s'"

fun unreturned :: "hs \<Rightarrow> bool" where
  "unreturned (HHeld h) = (slot h \<and> \<not> returned h)"
| "unreturned _ = False"

fun over :: "hs \<Rightarrow> bool" where
  "over HOver = True"
| "over _ = False"

text \<open>Authenticated or closed: the hook was called.  In transit: its effect or an undo is due.\<close>

fun pending :: "hs \<Rightarrow> bool" where
  "pending (HHeld h) = (slot h \<and> \<not> fired (hc h))"
| "pending _ = False"

fun in_transit :: "hs \<Rightarrow> bool" where
  "in_transit HOver = True"
| "in_transit (HHeld h) = (fired (hc h) \<and> \<not> returned h)"
| "in_transit _ = False"

fun hs_ok :: "int \<Rightarrow> hs \<Rightarrow> bool" where
  "hs_ok mx (HHeld h) \<longleftrightarrow> (returned h \<longrightarrow> fired (hc h)) \<and> hasHook (hc h)
     \<and> (dcClosed (hc h) \<longrightarrow> fired (hc h)) \<and> slot h = (mx > 0)
     \<and> (cleared (hc h) \<longrightarrow> deadline (hc h) = None)"
| "hs_ok mx HOver \<longleftrightarrow> mx > 0"
| "hs_ok mx _ \<longleftrightarrow> True"

definition hs_inv :: "int \<Rightarrow> 'b hsys \<Rightarrow> bool" where
  "hs_inv mx s \<longleftrightarrow>
     MaxUnauthHandshakes (cfg (htracker s)) = mx
     \<and> global (htracker s) = howmany over (hss s) + howmany unreturned (hss s)
     \<and> (mx > 0 \<longrightarrow> howmany unreturned (hss s) \<le> mx)
     \<and> list_all (hs_ok mx) (hss s)"

lemmas dc_defs = ClearDeadline_def FireOnClose_def dc_Close_def fireOnce_def

lemma hop_hasHook: "hasHook (hop_apply op c) = hasHook c"
  by (cases op) (simp_all add: dc_defs)

lemma hop_fired: "fired c \<Longrightarrow> fired (hop_apply op c)"
  by (cases op) (simp_all add: dc_defs)

lemma hop_closed:
  "hasHook c \<Longrightarrow> dcClosed c \<longrightarrow> fired c \<Longrightarrow> dcClosed (hop_apply op c) \<longrightarrow> fired (hop_apply op c)"
  by (cases op) (simp_all add: dc_defs)

lemma hop_cleared:
  "cleared c \<longrightarrow> deadline c = None \<Longrightarrow> cleared (hop_apply op c) \<longrightarrow> deadline (hop_apply op c) = None"
  by (cases op) (simp_all add: dc_defs)

lemma list_all_update: "list_all P xs \<Longrightarrow> P x \<Longrightarrow> list_all P (xs[i := x])"
  by (auto simp: list_all_iff dest: set_update_subset_insert [THEN subsetD])

lemma hs_step_inv:
  assumes "hs_step s s'" "hs_inv mx s"
  shows "hs_inv mx s'"
  using assms
proof (induction rule: hs_step.cases)
  case (HAdd m s n now grace)
  then have g: "global (htracker s) = howmany over (hss s) + howmany unreturned (hss s)"
    by (simp add: hs_inv_def)
  have "0 \<le> howmany over (hss s)" by simp
  with g HAdd(5) have "howmany unreturned (hss s) + 1 \<le> m" if "\<not> m < n" using that by linarith
  with HAdd show ?case by (cases "m < n") (auto simp: hs_inv_def WrapWithDeadline_def)
next
  case (HFree s now grace)
  then show ?case by (auto simp: hs_inv_def WrapWithDeadline_def)
next
  case (HUndo i s addr)
  then show ?case by (auto simp: hs_inv_def howmany_update list_all_update)
next
  case (HOp i s h op)
  then have "hs_ok mx (hss s ! i)" unfolding hs_inv_def list_all_length by blast
  then have "hs_ok mx (HHeld (h\<lparr>hc := hop_apply op (hc h)\<rparr>))" using HOp(4) hop_hasHook hop_fired hop_closed hop_cleared by simp
  with HOp show ?case by (simp add: hs_inv_def howmany_update list_all_update)
next
  case (HReturn i s h)
  then have "hs_ok mx (hss s ! i)" unfolding hs_inv_def list_all_length by blast
  then have "hs_ok mx (HHeld (h\<lparr>returned := True\<rparr>))" using HReturn(4,5) by simp
  with HReturn show ?case by (auto simp: hs_inv_def howmany_update list_all_update)
qed

lemma hs_reach_inv: "hs_reach c s \<Longrightarrow> hs_inv (MaxUnauthHandshakes c) s"
proof (induction rule: hs_reach.induct)
  case start
  then show ?case by (simp add: hs_inv_def NewTracker_def)
next
  case (step s s')
  then show ?case using hs_step_inv by blast
qed

lemma settled_count:
  "list_all (\<lambda>h. \<not> in_transit h) xs \<Longrightarrow> list_all (hs_ok mx) xs \<Longrightarrow>
     howmany over xs + howmany unreturned xs = howmany pending xs"
proof (induction xs)
  case Nil
  then show ?case by simp
next
  case (Cons x xs)
  then show ?case by (cases x) (auto simp: howmany_def)
qed


section \<open>Witness\<close>

text \<open>The cap is one: the first connection holds the slot, the second is over the cap.\<close>

lemma demo_handshakes:
  "\<exists>s :: nat hsys. hs_reach demo_config s
     \<and> hss s = [HHeld \<lparr>hc = WrapWithDeadline 0 60 True, slot = True, returned = False\<rparr>, HOver]"
proof -
  let ?s0 = "\<lparr>htracker = NewTracker demo_config, hss = []\<rparr> :: nat hsys"
  let ?h = "HHeld \<lparr>hc = WrapWithDeadline 0 60 True, slot = True, returned = False\<rparr>"
  let ?s1 = "?s0\<lparr>htracker := (htracker ?s0)\<lparr>global := 1\<rparr>, hss := [?h]\<rparr>"
  have mx: "MaxUnauthHandshakes (cfg (NewTracker demo_config)) = 1" "global (NewTracker demo_config) = 0"
    by (simp_all add: NewTracker_def demo_config_def)
  have "hs_step ?s0 ?s1" using hs_step.HAdd [of 1 ?s0 1 0 60] mx by simp
  then have r1: "hs_reach demo_config ?s1" by (rule hs_reach.step [OF hs_reach.start])
  let ?s2 = "?s1\<lparr>htracker := (htracker ?s1)\<lparr>global := 2\<rparr>, hss := [?h, HOver]\<rparr>"
  have "hs_step ?s1 ?s2" using hs_step.HAdd [of 1 ?s1 2 0 60] mx by simp
  with r1 have "hs_reach demo_config ?s2" by (rule hs_reach.step)
  then show ?thesis by force
qed


end
