(* ===== verification/AuditLog.thy ===== *)
theory AuditLog
  imports Prelude "HOL-Library.Sublist"
begin

text \<open>
  Security events and their recorder (\<^verbatim>\<open>src/internal/security/audit\<close>): the events with their
  type, severity and subject (\<^verbatim>\<open>events.go\<close>) and the recorder that logs every event at once and
  writes them to the database from a bounded buffer (\<^verbatim>\<open>recorder.go\<close>).  The details of an event
  are its keys and values before the JSON encoder; a duration becomes seconds and a time RFC 3339
  text only there.  Times and durations are nanoseconds.
\<close>

section \<open>Events\<close>

datatype audit_event =
    AuthSuccess string string string \<comment> \<open>handle, address, method\<close>
  | AuthFailure string string string string \<comment> \<open>handle, address, method, reason\<close>
  | LockoutHandle string string int int int \<comment> \<open>handle, address, failures, lock count, duration\<close>
  | LockoutIP string int int int \<comment> \<open>address, failures, lock count, duration\<close>
  | PersistentBanAuto string int int \<comment> \<open>address, lock count, expiry\<close>
  | PersistentBanManual string string string int \<comment> \<open>address, by, reason, expiry\<close>
  | PersistentBanRevoke string string \<comment> \<open>address, by\<close>
  | ConnRejectedOverlimit string string
  | ConnRejectedBanned string
  | OAuthLinked string string string string string
  | OAuthUnlinked string string string string
  | OAuthRefreshed string string int int
  | OAuthRefreshFailed string string string string int
  | OAuthReauthRequired string string string
  | HandshakeFailed string string

datatype severity = SeverityInfo | SeverityWarn | SeverityCrit

fun EventType :: "audit_event \<Rightarrow> string" where
  "EventType (AuthSuccess h ip m) = ''auth_success''"
| "EventType (AuthFailure h ip m r) = ''auth_failure''"
| "EventType (LockoutHandle h ip f l d) = ''lockout_handle''"
| "EventType (LockoutIP ip f l d) = ''lockout_ip''"
| "EventType (PersistentBanAuto ip l x) = ''persistent_ban_auto''"
| "EventType (PersistentBanManual ip by r x) = ''persistent_ban_manual''"
| "EventType (PersistentBanRevoke ip by) = ''persistent_ban_revoke''"
| "EventType (ConnRejectedOverlimit ip r) = ''conn_rejected_overlimit''"
| "EventType (ConnRejectedBanned ip) = ''conn_rejected_banned''"
| "EventType (OAuthLinked h ip p s m) = ''oauth_linked''"
| "EventType (OAuthUnlinked h ip p s) = ''oauth_unlinked''"
| "EventType (OAuthRefreshed p s x y) = ''oauth_refreshed''"
| "EventType (OAuthRefreshFailed p s c m n) = ''oauth_refresh_failed''"
| "EventType (OAuthReauthRequired p s r) = ''oauth_reauth_required''"
| "EventType (HandshakeFailed ip e) = ''handshake_failed''"

fun Severity :: "audit_event \<Rightarrow> severity" where
  "Severity (AuthSuccess h ip m) = SeverityInfo"
| "Severity (AuthFailure h ip m r) = SeverityInfo"
| "Severity (LockoutHandle h ip f l d) = SeverityWarn"
| "Severity (LockoutIP ip f l d) = SeverityWarn"
| "Severity (PersistentBanAuto ip l x) = SeverityCrit"
| "Severity (PersistentBanManual ip by r x) = SeverityWarn"
| "Severity (PersistentBanRevoke ip by) = SeverityInfo"
| "Severity (ConnRejectedOverlimit ip r) = SeverityWarn"
| "Severity (ConnRejectedBanned ip) = SeverityInfo"
| "Severity (OAuthLinked h ip p s m) = SeverityInfo"
| "Severity (OAuthUnlinked h ip p s) = SeverityInfo"
| "Severity (OAuthRefreshed p s x y) = SeverityInfo"
| "Severity (OAuthRefreshFailed p s c m n) = SeverityWarn"
| "Severity (OAuthReauthRequired p s r) = SeverityWarn"
| "Severity (HandshakeFailed ip e) = SeverityInfo"

fun Subject :: "audit_event \<Rightarrow> string \<times> string" where
  "Subject (AuthSuccess h ip m) = (h, ip)"
| "Subject (AuthFailure h ip m r) = (h, ip)"
| "Subject (LockoutHandle h ip f l d) = (h, ip)"
| "Subject (LockoutIP ip f l d) = ([], ip)"
| "Subject (PersistentBanAuto ip l x) = ([], ip)"
| "Subject (PersistentBanManual ip by r x) = (by, ip)"
| "Subject (PersistentBanRevoke ip by) = (by, ip)"
| "Subject (ConnRejectedOverlimit ip r) = ([], ip)"
| "Subject (ConnRejectedBanned ip) = ([], ip)"
| "Subject (OAuthLinked h ip p s m) = (h, ip)"
| "Subject (OAuthUnlinked h ip p s) = (h, ip)"
| "Subject (OAuthRefreshed p s x y) = ([], [])"
| "Subject (OAuthRefreshFailed p s c m n) = ([], [])"
| "Subject (OAuthReauthRequired p s r) = ([], [])"
| "Subject (HandshakeFailed ip e) = ([], ip)"

datatype detail = DStr string | DInt int | DSeconds int | DTime int

fun Details :: "audit_event \<Rightarrow> (string \<times> detail) list option" where
  "Details (AuthSuccess h ip m) = Some [(''method'', DStr m)]"
| "Details (AuthFailure h ip m r) = Some [(''method'', DStr m), (''reason'', DStr r)]"
| "Details (LockoutHandle h ip f l d) = Some [(''fails'', DInt f), (''lockcount'', DInt l), (''duration_s'', DSeconds d)]"
| "Details (LockoutIP ip f l d) = Some [(''fails'', DInt f), (''lockcount'', DInt l), (''duration_s'', DSeconds d)]"
| "Details (PersistentBanAuto ip l x) = Some [(''lockcount'', DInt l), (''expires_at'', DTime x)]"
| "Details (PersistentBanManual ip by r x) = Some [(''reason'', DStr r), (''expires_at'', DTime x)]"
| "Details (PersistentBanRevoke ip by) = None"
| "Details (ConnRejectedOverlimit ip r) = Some [(''reason'', DStr r)]"
| "Details (ConnRejectedBanned ip) = None"
| "Details (OAuthLinked h ip p s m) = Some [(''provider'', DStr p), (''provider_subject'', DStr s), (''method'', DStr m)]"
| "Details (OAuthUnlinked h ip p s) = Some [(''provider'', DStr p), (''provider_subject'', DStr s)]"
| "Details (OAuthRefreshed p s x y) =
     Some [(''provider'', DStr p), (''provider_subject'', DStr s), (''prev_expires_at'', DTime x), (''new_expires_at'', DTime y)]"
| "Details (OAuthRefreshFailed p s c m n) =
     Some [(''provider'', DStr p), (''provider_subject'', DStr s), (''err_code'', DStr c), (''err_msg'', DStr m), (''attempt_n'', DInt n)]"
| "Details (OAuthReauthRequired p s r) =
     Some [(''provider'', DStr p), (''provider_subject'', DStr s), (''reason'', DStr r)]"
| "Details (HandshakeFailed ip e) = Some [(''err'', DStr e)]"

section \<open>The recorder\<close>

text \<open>
  The buffered channel with its capacity, the events logged, the rows written in order of their
  writing, how many were dropped on a full buffer and how many inserts failed, and the time of the
  last warning about drops.
\<close>

record event_row =
  erType :: string
  erSeverity :: severity
  erHandle :: "string option"
  erIP :: "string option"
  erDetails :: "(string \<times> detail) list option"

record recorder =
  buf :: "audit_event list"
  capacity :: nat
  logged :: "audit_event list"
  written :: "event_row list"
  dropped :: nat
  failed :: nat
  dropWarnLastSent :: int
  dropWarnings :: nat

definition NewPostgresRecorder :: "int \<Rightarrow> recorder" where
  "NewPostgresRecorder bufferSize =
     \<lparr>buf = [], capacity = (if bufferSize \<le> 0 then 2048 else nat bufferSize), logged = [], written = [],
      dropped = 0, failed = 0, dropWarnLastSent = 0, dropWarnings = 0\<rparr>"

definition maybeWarnDrop :: "int \<Rightarrow> recorder \<Rightarrow> recorder" where
  "maybeWarnDrop now r =
     (if now - dropWarnLastSent r < 1000000000 then r
      else r\<lparr>dropWarnLastSent := now, dropWarnings := Suc (dropWarnings r)\<rparr>)"

definition emitSlog :: "audit_event \<Rightarrow> recorder \<Rightarrow> recorder" where
  "emitSlog ev r = r\<lparr>logged := logged r @ [ev]\<rparr>"

definition RecordEvent :: "int \<Rightarrow> audit_event \<Rightarrow> recorder \<Rightarrow> recorder" where
  "RecordEvent now ev r =
     (let r1 = emitSlog ev r in
      if length (buf r1) < capacity r1 then r1\<lparr>buf := buf r1 @ [ev]\<rparr>
      else maybeWarnDrop now (r1\<lparr>dropped := Suc (dropped r1)\<rparr>))"

definition event_row_of :: "audit_event \<Rightarrow> event_row" where
  "event_row_of ev =
     (case Subject ev of (h, ip) \<Rightarrow>
        \<lparr>erType = EventType ev, erSeverity = Severity ev,
         erHandle = (if h \<noteq> [] then Some h else None), erIP = (if ip \<noteq> [] then Some ip else None),
         erDetails = Details ev\<rparr>)"

text \<open>One receive and write; \<open>stored\<close> is whether the insert succeeded.\<close>

definition writeOne :: "bool \<Rightarrow> recorder \<Rightarrow> recorder" where
  "writeOne stored r =
     (case buf r of
        [] \<Rightarrow> r
      | ev # es \<Rightarrow>
          if stored then r\<lparr>buf := es, written := written r @ [event_row_of ev]\<rparr>
          else r\<lparr>buf := es, failed := Suc (failed r)\<rparr>)"

text \<open>
  The drain after the context is done: each write comes with its success and whether the deadline
  has passed after it.
\<close>

fun drain :: "(bool \<times> bool) list \<Rightarrow> recorder \<Rightarrow> recorder" where
  "drain [] r = r"
| "drain ((stored, late) # ws) r =
     (if buf r = [] then r
      else let r' = writeOne stored r in if late then r' else drain ws r')"

text \<open>Callers, the writer and the final drain, in any order; the events recorded, in order.\<close>

inductive recorded :: "int \<Rightarrow> audit_event list \<Rightarrow> recorder \<Rightarrow> bool" for cap where
  fresh: "recorded cap [] (NewPostgresRecorder cap)"
| rec_event: "recorded cap evs r \<Longrightarrow> recorded cap (evs @ [ev]) (RecordEvent now ev r)"
| rec_write: "recorded cap evs r \<Longrightarrow> recorded cap evs (writeOne stored r)"
| rec_drain: "recorded cap evs r \<Longrightarrow> recorded cap evs (drain ws r)"

definition recorder_inv :: "audit_event list \<Rightarrow> recorder \<Rightarrow> bool" where
  "recorder_inv evs r \<longleftrightarrow>
     logged r = evs \<and> length (buf r) \<le> capacity r
     \<and> length evs = length (written r) + length (buf r) + dropped r + failed r
     \<and> subseq (written r @ map event_row_of (buf r)) (map event_row_of evs)"

lemma subseq_snoc: "subseq xs ys \<Longrightarrow> subseq xs (ys @ [y])"
  by (metis append_Nil2 list_emb_append_mono list_emb_Nil)

lemma subseq_snoc2: "subseq xs ys \<Longrightarrow> subseq (xs @ [y]) (ys @ [y])"
  by simp

lemma recorder_inv_fresh: "recorder_inv [] (NewPostgresRecorder cap)"
  by (simp add: recorder_inv_def NewPostgresRecorder_def)

lemma recorder_inv_event: "recorder_inv evs r \<Longrightarrow> recorder_inv (evs @ [ev]) (RecordEvent now ev r)"
  using subseq_snoc2 [of "written r @ map event_row_of (buf r)" "map event_row_of evs" "event_row_of ev"]
  by (auto simp: recorder_inv_def RecordEvent_def emitSlog_def maybeWarnDrop_def Let_def subseq_snoc)

lemma recorder_inv_write: "recorder_inv evs r \<Longrightarrow> recorder_inv evs (writeOne stored r)"
proof (cases "buf r")
  case Nil
  then show "recorder_inv evs r \<Longrightarrow> recorder_inv evs (writeOne stored r)" by (simp add: writeOne_def)
next
  case (Cons ev es)
  assume inv: "recorder_inv evs r"
  have "subseq (written r @ map event_row_of es) (written r @ event_row_of ev # map event_row_of es)"
    by (simp add: subseq_append' subseq_order.order_refl list_emb_Cons)
  with inv Cons show "recorder_inv evs (writeOne stored r)"
    by (auto simp: recorder_inv_def writeOne_def intro: subseq_order.trans)
qed

lemma recorder_inv_drain: "recorder_inv evs r \<Longrightarrow> recorder_inv evs (drain ws r)"
  by (induction ws r rule: drain.induct) (auto simp: Let_def recorder_inv_write)

text \<open>
  Whatever the interleaving of callers and writer, every event is in the log at once and in
  order; the buffer never exceeds its capacity; the rows in the database are a subsequence of the
  events; and each event is accounted for as written, still buffered, dropped or failed.
\<close>

theorem audit_accounting:
  assumes "recorded cap evs r"
  shows "logged r = evs \<and> length (buf r) \<le> capacity r
    \<and> subseq (written r) (map event_row_of evs)
    \<and> length evs = length (written r) + length (buf r) + dropped r + failed r"
proof -
  have "recorder_inv evs r"
    using assms
  proof (induction rule: recorded.induct)
    case fresh
    then show ?case by (rule recorder_inv_fresh)
  next
    case (rec_event evs r ev now)
    then show ?case using recorder_inv_event by blast
  next
    case (rec_write evs r stored)
    then show ?case using recorder_inv_write by blast
  next
    case (rec_drain evs r ws)
    then show ?case using recorder_inv_drain by blast
  qed
  then show ?thesis
    unfolding recorder_inv_def by (meson list_emb_prefix prefixI subseq_order.trans prefix_imp_subseq)
qed

theorem audit_accounting_witness:
  "\<exists>r. recorded 1 [HandshakeFailed ''a'' ''e'', ConnRejectedBanned ''b''] r \<and> dropped r = 1
     \<and> subseq (written r) (map event_row_of [HandshakeFailed ''a'' ''e'', ConnRejectedBanned ''b''])"
proof -
  let ?r = "RecordEvent 2 (ConnRejectedBanned ''b'') (RecordEvent 1 (HandshakeFailed ''a'' ''e'') (NewPostgresRecorder 1))"
  have r: "recorded 1 [HandshakeFailed ''a'' ''e'', ConnRejectedBanned ''b''] ?r"
    using recorded.rec_event [OF recorded.rec_event [OF recorded.fresh]] by force
  moreover have "dropped ?r = 1"
    by (simp add: RecordEvent_def emitSlog_def maybeWarnDrop_def NewPostgresRecorder_def Let_def)
  ultimately show ?thesis using audit_accounting [OF r] by blast
qed

end
