(* ===== verification/RateLimit.thy ===== *)
theory RateLimit
  imports IpKey AuditLog
begin

text \<open>
  The lockout counters (\<^verbatim>\<open>src/internal/auth/ratelimit.go\<close>, \<^verbatim>\<open>ratelimit_redis.go\<close>): failures per
  handle and per address in Redis, locks with exponential backoff, and the escalation to a
  persistent ban.  Redis is a parameter, a record of the commands the code sends over a store of
  type \<open>'s\<close>; what the proofs use of it is \<open>redis_laws\<close>.  Durations are nanoseconds in 64 bits.
\<close>

section \<open>Redis\<close>

datatype ttl_reply = TtlError | TtlNil | TtlReply int

text \<open>
  \<open>r_incr\<close> gives the new value or \<open>None\<close> for an error; the booleans are \<open>False\<close> for an error; the
  reply to TTL is what go-redis makes of it: -2 and -1 raw, a remainder in nanoseconds.
\<close>

record 's redis =
  r_incr :: "string \<Rightarrow> 's \<Rightarrow> int option \<times> 's"
  r_expire :: "string \<Rightarrow> int \<Rightarrow> 's \<Rightarrow> bool \<times> 's"
  r_set :: "string \<Rightarrow> int \<Rightarrow> 's \<Rightarrow> bool \<times> 's"
  r_ttl :: "string \<Rightarrow> 's \<Rightarrow> ttl_reply"
  r_del :: "string list \<Rightarrow> 's \<Rightarrow> bool \<times> 's"

section \<open>State\<close>

record RateLimitParams =
  HandleThreshold :: int
  IPThreshold :: int
  WindowDuration :: int
  LockDuration :: int
  BackoffMax :: int
  PersistentBanThreshold :: int
  LockcountWindow :: int

text \<open>The three settings that override parameters.\<close>

record LockoutSettings =
  LockoutHandleThreshold :: int
  LockoutIPThreshold :: int
  LockoutWindowSeconds :: int

record RateLimitCheck =
  LockedOut :: bool
  RetryAfter :: int

text \<open>The limiter: parameters, the settings cache's current values, which hooks are set.\<close>

record RedisRateLimiter =
  Params :: RateLimitParams
  Settings :: "LockoutSettings option"
  hasBanHook :: bool
  hasAudit :: bool

text \<open>What a call changes: the store, the events emitted, the addresses handed to the ban hook.\<close>

record 's rl_world =
  store :: 's
  emitted :: "audit_event list"
  eligible :: "(string \<times> int) list"

text \<open>How a call returns: normally, with an error, or in a panic.\<close>

datatype rl_result = RlOk | RlErr | RlPanic

section \<open>The limiter\<close>

definition second :: int where
  "second = 1000000000"

definition effective :: "RedisRateLimiter \<Rightarrow> RateLimitParams" where
  "effective r =
     (case Settings r of
        None \<Rightarrow> Params r
      | Some s \<Rightarrow>
          (let p = Params r;
               p1 = (if LockoutHandleThreshold s > 0 then p\<lparr>HandleThreshold := LockoutHandleThreshold s\<rparr> else p);
               p2 = (if LockoutIPThreshold s > 0 then p1\<lparr>IPThreshold := LockoutIPThreshold s\<rparr> else p1)
           in if LockoutWindowSeconds s > 0
              then p2\<lparr>WindowDuration := i64 (LockoutWindowSeconds s * second)\<rparr> else p2))"

definition failHandleKey :: "(string \<Rightarrow> string) \<Rightarrow> string \<Rightarrow> string" where
  "failHandleKey u h = ''auth:fail:handle:'' @ ToLower u h"

definition failIPKey :: "string \<Rightarrow> string" where
  "failIPKey ip = ''auth:fail:ip:'' @ ip"

definition lockHandleKey :: "(string \<Rightarrow> string) \<Rightarrow> string \<Rightarrow> string" where
  "lockHandleKey u h = ''auth:lock:handle:'' @ ToLower u h"

definition lockIPKey :: "string \<Rightarrow> string" where
  "lockIPKey ip = ''auth:lock:ip:'' @ ip"

definition lockcountHandleKey :: "(string \<Rightarrow> string) \<Rightarrow> string \<Rightarrow> string" where
  "lockcountHandleKey u h = ''auth:lockcount:handle:'' @ ToLower u h"

definition lockcountIPKey :: "string \<Rightarrow> string" where
  "lockcountIPKey ip = ''auth:lockcount:ip:'' @ ip"

definition normalizeIP :: "string option \<Rightarrow> string" where
  "normalizeIP addr =
     (case addr of None \<Rightarrow> [] | Some s \<Rightarrow> (case SplitHostPort s of None \<Rightarrow> s | Some h \<Rightarrow> h))"

text \<open>\<open>None\<close> is the error; otherwise the remainder when a lock is active.\<close>

definition lockTTL :: "'s redis \<Rightarrow> RedisRateLimiter \<Rightarrow> string \<Rightarrow> 's \<Rightarrow> int option option" where
  "lockTTL R r key s =
     (case r_ttl R key s of
        TtlError \<Rightarrow> None
      | TtlNil \<Rightarrow> Some None
      | TtlReply d \<Rightarrow>
          if d = - 2 then Some None
          else if d = - 1 then Some (Some (LockDuration (Params r)))
          else Some (Some d))"

definition unlocked :: RateLimitCheck where
  "unlocked = \<lparr>LockedOut = False, RetryAfter = 0\<rparr>"

text \<open>The result and whether there was no error.\<close>

definition Check ::
  "(string \<Rightarrow> string) \<Rightarrow> 's redis \<Rightarrow> RedisRateLimiter \<Rightarrow> string \<Rightarrow> string option \<Rightarrow> 's \<Rightarrow> RateLimitCheck \<times> bool" where
  "Check u R r h addr s =
     (let ip = normalizeIP addr in
      case lockTTL R r (lockHandleKey u h) s of
        None \<Rightarrow> (unlocked, False)
      | Some (Some d) \<Rightarrow> (\<lparr>LockedOut = True, RetryAfter = d\<rparr>, True)
      | Some None \<Rightarrow>
          if ip \<noteq> [] then
            (case lockTTL R r (lockIPKey ip) s of
               None \<Rightarrow> (unlocked, False)
             | Some (Some d) \<Rightarrow> (\<lparr>LockedOut = True, RetryAfter = d\<rparr>, True)
             | Some None \<Rightarrow> (unlocked, True))
          else (unlocked, True))"

text \<open>\<open>None\<close> is the panic of a negative shift.\<close>

definition computeLockDuration :: "RedisRateLimiter \<Rightarrow> int \<Rightarrow> int option" where
  "computeLockDuration r lockcount =
     (if lockcount < 1 then Some (LockDuration (Params r))
      else let shift = (if lockcount - 1 > BackoffMax (Params r) then BackoffMax (Params r) else lockcount - 1)
        in if shift < 0 then None
           else Some (i64 (LockDuration (Params r) * i64 (if shift < 64 then 2 ^ nat shift else 0))))"

definition lockcountWindow :: "RedisRateLimiter \<Rightarrow> int" where
  "lockcountWindow r =
     (if LockcountWindow (Params r) > 0 then LockcountWindow (Params r) else 24 * 3600 * second)"

definition incrWithExpire :: "'s redis \<Rightarrow> string \<Rightarrow> int \<Rightarrow> 's \<Rightarrow> int option \<times> 's" where
  "incrWithExpire R key window s =
     (case r_incr R key s of
        (None, s1) \<Rightarrow> (None, s1)
      | (Some n, s1) \<Rightarrow> (case r_expire R key window s1 of (okay, s2) \<Rightarrow> (if okay then Some n else None, s2)))"

text \<open>The two halves of \<open>RecordFailure\<close>: the handle's counter, the address's.\<close>

definition record_handle ::
  "(string \<Rightarrow> string) \<Rightarrow> 's redis \<Rightarrow> RedisRateLimiter \<Rightarrow> string \<Rightarrow> string option \<Rightarrow> 's rl_world
   \<Rightarrow> rl_result \<times> 's rl_world" where
  "record_handle u R r h addr w =
     (let eff = effective r in
      case incrWithExpire R (failHandleKey u h) (WindowDuration eff) (store w) of
        (None, s1) \<Rightarrow> (RlErr, w\<lparr>store := s1\<rparr>)
      | (Some n, s1) \<Rightarrow>
          if n < HandleThreshold eff then (RlOk, w\<lparr>store := s1\<rparr>)
          else
            (case incrWithExpire R (lockcountHandleKey u h) (lockcountWindow r) s1 of
               (None, s2) \<Rightarrow> (RlErr, w\<lparr>store := s2\<rparr>)
             | (Some lc, s2) \<Rightarrow>
                 (case computeLockDuration r lc of
                    None \<Rightarrow> (RlPanic, w\<lparr>store := s2\<rparr>)
                  | Some dur \<Rightarrow>
                      (case r_set R (lockHandleKey u h) dur s2 of (okay, s3) \<Rightarrow>
                         if \<not> okay then (RlErr, w\<lparr>store := s3\<rparr>)
                         else (RlOk,
                           w\<lparr>store := snd (r_del R [failHandleKey u h] s3),
                             emitted := emitted w
                               @ (if hasAudit r then [LockoutHandle h (CollapseIP addr) n lc dur] else [])\<rparr>)))))"

definition record_ip ::
  "'s redis \<Rightarrow> RedisRateLimiter \<Rightarrow> string \<Rightarrow> 's rl_world \<Rightarrow> rl_result \<times> 's rl_world" where
  "record_ip R r ip w =
     (let eff = effective r in
      case incrWithExpire R (failIPKey ip) (WindowDuration eff) (store w) of
        (None, s1) \<Rightarrow> (RlErr, w\<lparr>store := s1\<rparr>)
      | (Some n, s1) \<Rightarrow>
          if n < IPThreshold eff then (RlOk, w\<lparr>store := s1\<rparr>)
          else
            (case incrWithExpire R (lockcountIPKey ip) (lockcountWindow r) s1 of
               (None, s2) \<Rightarrow> (RlErr, w\<lparr>store := s2\<rparr>)
             | (Some lc, s2) \<Rightarrow>
                 (case computeLockDuration r lc of
                    None \<Rightarrow> (RlPanic, w\<lparr>store := s2\<rparr>)
                  | Some dur \<Rightarrow>
                      (case r_set R (lockIPKey ip) dur s2 of (okay, s3) \<Rightarrow>
                         if \<not> okay then (RlErr, w\<lparr>store := s3\<rparr>)
                         else (RlOk,
                           w\<lparr>store := snd (r_del R [failIPKey ip] s3),
                             emitted := emitted w @ (if hasAudit r then [LockoutIP ip n lc dur] else []),
                             eligible := eligible w
                               @ (if PersistentBanThreshold (Params r) > 0
                                     \<and> lc \<ge> PersistentBanThreshold (Params r) \<and> hasBanHook r
                                  then [(ip, lc)] else [])\<rparr>)))))"

definition RecordFailure ::
  "(string \<Rightarrow> string) \<Rightarrow> 's redis \<Rightarrow> RedisRateLimiter \<Rightarrow> string \<Rightarrow> string option \<Rightarrow> 's rl_world
   \<Rightarrow> rl_result \<times> 's rl_world" where
  "RecordFailure u R r h addr w =
     (case (if h \<noteq> [] then record_handle u R r h addr w else (RlOk, w)) of
        (RlOk, w1) \<Rightarrow>
          (let ip = normalizeIP addr in if ip \<noteq> [] then record_ip R r ip w1 else (RlOk, w1))
      | (res, w1) \<Rightarrow> (res, w1))"

text \<open>Whether there was no error, and the store.\<close>

definition ClearHandle :: "(string \<Rightarrow> string) \<Rightarrow> 's redis \<Rightarrow> string \<Rightarrow> 's \<Rightarrow> bool \<times> 's" where
  "ClearHandle u R h s = (if h = [] then (True, s) else r_del R [failHandleKey u h, lockHandleKey u h] s)"

section \<open>What is used of Redis\<close>

text \<open>
  While no key expires: \<open>cnt\<close> is the number a key holds (0 for none), \<open>left\<close> the remaining life of
  a key.  INCR adds one, a positive EXPIRE changes only the key's life, SET with a life in whole
  seconds stores a value for that long, TTL reports the life, DEL removes the keys.
\<close>

definition redis_laws :: "'s redis \<Rightarrow> ('s \<Rightarrow> string \<Rightarrow> int) \<Rightarrow> ('s \<Rightarrow> string \<Rightarrow> int option) \<Rightarrow> bool" where
  "redis_laws R cnt left \<longleftrightarrow>
     (\<forall>k s. \<exists>s'. r_incr R k s = (Some (cnt s k + 1), s') \<and> cnt s' = (cnt s)(k := cnt s k + 1) \<and> left s' = left s)
     \<and> (\<forall>k d s. 0 < d \<longrightarrow> (\<exists>s'. r_expire R k d s = (True, s') \<and> cnt s' = cnt s
          \<and> (\<forall>j. j \<noteq> k \<longrightarrow> left s' j = left s j)))
     \<and> (\<forall>k d s. 0 < d \<longrightarrow> d mod second = 0 \<longrightarrow> (\<exists>s'. r_set R k d s = (True, s')
          \<and> cnt s' = (cnt s)(k := 1) \<and> left s' = (left s)(k := Some d)))
     \<and> (\<forall>k s. r_ttl R k s = TtlReply (case left s k of None \<Rightarrow> - 2 | Some d \<Rightarrow> d))
     \<and> (\<forall>ks s. \<exists>s'. r_del R ks s = (True, s') \<and> cnt s' = (\<lambda>k. if k \<in> set ks then 0 else cnt s k)
          \<and> left s' = (\<lambda>k. if k \<in> set ks then None else left s k))"

lemma redis_incr:
  "redis_laws R cnt left \<Longrightarrow> \<exists>s'. r_incr R k s = (Some (cnt s k + 1), s')
     \<and> cnt s' = (cnt s)(k := cnt s k + 1) \<and> left s' = left s"
  unfolding redis_laws_def by blast

lemma redis_expire:
  "redis_laws R cnt left \<Longrightarrow> 0 < d \<Longrightarrow> \<exists>s'. r_expire R k d s = (True, s') \<and> cnt s' = cnt s
     \<and> (\<forall>j. j \<noteq> k \<longrightarrow> left s' j = left s j)"
  unfolding redis_laws_def by blast

lemma redis_set:
  "redis_laws R cnt left \<Longrightarrow> 0 < d \<Longrightarrow> d mod second = 0 \<Longrightarrow> \<exists>s'. r_set R k d s = (True, s')
     \<and> cnt s' = (cnt s)(k := 1) \<and> left s' = (left s)(k := Some d)"
  by (simp add: redis_laws_def)

lemma redis_ttl:
  "redis_laws R cnt left \<Longrightarrow> r_ttl R k s = TtlReply (case left s k of None \<Rightarrow> - 2 | Some d \<Rightarrow> d)"
  unfolding redis_laws_def by blast

lemma redis_del:
  "redis_laws R cnt left \<Longrightarrow> \<exists>s'. r_del R ks s = (True, s')
     \<and> cnt s' = (\<lambda>k. if k \<in> set ks then 0 else cnt s k) \<and> left s' = (\<lambda>k. if k \<in> set ks then None else left s k)"
  unfolding redis_laws_def by blast

lemma incrWithExpire_step:
  assumes "redis_laws R cnt left" "0 < d"
  shows "\<exists>s'. incrWithExpire R k d s = (Some (cnt s k + 1), s') \<and> cnt s' = (cnt s)(k := cnt s k + 1)
    \<and> (\<forall>j. j \<noteq> k \<longrightarrow> left s' j = left s j)"
proof -
  obtain s1 where "r_incr R k s = (Some (cnt s k + 1), s1)" "cnt s1 = (cnt s)(k := cnt s k + 1)" "left s1 = left s"
    using redis_incr [OF assms(1)] by blast
  moreover obtain s2 where "r_expire R k d s1 = (True, s2)" "cnt s2 = cnt s1" "\<forall>j. j \<noteq> k \<longrightarrow> left s2 j = left s1 j"
    using redis_expire [OF assms] by blast
  ultimately show ?thesis by (simp add: incrWithExpire_def)
qed

section \<open>Backoff\<close>

text \<open>Parameters under which no lock duration overflows and every duration is in whole seconds.\<close>

definition limits_ok :: "RedisRateLimiter \<Rightarrow> bool" where
  "limits_ok r \<longleftrightarrow>
     0 < LockDuration (Params r) \<and> LockDuration (Params r) mod second = 0
     \<and> 0 \<le> BackoffMax (Params r) \<and> BackoffMax (Params r) < 63
     \<and> LockDuration (Params r) * 2 ^ nat (BackoffMax (Params r)) < 2 ^ 63
     \<and> 0 < WindowDuration (effective r)
     \<and> 0 < HandleThreshold (effective r) \<and> 0 < IPThreshold (effective r)"

definition backoff :: "RedisRateLimiter \<Rightarrow> int \<Rightarrow> int" where
  "backoff r lc = LockDuration (Params r) * 2 ^ nat (min (lc - 1) (BackoffMax (Params r)))"

lemma backoff_bounds:
  assumes "limits_ok r" "1 \<le> lc"
  shows "0 < backoff r lc" "backoff r lc mod second = 0" "backoff r lc < 2 ^ 63"
    "(2::int) ^ nat (min (lc - 1) (BackoffMax (Params r))) < 2 ^ 63"
proof -
  let ?s = "nat (min (lc - 1) (BackoffMax (Params r)))"
  have le: "?s \<le> nat (BackoffMax (Params r))" by simp
  then have p: "(2::int) ^ ?s \<le> 2 ^ nat (BackoffMax (Params r))" by (intro power_increasing) auto
  show "0 < backoff r lc" "backoff r lc mod second = 0"
    using assms by (simp_all add: backoff_def limits_ok_def mod_mult_left_eq [symmetric])
  have "backoff r lc \<le> LockDuration (Params r) * 2 ^ nat (BackoffMax (Params r))"
    unfolding backoff_def using p assms by (intro mult_left_mono) (auto simp: limits_ok_def)
  with assms show "backoff r lc < 2 ^ 63" by (simp add: limits_ok_def)
  have "?s < 63" using le assms by (auto simp: limits_ok_def)
  then show "(2::int) ^ ?s < 2 ^ 63" by (rule power_strict_increasing) simp
qed

lemma computeLockDuration_backoff:
  assumes "limits_ok r" "1 \<le> lc"
  shows "computeLockDuration r lc = Some (backoff r lc)"
proof -
  let ?s = "min (lc - 1) (BackoffMax (Params r))"
  have s: "0 \<le> ?s" "?s < 63" using assms by (auto simp: limits_ok_def)
  have "i64 (2 ^ nat ?s) = 2 ^ nat ?s"
    using backoff_bounds(4) [OF assms] by (intro i64_nonneg_id) auto
  moreover have "i64 (backoff r lc) = backoff r lc"
    using backoff_bounds(1,3) [OF assms] by (intro i64_nonneg_id) auto
  ultimately show ?thesis
    using s assms by (simp add: computeLockDuration_def backoff_def Let_def min_def split: if_splits)
qed

section \<open>One failure\<close>

text \<open>What a failure does to a counter \<open>F\<close> with its lock count \<open>C\<close> and lock \<open>K\<close>.\<close>

definition bump :: "int \<Rightarrow> string \<Rightarrow> string \<Rightarrow> string \<Rightarrow> (string \<Rightarrow> int) \<Rightarrow> string \<Rightarrow> int" where
  "bump T F C K cnt =
     (if cnt F + 1 < T then cnt(F := cnt F + 1) else cnt(C := cnt C + 1, K := 1, F := 0))"

definition bump_left ::
  "RedisRateLimiter \<Rightarrow> int \<Rightarrow> string \<Rightarrow> string \<Rightarrow> string \<Rightarrow> (string \<Rightarrow> int) \<Rightarrow> (string \<Rightarrow> int option) \<Rightarrow> int option" where
  "bump_left r T F C K cnt left = (if cnt F + 1 < T then left K else Some (backoff r (cnt C + 1)))"

lemma window_pos [simp]: "0 < lockcountWindow r"
  by (simp add: lockcountWindow_def second_def)

lemmas key_defs = failHandleKey_def failIPKey_def lockHandleKey_def lockIPKey_def lockcountHandleKey_def
  lockcountIPKey_def

lemma keys_apart:
  "failIPKey ip \<notin> {failHandleKey u h, lockcountHandleKey u h, lockHandleKey u h}"
  "lockcountIPKey ip \<notin> {failHandleKey u h, lockcountHandleKey u h, lockHandleKey u h}"
  "lockIPKey ip \<notin> {failHandleKey u h, lockcountHandleKey u h, lockHandleKey u h}"
  "failHandleKey u h \<notin> {failIPKey ip, lockcountIPKey ip, lockIPKey ip}"
  "lockcountHandleKey u h \<notin> {failIPKey ip, lockcountIPKey ip, lockIPKey ip}"
  "lockHandleKey u h \<notin> {failIPKey ip, lockcountIPKey ip, lockIPKey ip}"
  by (simp_all add: key_defs)

text \<open>The commands that both halves send, and what they leave behind.\<close>

lemma lock_sequence:
  assumes laws: "redis_laws R cnt left" and okay: "limits_ok r" and C: "0 \<le> cnt s C"
    and d: "F \<noteq> C" "F \<noteq> K" "C \<noteq> K"
  shows "\<exists>s1 s2 s3 s4. incrWithExpire R F (WindowDuration (effective r)) s = (Some (cnt s F + 1), s1)
    \<and> cnt s1 = (cnt s)(F := cnt s F + 1) \<and> (\<forall>j. j \<noteq> F \<longrightarrow> left s1 j = left s j)
    \<and> incrWithExpire R C (lockcountWindow r) s1 = (Some (cnt s C + 1), s2)
    \<and> computeLockDuration r (cnt s C + 1) = Some (backoff r (cnt s C + 1))
    \<and> r_set R K (backoff r (cnt s C + 1)) s2 = (True, s3) \<and> r_del R [F] s3 = (True, s4)
    \<and> cnt s4 = (cnt s)(C := cnt s C + 1, K := 1, F := 0)
    \<and> left s4 K = Some (backoff r (cnt s C + 1)) \<and> (\<forall>j. j \<notin> {F, C, K} \<longrightarrow> left s4 j = left s j)"
proof -
  have W: "0 < WindowDuration (effective r)" using okay by (simp add: limits_ok_def)
  obtain s1 where s1: "incrWithExpire R F (WindowDuration (effective r)) s = (Some (cnt s F + 1), s1)"
    "cnt s1 = (cnt s)(F := cnt s F + 1)" "\<forall>j. j \<noteq> F \<longrightarrow> left s1 j = left s j"
    using incrWithExpire_step [OF laws W] by blast
  obtain s2 where s2: "incrWithExpire R C (lockcountWindow r) s1 = (Some (cnt s1 C + 1), s2)"
    "cnt s2 = (cnt s1)(C := cnt s1 C + 1)" "\<forall>j. j \<noteq> C \<longrightarrow> left s2 j = left s1 j"
    using incrWithExpire_step [OF laws window_pos] by blast
  have lc: "cnt s1 C = cnt s C" using s1 d by simp
  have pos: "1 \<le> cnt s C + 1" using C by simp
  note bb = backoff_bounds(1,2) [OF okay pos]
  obtain s3 where s3: "r_set R K (backoff r (cnt s C + 1)) s2 = (True, s3)" "cnt s3 = (cnt s2)(K := 1)"
    "left s3 = (left s2)(K := Some (backoff r (cnt s C + 1)))"
    using redis_set [OF laws bb] by blast
  obtain s4 where s4: "r_del R [F] s3 = (True, s4)" "cnt s4 = (\<lambda>k. if k \<in> set [F] then 0 else cnt s3 k)"
    "left s4 = (\<lambda>k. if k \<in> set [F] then None else left s3 k)"
    using redis_del [OF laws] by blast
  have "cnt s4 = (cnt s)(C := cnt s C + 1, K := 1, F := 0)"
    using s1 s2 s3 s4 d by (auto simp: fun_eq_iff)
  with s1 s2 s3 s4 d lc computeLockDuration_backoff [OF okay pos] show ?thesis
    by (intro exI [of _ s1] exI [of _ s2] exI [of _ s3] exI [of _ s4]) simp
qed

lemma record_handle_step:
  assumes laws: "redis_laws R cnt left" and okay: "limits_ok r" and C: "0 \<le> cnt (store w) (lockcountHandleKey u h)"
  shows "\<exists>w'. record_handle u R r h addr w = (RlOk, w') \<and> eligible w' = eligible w
    \<and> cnt (store w') = bump (HandleThreshold (effective r)) (failHandleKey u h) (lockcountHandleKey u h)
         (lockHandleKey u h) (cnt (store w))
    \<and> left (store w') (lockHandleKey u h) = bump_left r (HandleThreshold (effective r)) (failHandleKey u h)
         (lockcountHandleKey u h) (lockHandleKey u h) (cnt (store w)) (left (store w))
    \<and> (\<forall>ip. left (store w') (lockIPKey ip) = left (store w) (lockIPKey ip))"
proof -
  have d: "failHandleKey u h \<noteq> lockcountHandleKey u h" "failHandleKey u h \<noteq> lockHandleKey u h"
    "lockcountHandleKey u h \<noteq> lockHandleKey u h"
    "\<And>ip. lockIPKey ip \<notin> {failHandleKey u h, lockcountHandleKey u h, lockHandleKey u h}"
    by (simp_all add: key_defs)
  from lock_sequence [OF laws okay C d(1-3)] d show ?thesis
    by (cases "cnt (store w) (failHandleKey u h) + 1 < HandleThreshold (effective r)")
      (force simp: record_handle_def Let_def bump_def bump_left_def)+
qed

definition escalated :: "RedisRateLimiter \<Rightarrow> string \<Rightarrow> int \<Rightarrow> (string \<times> int) list" where
  "escalated r ip lc =
     (if PersistentBanThreshold (Params r) > 0 \<and> lc \<ge> PersistentBanThreshold (Params r) \<and> hasBanHook r
      then [(ip, lc)] else [])"

lemma record_ip_step:
  assumes laws: "redis_laws R cnt left" and okay: "limits_ok r" and C: "0 \<le> cnt (store w) (lockcountIPKey ip)"
  shows "\<exists>w'. record_ip R r ip w = (RlOk, w')
    \<and> eligible w' = eligible w
        @ (if cnt (store w) (failIPKey ip) + 1 < IPThreshold (effective r) then []
           else escalated r ip (cnt (store w) (lockcountIPKey ip) + 1))
    \<and> cnt (store w') = bump (IPThreshold (effective r)) (failIPKey ip) (lockcountIPKey ip) (lockIPKey ip) (cnt (store w))
    \<and> left (store w') (lockIPKey ip) = bump_left r (IPThreshold (effective r)) (failIPKey ip)
         (lockcountIPKey ip) (lockIPKey ip) (cnt (store w)) (left (store w))
    \<and> (\<forall>h. left (store w') (lockHandleKey u h) = left (store w) (lockHandleKey u h))"
proof -
  have d: "failIPKey ip \<noteq> lockcountIPKey ip" "failIPKey ip \<noteq> lockIPKey ip" "lockcountIPKey ip \<noteq> lockIPKey ip"
    "\<And>h. lockHandleKey u h \<notin> {failIPKey ip, lockcountIPKey ip, lockIPKey ip}"
    by (simp_all add: key_defs)
  from lock_sequence [OF laws okay C d(1-3)] d show ?thesis
    by (cases "cnt (store w) (failIPKey ip) + 1 < IPThreshold (effective r)")
      (force simp: record_ip_def Let_def bump_def bump_left_def escalated_def)+
qed

section \<open>A run of failures\<close>

fun failures ::
  "(string \<Rightarrow> string) \<Rightarrow> 's redis \<Rightarrow> RedisRateLimiter \<Rightarrow> string \<Rightarrow> string option \<Rightarrow> nat \<Rightarrow> 's rl_world
   \<Rightarrow> rl_result \<times> 's rl_world" where
  "failures u R r h addr 0 w = (RlOk, w)"
| "failures u R r h addr (Suc n) w =
     (case failures u R r h addr n w of
        (RlOk, w') \<Rightarrow> RecordFailure u R r h addr w'
      | (res, w') \<Rightarrow> (res, w'))"

text \<open>A counter after \<open>n\<close> failures, its lock count having been \<open>l\<close>.\<close>

definition tally_ok ::
  "RedisRateLimiter \<Rightarrow> int \<Rightarrow> int \<Rightarrow> nat \<Rightarrow> string \<Rightarrow> string \<Rightarrow> string \<Rightarrow> (string \<Rightarrow> int) \<Rightarrow> (string \<Rightarrow> int option) \<Rightarrow> bool" where
  "tally_ok r T l n F C K cnt left \<longleftrightarrow>
     cnt F = int n mod T \<and> cnt C = l + int n div T
     \<and> left K = (if int n < T then None else Some (backoff r (l + int n div T)))"

lemma below_div: "0 < T \<Longrightarrow> int n < T \<longleftrightarrow> int n div T = 0"
  by (auto simp: zdiv_eq_0_iff)

lemma tally_step:
  assumes "0 < T" "F \<noteq> C" "F \<noteq> K" "C \<noteq> K" and t: "tally_ok r T l n F C K cnt left"
    and K: "left' K = bump_left r T F C K cnt left"
  shows "tally_ok r T l (Suc n) F C K (bump T F C K cnt) left'"
proof -
  define q m where "q = int n div T" and "m = int n mod T"
  have n: "int n = T * q + m" "0 \<le> m" "m < T" using assms(1) by (simp_all add: q_def m_def)
  have q: "0 \<le> q" using assms(1) by (simp add: q_def pos_imp_zdiv_nonneg_iff)
  have old: "cnt F = m" "cnt C = l + q" "left K = (if q = 0 then None else Some (backoff r (l + q)))"
    using t unfolding tally_ok_def below_div [OF assms(1)] by (simp_all add: q_def m_def)
  show ?thesis
  proof (cases "m + 1 < T")
    case True
    then have s: "int (Suc n) div T = q" "int (Suc n) mod T = m + 1"
      using n by (auto intro!: int_div_pos_eq int_mod_pos_eq)
    with True old K assms(2-4) show ?thesis
      unfolding tally_ok_def below_div [OF assms(1)] s by (simp add: bump_def bump_left_def)
  next
    case False
    with n have m: "m + 1 = T" by simp
    then have s: "int (Suc n) div T = q + 1" "int (Suc n) mod T = 0"
      using n assms(1) by (auto intro!: int_div_pos_eq [of _ _ _ 0] int_mod_pos_eq [of _ _ "q + 1"] simp: algebra_simps)
    have "q + 1 \<noteq> 0" using q by simp
    with m old K assms(2-4) show ?thesis
      unfolding tally_ok_def below_div [OF assms(1)] s by (simp add: bump_def bump_left_def add.assoc)
  qed
qed

lemma tally_frame:
  assumes "tally_ok r T l n F C K cnt left" "cnt' F = cnt F" "cnt' C = cnt C" "left' K = left K"
  shows "tally_ok r T l n F C K cnt' left'"
  using assms by (simp add: tally_ok_def)

lemma bump_other: "j \<notin> {F, C, K} \<Longrightarrow> bump T F C K cnt j = cnt j"
  by (simp add: bump_def)

text \<open>The escalations of \<open>n\<close> failures.\<close>

definition escalations :: "RedisRateLimiter \<Rightarrow> string \<Rightarrow> int \<Rightarrow> nat \<Rightarrow> (string \<times> int) list" where
  "escalations r ip l n =
     concat (map (\<lambda>i. escalated r ip (l + int i)) [1..<Suc (nat (int n div IPThreshold (effective r)))])"

lemma escalations_step:
  assumes "0 < IPThreshold (effective r)"
  shows "escalations r ip l (Suc n) = escalations r ip l n
    @ (if int n mod IPThreshold (effective r) + 1 < IPThreshold (effective r) then []
       else escalated r ip (l + int n div IPThreshold (effective r) + 1))"
proof -
  define T where "T = IPThreshold (effective r)"
  define q m where "q = int n div T" and "m = int n mod T"
  have n: "int n = T * q + m" "0 \<le> m" "m < T" using assms by (simp_all add: q_def m_def T_def)
  have q: "0 \<le> q" using assms by (simp add: q_def T_def pos_imp_zdiv_nonneg_iff)
  show ?thesis
  proof (cases "m + 1 < T")
    case True
    then have "int (Suc n) div T = q" using n by (auto intro!: int_div_pos_eq)
    with True show ?thesis by (simp add: escalations_def T_def [symmetric] q_def m_def)
  next
    case False
    with n have "m + 1 = T" by simp
    then have "int (Suc n) div T = q + 1"
      using n assms by (auto intro!: int_div_pos_eq [of _ _ _ 0] simp: algebra_simps T_def)
    with False q show ?thesis
      by (simp add: escalations_def T_def [symmetric] q_def [symmetric] m_def [symmetric] nat_add_distrib algebra_simps)
  qed
qed

definition handle_tally ::
  "('s \<Rightarrow> string \<Rightarrow> int) \<Rightarrow> ('s \<Rightarrow> string \<Rightarrow> int option) \<Rightarrow> (string \<Rightarrow> string) \<Rightarrow> RedisRateLimiter \<Rightarrow> string
   \<Rightarrow> int \<Rightarrow> nat \<Rightarrow> 's \<Rightarrow> bool" where
  "handle_tally cnt left u r h l n s =
     tally_ok r (HandleThreshold (effective r)) l n (failHandleKey u h) (lockcountHandleKey u h) (lockHandleKey u h)
       (cnt s) (left s)"

definition ip_tally ::
  "('s \<Rightarrow> string \<Rightarrow> int) \<Rightarrow> ('s \<Rightarrow> string \<Rightarrow> int option) \<Rightarrow> RedisRateLimiter \<Rightarrow> string \<Rightarrow> int \<Rightarrow> nat \<Rightarrow> 's \<Rightarrow> bool" where
  "ip_tally cnt left r ip l n s =
     tally_ok r (IPThreshold (effective r)) l n (failIPKey ip) (lockcountIPKey ip) (lockIPKey ip) (cnt s) (left s)"

lemma tally_count_nonneg: "tally_ok r T l n F C K cnt left \<Longrightarrow> 0 < T \<Longrightarrow> 0 \<le> l \<Longrightarrow> 0 \<le> cnt C"
  by (simp add: tally_ok_def pos_imp_zdiv_nonneg_iff)

lemma handle_half:
  assumes laws: "redis_laws R cnt left" and okay: "limits_ok r" and l: "0 \<le> l"
    and t: "handle_tally cnt left u r h l n (store w)" and tip: "ip_tally cnt left r ip l' n' (store w)"
  shows "\<exists>w'. record_handle u R r h addr w = (RlOk, w') \<and> eligible w' = eligible w
    \<and> handle_tally cnt left u r h l (Suc n) (store w') \<and> ip_tally cnt left r ip l' n' (store w')"
proof -
  let ?F = "failHandleKey u h" and ?C = "lockcountHandleKey u h" and ?K = "lockHandleKey u h"
  have T: "0 < HandleThreshold (effective r)" using okay by (simp add: limits_ok_def)
  have "0 \<le> cnt (store w) ?C" using tally_count_nonneg t T l unfolding handle_tally_def by blast
  from record_handle_step [OF laws okay this] obtain w' where w': "record_handle u R r h addr w = (RlOk, w')"
    "eligible w' = eligible w" "cnt (store w') = bump (HandleThreshold (effective r)) ?F ?C ?K (cnt (store w))"
    "left (store w') ?K = bump_left r (HandleThreshold (effective r)) ?F ?C ?K (cnt (store w)) (left (store w))"
    "\<forall>ip. left (store w') (lockIPKey ip) = left (store w) (lockIPKey ip)" by blast
  have "?F \<noteq> ?C" "?F \<noteq> ?K" "?C \<noteq> ?K" by (simp_all add: key_defs)
  then have "handle_tally cnt left u r h l (Suc n) (store w')"
    unfolding handle_tally_def w'(3) using tally_step T t w'(4) unfolding handle_tally_def by blast
  moreover have "ip_tally cnt left r ip l' n' (store w')"
    unfolding ip_tally_def
    by (rule tally_frame [OF tip [unfolded ip_tally_def]]) (simp_all only: w' bump_other [OF keys_apart(1)] bump_other [OF keys_apart(2)]
        bump_other [OF keys_apart(4)] bump_other [OF keys_apart(5)])
  ultimately show ?thesis using w' by blast
qed

lemma ip_half:
  assumes laws: "redis_laws R cnt left" and okay: "limits_ok r" and l: "0 \<le> l'"
    and t: "handle_tally cnt left u r h l n (store w)" and tip: "ip_tally cnt left r ip l' n' (store w)"
    and e: "eligible w = es @ escalations r ip l' n'"
  shows "\<exists>w'. record_ip R r ip w = (RlOk, w') \<and> eligible w' = es @ escalations r ip l' (Suc n')
    \<and> handle_tally cnt left u r h l n (store w') \<and> ip_tally cnt left r ip l' (Suc n') (store w')"
proof -
  let ?F = "failIPKey ip" and ?C = "lockcountIPKey ip" and ?K = "lockIPKey ip"
  have T: "0 < IPThreshold (effective r)" using okay by (simp add: limits_ok_def)
  have "0 \<le> cnt (store w) ?C" using tally_count_nonneg tip T l unfolding ip_tally_def by blast
  from record_ip_step [OF laws okay this, of u] obtain w' where w': "record_ip R r ip w = (RlOk, w')"
    "eligible w' = eligible w @ (if cnt (store w) ?F + 1 < IPThreshold (effective r) then []
       else escalated r ip (cnt (store w) ?C + 1))"
    "cnt (store w') = bump (IPThreshold (effective r)) ?F ?C ?K (cnt (store w))"
    "left (store w') ?K = bump_left r (IPThreshold (effective r)) ?F ?C ?K (cnt (store w)) (left (store w))"
    "\<forall>h. left (store w') (lockHandleKey u h) = left (store w) (lockHandleKey u h)" by blast
  have "?F \<noteq> ?C" "?F \<noteq> ?K" "?C \<noteq> ?K" by (simp_all add: key_defs)
  then have "ip_tally cnt left r ip l' (Suc n') (store w')"
    unfolding ip_tally_def w'(3) using tally_step T tip w'(4) unfolding ip_tally_def by blast
  moreover have "handle_tally cnt left u r h l n (store w')"
    unfolding handle_tally_def
    by (rule tally_frame [OF t [unfolded handle_tally_def]]) (simp_all only: w' bump_other [OF keys_apart(1)] bump_other [OF keys_apart(2)]
        bump_other [OF keys_apart(4)] bump_other [OF keys_apart(5)])
  moreover have "eligible w' = es @ escalations r ip l' (Suc n')"
    using w'(2) e tip T by (simp add: escalations_step ip_tally_def tally_ok_def)
  ultimately show ?thesis using w' by blast
qed

lemma failures_tally:
  assumes "redis_laws R cnt left" "limits_ok r" "h \<noteq> []" "normalizeIP addr \<noteq> []" "0 \<le> l" "0 \<le> l'"
    and "handle_tally cnt left u r h l 0 (store w)" "ip_tally cnt left r (normalizeIP addr) l' 0 (store w)"
  shows "\<exists>w'. failures u R r h addr n w = (RlOk, w')
    \<and> eligible w' = eligible w @ escalations r (normalizeIP addr) l' n
    \<and> handle_tally cnt left u r h l n (store w') \<and> ip_tally cnt left r (normalizeIP addr) l' n (store w')"
proof (induction n)
  case 0
  have "escalations r ip l' 0 = []" for ip by (simp add: escalations_def)
  with assms show ?case by simp
next
  case (Suc n)
  then obtain w1 where w1: "failures u R r h addr n w = (RlOk, w1)"
    "eligible w1 = eligible w @ escalations r (normalizeIP addr) l' n"
    "handle_tally cnt left u r h l n (store w1)" "ip_tally cnt left r (normalizeIP addr) l' n (store w1)" by blast
  from handle_half [OF assms(1,2,5) w1(3,4)] w1(2) obtain w2 where w2: "record_handle u R r h addr w1 = (RlOk, w2)"
    "eligible w2 = eligible w @ escalations r (normalizeIP addr) l' n"
    "handle_tally cnt left u r h l (Suc n) (store w2)" "ip_tally cnt left r (normalizeIP addr) l' n (store w2)" by force
  from ip_half [OF assms(1,2,6) w2(3,4,2)] assms(3,4) w1(1) w2(1) show ?case
    by (force simp: RecordFailure_def Let_def)
qed

text \<open>Failures recorded without a handle count for the address only.\<close>

lemma failures_ip_only:
  assumes "redis_laws R cnt left" "limits_ok r" "normalizeIP addr \<noteq> []" "0 \<le> l'"
    and "handle_tally cnt left u r h l m (store w)" "ip_tally cnt left r (normalizeIP addr) l' n (store w)"
    and "eligible w = es @ escalations r (normalizeIP addr) l' n"
  shows "\<exists>w'. RecordFailure u R r [] addr w = (RlOk, w')
    \<and> eligible w' = es @ escalations r (normalizeIP addr) l' (Suc n)
    \<and> handle_tally cnt left u r h l m (store w') \<and> ip_tally cnt left r (normalizeIP addr) l' (Suc n) (store w')"
  using ip_half [OF assms(1,2,4-7)] assms(3) by (force simp: RecordFailure_def Let_def)

lemma lockTTL_left:
  assumes "redis_laws R cnt left" "\<And>d. left s k = Some d \<Longrightarrow> 0 < d"
  shows "lockTTL R r k s = Some (left s k)"
proof (cases "left s k")
  case None
  then show ?thesis by (simp add: lockTTL_def redis_ttl [OF assms(1)])
next
  case (Some d)
  with assms(2) have "0 < d" by blast
  with Some show ?thesis by (simp add: lockTTL_def redis_ttl [OF assms(1)])
qed

lemma tally_left_pos:
  assumes "tally_ok r T l n F C K cnt left" "limits_ok r" "0 < T" "0 \<le> l" "left K = Some d"
  shows "0 < d"
proof -
  have "1 \<le> l + int n div T" if "\<not> int n < T"
    using that assms(3,4) pos_imp_zdiv_pos_iff [of T "int n"] by simp
  with assms backoff_bounds(1) [OF assms(2)] show ?thesis by (auto simp: tally_ok_def split: if_splits)
qed

lemma Check_tally:
  assumes "redis_laws R cnt left" "limits_ok r" "normalizeIP addr \<noteq> []" "0 \<le> l" "0 \<le> l'"
    and "handle_tally cnt left u r h l m s" "ip_tally cnt left r (normalizeIP addr) l' n s"
  shows "Check u R r h addr s =
    ((if int m \<ge> HandleThreshold (effective r)
        then \<lparr>LockedOut = True, RetryAfter = backoff r (l + int m div HandleThreshold (effective r))\<rparr>
      else if int n \<ge> IPThreshold (effective r)
        then \<lparr>LockedOut = True, RetryAfter = backoff r (l' + int n div IPThreshold (effective r))\<rparr>
      else unlocked), True)"
proof -
  have T: "0 < HandleThreshold (effective r)" "0 < IPThreshold (effective r)"
    using assms(2) by (simp_all add: limits_ok_def)
  have "lockTTL R r (lockHandleKey u h) s = Some (left s (lockHandleKey u h))"
    "lockTTL R r (lockIPKey (normalizeIP addr)) s = Some (left s (lockIPKey (normalizeIP addr)))"
    using lockTTL_left [OF assms(1)] tally_left_pos [OF _ assms(2)] T assms(4-7)
    unfolding handle_tally_def ip_tally_def by blast+
  with assms show ?thesis
    by (auto simp: Check_def Let_def handle_tally_def ip_tally_def tally_ok_def)
qed

text \<open>
  C12: From counters at zero, after \<open>n\<close> failures in a row of one handle from one address the handle
  has been locked \<open>n div HandleThreshold\<close> times and the address \<open>n div IPThreshold\<close> times; the
  check then refuses exactly when one threshold has been reached, for the base duration doubled
  with every lock up to the cap; and the ban hook was called for every lock of the address from
  the threshold on.
\<close>

theorem lockout_schedule:
  assumes "redis_laws R cnt left" and "limits_ok r" and "h \<noteq> []" and "normalizeIP addr \<noteq> []"
    and "0 \<le> l" and "0 \<le> l'"
    and "handle_tally cnt left u r h l 0 (store w)" and "ip_tally cnt left r (normalizeIP addr) l' 0 (store w)"
  shows "\<exists>w'. failures u R r h addr n w = (RlOk, w')
    \<and> eligible w' = eligible w @ escalations r (normalizeIP addr) l' n
    \<and> Check u R r h addr (store w') =
        ((if int n \<ge> HandleThreshold (effective r)
            then \<lparr>LockedOut = True, RetryAfter = backoff r (l + int n div HandleThreshold (effective r))\<rparr>
          else if int n \<ge> IPThreshold (effective r)
            then \<lparr>LockedOut = True, RetryAfter = backoff r (l' + int n div IPThreshold (effective r))\<rparr>
          else unlocked), True)"
proof -
  obtain w' where w': "failures u R r h addr n w = (RlOk, w')"
    "eligible w' = eligible w @ escalations r (normalizeIP addr) l' n"
    "handle_tally cnt left u r h l n (store w')" "ip_tally cnt left r (normalizeIP addr) l' n (store w')"
    using failures_tally [OF assms, of n] by blast
  with Check_tally [OF assms(1,2,4,5,6) w'(3,4)] show ?thesis by blast
qed

section \<open>Witness\<close>

text \<open>Redis as two maps in memory, as long as no key expires.\<close>

record mem =
  nums :: "string \<Rightarrow> int"
  lives :: "string \<Rightarrow> int option"

definition mem_redis :: "mem redis" where
  "mem_redis =
     \<lparr>r_incr = (\<lambda>k s. (Some (nums s k + 1), s\<lparr>nums := (nums s)(k := nums s k + 1)\<rparr>)),
      r_expire = (\<lambda>k d s. (True, s\<lparr>lives := (lives s)(k := Some d)\<rparr>)),
      r_set = (\<lambda>k d s. (True, s\<lparr>nums := (nums s)(k := 1), lives := (lives s)(k := Some d)\<rparr>)),
      r_ttl = (\<lambda>k s. TtlReply (case lives s k of None \<Rightarrow> - 2 | Some d \<Rightarrow> d)),
      r_del = (\<lambda>ks s. (True, s\<lparr>nums := (\<lambda>k. if k \<in> set ks then 0 else nums s k),
                             lives := (\<lambda>k. if k \<in> set ks then None else lives s k)\<rparr>))\<rparr>"

lemma mem_redis_laws: "redis_laws mem_redis nums lives"
  by (simp add: redis_laws_def mem_redis_def)

definition demo_limiter :: RedisRateLimiter where
  "demo_limiter =
     \<lparr>Params = \<lparr>HandleThreshold = 5, IPThreshold = 20, WindowDuration = 900 * second, LockDuration = 900 * second,
        BackoffMax = 5, PersistentBanThreshold = 3, LockcountWindow = 0\<rparr>,
      Settings = Some \<lparr>LockoutHandleThreshold = 2, LockoutIPThreshold = 1, LockoutWindowSeconds = 0\<rparr>,
      hasBanHook = True, hasAudit = True\<rparr>"

definition empty_mem :: "mem rl_world" where
  "empty_mem = \<lparr>store = \<lparr>nums = (\<lambda>_. 0), lives = (\<lambda>_. None)\<rparr>, emitted = [], eligible = []\<rparr>"

lemma demo_limiter_ok: "limits_ok demo_limiter"
  by (simp add: limits_ok_def demo_limiter_def effective_def second_def)

theorem lockout_schedule_witness:
  "\<exists>w'. failures id mem_redis demo_limiter ''eve'' (Some ''192.0.2.1:9'') 4 empty_mem = (RlOk, w')
     \<and> eligible w' = [(''192.0.2.1'', 3), (''192.0.2.1'', 4)]
     \<and> Check id mem_redis demo_limiter ''eve'' (Some ''192.0.2.1:9'') (store w')
         = (\<lparr>LockedOut = True, RetryAfter = 1800 * second\<rparr>, True)"
proof -
  have ip: "normalizeIP (Some ''192.0.2.1:9'') = ''192.0.2.1''"
    by (simp add: normalizeIP_def SplitHostPort_def)
  have eff: "HandleThreshold (effective demo_limiter) = 2" "IPThreshold (effective demo_limiter) = 1"
    by (simp_all add: effective_def demo_limiter_def)
  have "handle_tally nums lives id demo_limiter ''eve'' 0 0 (store empty_mem)"
    "ip_tally nums lives demo_limiter ''192.0.2.1'' 0 0 (store empty_mem)"
    by (simp_all add: handle_tally_def ip_tally_def tally_ok_def empty_mem_def eff)
  moreover have "backoff demo_limiter 2 = 1800 * second"
    by (simp add: backoff_def demo_limiter_def second_def)
  moreover have "escalations demo_limiter ''192.0.2.1'' 0 4 = [(''192.0.2.1'', 3), (''192.0.2.1'', 4)]"
    by (simp add: escalations_def eff escalated_def upt_rec) (simp add: demo_limiter_def)
  ultimately show ?thesis
    using lockout_schedule [OF mem_redis_laws demo_limiter_ok, of "''eve''" "Some ''192.0.2.1:9''" 0 0 id empty_mem 4]
    by (simp add: ip eff) (simp add: empty_mem_def)
qed

end
