(* ===== verification/Bans.thy ===== *)
theory Bans
  imports RateLimit
begin

text \<open>
  Persistent address bans (\<^verbatim>\<open>src/internal/auth/persistban.go\<close>) over the table
  \<open>security_ip_bans\<close> that the statements in \<^verbatim>\<open>src/internal/data/gen/security.sql.go\<close> read and
  write, and the hook of \<^verbatim>\<open>src/cmd/nightms/main.go\<close> that turns repeated lockouts into a ban.
  Several replicas of the server share the table; each has its own cache and refreshes it from the
  table, on a timer or when another replica announces a change.  A statement that fails is a
  flag of the operation.  Times are nanoseconds.
\<close>

section \<open>The table\<close>

record ban_row =
  IpAddr :: string
  BannedAt :: int
  ExpiresAt :: int
  Reason :: string
  CreatedBy :: string

definition UpsertIPBan :: "int \<Rightarrow> string \<Rightarrow> int \<Rightarrow> string \<Rightarrow> string \<Rightarrow> ban_row list \<Rightarrow> ban_row list" where
  "UpsertIPBan now ip expiry why by rows =
     (let r = \<lparr>IpAddr = ip, BannedAt = now, ExpiresAt = expiry, Reason = why, CreatedBy = by\<rparr>
      in if list_ex (\<lambda>x. IpAddr x = ip) rows then map (\<lambda>x. if IpAddr x = ip then r else x) rows
         else rows @ [r])"

definition DeleteIPBan :: "string \<Rightarrow> ban_row list \<Rightarrow> int \<times> ban_row list" where
  "DeleteIPBan ip rows =
     (int (length (filter (\<lambda>x. IpAddr x = ip) rows)), filter (\<lambda>x. IpAddr x \<noteq> ip) rows)"

definition ListActiveIPBans :: "int \<Rightarrow> ban_row list \<Rightarrow> ban_row list" where
  "ListActiveIPBans now rows = rev (sort_key BannedAt (filter (\<lambda>x. ExpiresAt x > now) rows))"

definition DeleteExpiredIPBans :: "int \<Rightarrow> ban_row list \<Rightarrow> int \<times> ban_row list" where
  "DeleteExpiredIPBans now rows =
     (int (length (filter (\<lambda>x. ExpiresAt x \<le> now) rows)), filter (\<lambda>x. \<not> ExpiresAt x \<le> now) rows)"

section \<open>The cache\<close>

record BanCache =
  bans :: "string \<Rightarrow> int option"

definition NewBanCache :: BanCache where
  "NewBanCache = \<lparr>bans = Map.empty\<rparr>"

text \<open>The answer with the expiry, and the cache after dropping a stale entry.\<close>

definition IsBanned :: "int \<Rightarrow> string \<Rightarrow> BanCache \<Rightarrow> (bool \<times> int option) \<times> BanCache" where
  "IsBanned now ip c =
     (if ip = [] then ((False, None), c)
      else case bans c ip of
        None \<Rightarrow> ((False, None), c)
      | Some e \<Rightarrow> if now > e then ((False, None), c\<lparr>bans := (bans c)(ip := None)\<rparr>) else ((True, Some e), c))"

definition cache_of :: "ban_row list \<Rightarrow> string \<Rightarrow> int option" where
  "cache_of rows = foldl (\<lambda>m r. m(IpAddr r := Some (ExpiresAt r))) Map.empty rows"

text \<open>\<open>None\<close> is a failed query, which leaves the cache.\<close>

definition refresh :: "ban_row list option \<Rightarrow> BanCache \<Rightarrow> bool \<times> BanCache" where
  "refresh answer c = (case answer of None \<Rightarrow> (False, c) | Some rows \<Rightarrow> (True, c\<lparr>bans := cache_of rows\<rparr>))"

definition Snapshot_bans :: "BanCache \<Rightarrow> string \<Rightarrow> int option" where
  "Snapshot_bans c = bans c"

definition AddBan ::
  "bool \<Rightarrow> int \<Rightarrow> string \<Rightarrow> int \<Rightarrow> string \<Rightarrow> string \<Rightarrow> ban_row list \<Rightarrow> BanCache
   \<Rightarrow> bool \<times> ban_row list \<times> BanCache \<times> audit_event list" where
  "AddBan stored now ip duration why by rows c =
     (if ip = [] \<or> \<not> stored then (False, rows, c, [])
      else let expiry = now + duration in
        (True, UpsertIPBan now ip expiry why by rows, c\<lparr>bans := (bans c)(ip := Some expiry)\<rparr>,
         [if by = ''auto'' then PersistentBanAuto ip 0 expiry else PersistentBanManual ip by why expiry]))"

definition RemoveBan ::
  "bool \<Rightarrow> string \<Rightarrow> string \<Rightarrow> ban_row list \<Rightarrow> BanCache
   \<Rightarrow> int option \<times> ban_row list \<times> BanCache \<times> audit_event list" where
  "RemoveBan stored ip by rows c =
     (if ip = [] \<or> \<not> stored then (None, rows, c, [])
      else case DeleteIPBan ip rows of (n, rows') \<Rightarrow>
        (Some n, rows', c\<lparr>bans := (bans c)(ip := None)\<rparr>, if n > 0 then [PersistentBanRevoke ip by] else []))"

text \<open>The hook: the address is banned under the text the limiter counted it by.\<close>

definition auto_ban :: "bool \<Rightarrow> int \<Rightarrow> int \<Rightarrow> string \<Rightarrow> int \<Rightarrow> ban_row list \<Rightarrow> BanCache
   \<Rightarrow> bool \<times> ban_row list \<times> BanCache \<times> audit_event list" where
  "auto_ban stored now duration ip lockcount rows c =
     AddBan stored now ip duration (''auto: '' @ digits 10 (nat lockcount) @ '' lockouts within window'') ''auto'' rows c"

section \<open>Replicas\<close>

text \<open>
  The shared table, the clock, each replica's cache and the rows a refresh under way has read.
  A refresh reads the rows (\<open>OpFetch\<close>) and stores them later (\<open>OpSwap\<close>).
\<close>

record bsys =
  table :: "ban_row list"
  clock :: int
  caches :: "BanCache list"
  reading :: "ban_row list option list"

datatype bop =
    OpTick nat
  | OpAdd nat string int string string bool
  | OpRemove nat string string bool
  | OpRead nat string
  | OpFetch nat
  | OpSwap nat
  | OpReap

fun bop_apply :: "bop \<Rightarrow> bsys \<Rightarrow> bsys" where
  "bop_apply (OpTick d) s = s\<lparr>clock := clock s + int d\<rparr>"
| "bop_apply (OpAdd i ip d why by stored) s =
     (if i < length (caches s) then
        (case AddBan stored (clock s) ip d why by (table s) (caches s ! i) of
           (_, t, c, _) \<Rightarrow> s\<lparr>table := t, caches := (caches s)[i := c]\<rparr>)
      else s)"
| "bop_apply (OpRemove i ip by stored) s =
     (if i < length (caches s) then
        (case RemoveBan stored ip by (table s) (caches s ! i) of
           (_, t, c, _) \<Rightarrow> s\<lparr>table := t, caches := (caches s)[i := c]\<rparr>)
      else s)"
| "bop_apply (OpRead i ip) s =
     (if i < length (caches s) then s\<lparr>caches := (caches s)[i := snd (IsBanned (clock s) ip (caches s ! i))]\<rparr> else s)"
| "bop_apply (OpFetch i) s =
     (if i < length (reading s) then s\<lparr>reading := (reading s)[i := Some (ListActiveIPBans (clock s) (table s))]\<rparr> else s)"
| "bop_apply (OpSwap i) s =
     (if i < length (caches s) \<and> i < length (reading s) \<and> reading s ! i \<noteq> None then
        s\<lparr>caches := (caches s)[i := snd (refresh (reading s ! i) (caches s ! i))],
          reading := (reading s)[i := None]\<rparr>
      else s)"
| "bop_apply OpReap s = s\<lparr>table := snd (DeleteExpiredIPBans (clock s) (table s))\<rparr>"

definition bop_run :: "bop list \<Rightarrow> bsys \<Rightarrow> bsys" where
  "bop_run ops s = foldl (\<lambda>s op. bop_apply op s) s ops"

text \<open>Operations that neither renew nor lift the ban of an address.\<close>

fun leaves :: "string \<Rightarrow> bop \<Rightarrow> bool" where
  "leaves ip (OpAdd i ip' d why by stored) = (ip' \<noteq> ip)"
| "leaves ip (OpRemove i ip' by stored) = (ip' \<noteq> ip)"
| "leaves ip _ = True"

text \<open>The table is keyed by the address.\<close>

definition keyed :: "ban_row list \<Rightarrow> bool" where
  "keyed rows = distinct (map IpAddr rows)"

definition row_for :: "string \<Rightarrow> int \<Rightarrow> ban_row list \<Rightarrow> bool" where
  "row_for ip e rows \<longleftrightarrow> keyed rows \<and> (\<exists>r \<in> set rows. IpAddr r = ip \<and> ExpiresAt r = e)"

lemma keyed_unique: "keyed rows \<Longrightarrow> r \<in> set rows \<Longrightarrow> r' \<in> set rows \<Longrightarrow> IpAddr r = IpAddr r' \<Longrightarrow> r = r'"
  unfolding keyed_def by (metis (full_types) inj_onD distinct_map)

lemma keyed_filter: "keyed rows \<Longrightarrow> keyed (filter P rows)"
  by (simp add: keyed_def distinct_map_filter)

lemma keyed_upsert: "keyed rows \<Longrightarrow> keyed (UpsertIPBan now ip e why by rows)"
proof -
  assume k: "keyed rows"
  let ?r = "\<lparr>IpAddr = ip, BannedAt = now, ExpiresAt = e, Reason = why, CreatedBy = by\<rparr>"
  have "map IpAddr (map (\<lambda>x. if IpAddr x = ip then ?r else x) rows) = map IpAddr rows" by simp
  with k show ?thesis
    by (auto simp: keyed_def UpsertIPBan_def Let_def list_ex_iff simp del: map_map)
qed

lemma upsert_set:
  "keyed rows \<Longrightarrow> r \<in> set (UpsertIPBan now ip e why by rows) \<longleftrightarrow>
     r = \<lparr>IpAddr = ip, BannedAt = now, ExpiresAt = e, Reason = why, CreatedBy = by\<rparr>
     \<or> (r \<in> set rows \<and> IpAddr r \<noteq> ip)"
  by (auto simp: UpsertIPBan_def Let_def list_ex_iff)

lemma row_for_upsert: "keyed rows \<Longrightarrow> row_for ip e (UpsertIPBan now ip e why by rows)"
  unfolding row_for_def
  by (intro conjI keyed_upsert bexI [of _ "\<lparr>IpAddr = ip, BannedAt = now, ExpiresAt = e, Reason = why, CreatedBy = by\<rparr>"])
    (simp_all add: upsert_set)

lemma row_for_other: "row_for ip e rows \<Longrightarrow> ip' \<noteq> ip \<Longrightarrow> row_for ip e (UpsertIPBan now ip' e' why by rows)"
  by (auto simp: row_for_def keyed_upsert upsert_set)

lemma row_for_filter:
  "row_for ip e rows \<Longrightarrow> (\<And>r. IpAddr r = ip \<Longrightarrow> ExpiresAt r = e \<Longrightarrow> P r) \<Longrightarrow> row_for ip e (filter P rows)"
  by (auto simp: row_for_def keyed_filter)

lemma row_for_active: "row_for ip e rows \<Longrightarrow> now < e \<Longrightarrow> row_for ip e (ListActiveIPBans now rows)"
proof -
  assume r: "row_for ip e rows" "now < e"
  then have "row_for ip e (filter (\<lambda>x. ExpiresAt x > now) rows)" by (intro row_for_filter) auto
  then show ?thesis
    by (auto simp: row_for_def keyed_def ListActiveIPBans_def rev_map [symmetric] distinct_map)
qed

lemma cache_of_append: "cache_of (rows @ [r]) = (cache_of rows)(IpAddr r := Some (ExpiresAt r))"
  by (simp add: cache_of_def)

lemma cache_of_row: "row_for ip e rows \<Longrightarrow> cache_of rows ip = Some e"
proof (induction rows rule: rev_induct)
  case Nil
  then show ?case by (simp add: row_for_def)
next
  case (snoc r rows)
  show ?case
  proof (cases "IpAddr r = ip")
    case True
    with snoc.prems have "IpAddr r \<notin> IpAddr ` set rows" "\<exists>x \<in> set (rows @ [r]). IpAddr x = ip \<and> ExpiresAt x = e"
      by (simp_all add: row_for_def keyed_def)
    with True have "ExpiresAt r = e" by (auto simp: image_iff)
    with True show ?thesis by (simp add: cache_of_append)
  next
    case False
    with snoc show ?thesis by (auto simp: cache_of_append row_for_def keyed_def)
  qed
qed

lemma cache_of_none: "\<forall>r \<in> set rows. IpAddr r \<noteq> ip \<Longrightarrow> cache_of rows ip = None"
  by (induction rows rule: rev_induct) (auto simp: cache_of_append, simp add: cache_of_def)

section \<open>A ban holds\<close>

definition holds_at :: "string \<Rightarrow> int \<Rightarrow> nat \<Rightarrow> bsys \<Rightarrow> bool" where
  "holds_at ip e i s \<longleftrightarrow>
     row_for ip e (table s) \<and> i < length (caches s) \<and> i < length (reading s)
     \<and> bans (caches s ! i) ip = Some e
     \<and> (case reading s ! i of None \<Rightarrow> True | Some rows \<Rightarrow> row_for ip e rows)"

lemma bop_clock: "clock s \<le> clock (bop_apply op s)"
  by (cases op) (auto split: prod.splits)

lemma bop_run_clock: "clock s \<le> clock (bop_run ops s)"
proof (induction ops arbitrary: s)
  case Nil
  then show ?case by (simp add: bop_run_def)
next
  case (Cons op ops)
  from Cons [of "bop_apply op s"] bop_clock [of s op] show ?case by (simp add: bop_run_def)
qed

lemma holds_at_step:
  assumes h: "holds_at ip e i s" and op: "leaves ip op" and now: "clock s < e"
  shows "holds_at ip e i (bop_apply op s)"
proof (cases op)
  case (OpAdd j ip' d why who stored)
  with h op show ?thesis
    by (auto simp: holds_at_def AddBan_def Let_def row_for_other nth_list_update)
next
  case (OpRemove j ip' who stored)
  with h op show ?thesis
    by (auto simp: holds_at_def RemoveBan_def DeleteIPBan_def row_for_filter nth_list_update)
next
  case (OpRead j ip')
  with h now show ?thesis
    by (auto simp: holds_at_def IsBanned_def nth_list_update split: option.splits)
next
  case (OpFetch j)
  with h now show ?thesis
    by (auto simp: holds_at_def nth_list_update row_for_active)
next
  case (OpSwap j)
  with h show ?thesis
    by (auto simp: holds_at_def refresh_def nth_list_update cache_of_row split: option.splits)
next
  case OpReap
  with h now show ?thesis
    by (auto simp: holds_at_def DeleteExpiredIPBans_def row_for_filter)
qed (use h in \<open>simp add: holds_at_def\<close>)

lemma holds_at_run:
  assumes "holds_at ip e i s" "list_all (leaves ip) ops" "clock (bop_run ops s) < e"
  shows "holds_at ip e i (bop_run ops s)"
  using assms
proof (induction ops arbitrary: s)
  case Nil
  then show ?case by (simp add: bop_run_def)
next
  case (Cons op ops)
  have "clock s < e"
    using Cons.prems(3) bop_run_clock [of s "op # ops"] by linarith
  with Cons show ?case using holds_at_step [of ip e i s op] by (simp add: bop_run_def)
qed

lemma holds_at_banned: "holds_at ip e i s \<Longrightarrow> ip \<noteq> [] \<Longrightarrow> clock s < e \<Longrightarrow> fst (IsBanned (clock s) ip (caches s ! i)) = (True, Some e)"
  by (simp add: holds_at_def IsBanned_def)


text \<open>
  A refresh that read the table before the ban and stores its rows after it takes the ban out of
  the cache again: the next check on the very replica that banned the address lets it through.
\<close>

theorem refresh_under_way_drops_ban:
  assumes "i < length (caches s)" and "length (reading s) = length (caches s)"
    and "\<forall>r \<in> set (table s). IpAddr r \<noteq> ip"
    and "s' = bop_run [OpFetch i, OpAdd i ip d why by True, OpSwap i] s"
  shows "fst (IsBanned (clock s') ip (caches s' ! i)) = (False, None)"
proof -
  have "cache_of (ListActiveIPBans (clock s) (table s)) ip = None"
    using assms(3) by (intro cache_of_none) (auto simp: ListActiveIPBans_def)
  with assms show ?thesis
    by (simp add: bop_run_def AddBan_def Let_def refresh_def IsBanned_def split: if_splits)
qed

lemma AddBan_other:
  "AddBan stored now ip d why by rows c = (okay, rows', c', evs) \<Longrightarrow> k \<noteq> ip \<Longrightarrow> bans c' k = bans c k"
  by (auto simp: AddBan_def Let_def split: if_splits)

section \<open>Automatic bans of IPv6 addresses\<close>

text \<open>
  A parsed address that has no zone consists of digits, dots and colons, the key of an IPv6
  address has a slash.
\<close>

lemma set_split_on: "set s \<subseteq> insert c (\<Union> (set ` set (split_on c s)))"
proof (induction s)
  case Nil
  then show ?case by simp
next
  case (Cons x s)
  then show ?case by (cases "split_on c s") auto
qed

lemma those_map_all: "those (map f xs) = Some ys \<Longrightarrow> x \<in> set xs \<Longrightarrow> f x \<noteq> None"
  by (induction xs arbitrary: ys) (auto split: option.splits)

lemma parseIPv4_chars: "parseIPv4 s = Some q \<Longrightarrow> CHR ''/'' \<notin> set s"
proof
  assume p: "parseIPv4 s = Some q" and c: "CHR ''/'' \<in> set s"
  then have fs: "those (map parse_field (split_on CHR ''.'' s)) = Some q"
    by (simp add: parseIPv4_def Let_def split: if_splits)
  from c set_split_on [of s "CHR ''.''"] obtain f where f: "f \<in> set (split_on CHR ''.'' s)" "CHR ''/'' \<in> set f"
    by auto
  from those_map_all [OF fs f(1)] have "parse_field f \<noteq> None" .
  with f(2) show False by (auto simp: parse_field_def list_all_iff split: if_splits)
qed

lemma v6_loop_chars: "v6_loop gs ell s = Some res \<Longrightarrow> CHR ''/'' \<notin> set s"
proof (induction gs ell s arbitrary: res rule: v6_loop.induct)
  case (1 gs ell s)
  define h where "h = takeWhile (\<lambda>c. digit_value c \<noteq> None) s"
  define r where "r = drop (length h) s"
  note run = 1(3) [unfolded v6_loop.simps [of gs ell s] Let_def, folded h_def, folded r_def]
  note IH1 = 1(1) [OF _ h_def r_def refl] and IH2 = 1(2) [OF _ h_def r_def refl]
  have s: "s = h @ r" unfolding h_def r_def by (metis append_eq_conv_conj takeWhile_dropWhile_id)
  have hex: "CHR ''/'' \<notin> set h" unfolding h_def by (auto dest!: set_takeWhileD simp: digit_value_def)
  have colon: "CHR ''/'' \<notin> set r" if "r \<noteq> []" "hd r = CHR '':''" "CHR ''/'' \<notin> set (tl r)"
    using that by (cases r) auto
  show ?case
  proof (cases "8 \<le> length gs")
    case True
    with run show ?thesis by (simp split: if_splits)
  next
    case room: False
    with run have h: "h \<noteq> []" "length h \<le> 4" by (simp_all split: if_splits)
    consider (last) "r = []" | (v4) "r \<noteq> []" "hd r = CHR ''.''" | (colon) "r \<noteq> []" "hd r \<noteq> CHR ''.''"
      by blast
    then show ?thesis
    proof cases
      case last
      with s hex show ?thesis by simp
    next
      case v4
      with room h run obtain q where "parseIPv4 s = Some q" by (auto split: if_splits)
      then show ?thesis by (rule parseIPv4_chars)
    next
      case c: colon
      with room h run have r: "hd r = CHR '':''" "tl r \<noteq> []" by (simp_all split: if_splits)
      have "CHR ''/'' \<notin> set (tl r)"
      proof (cases "hd (tl r) = CHR '':''")
        case True
        with room h run c r have e: "ell = None" by (simp split: if_splits)
        have "CHR ''/'' \<notin> set (tl (tl r))"
        proof (cases "tl (tl r) = []")
          case False
          with True room h run c r e
          have "v6_loop (gs @ [number 16 h]) (Some (length (gs @ [number 16 h]))) (tl (tl r)) = Some res" by simp
          with IH1 room h c r True False e show ?thesis by simp
        qed simp
        with True r(2) show ?thesis by (cases "tl r") auto
      next
        case False
        with room h run c r have "v6_loop (gs @ [number 16 h]) ell (tl r) = Some res" by simp
        with IH2 room h c r False show ?thesis by simp
      qed
      with colon c r s hex show ?thesis by simp
    qed
  qed
qed

lemma parseIPv6_chars:
  assumes "parseIPv6 t = Some a" "CHR ''%'' \<notin> set t"
  shows "CHR ''/'' \<notin> set t"
proof -
  have "takeWhile (\<lambda>c. c \<noteq> CHR ''%'') t = t" using assms(2) by (simp add: takeWhile_eq_all_conv) metis
  note run = assms(1) [unfolded parseIPv6_def Let_def this]
  have loop: "CHR ''/'' \<notin> set r" if "Option.bind (v6_loop [] ell r) v6_finish \<noteq> None" for ell r
    using that v6_loop_chars [of "[]" ell r] by (cases "v6_loop [] ell r") auto
  show ?thesis
  proof (cases "HasPrefix t ''::''")
    case True
    then obtain r where t: "t = ''::'' @ r" by (auto simp: HasPrefix_iff)
    then have r: "drop 2 t = r" "length t = 2 \<longleftrightarrow> r = []" by simp_all
    have "CHR ''/'' \<notin> set r"
    proof (cases "r = []")
      case False
      with run True r have "Option.bind (v6_loop [] (Some 0) r) v6_finish \<noteq> None" by auto
      then show ?thesis by (rule loop)
    qed simp
    with t show ?thesis by simp
  next
    case False
    with run have "Option.bind (v6_loop [] None t) v6_finish \<noteq> None" by auto
    then show ?thesis by (rule loop)
  qed
qed

lemma prefix64_no_percent: "length p = 4 \<Longrightarrow> CHR ''%'' \<notin> set (prefix64 p)"
  using set_join [of "CHR '':''" "map (digits 16) (strip_zeros p)"] digits_free [of 16 "CHR ''%''"]
  by (auto simp: prefix64_string digit_value_def)

lemma host_not_key:
  assumes "ParseAddr h = Some (V6 gs z)" "length gs = 8"
  shows "h \<noteq> prefix64 (take 4 gs)"
proof
  assume h: "h = prefix64 (take 4 gs)"
  have "parseIPv6 h = Some (V6 gs z)" using assms(1) by (auto simp: ParseAddr_def split: option.splits if_splits)
  moreover have "CHR ''%'' \<notin> set h" using prefix64_no_percent assms(2) h by simp
  ultimately have "CHR ''/'' \<notin> set h" by (rule parseIPv6_chars)
  then show False unfolding h by (simp add: prefix64_def)
qed

text \<open>
  The limiter counts an address by its text without the port, the ban cache is asked for its
  collapsed key.  For every IPv6 address the two differ, so an automatic ban of one never refuses
  that address anything.
\<close>

theorem auto_ban_misses_ipv6:
  assumes "ParseAddr (host_of s) = Some (V6 gs z)" and "\<not> Is4In6 gs"
    and "auto_ban stored now d (normalizeIP (Some s)) lc rows c = (okay, rows', c', evs)"
  shows "fst (IsBanned t (CollapseIP (Some s)) c') = fst (IsBanned t (CollapseIP (Some s)) c)"
proof -
  have len: "length gs = 8" using ParseAddr_ok [OF assms(1)] by (simp add: netip_ok_def)
  have key: "CollapseIP (Some s) = prefix64 (take 4 gs)"
    using collapse_key_of [OF assms(1)] assms(2) by (simp add: CollapseIP_def source_def key_of_def)
  have "normalizeIP (Some s) = host_of s" by (simp add: normalizeIP_def host_of_def)
  with host_not_key [OF assms(1) len] key have "normalizeIP (Some s) \<noteq> CollapseIP (Some s)" by simp
  then have ne: "CollapseIP (Some s) \<noteq> normalizeIP (Some s)" by (rule not_sym)
  have "bans c' (CollapseIP (Some s)) = bans c (CollapseIP (Some s))"
    by (rule AddBan_other [OF assms(3) [unfolded auto_ban_def] ne])
  then show ?thesis by (simp add: IsBanned_def split: option.split)
qed

section \<open>Witnesses\<close>

definition demo_bans :: bsys where
  "demo_bans = \<lparr>table = [], clock = 100, caches = [NewBanCache, NewBanCache], reading = [None, None]\<rparr>"


theorem refresh_under_way_drops_ban_witness:
  "fst (IsBanned 100 ''192.0.2.1''
      (caches (bop_run [OpFetch 0, OpAdd 0 ''192.0.2.1'' 60 ''spam'' ''op'' True, OpSwap 0] demo_bans) ! 0)) = (False, None)"
proof -
  have "clock (bop_run [OpFetch 0, OpAdd 0 ''192.0.2.1'' 60 ''spam'' ''op'' True, OpSwap 0] demo_bans) = 100"
    by (simp add: bop_run_def demo_bans_def AddBan_def Let_def)
  with refresh_under_way_drops_ban [of 0 demo_bans "''192.0.2.1''" _ 60 "''spam''" "''op''"] show ?thesis
    by (simp add: demo_bans_def)
qed

theorem auto_ban_misses_ipv6_witness:
  "\<exists>rows c. auto_ban True 0 60 (normalizeIP (Some ''[2001:db8:1:2::7]:22'')) 3 [] NewBanCache = (True, rows, c, [PersistentBanAuto ''2001:db8:1:2::7'' 0 60])
     \<and> fst (IsBanned 30 (CollapseIP (Some ''[2001:db8:1:2::7]:22'')) c) = (False, None)"
proof -
  have n: "normalizeIP (Some ''[2001:db8:1:2::7]:22'') = ''2001:db8:1:2::7''"
    by (simp add: normalizeIP_def SplitHostPort_def)
  obtain rows c where a: "auto_ban True 0 60 (normalizeIP (Some ''[2001:db8:1:2::7]:22'')) 3 [] NewBanCache
      = (True, rows, c, [PersistentBanAuto ''2001:db8:1:2::7'' 0 60])"
    by (simp add: n auto_ban_def AddBan_def Let_def)
  have "fst (IsBanned t k NewBanCache) = (False, None)" for t k
    by (simp add: IsBanned_def NewBanCache_def)
  with auto_ban_misses_ipv6 [OF demo_hosts(1) _ a, of 30] a show ?thesis
    by (auto simp: Is4In6_def)
qed

end
