(* ===== verification/Argon2.thy ===== *)
theory Argon2
  imports GoStrings
begin

text \<open>
  Stored passwords (\<^verbatim>\<open>src/internal/auth/argon2id.go\<close>): hashing to a PHC string, verification of
  PHC strings and of the legacy format, and how many Argon2 evaluations each path spends.  The
  key derivation of \<open>golang.org/x/crypto/argon2\<close> is a parameter, \<open>kdf\<close>, with \<open>None\<close> for a panic;
  salts are given.  \<open>encoding/base64\<close> without padding and \<open>strconv.ParseUint\<close> are written out.
  The theorem is the round trip: what was hashed verifies exactly for the passwords with the
  same digest, and asks for a rehash exactly when the parameters have changed.
\<close>

section \<open>Base64 without padding\<close>

definition b64_alphabet :: string where
  "b64_alphabet = ''ABCDEFGHIJKLMNOPQRSTUVWXYZabcdefghijklmnopqrstuvwxyz0123456789+/''"

definition b64_char :: "nat \<Rightarrow> char" where
  "b64_char n = b64_alphabet ! n"

fun index_of :: "'a \<Rightarrow> 'a list \<Rightarrow> nat option" where
  "index_of x [] = None"
| "index_of x (y # ys) = (if x = y then Some 0 else map_option Suc (index_of x ys))"

fun EncodeToString :: "string \<Rightarrow> string" where
  "EncodeToString [] = []"
| "EncodeToString [a] = [b64_char (code a div 4), b64_char (code a mod 4 * 16)]"
| "EncodeToString [a, b] =
     [b64_char (code a div 4), b64_char (code a mod 4 * 16 + code b div 16), b64_char (code b mod 16 * 4)]"
| "EncodeToString (a # b # c # r) =
     [b64_char (code a div 4), b64_char (code a mod 4 * 16 + code b div 16),
      b64_char (code b mod 16 * 4 + code c div 64), b64_char (code c mod 64)] @ EncodeToString r"

fun decode_sextets :: "nat list \<Rightarrow> string option" where
  "decode_sextets [] = Some []"
| "decode_sextets [x] = None"
| "decode_sextets [x, y] = Some [char_of (x * 4 + y div 16)]"
| "decode_sextets [x, y, z] = Some [char_of (x * 4 + y div 16), char_of (y mod 16 * 16 + z div 4)]"
| "decode_sextets (x # y # z # w # r) =
     map_option (\<lambda>s. [char_of (x * 4 + y div 16), char_of (y mod 16 * 16 + z div 4), char_of (z mod 4 * 64 + w)] @ s)
       (decode_sextets r)"

text \<open>Carriage returns and newlines are skipped; the unused low bits at the end are ignored.\<close>

definition DecodeString :: "string \<Rightarrow> string option" where
  "DecodeString s =
     Option.bind (those (map (\<lambda>c. index_of c b64_alphabet) (filter (\<lambda>c. code c \<noteq> 10 \<and> code c \<noteq> 13) s)))
       decode_sextets"

lemma b64_table: "list_all (\<lambda>n. index_of (b64_char n) b64_alphabet = Some n
    \<and> code (b64_char n) \<noteq> 10 \<and> code (b64_char n) \<noteq> 13 \<and> b64_char n \<noteq> CHR ''$'') [0..<64]"
  by (simp add: upt_rec b64_char_def b64_alphabet_def)

lemma b64_char_facts:
  assumes "n < 64"
  shows "index_of (b64_char n) b64_alphabet = Some n" "code (b64_char n) \<noteq> 10" "code (b64_char n) \<noteq> 13"
    "b64_char n \<noteq> CHR ''$''"
  using b64_table assms by (simp_all add: list_all_iff)

fun sextets :: "string \<Rightarrow> nat list" where
  "sextets [] = []"
| "sextets [a] = [code a div 4, code a mod 4 * 16]"
| "sextets [a, b] = [code a div 4, code a mod 4 * 16 + code b div 16, code b mod 16 * 4]"
| "sextets (a # b # c # r) =
     [code a div 4, code a mod 4 * 16 + code b div 16, code b mod 16 * 4 + code c div 64, code c mod 64] @ sextets r"

lemma Encode_sextets: "EncodeToString s = map b64_char (sextets s)"
  by (induction s rule: sextets.induct) simp_all

lemma code_div [simp]: "code c div 4 < 64" "code c div 16 < 16" "code c div 64 < 4"
  using nat_of_char_less_256 [of c] by linarith+

lemma sextet_bounds [simp]:
  "code a mod 4 * 16 + code b div 16 < 64" "code b mod 16 * 4 + code c div 64 < 64"
  "code a mod 4 * 16 < 64" "code b mod 16 * 4 < 64"
  using code_div(2) [of b] code_div(3) [of c] mod_less_divisor [of 4 "code a"] mod_less_divisor [of 16 "code b"]
  by linarith+

lemma sextets_less: "\<forall>n \<in> set (sextets s). n < 64"
  by (induction s rule: sextets.induct) simp_all

lemma decode_sextets_sextets: "decode_sextets (sextets s) = Some s"
  by (induction s rule: sextets.induct) (simp_all add: div_add1_eq)

lemma those_map_Some: "\<forall>x \<in> set xs. f (g x) = Some x \<Longrightarrow> those (map f (map g xs)) = Some xs"
  by (induction xs) simp_all

lemma base64_roundtrip: "DecodeString (EncodeToString s) = Some s"
proof -
  have clean: "filter (\<lambda>c. code c \<noteq> 10 \<and> code c \<noteq> 13) (map b64_char (sextets s)) = map b64_char (sextets s)"
    unfolding filter_id_conv using sextets_less b64_char_facts(2,3) by auto
  have "those (map (\<lambda>c. index_of c b64_alphabet) (map b64_char (sextets s))) = Some (sextets s)"
    by (rule those_map_Some) (use sextets_less b64_char_facts(1) in blast)
  then show ?thesis unfolding DecodeString_def Encode_sextets clean by (simp add: decode_sextets_sextets)
qed

lemma base64_dollar: "CHR ''$'' \<notin> set (EncodeToString s)"
  unfolding Encode_sextets using sextets_less b64_char_facts(4) by fastforce

section \<open>Parameters\<close>

record Argon2Params =
  MemoryKB :: nat
  Iterations :: nat
  Parallelism :: nat
  SaltBytes :: nat
  HashBytes :: nat

definition DefaultArgon2Params :: Argon2Params where
  "DefaultArgon2Params =
     \<lparr>MemoryKB = 65536, Iterations = 3, Parallelism = 1, SaltBytes = 16, HashBytes = 32\<rparr>"

text \<open>\<open>strconv.ParseUint(v, 10, 32)\<close>.\<close>

definition ParseUint32 :: "string \<Rightarrow> nat option" where
  "ParseUint32 v =
     (if v = [] \<or> \<not> list_all (\<lambda>c. 48 \<le> code c \<and> code c \<le> 57) v then None
      else if number 10 v < 2 ^ 32 then Some (number 10 v) else None)"

text \<open>The key, value pair of a text \<open>k=v\<close>.\<close>

definition key_value :: "string \<Rightarrow> (string \<times> string) option" where
  "key_value s =
     (let k = takeWhile (\<lambda>c. c \<noteq> CHR ''='') s
      in if length k < length s then Some (k, drop (Suc (length k)) s) else None)"

fun legacy_fields :: "string list \<Rightarrow> Argon2Params \<Rightarrow> Argon2Params option" where
  "legacy_fields [] p = Some p"
| "legacy_fields (part # ps) p =
     (case key_value part of
        None \<Rightarrow> None
      | Some (k, v) \<Rightarrow>
          (case ParseUint32 v of
             None \<Rightarrow> None
           | Some n \<Rightarrow>
               if k = ''m'' then legacy_fields ps (p\<lparr>MemoryKB := n\<rparr>)
               else if k = ''t'' then legacy_fields ps (p\<lparr>Iterations := n\<rparr>)
               else if k = ''p'' then legacy_fields ps (p\<lparr>Parallelism := n mod 256\<rparr>)
               else if k = ''s'' then legacy_fields ps (p\<lparr>SaltBytes := n\<rparr>)
               else if k = ''h'' then legacy_fields ps (p\<lparr>HashBytes := n\<rparr>)
               else None))"

definition no_params :: Argon2Params where
  "no_params = \<lparr>MemoryKB = 0, Iterations = 0, Parallelism = 0, SaltBytes = 0, HashBytes = 0\<rparr>"

definition parseLegacyAlgo :: "string \<Rightarrow> Argon2Params option" where
  "parseLegacyAlgo algo =
     (if \<not> HasPrefix algo ''argon2id:'' then None
      else case legacy_fields (split_on CHR '','' (drop 9 algo)) no_params of
        None \<Rightarrow> None
      | Some p \<Rightarrow> if MemoryKB p = 0 \<or> Iterations p = 0 \<or> Parallelism p = 0 \<or> SaltBytes p = 0 \<or> HashBytes p = 0
                  then None else Some p)"

section \<open>Hashing and verifying\<close>

text \<open>Password, salt, iterations, memory, parallelism, length of the key.\<close>

type_synonym kdf = "string \<Rightarrow> string \<Rightarrow> nat \<Rightarrow> nat \<Rightarrow> nat \<Rightarrow> nat \<Rightarrow> string option"

definition phc :: "Argon2Params \<Rightarrow> string \<Rightarrow> string \<Rightarrow> string" where
  "phc p salt digest =
     ''$argon2id$v='' @ digits 10 19 @ ''$m='' @ digits 10 (MemoryKB p) @ '',t='' @ digits 10 (Iterations p)
       @ '',p='' @ digits 10 (Parallelism p) @ ''$'' @ EncodeToString salt @ ''$'' @ EncodeToString digest"

text \<open>\<open>Hash\<close> with the salt that was drawn: the text and the empty algorithm, \<open>None\<close> for a panic.\<close>

definition Hash :: "kdf \<Rightarrow> Argon2Params \<Rightarrow> string \<Rightarrow> string \<Rightarrow> (string \<times> string) option" where
  "Hash kdf p salt pw =
     map_option (\<lambda>d. (phc p salt d, []))
       (kdf pw salt (Iterations p) (MemoryKB p) (Parallelism p) (HashBytes p))"

record VerifyResult =
  OK :: bool
  NeedsRehash :: bool

text \<open>Results carry the number of evaluations spent; the option is \<open>None\<close> for a panic.\<close>

definition verifyLegacy :: "kdf \<Rightarrow> Argon2Params \<Rightarrow> string \<Rightarrow> string \<Rightarrow> string \<Rightarrow> bool option \<times> nat" where
  "verifyLegacy kdf h pw stored algo =
     (case parseLegacyAlgo algo of
        None \<Rightarrow>
          (map_option (\<lambda>_. False)
             (kdf pw (replicate (SaltBytes h) (CHR 0x00)) (Iterations h) (MemoryKB h) (Parallelism h) (HashBytes h)), 1)
      | Some p \<Rightarrow>
          if length stored \<noteq> (SaltBytes p + HashBytes p) mod 2 ^ 32 then (Some False, 0)
          else if length stored < SaltBytes p then (None, 0)
          else (map_option (\<lambda>d. drop (SaltBytes p) stored = d)
                  (kdf pw (take (SaltBytes p) stored) (Iterations p) (MemoryKB p) (Parallelism p) (HashBytes p)), 1))"

fun phc_fields :: "string list \<Rightarrow> nat \<times> nat \<times> nat \<Rightarrow> (nat \<times> nat \<times> nat) option" where
  "phc_fields [] a = Some a"
| "phc_fields (kv # ps) (m, t, p) =
     (case key_value kv of
        None \<Rightarrow> None
      | Some (k, v) \<Rightarrow>
          (case ParseUint32 v of
             None \<Rightarrow> None
           | Some n \<Rightarrow> phc_fields ps
               (if k = ''m'' then (n, t, p) else if k = ''t'' then (m, n, p)
                else if k = ''p'' then (m, t, n mod 256) else (m, t, p))))"

definition verifyPHC :: "kdf \<Rightarrow> Argon2Params \<Rightarrow> string \<Rightarrow> string \<Rightarrow> (bool \<times> bool) option \<times> nat" where
  "verifyPHC kdf h pw stored =
     (let parts = split_on CHR ''$'' stored in
      if length parts \<noteq> 6 \<or> parts ! 0 \<noteq> [] \<or> parts ! 1 \<noteq> ''argon2id'' then (Some (False, False), 0)
      else if parts ! 2 \<noteq> ''v='' @ digits 10 19 then (Some (False, False), 0)
      else case phc_fields (split_on CHR '','' (parts ! 3)) (0, 0, 0) of
        None \<Rightarrow> (Some (False, False), 0)
      | Some (m, t, p) \<Rightarrow>
          (case DecodeString (parts ! 4) of
             None \<Rightarrow> (Some (False, False), 0)
           | Some salt \<Rightarrow>
               (case DecodeString (parts ! 5) of
                  None \<Rightarrow> (Some (False, False), 0)
                | Some expected \<Rightarrow>
                    (map_option (\<lambda>d. if expected \<noteq> d then (False, False)
                        else (True, m \<noteq> MemoryKB h \<or> t \<noteq> Iterations h \<or> p \<noteq> Parallelism h
                                     \<or> length salt \<noteq> SaltBytes h \<or> length expected \<noteq> HashBytes h))
                      (kdf pw salt t m p (length expected)), 1))))"

text \<open>\<open>dummy\<close> is the precomputed hash, \<open>None\<close> when computing it failed.\<close>

definition VerifyDummy :: "kdf \<Rightarrow> Argon2Params \<Rightarrow> string option \<Rightarrow> string \<Rightarrow> unit option \<times> nat" where
  "VerifyDummy kdf h dummy pw =
     (case dummy of
        None \<Rightarrow>
          (map_option (\<lambda>_. ())
             (kdf pw (replicate (SaltBytes h) (CHR 0x00)) (Iterations h) (MemoryKB h) (Parallelism h) (HashBytes h)), 1)
      | Some d \<Rightarrow> (case verifyPHC kdf h pw d of (r, n) \<Rightarrow> (map_option (\<lambda>_. ()) r, n)))"

definition Verify ::
  "kdf \<Rightarrow> Argon2Params \<Rightarrow> string option \<Rightarrow> string \<Rightarrow> string \<Rightarrow> string \<Rightarrow> VerifyResult option \<times> nat" where
  "Verify kdf h dummy pw stored algo =
     (if HasPrefix algo ''argon2id:'' then
        (case verifyLegacy kdf h pw stored algo of (r, n) \<Rightarrow>
           (map_option (\<lambda>okay. \<lparr>OK = okay, NeedsRehash = okay\<rparr>) r, n))
      else if HasPrefix stored ''$argon2id$'' then
        (case verifyPHC kdf h pw stored of (r, n) \<Rightarrow>
           (map_option (\<lambda>(okay, drift). \<lparr>OK = okay, NeedsRehash = okay \<and> drift\<rparr>) r, n))
      else (case VerifyDummy kdf h dummy pw of (r, n) \<Rightarrow>
           (map_option (\<lambda>_. \<lparr>OK = False, NeedsRehash = False\<rparr>) r, n)))"

section \<open>Round trip\<close>

definition params_ok :: "Argon2Params \<Rightarrow> bool" where
  "params_ok p = (MemoryKB p < 2 ^ 32 \<and> Iterations p < 2 ^ 32 \<and> Parallelism p < 256)"

lemma digit_code: "c \<in> set (digits 10 n) \<Longrightarrow> 48 \<le> code c \<and> code c \<le> 57"
  using digits_set [of 10 c n] by (auto simp: code_digit)

lemma ParseUint32_digits: "n < 2 ^ 32 \<Longrightarrow> ParseUint32 (digits 10 n) = Some n"
  using digit_code by (auto simp: ParseUint32_def number_digits list_all_iff)

lemma digits_10_free:
  "CHR ''$'' \<notin> set (digits 10 n)" "CHR '','' \<notin> set (digits 10 n)"
  by (rule digits_free; simp add: digit_value_def)+

lemma phc_split:
  "split_on CHR ''$'' (phc p salt digest) =
     [[], ''argon2id'', ''v='' @ digits 10 19,
      ''m='' @ digits 10 (MemoryKB p) @ '',t='' @ digits 10 (Iterations p) @ '',p='' @ digits 10 (Parallelism p),
      EncodeToString salt, EncodeToString digest]"
proof -
  let ?parts = "[[], ''argon2id'', ''v='' @ digits 10 19,
      ''m='' @ digits 10 (MemoryKB p) @ '',t='' @ digits 10 (Iterations p) @ '',p='' @ digits 10 (Parallelism p),
      EncodeToString salt, EncodeToString digest]"
  have "phc p salt digest = join ''$'' ?parts" by (simp add: phc_def)
  moreover have "split_on CHR ''$'' (join ''$'' ?parts) = ?parts"
    by (rule split_join) (auto simp: digits_10_free base64_dollar)
  ultimately show ?thesis by simp
qed

definition phc_params :: "Argon2Params \<Rightarrow> string" where
  "phc_params p = ''m='' @ digits 10 (MemoryKB p) @ '',t='' @ digits 10 (Iterations p) @ '',p='' @ digits 10 (Parallelism p)"

lemma phc_fields_phc:
  assumes "params_ok p"
  shows "phc_fields (split_on CHR '','' (phc_params p)) (0, 0, 0) = Some (MemoryKB p, Iterations p, Parallelism p)"
proof -
  let ?parts = "[''m='' @ digits 10 (MemoryKB p), ''t='' @ digits 10 (Iterations p), ''p='' @ digits 10 (Parallelism p)]"
  have join: "phc_params p = join '','' ?parts" by (simp add: phc_params_def)
  have "split_on CHR '','' (join '','' ?parts) = ?parts"
    by (rule split_join) (auto simp: digits_10_free)
  then show ?thesis
    unfolding join using assms by (simp add: key_value_def ParseUint32_digits params_ok_def)
qed

lemma verifyPHC_phc:
  assumes "params_ok p" "kdf pw' salt (Iterations p) (MemoryKB p) (Parallelism p) (length d) = Some d'"
  shows "verifyPHC kdf h pw' (phc p salt d) =
    (Some (if d \<noteq> d' then (False, False)
           else (True, MemoryKB p \<noteq> MemoryKB h \<or> Iterations p \<noteq> Iterations h \<or> Parallelism p \<noteq> Parallelism h
                       \<or> length salt \<noteq> SaltBytes h \<or> length d \<noteq> HashBytes h)), 1)"
proof -
  define parts where "parts = split_on CHR ''$'' (phc p salt d)"
  have parts: "length parts = 6" "parts ! 0 = []" "parts ! 1 = ''argon2id''" "parts ! 2 = ''v='' @ digits 10 19"
    "parts ! 3 = phc_params p" "parts ! 4 = EncodeToString salt" "parts ! 5 = EncodeToString d"
    unfolding parts_def phc_split phc_params_def by simp_all
  show ?thesis
    unfolding verifyPHC_def parts_def [symmetric] Let_def parts phc_fields_phc [OF assms(1)]
    by (simp add: base64_roundtrip assms(2))
qed

lemma Verify_phc:
  assumes "params_ok p" "length salt = SaltBytes p" "length d = HashBytes p"
    and "kdf pw salt (Iterations p) (MemoryKB p) (Parallelism p) (HashBytes p) = Some d'"
  shows "Verify kdf h dummy pw (phc p salt d) [] = (Some \<lparr>OK = (d = d'), NeedsRehash = (d = d' \<and> p \<noteq> h)\<rparr>, 1)"
proof -
  have "\<not> HasPrefix [] ''argon2id:''" by (simp add: HasPrefix_def)
  moreover have "HasPrefix (phc p salt d) ''$argon2id$''" by (simp add: HasPrefix_def phc_def)
  moreover have "p \<noteq> h \<longleftrightarrow> (MemoryKB p \<noteq> MemoryKB h \<or> Iterations p \<noteq> Iterations h
      \<or> Parallelism p \<noteq> Parallelism h \<or> length salt \<noteq> SaltBytes h \<or> length d \<noteq> HashBytes h)"
    using assms(2,3) by (cases p; cases h) auto
  ultimately show ?thesis
    using verifyPHC_phc [OF assms(1), of kdf pw salt d d' h] assms(3,4) unfolding Verify_def by auto
qed

text \<open>
  A password hashed under the parameters \<open>p\<close> verifies, under whatever parameters are current,
  for exactly the passwords with the same digest, never for one whose evaluation gives another;
  it costs one evaluation; and a success asks for a rehash exactly when a parameter has changed.
\<close>

theorem hash_verify_roundtrip:
  assumes "params_ok p" and "length salt = SaltBytes p"
    and "kdf pw salt (Iterations p) (MemoryKB p) (Parallelism p) (HashBytes p) = Some d"
    and "length d = HashBytes p"
    and "kdf pw' salt (Iterations p) (MemoryKB p) (Parallelism p) (HashBytes p) = Some d'"
    and "Hash kdf p salt pw = Some (stored, algo)"
  shows "Verify kdf h dummy pw' stored algo = (Some \<lparr>OK = (d = d'), NeedsRehash = (d = d' \<and> p \<noteq> h)\<rparr>, 1)"
proof -
  from assms have "stored = phc p salt d" "algo = []" by (simp_all add: Hash_def)
  with Verify_phc [of p salt d kdf pw' d' h dummy] assms(1,2,4,5) show ?thesis by simp
qed

text \<open>
  At most one evaluation is spent on a verification, and none at all when the stored value is
  malformed: a legacy hash of the wrong length is refused at once, and so is every bad PHC text.
\<close>

lemma Verify_cost: "snd (Verify kdf h dummy pw stored algo) \<le> 1"
  by (auto simp: Verify_def verifyLegacy_def verifyPHC_def VerifyDummy_def Let_def
      split: option.splits prod.splits if_splits dest!: arg_cong [where f = snd])

lemma legacy_mismatch_free:
  assumes "parseLegacyAlgo algo = Some p" "length stored \<noteq> (SaltBytes p + HashBytes p) mod 2 ^ 32"
  shows "Verify kdf h dummy pw stored algo = (Some \<lparr>OK = False, NeedsRehash = False\<rparr>, 0)"
proof -
  have "HasPrefix algo ''argon2id:''" using assms(1) by (simp add: parseLegacyAlgo_def split: if_splits)
  with assms show ?thesis by (simp add: Verify_def verifyLegacy_def)
qed

definition demo_kdf :: kdf where
  "demo_kdf pw salt t m p n = Some (take n (pw @ salt @ replicate n (CHR ''.'')))"

definition demo_params :: Argon2Params where
  "demo_params = \<lparr>MemoryKB = 64, Iterations = 2, Parallelism = 1, SaltBytes = 4, HashBytes = 8\<rparr>"

theorem hash_verify_roundtrip_witness:
  "Verify demo_kdf DefaultArgon2Params None ''secret'' (phc demo_params ''salt'' ''secretsa'') []
     = (Some \<lparr>OK = True, NeedsRehash = True\<rparr>, 1)"
proof -
  have "Hash demo_kdf demo_params ''salt'' ''secret'' = Some (phc demo_params ''salt'' ''secretsa'', [])"
    by (simp add: Hash_def demo_kdf_def demo_params_def)
  then show ?thesis
    using hash_verify_roundtrip [of demo_params "''salt''" demo_kdf "''secret''" "''secretsa''" "''secret''"
        "''secretsa''" _ _ DefaultArgon2Params None]
    by (simp add: params_ok_def demo_params_def demo_kdf_def DefaultArgon2Params_def)
qed

end
