(* ===== verification/AuthLookup.thy ===== *)
theory AuthLookup
  imports Bans Argon2
begin

text \<open>
  Authentication (\<^verbatim>\<open>src/internal/auth/decision.go\<close>, \<^verbatim>\<open>denylist.go\<close>, \<^verbatim>\<open>lookup.go\<close>): the decision
  tree for a public key and for a password over the ban cache, the denylist, the rate limiter, the
  users and credentials in the database and the password hasher, with the audit event of each
  outcome.  The component states what the others promise it by calling their definitions.

  A call changes the state in the order of the code: the limiter's world, the ban cache, the events,
  the Argon2 evaluations spent, the credentials touched and the rehashes queued.  A decision is
  \<open>None\<close> for a panic.  The texts of log lines are not modelled.
\<close>

section \<open>Decisions\<close>

text \<open>An offered key: fingerprint, algorithm, blob; all empty when there is none.\<close>

type_synonym offer = "string \<times> string \<times> string"

definition no_offer :: offer where
  "no_offer = ([], [], [])"

datatype Decision =
    Known int string bool offer \<comment> \<open>user, handle, sysop, offered key\<close>
  | SignupRequired string offer string \<comment> \<open>handle, offered key, offered password\<close>
  | Banned string
  | RateLimited int
  | Refused string

section \<open>The denylist\<close>

definition DefaultDeniedUsernames :: "string list" where
  "DefaultDeniedUsernames =
     [''root'', ''admin'', ''administrator'',
      ''oracle'', ''postgres'', ''mysql'', ''mssql'', ''redis'', ''mongodb'',
      ''elasticsearch'', ''kibana'',
      ''nginx'', ''apache'', ''httpd'', ''www-data'', ''tomcat'',
      ''ftp'', ''ftpuser'', ''anonymous'', ''mail'', ''postfix'', ''sshd'',
      ''ubuntu'', ''debian'', ''centos'', ''fedora'', ''alpine'', ''pi'', ''ec2-user'',
      ''jenkins'', ''gitlab'', ''git'', ''hadoop'', ''vagrant'',
      ''operator'', ''support'', ''service'', ''default'',
      ''test'', ''guest'', ''user'']"

text \<open>The set as a list without repetition; \<open>None\<close> is the nil denylist.\<close>

definition NewUsernameDenylist :: "(string \<Rightarrow> string) \<Rightarrow> string list \<Rightarrow> string list option" where
  "NewUsernameDenylist u handles =
     (let names = remdups (filter (\<lambda>h. h \<noteq> []) (map (\<lambda>h. ToLower u (TrimSpace h)) handles))
      in if names = [] then None else Some names)"

definition Denied :: "(string \<Rightarrow> string) \<Rightarrow> string list option \<Rightarrow> string \<Rightarrow> bool" where
  "Denied u d h = (case d of None \<Rightarrow> False | Some names \<Rightarrow> ToLower u h \<in> set names)"

section \<open>The database\<close>

record user =
  uID :: int
  uHandle :: string
  uSysop :: bool
  uBanned :: bool
  uHash :: string
  uAlgo :: "string option"
  uRequireKey :: bool

record credential =
  cID :: int
  cUser :: int
  cProvider :: string
  cSubject :: string

record auth_db =
  users :: "user list"
  credentials :: "credential list"
  usersFail :: bool
  credsFail :: bool

datatype 'a query = Row 'a | NoRows | DbError

text \<open>Handles are compared without case.\<close>

definition GetUserByHandle :: "(string \<Rightarrow> string) \<Rightarrow> auth_db \<Rightarrow> string \<Rightarrow> user query" where
  "GetUserByHandle u db h =
     (if usersFail db then DbError
      else case find (\<lambda>x. ToLower u (uHandle x) = ToLower u h) (users db) of None \<Rightarrow> NoRows | Some x \<Rightarrow> Row x)"

definition GetCredentialByProviderSubject :: "auth_db \<Rightarrow> string \<Rightarrow> string \<Rightarrow> credential query" where
  "GetCredentialByProviderSubject db p sub =
     (if credsFail db then DbError
      else case find (\<lambda>x. cProvider x = p \<and> cSubject x = sub) (credentials db) of None \<Rightarrow> NoRows | Some x \<Rightarrow> Row x)"

definition CredentialProviderSSH :: string where
  "CredentialProviderSSH = ''Ssh''"

section \<open>The service\<close>

record 's Lookup =
  lUni :: "string \<Rightarrow> string"
  lDB :: auth_db
  lKdf :: kdf
  lParams :: Argon2Params
  lDummy :: "string option"
  lRedis :: "'s redis"
  lLimiter :: "RedisRateLimiter option"
  lHasBans :: bool
  lDenylist :: "string list option"
  lAudit :: bool

record 's auth_state =
  world :: "'s rl_world"
  cache :: BanCache
  events :: "audit_event list"
  spent :: nat
  touched :: "int list"
  rehashes :: "(int \<times> string \<times> string) list"

definition denylistRefuseReason :: string where
  "denylistRefuseReason = ''username denylisted''"

definition keyUnenrolledReason :: string where
  "keyUnenrolledReason = ''key not enrolled''"

definition keyOtherAccountReason :: string where
  "keyOtherAccountReason = ''key registered to another account''"

definition checkPersistentBan ::
  "'s Lookup \<Rightarrow> int \<Rightarrow> string option \<Rightarrow> 's auth_state \<Rightarrow> Decision option \<times> 's auth_state" where
  "checkPersistentBan L now addr st =
     (if \<not> lHasBans L \<or> addr = None then (None, st)
      else let key = CollapseIP addr in
        if key = [] then (None, st)
        else case IsBanned now key (cache st) of ((b, _), c) \<Rightarrow>
          (if b then Some (Banned ''ip persistently banned'') else None, st\<lparr>cache := c\<rparr>))"

text \<open>A recorded failure whose error is ignored; \<open>None\<close> is the panic.\<close>

definition record_failure ::
  "'s Lookup \<Rightarrow> string \<Rightarrow> string option \<Rightarrow> 's auth_state \<Rightarrow> unit option \<times> 's auth_state" where
  "record_failure L h addr st =
     (case lLimiter L of
        None \<Rightarrow> (None, st)
      | Some r \<Rightarrow>
          (case RecordFailure (lUni L) (lRedis L) r h addr (world st) of (res, w) \<Rightarrow>
             (if res = RlPanic then None else Some (), st\<lparr>world := w\<rparr>)))"

text \<open>The outer option is the panic, the inner one the decision.\<close>

definition checkUsernameDenylist ::
  "'s Lookup \<Rightarrow> string \<Rightarrow> string option \<Rightarrow> 's auth_state \<Rightarrow> Decision option option \<times> 's auth_state" where
  "checkUsernameDenylist L h addr st =
     (if \<not> Denied (lUni L) (lDenylist L) h then (Some None, st)
      else (case (if lLimiter L \<noteq> None then record_failure L [] addr st else (Some (), st)) of
              (None, st') \<Rightarrow> (None, st')
            | (Some _, st') \<Rightarrow> (Some (Some (Refused denylistRefuseReason)), st')))"

fun audit_of :: "string \<Rightarrow> string \<Rightarrow> string \<Rightarrow> Decision \<Rightarrow> audit_event list" where
  "audit_of meth h ip (Known i hn s off) = [AuthSuccess hn ip meth]"
| "audit_of meth h ip (SignupRequired hn off pw) = []"
| "audit_of meth h ip (Banned why) = [AuthFailure h ip meth (''banned: '' @ why)]"
| "audit_of meth h ip (RateLimited d) = [AuthFailure h ip meth ''rate-limited'']"
| "audit_of meth h ip (Refused why) =
     (if why = denylistRefuseReason \<or> why = keyUnenrolledReason then [] else [AuthFailure h ip meth why])"

definition emitAuthAudit ::
  "'s Lookup \<Rightarrow> string \<Rightarrow> string \<Rightarrow> string option \<Rightarrow> Decision option \<times> 's auth_state \<Rightarrow> Decision option \<times> 's auth_state" where
  "emitAuthAudit L meth h addr res =
     (case res of
        (None, st) \<Rightarrow> (None, st)
      | (Some d, st) \<Rightarrow>
          (Some d, if lAudit L then st\<lparr>events := events st @ audit_of meth h (CollapseIP addr) d\<rparr> else st))"

definition publickey_body ::
  "'s Lookup \<Rightarrow> int \<Rightarrow> string \<Rightarrow> offer \<Rightarrow> string option \<Rightarrow> 's auth_state \<Rightarrow> Decision option \<times> 's auth_state" where
  "publickey_body L now h off addr st =
     (case checkPersistentBan L now addr st of
        (Some d, st1) \<Rightarrow> (Some d, st1)
      | (None, st1) \<Rightarrow>
          (case checkUsernameDenylist L h addr st1 of
             (None, st2) \<Rightarrow> (None, st2)
           | (Some (Some d), st2) \<Rightarrow> (Some d, st2)
           | (Some None, st2) \<Rightarrow>
               if h = [] then (Some (Refused ''empty handle''), st2)
               else (case GetUserByHandle (lUni L) (lDB L) h of
                  NoRows \<Rightarrow> (Some (SignupRequired h off []), st2)
                | DbError \<Rightarrow> (Some (Refused ''internal error''), st2)
                | Row user \<Rightarrow>
                    if uBanned user then (Some (Banned ''account is banned''), st2)
                    else (case GetCredentialByProviderSubject (lDB L) CredentialProviderSSH (fst off) of
                       NoRows \<Rightarrow> (Some (Refused keyUnenrolledReason), st2)
                     | DbError \<Rightarrow> (Some (Refused ''internal error''), st2)
                     | Row cred \<Rightarrow>
                         if cUser cred \<noteq> uID user then (Some (Refused keyOtherAccountReason), st2)
                         else (Some (Known (uID user) (uHandle user) (uSysop user) no_offer),
                               st2\<lparr>touched := touched st2 @ [cID cred]\<rparr>)))))"

definition ByPublicKey ::
  "'s Lookup \<Rightarrow> int \<Rightarrow> string \<Rightarrow> offer \<Rightarrow> string option \<Rightarrow> 's auth_state \<Rightarrow> Decision option \<times> 's auth_state" where
  "ByPublicKey L now h off addr st =
     emitAuthAudit L ''publickey'' h addr (publickey_body L now h off addr st)"

text \<open>One dummy evaluation and the decision; the same with a recorded failure; a failure alone.\<close>

definition burn :: "'s Lookup \<Rightarrow> string \<Rightarrow> Decision \<Rightarrow> 's auth_state \<Rightarrow> Decision option \<times> 's auth_state" where
  "burn L pw d st =
     (case VerifyDummy (lKdf L) (lParams L) (lDummy L) pw of (r, n) \<Rightarrow>
        (map_option (\<lambda>_. d) r, st\<lparr>spent := spent st + n\<rparr>))"

definition fail_with ::
  "'s Lookup \<Rightarrow> string \<Rightarrow> string option \<Rightarrow> Decision \<Rightarrow> 's auth_state \<Rightarrow> Decision option \<times> 's auth_state" where
  "fail_with L h addr d st =
     (case record_failure L h addr st of (r, st') \<Rightarrow> (map_option (\<lambda>_. d) r, st'))"

definition burn_and_fail ::
  "'s Lookup \<Rightarrow> string \<Rightarrow> string \<Rightarrow> string option \<Rightarrow> Decision \<Rightarrow> 's auth_state \<Rightarrow> Decision option \<times> 's auth_state" where
  "burn_and_fail L pw h addr d st =
     (case burn L pw d st of (None, st') \<Rightarrow> (None, st') | (Some _, st') \<Rightarrow> fail_with L h addr d st')"

definition verify_user :: "'s Lookup \<Rightarrow> string \<Rightarrow> user \<Rightarrow> VerifyResult option \<times> nat" where
  "verify_user L pw user =
     Verify (lKdf L) (lParams L) (lDummy L) pw (uHash user) (case uAlgo user of None \<Rightarrow> [] | Some a \<Rightarrow> a)"

definition clear_handle :: "'s Lookup \<Rightarrow> RedisRateLimiter \<Rightarrow> string \<Rightarrow> 's auth_state \<Rightarrow> 's auth_state" where
  "clear_handle L r h st =
     st\<lparr>world := (world st)\<lparr>store := snd (ClearHandle (lUni L) (lRedis L) h (store (world st)))\<rparr>\<rparr>"

definition password_for ::
  "'s Lookup \<Rightarrow> RedisRateLimiter \<Rightarrow> string \<Rightarrow> string \<Rightarrow> string option \<Rightarrow> user \<Rightarrow> 's auth_state
   \<Rightarrow> Decision option \<times> 's auth_state" where
  "password_for L r h pw addr user st =
     (if uBanned user then burn L pw (Banned ''account is banned'') st
      else if uHash user = [] then burn_and_fail L pw h addr (Refused ''no password set for this account'') st
      else case verify_user L pw user of
        (None, n) \<Rightarrow> (None, st\<lparr>spent := spent st + n\<rparr>)
      | (Some res, n) \<Rightarrow>
          (let st1 = st\<lparr>spent := spent st + n\<rparr> in
           if \<not> OK res then fail_with L h addr (Refused ''invalid password'') st1
           else if uRequireKey user
             then fail_with L h addr (Refused ''account requires SSH key authentication'') st1
           else (Some (Known (uID user) (uHandle user) (uSysop user) no_offer),
                 (let st2 = clear_handle L r h st1 in
                  if NeedsRehash res
                  then st2\<lparr>rehashes := rehashes st2 @ [(uID user, uHandle user, pw)]\<rparr> else st2))))"

definition password_body ::
  "'s Lookup \<Rightarrow> int \<Rightarrow> string \<Rightarrow> string \<Rightarrow> string option \<Rightarrow> 's auth_state \<Rightarrow> Decision option \<times> 's auth_state" where
  "password_body L now h pw addr st =
     (case checkPersistentBan L now addr st of
        (Some d, st1) \<Rightarrow> burn L pw d st1
      | (None, st1) \<Rightarrow>
          (case checkUsernameDenylist L h addr st1 of
             (None, st2) \<Rightarrow> (None, st2)
           | (Some (Some d), st2) \<Rightarrow> (Some d, st2)
           | (Some None, st2) \<Rightarrow>
               if h = [] then burn_and_fail L pw [] addr (Refused ''empty handle'') st2
               else (case lLimiter L of
                  None \<Rightarrow> (None, st2)
                | Some r \<Rightarrow>
                    (let rl = fst (Check (lUni L) (lRedis L) r h addr (store (world st2))) in
                     if LockedOut rl then burn L pw (RateLimited (RetryAfter rl)) st2
                     else (case GetUserByHandle (lUni L) (lDB L) h of
                        NoRows \<Rightarrow> burn_and_fail L pw h addr (SignupRequired h no_offer pw) st2
                      | DbError \<Rightarrow> burn L pw (Refused ''internal error'') st2
                      | Row user \<Rightarrow> password_for L r h pw addr user st2)))))"

definition ByPassword ::
  "'s Lookup \<Rightarrow> int \<Rightarrow> string \<Rightarrow> string \<Rightarrow> string option \<Rightarrow> 's auth_state \<Rightarrow> Decision option \<times> 's auth_state" where
  "ByPassword L now h pw addr st = emitAuthAudit L ''password'' h addr (password_body L now h pw addr st)"

section \<open>The gates in front\<close>

definition denied :: "'s Lookup \<Rightarrow> string \<Rightarrow> bool" where
  "denied L h = Denied (lUni L) (lDenylist L) h"

definition ip_banned :: "'s Lookup \<Rightarrow> int \<Rightarrow> string option \<Rightarrow> 's auth_state \<Rightarrow> bool" where
  "ip_banned L now addr st \<longleftrightarrow>
     lHasBans L \<and> CollapseIP addr \<noteq> [] \<and> fst (fst (IsBanned now (CollapseIP addr) (cache st)))"

definition after_ban_check :: "'s Lookup \<Rightarrow> int \<Rightarrow> string option \<Rightarrow> 's auth_state \<Rightarrow> 's auth_state" where
  "after_ban_check L now addr st = snd (checkPersistentBan L now addr st)"

lemma checkPersistentBan_result:
  "checkPersistentBan L now addr st =
     (if ip_banned L now addr st then Some (Banned ''ip persistently banned'') else None,
      after_ban_check L now addr st)"
  by (auto simp: checkPersistentBan_def after_ban_check_def ip_banned_def Let_def CollapseIP_def
      split: prod.splits option.splits)

lemma after_ban_check_frame [simp]:
  "world (after_ban_check L now addr st) = world st" "spent (after_ban_check L now addr st) = spent st"
  "events (after_ban_check L now addr st) = events st" "touched (after_ban_check L now addr st) = touched st"
  "rehashes (after_ban_check L now addr st) = rehashes st"
  by (auto simp: checkPersistentBan_def after_ban_check_def Let_def split: prod.splits)

lemma record_failure_frame:
  assumes "record_failure L h addr st = (x, st')"
  shows "spent st' = spent st" "events st' = events st" "touched st' = touched st" "cache st' = cache st"
    "rehashes st' = rehashes st"
  using assms by (auto simp: record_failure_def split: option.splits prod.splits)

lemma checkUsernameDenylist_pass: "\<not> denied L h \<Longrightarrow> checkUsernameDenylist L h addr st = (Some None, st)"
  by (simp add: checkUsernameDenylist_def denied_def)

lemma checkUsernameDenylist_hit:
  assumes "denied L h" "checkUsernameDenylist L h addr st = (r, st')"
  shows "r \<in> {None, Some (Some (Refused denylistRefuseReason))}"
    "spent st' = spent st" "events st' = events st" "touched st' = touched st" "rehashes st' = rehashes st"
  using assms record_failure_frame
  by (fastforce simp: checkUsernameDenylist_def denied_def split: option.splits prod.splits if_splits)+

section \<open>Who is let in\<close>

definition known :: "Decision \<Rightarrow> bool" where
  "known d = (case d of Known i h s off \<Rightarrow> True | _ \<Rightarrow> False)"

lemma known_simps [simp]:
  "\<not> known (Banned w)" "\<not> known (Refused w)" "\<not> known (RateLimited n)" "\<not> known (SignupRequired w off p)"
  "known (Known i w b off)"
  by (simp_all add: known_def)

lemma emit_decision: "fst (emitAuthAudit L meth h addr res) = fst res"
  by (cases res) (auto simp: emitAuthAudit_def split: option.splits)

lemma burn_unknown: "burn L pw d st = (Some d', st') \<Longrightarrow> d' = d"
  by (auto simp: burn_def split: prod.splits)

lemma fail_unknown: "fail_with L h addr d st = (Some d', st') \<Longrightarrow> d' = d"
  by (auto simp: fail_with_def split: prod.splits)

lemma burn_and_fail_unknown: "burn_and_fail L pw h addr d st = (Some d', st') \<Longrightarrow> d' = d"
  using fail_unknown by (fastforce simp: burn_and_fail_def split: prod.splits option.splits)

definition password_accepted :: "'s Lookup \<Rightarrow> string \<Rightarrow> user \<Rightarrow> bool" where
  "password_accepted L pw user \<longleftrightarrow>
     \<not> uBanned user \<and> uHash user \<noteq> [] \<and> \<not> uRequireKey user
     \<and> (case fst (verify_user L pw user) of None \<Rightarrow> False | Some res \<Rightarrow> OK res)"

lemma password_for_known:
  assumes "password_for L r h pw addr user st = (Some d, st')"
  shows "known d \<longleftrightarrow> password_accepted L pw user"
    and "known d \<Longrightarrow> d = Known (uID user) (uHandle user) (uSysop user) no_offer"
  using assms burn_unknown fail_unknown burn_and_fail_unknown
  by (fastforce simp: password_for_def password_accepted_def known_def Let_def
      split: if_splits option.splits prod.splits)+

text \<open>
  C3: A password lets a session in exactly when the source is not banned, the handle is not
  denylisted nor empty, no lock is active, and the handle's account is not banned, has a password,
  does not insist on a key, and the password verifies; the identity is that account's.
\<close>

theorem password_admits_exactly:
  assumes "ByPassword L now h pw addr st = (Some d, st')"
  shows "known d \<longleftrightarrow>
      \<not> ip_banned L now addr st \<and> \<not> denied L h \<and> h \<noteq> []
      \<and> (\<exists>r user. lLimiter L = Some r
           \<and> \<not> LockedOut (fst (Check (lUni L) (lRedis L) r h addr (store (world st))))
           \<and> GetUserByHandle (lUni L) (lDB L) h = Row user \<and> password_accepted L pw user
           \<and> d = Known (uID user) (uHandle user) (uSysop user) no_offer)"
proof -
  from assms emit_decision [of L "''password''" h addr] obtain st1 where
    body: "password_body L now h pw addr st = (Some d, st1)"
    unfolding ByPassword_def by (metis fst_conv surj_pair)
  show ?thesis
  proof (cases "ip_banned L now addr st")
    case True
    with body have "d = Banned ''ip persistently banned''"
      using burn_unknown by (auto simp: password_body_def checkPersistentBan_result)
    with True show ?thesis by simp
  next
    case unbanned: False
    show ?thesis
    proof (cases "denied L h")
      case True
      then obtain r st2 where c: "checkUsernameDenylist L h addr (after_ban_check L now addr st) = (r, st2)"
        by fastforce
      with checkUsernameDenylist_hit(1) [OF True c] body unbanned have "d = Refused denylistRefuseReason"
        by (auto simp: password_body_def checkPersistentBan_result)
      with True show ?thesis by simp
    next
      case allowed: False
      note rest = body [unfolded password_body_def checkPersistentBan_result, simplified unbanned
          checkUsernameDenylist_pass [OF allowed]]
      show ?thesis
      proof (cases "h = []")
        case True
        with rest burn_and_fail_unknown have "d = Refused ''empty handle''" by fastforce
        with True show ?thesis by simp
      next
        case nonempty: False
        with rest obtain r where r: "lLimiter L = Some r" by (auto split: option.splits)
        show ?thesis
        proof (cases "LockedOut (fst (Check (lUni L) (lRedis L) r h addr (store (world st))))")
          case True
          with rest r nonempty burn_unknown have "\<exists>n. d = RateLimited n" by (fastforce simp: Let_def)
          with True r show ?thesis by auto
        next
          case free: False
          show ?thesis
          proof (cases "GetUserByHandle (lUni L) (lDB L) h")
            case (Row user)
            with rest r nonempty free
            have "password_for L r h pw addr user (after_ban_check L now addr st) = (Some d, st1)"
              by (simp add: Let_def)
            from password_for_known [OF this] Row r nonempty free allowed unbanned show ?thesis by auto
          next
            case NoRows
            with rest r nonempty free burn_and_fail_unknown have "d = SignupRequired h no_offer pw"
              by (fastforce simp: Let_def)
            with NoRows show ?thesis by simp
          next
            case DbError
            with rest r nonempty free burn_unknown have "d = Refused ''internal error''"
              by (fastforce simp: Let_def)
            with DbError show ?thesis by simp
          qed
        qed
      qed
    qed
  qed
qed

section \<open>Public keys\<close>

text \<open>
  C4: A public key lets a session in exactly when the source is not banned, the handle is not
  denylisted nor empty, its account is not banned and the key is enrolled to that very account; it
  never costs an Argon2 evaluation and touches the limiter only for a denylisted handle.
\<close>

theorem publickey_admits_exactly:
  assumes "ByPublicKey L now h off addr st = (Some d, st')"
  shows "(known d \<longleftrightarrow>
      \<not> ip_banned L now addr st \<and> \<not> denied L h \<and> h \<noteq> []
      \<and> (\<exists>user cred. GetUserByHandle (lUni L) (lDB L) h = Row user \<and> \<not> uBanned user
           \<and> GetCredentialByProviderSubject (lDB L) CredentialProviderSSH (fst off) = Row cred
           \<and> cUser cred = uID user \<and> d = Known (uID user) (uHandle user) (uSysop user) no_offer))
    \<and> spent st' = spent st \<and> (\<not> denied L h \<longrightarrow> world st' = world st)"
proof -
  obtain st1 where body: "publickey_body L now h off addr st = (Some d, st1)"
    and st1: "spent st' = spent st1" "world st' = world st1"
    using assms unfolding ByPublicKey_def emitAuthAudit_def by (auto split: prod.splits option.splits if_splits)
  show ?thesis
  proof (cases "ip_banned L now addr st")
    case True
    with body st1 show ?thesis by (auto simp: publickey_body_def checkPersistentBan_result)
  next
    case unbanned: False
    show ?thesis
    proof (cases "denied L h")
      case True
      then obtain r st2 where c: "checkUsernameDenylist L h addr (after_ban_check L now addr st) = (r, st2)"
        by fastforce
      with checkUsernameDenylist_hit(1,2) [OF True c] body unbanned
      have "d = Refused denylistRefuseReason" "spent st1 = spent st"
        by (auto simp: publickey_body_def checkPersistentBan_result)
      with True st1 show ?thesis by simp
    next
      case allowed: False
      with body [unfolded publickey_body_def checkPersistentBan_result] unbanned st1 show ?thesis
        by (auto simp: checkUsernameDenylist_pass split: if_splits query.splits)
    qed
  qed
qed

section \<open>Timing\<close>

lemma burn_spent: "burn L pw d st = (x, st') \<Longrightarrow> spent st' = spent st + snd (VerifyDummy (lKdf L) (lParams L) (lDummy L) pw)"
  by (auto simp: burn_def split: prod.splits)

lemma fail_spent: "fail_with L h addr d st = (x, st') \<Longrightarrow> spent st' = spent st"
  using record_failure_frame(1) by (fastforce simp: fail_with_def split: prod.splits)

lemma burn_and_fail_spent:
  "burn_and_fail L pw h addr d st = (x, st') \<Longrightarrow>
     spent st' = spent st + snd (VerifyDummy (lKdf L) (lParams L) (lDummy L) pw)"
  by (auto simp: burn_and_fail_def split: prod.splits option.splits dest!: burn_spent fail_spent)

lemma password_for_spent:
  assumes "password_for L r h pw addr user st = (x, st')"
    and "snd (VerifyDummy (lKdf L) (lParams L) (lDummy L) pw) = 1" "snd (verify_user L pw user) = 1"
  shows "spent st' = spent st + 1"
  using assms
  by (auto simp: password_for_def Let_def clear_handle_def split: if_splits option.splits prod.splits
      dest!: burn_spent fail_spent burn_and_fail_spent)


section \<open>Spraying denylisted names\<close>

text \<open>Password attempts from one address for a list of handles, all at one time.\<close>

fun spray :: "'s Lookup \<Rightarrow> int \<Rightarrow> string option \<Rightarrow> (string \<times> string) list \<Rightarrow> 's auth_state \<Rightarrow> 's auth_state" where
  "spray L now addr [] st = st"
| "spray L now addr ((h, pw) # as) st = spray L now addr as (snd (ByPassword L now h pw addr st))"

lemma ip_banned_after: "\<not> ip_banned L now addr st \<Longrightarrow> \<not> ip_banned L now addr (after_ban_check L now addr st)"
  by (auto simp: ip_banned_def after_ban_check_def checkPersistentBan_def IsBanned_def Let_def
      split: prod.splits option.splits if_splits)

lemma denied_attempt:
  assumes "denied L h" "\<not> ip_banned L now addr st" "lLimiter L = Some r"
    and "RecordFailure (lUni L) (lRedis L) r [] addr (world st) = (RlOk, w)"
  shows "world (snd (ByPassword L now h pw addr st)) = w
    \<and> \<not> ip_banned L now addr (snd (ByPassword L now h pw addr st))"
proof -
  have "password_body L now h pw addr st
      = (Some (Refused denylistRefuseReason), (after_ban_check L now addr st)\<lparr>world := w\<rparr>)"
    using assms by (simp add: password_body_def checkPersistentBan_result checkUsernameDenylist_def denied_def
        record_failure_def)
  then have "ByPassword L now h pw addr st
      = (Some (Refused denylistRefuseReason), (after_ban_check L now addr st)\<lparr>world := w\<rparr>)"
    by (simp add: ByPassword_def emitAuthAudit_def denylistRefuseReason_def)
  with ip_banned_after [OF assms(2)] show ?thesis by (simp add: ip_banned_def)
qed

lemma spray_tally:
  assumes "redis_laws (lRedis L) cnt left" "limits_ok r" "normalizeIP addr \<noteq> []" "0 \<le> l'" "lLimiter L = Some r"
    and "list_all (\<lambda>(h, pw). denied L h) as" "\<not> ip_banned L now addr st"
    and "handle_tally cnt left (lUni L) r g l m (store (world st))"
    and "ip_tally cnt left r (normalizeIP addr) l' n (store (world st))"
    and "eligible (world st) = es @ escalations r (normalizeIP addr) l' n"
  shows "\<not> ip_banned L now addr (spray L now addr as st)
    \<and> handle_tally cnt left (lUni L) r g l m (store (world (spray L now addr as st)))
    \<and> ip_tally cnt left r (normalizeIP addr) l' (n + length as) (store (world (spray L now addr as st)))
    \<and> eligible (world (spray L now addr as st)) = es @ escalations r (normalizeIP addr) l' (n + length as)"
  using assms(6-10)
proof (induction as arbitrary: st n)
  case Nil
  then show ?case by simp
next
  case (Cons a as)
  obtain h pw where a: "a = (h, pw)" by fastforce
  obtain w where w: "RecordFailure (lUni L) (lRedis L) r [] addr (world st) = (RlOk, w)"
    "eligible w = es @ escalations r (normalizeIP addr) l' (Suc n)"
    "handle_tally cnt left (lUni L) r g l m (store w)" "ip_tally cnt left r (normalizeIP addr) l' (Suc n) (store w)"
    using failures_ip_only [OF assms(1-4) Cons.prems(3-5)] by blast
  have "world (snd (ByPassword L now h pw addr st)) = w" "\<not> ip_banned L now addr (snd (ByPassword L now h pw addr st))"
    using denied_attempt [OF _ Cons.prems(2) assms(5) w(1)] Cons.prems(1) a by auto
  with Cons.IH [of "snd (ByPassword L now h pw addr st)" "Suc n"] Cons.prems(1) w a show ?case by simp
qed

text \<open>
  A scanner that tries only denylisted names is not free of the limiter: once it has made
  \<open>IPThreshold\<close> attempts, every other handle from its address is refused as rate limited, and the
  ban hook has been called for every lock from the ban threshold on.
\<close>

theorem denylist_spray_locks_address:
  assumes "redis_laws (lRedis L) cnt left" and "limits_ok r" and "normalizeIP addr \<noteq> []" and "lLimiter L = Some r"
    and "list_all (\<lambda>(h, pw). denied L h) as" and "\<not> ip_banned L now addr st"
    and "handle_tally cnt left (lUni L) r h 0 0 (store (world st))"
    and "ip_tally cnt left r (normalizeIP addr) 0 0 (store (world st))" and "eligible (world st) = []"
    and "int (length as) \<ge> IPThreshold (effective r)"
    and "h \<noteq> []" and "\<not> denied L h" and "fst (VerifyDummy (lKdf L) (lParams L) (lDummy L) pw) = Some ()"
  shows "fst (ByPassword L now h pw addr (spray L now addr as st))
      = Some (RateLimited (backoff r (int (length as) div IPThreshold (effective r))))
    \<and> eligible (world (spray L now addr as st)) = escalations r (normalizeIP addr) 0 (length as)"
proof -
  let ?st = "spray L now addr as st"
  have e: "eligible (world st) = [] @ escalations r (normalizeIP addr) 0 0"
    using assms(9) by (simp add: escalations_def)
  note s = spray_tally [OF assms(1-3) order_refl assms(4-8) e]
  have T: "0 < HandleThreshold (effective r)" using assms(2) by (simp add: limits_ok_def)
  have "Check (lUni L) (lRedis L) r h addr (store (world ?st))
      = (\<lparr>LockedOut = True, RetryAfter = backoff r (int (length as) div IPThreshold (effective r))\<rparr>, True)"
    using Check_tally [OF assms(1-3) order_refl order_refl, of "lUni L" h 0 "store (world ?st)" "length as"] s T assms(10)
    by simp
  moreover obtain k where "VerifyDummy (lKdf L) (lParams L) (lDummy L) pw = (Some (), k)"
    using assms(13) by (cases "VerifyDummy (lKdf L) (lParams L) (lDummy L) pw") auto
  ultimately have "fst (password_body L now h pw addr ?st)
      = Some (RateLimited (backoff r (int (length as) div IPThreshold (effective r))))"
    using s assms(4,11,12)
    by (simp add: password_body_def checkPersistentBan_result checkUsernameDenylist_pass Let_def burn_def
        split: prod.splits)
  then show ?thesis using s unfolding ByPassword_def by (simp add: emit_decision)
qed

section \<open>Witnesses\<close>

definition demo_hash :: string where
  "demo_hash = phc demo_params ''salt'' ''secretsa''"

definition demo_lookup :: "mem Lookup" where
  "demo_lookup =
     \<lparr>lUni = id,
      lDB = \<lparr>users = [\<lparr>uID = 7, uHandle = ''Ann'', uSysop = False, uBanned = False, uHash = demo_hash,
                        uAlgo = None, uRequireKey = False\<rparr>],
             credentials = [\<lparr>cID = 1, cUser = 7, cProvider = ''Ssh'', cSubject = ''SHA256:abc''\<rparr>],
             usersFail = False, credsFail = False\<rparr>,
      lKdf = demo_kdf, lParams = demo_params, lDummy = None, lRedis = mem_redis, lLimiter = Some demo_limiter,
      lHasBans = True, lDenylist = Some [''root''], lAudit = True\<rparr>"

definition demo_state :: "mem auth_state" where
  "demo_state = \<lparr>world = empty_mem, cache = NewBanCache, events = [], spent = 0, touched = [], rehashes = []\<rparr>"

abbreviation demo_addr :: "string option" where
  "demo_addr \<equiv> Some ''192.0.2.1:9''"

lemma demo_addr_host: "normalizeIP demo_addr = ''192.0.2.1''"
  by (simp add: normalizeIP_def SplitHostPort_def)

lemma demo_user: "GetUserByHandle id (lDB demo_lookup) ''ann'' = Row \<lparr>uID = 7, uHandle = ''Ann'', uSysop = False,
    uBanned = False, uHash = demo_hash, uAlgo = None, uRequireKey = False\<rparr>"
  by (simp add: GetUserByHandle_def demo_lookup_def ToLower_def is_ascii_def lower_byte_def char_of_def bit_Suc_0_iff)

lemma demo_names: "\<not> denied demo_lookup ''ann''" "denied demo_lookup ''root''"
  by (simp_all add: denied_def Denied_def demo_lookup_def ToLower_def is_ascii_def lower_byte_def char_of_def bit_Suc_0_iff)

lemma demo_unbanned: "\<not> ip_banned demo_lookup 0 demo_addr demo_state" "\<not> ip_banned demo_lookup 0 None demo_state"
  by (simp_all add: ip_banned_def IsBanned_def demo_state_def NewBanCache_def CollapseIP_def)

lemma demo_free: "\<not> LockedOut (fst (Check id mem_redis demo_limiter h None (store empty_mem)))"
  by (simp add: Check_def Let_def lockTTL_def mem_redis_def empty_mem_def normalizeIP_def unlocked_def)

lemma demo_enrolled:
  "GetCredentialByProviderSubject (lDB demo_lookup) CredentialProviderSSH ''SHA256:abc'' =
     Row \<lparr>cID = 1, cUser = 7, cProvider = ''Ssh'', cSubject = ''SHA256:abc''\<rparr>"
  by (simp add: GetCredentialByProviderSubject_def demo_lookup_def CredentialProviderSSH_def)

lemma demo_verify: "verify_user demo_lookup ''secret''
    \<lparr>uID = 7, uHandle = ''Ann'', uSysop = False, uBanned = False, uHash = demo_hash, uAlgo = None, uRequireKey = False\<rparr>
  = (Some \<lparr>OK = True, NeedsRehash = False\<rparr>, 1)"
proof -
  have "params_ok demo_params" by (simp add: params_ok_def demo_params_def)
  then have "Verify demo_kdf demo_params None ''secret'' (phc demo_params ''salt'' ''secretsa'') []
      = (Some \<lparr>OK = True, NeedsRehash = False\<rparr>, 1)"
    using Verify_phc [of demo_params "''salt''" "''secretsa''" demo_kdf "''secret''" "''secretsa''" demo_params None]
    by (simp add: demo_params_def demo_kdf_def)
  then show ?thesis by (simp add: verify_user_def demo_hash_def demo_lookup_def)
qed

lemma demo_hash_nonempty: "demo_hash \<noteq> []"
  by (simp add: demo_hash_def phc_def)

lemma demo_accepts: "password_accepted demo_lookup ''secret''
    \<lparr>uID = 7, uHandle = ''Ann'', uSysop = False, uBanned = False, uHash = demo_hash, uAlgo = None, uRequireKey = False\<rparr>"
  by (simp add: password_accepted_def demo_verify demo_hash_nonempty)

lemma demo_parts: "lUni demo_lookup = id" "lRedis demo_lookup = mem_redis" "lLimiter demo_lookup = Some demo_limiter"
    "lKdf demo_lookup = demo_kdf" "lParams demo_lookup = demo_params" "lDummy demo_lookup = None"
    "world demo_state = empty_mem" "spent demo_state = 0"
  by (simp_all add: demo_lookup_def demo_state_def)

lemma demo_dummy: "VerifyDummy demo_kdf demo_params None pw = (Some (), 1)"
  by (simp add: VerifyDummy_def demo_kdf_def)

lemma demo_returns: "\<exists>st'. ByPassword demo_lookup 0 ''ann'' ''secret'' None demo_state
    = (Some (Known 7 ''Ann'' False no_offer), st')"
proof -
  have "\<exists>st'. password_body demo_lookup 0 ''ann'' ''secret'' None demo_state
      = (Some (Known 7 ''Ann'' False no_offer), st')"
    using demo_free [of "''ann''"]
    by (simp add: password_body_def checkPersistentBan_result demo_unbanned checkUsernameDenylist_pass demo_names
        demo_parts demo_user [unfolded demo_parts] Let_def password_for_def demo_verify demo_hash_nonempty)
  then show ?thesis by (auto simp: ByPassword_def emitAuthAudit_def)
qed

theorem password_admits_exactly_witness:
  "\<exists>d st'. ByPassword demo_lookup 0 ''ann'' ''secret'' None demo_state = (Some d, st')
     \<and> password_accepted demo_lookup ''secret'' (hd (users (lDB demo_lookup))) \<and> known d"
proof -
  obtain d st' where r: "ByPassword demo_lookup 0 ''ann'' ''secret'' None demo_state = (Some d, st')" and d: "known d"
    using demo_returns known_simps(5) by blast
  have "hd (users (lDB demo_lookup)) = \<lparr>uID = 7, uHandle = ''Ann'', uSysop = False, uBanned = False,
      uHash = demo_hash, uAlgo = None, uRequireKey = False\<rparr>"
    by (simp add: demo_lookup_def)
  with password_admits_exactly [OF r] r d demo_user show ?thesis by (auto simp: demo_parts)
qed

theorem publickey_admits_exactly_witness:
  "\<exists>d st'. ByPublicKey demo_lookup 0 ''ann'' (''SHA256:abc'', ''ssh-ed25519'', ''blob'') demo_addr demo_state = (Some d, st')
     \<and> known d \<and> spent st' = 0"
proof -
  obtain d st' where r: "ByPublicKey demo_lookup 0 ''ann'' (''SHA256:abc'', ''ssh-ed25519'', ''blob'') demo_addr demo_state
      = (Some d, st')" and d: "d = Known 7 ''Ann'' False no_offer"
    using demo_user demo_enrolled
    by (simp add: ByPublicKey_def emitAuthAudit_def publickey_body_def checkPersistentBan_result demo_unbanned
        checkUsernameDenylist_pass demo_names demo_parts)
  from publickey_admits_exactly [OF r] r d show ?thesis by (auto simp: demo_parts)
qed


theorem denylist_spray_locks_address_witness:
  "fst (ByPassword demo_lookup 0 ''ann'' ''secret'' demo_addr
      (spray demo_lookup 0 demo_addr [(''root'', ''a''), (''root'', ''b''), (''root'', ''c'')] demo_state))
    = Some (RateLimited (3600 * second))
  \<and> eligible (world (spray demo_lookup 0 demo_addr [(''root'', ''a''), (''root'', ''b''), (''root'', ''c'')] demo_state))
    = [(''192.0.2.1'', 3)]"
proof -
  have eff: "HandleThreshold (effective demo_limiter) = 2" "IPThreshold (effective demo_limiter) = 1"
    by (simp_all add: effective_def demo_limiter_def)
  have t: "handle_tally nums lives id demo_limiter ''ann'' 0 0 (store empty_mem)"
    "ip_tally nums lives demo_limiter ''192.0.2.1'' 0 0 (store empty_mem)"
    by (simp_all add: handle_tally_def ip_tally_def tally_ok_def empty_mem_def eff)
  have b: "backoff demo_limiter 3 = 3600 * second"
    by (simp add: backoff_def demo_limiter_def second_def)
  have e: "escalations demo_limiter ''192.0.2.1'' 0 (length [(''root'', ''a''), (''root'', ''b''), (''root'', ''c'')])
      = [(''192.0.2.1'', 3)]"
    by (simp add: escalations_def eff escalated_def upt_rec) (simp add: demo_limiter_def)
  have n: "eligible (world demo_state) = []" by (simp add: demo_state_def empty_mem_def)
  show ?thesis
    using denylist_spray_locks_address [of demo_lookup nums lives demo_limiter demo_addr
        "[(''root'', ''a''), (''root'', ''b''), (''root'', ''c'')]" 0 demo_state "''ann''" "''secret''"]
      mem_redis_laws demo_limiter_ok demo_names demo_unbanned t n
    unfolding e demo_addr_host by (simp add: demo_parts demo_dummy eff b)
qed

end
