(* ===== verification/GoConv.thy ===== *)
theory GoConv
  imports GoStrings
begin

text \<open>
  The part of Go's \<^verbatim>\<open>strconv\<close> that the program uses to store numbers and switches as text:
  \<open>ParseInt\<close> and \<open>Atoi\<close> (base ten, 64 bits), \<open>Itoa\<close>, \<open>ParseBool\<close> and \<open>FormatBool\<close>.  An error
  is \<open>None\<close>.  The lemmas are the round trips.
\<close>

definition is_digit :: "char \<Rightarrow> bool" where
  "is_digit c \<longleftrightarrow> 48 \<le> code c \<and> code c \<le> 57"

definition decimal :: "string \<Rightarrow> nat option" where
  "decimal s = (if s \<noteq> [] \<and> list_all is_digit s then Some (number 10 s) else None)"

definition ParseInt :: "string \<Rightarrow> int option" where
  "ParseInt s =
     (case s of
        [] \<Rightarrow> None
      | c # r \<Rightarrow>
          if c = CHR ''-''
          then (case decimal r of None \<Rightarrow> None | Some n \<Rightarrow> if n \<le> 2 ^ 63 then Some (- int n) else None)
          else (case decimal (if c = CHR ''+'' then r else s) of
                  None \<Rightarrow> None | Some n \<Rightarrow> if n < 2 ^ 63 then Some (int n) else None))"

definition Itoa :: "int \<Rightarrow> string" where
  "Itoa n = (if n < 0 then CHR ''-'' # digits 10 (nat (- n)) else digits 10 (nat n))"

definition ParseBool :: "string \<Rightarrow> bool option" where
  "ParseBool s =
     (if s \<in> set [''1'', ''t'', ''T'', ''true'', ''TRUE'', ''True''] then Some True
      else if s \<in> set [''0'', ''f'', ''F'', ''false'', ''FALSE'', ''False''] then Some False
      else None)"

definition FormatBool :: "bool \<Rightarrow> string" where
  "FormatBool b = (if b then ''true'' else ''false'')"

lemma ParseBool_FormatBool [simp]: "ParseBool (FormatBool b) = Some b"
  by (simp add: ParseBool_def FormatBool_def)

lemma is_digit_digit: "d < 10 \<Longrightarrow> is_digit (digit d)"
  by (simp add: is_digit_def code_digit)

lemma digits_10: "list_all is_digit (digits 10 n)"
  using digits_set [of 10 _ n] is_digit_digit by (fastforce simp: list_all_iff)

lemma decimal_digits [simp]: "decimal (digits 10 n) = Some n"
  by (simp add: decimal_def digits_10 number_digits)

lemma digits_first: "digits 10 n = c # r \<Longrightarrow> is_digit c"
  using digits_10 [of n] by simp

lemma not_digit_signs [simp]: "\<not> is_digit CHR ''-''" "\<not> is_digit CHR ''+''"
  by (simp_all add: is_digit_def)

theorem ParseInt_Itoa:
  assumes "- (2 ^ 63) \<le> n" "n < 2 ^ 63"
  shows "ParseInt (Itoa n) = Some n"
proof (cases "n < 0")
  case True
  then have "nat (- n) \<le> 2 ^ 63" using assms by simp
  with True show ?thesis by (simp add: ParseInt_def Itoa_def)
next
  case False
  obtain c r where s: "digits 10 (nat n) = c # r" by (cases "digits 10 (nat n)") auto
  with digits_first have "c \<noteq> CHR ''-''" "c \<noteq> CHR ''+''" by force+
  moreover have "nat n < 2 ^ 63" using assms False by simp
  ultimately show ?thesis
    using False s decimal_digits [of "nat n"] by (simp add: ParseInt_def Itoa_def)
qed

lemma Itoa_inject: "Itoa m = Itoa n \<Longrightarrow> m = n"
proof -
  assume eq: "Itoa m = Itoa n"
  have sign: "hd (Itoa k) = CHR ''-'' \<longleftrightarrow> k < 0" for k
    using digits_first [of "nat k"] by (cases "digits 10 (nat k)") (auto simp: Itoa_def)
  from sign [of m] sign [of n] eq have "m < 0 \<longleftrightarrow> n < 0" by simp
  with eq show "m = n"
    using digits_inject [of 10 "nat (- m)" "nat (- n)"] digits_inject [of 10 "nat m" "nat n"]
    by (auto simp: Itoa_def split: if_splits)
qed

lemma ParseInt_range: "ParseInt s = Some n \<Longrightarrow> - (2 ^ 63) \<le> n \<and> n < 2 ^ 63"
  by (auto simp: ParseInt_def split: list.splits if_splits option.splits)

section \<open>Texts that need no trimming\<close>

lemma spaces_ends: "\<forall>w \<in> set spaces. w \<noteq> [] \<and> code (hd w) \<notin> {33..126} \<and> code (last w) \<notin> {33..126}"
  by (simp add: spaces_def upt_rec)

lemma TrimLeft_plain:
  assumes "s \<noteq> []" "code (hd s) \<in> {33..126}" "\<forall>w \<in> set ws. w \<noteq> [] \<longrightarrow> code (hd w) \<notin> {33..126}"
  shows "TrimLeft ws s = s"
  by (rule TrimLeft_id) (use assms in \<open>fastforce simp: list_all_iff HasPrefix_iff\<close>)

lemma TrimSpace_plain:
  assumes "s \<noteq> []" "code (hd s) \<in> {33..126}" "code (last s) \<in> {33..126}"
  shows "TrimSpace s = s"
proof -
  have "TrimLeft spaces s = s" by (rule TrimLeft_plain) (use assms spaces_ends in auto)
  moreover have "TrimLeft (map rev spaces) (rev s) = rev s"
    by (rule TrimLeft_plain) (use assms spaces_ends in \<open>auto simp: hd_rev\<close>)
  ultimately show ?thesis by (simp add: TrimSpace_def)
qed

end
