(* ===== verification/FaultyStore.thy ===== *)
theory FaultyStore
  imports AuthLookup GoConv
begin

text \<open>
  Services over a database and a bus any of whose calls may fail.  A step relation that is reflexive and
  transitive and allows a failed call (which only counts itself) is respected by a statement as
  soon as its effect respects it, and by every composition of statements.  The services of the
  program interpret this on their own tables.
\<close>

locale faulty_store =
  fixes failing :: "'s \<Rightarrow> bool"
    and counted :: "'s \<Rightarrow> 's"
    and leads :: "'s \<Rightarrow> 's \<Rightarrow> bool"
  assumes leads_refl: "leads s s"
    and leads_trans: "leads a b \<Longrightarrow> leads b c \<Longrightarrow> leads a c"
    and leads_counted: "leads s (counted s)"
begin

lemma statement_leads:
  assumes "\<And>t. leads t (snd (f t))"
  shows "leads s (snd (if failing s then (e, counted s) else f (counted s)))"
  using leads_counted leads_trans [OF leads_counted assms] by simp

lemma statement_leads_at:
  assumes "leads (counted s) (snd (f (counted s)))"
  shows "leads s (snd (if failing s then (e, counted s) else f (counted s)))"
  using leads_counted leads_trans [OF leads_counted assms] by simp

lemma bind_leads:
  assumes "leads s (snd q)" and "\<And>x t. q = (x, t) \<Longrightarrow> leads t (snd (g x t))"
  shows "leads s (snd (case q of (x, t) \<Rightarrow> g x t))"
  using leads_trans [OF assms(1) assms(2)] by (cases q) simp

lemma keep_leads: "leads s (snd q) \<Longrightarrow> leads s (snd (case q of (x, t) \<Rightarrow> (h x, t)))"
  by (cases q) simp

lemma fold_leads:
  assumes "\<And>x t. leads t (f x t)"
  shows "leads s (fold f xs s)"
proof (induction xs arbitrary: s)
  case (Cons x xs)
  show ?case using leads_trans [OF assms Cons] by simp
qed (simp add: leads_refl)

end

end
