(* ===== verification/Chat.thy ===== *)
theory Chat
  imports FaultyStore "HOL-Library.List_Lexorder"
begin

text \<open>
  The chat service (\<^verbatim>\<open>src/internal/realtime/chat.go\<close>, \<^verbatim>\<open>envelope.go\<close>) over the tables its SQL
  statements read and write (\<^verbatim>\<open>src/internal/data/gen/chat.sql.go\<close>).  The state holds the tables,
  the events published on the bus and an oracle \<open>fails\<close> that says which of the calls to the database
  and the bus, counted by \<open>calls\<close>, fail; a failed statement changes no table.  Rows with the same
  time come newest inserted first.  Names and handles are \<open>citext\<close>: they are compared without case;
  \<open>u\<close> is what lower-casing does outside ASCII.

  A result is a value and an error, each optional, as the functions of the source return them.
\<close>

section \<open>Tables and events\<close>

record channel =
  chID :: int
  chName :: string
  chTopic :: "string option"
  chPrivate :: bool
  chCreator :: "int option"
  chCreated :: int

record chat_msg =
  mID :: int
  mChannel :: int
  mUser :: int
  mBody :: string
  mCreated :: int
  mEdited :: "int option"
  mDeleted :: "int option"
  mPinned :: bool
  mParent :: "int option"

record Message = chat_msg +
  Handle :: string
  IsSysop :: bool

datatype ChatEventKind =
    MessageCreated | MessageEdited | MessageDeleted | ReactionAdded | ReactionRemoved | PinChanged
  | TopicChanged | Typing

record ChatEvent =
  Kind :: ChatEventKind
  MessageID :: int
  ChannelID :: int
  EvUser :: int
  EvHandle :: string
  EvSysop :: bool
  EvBody :: string
  EvCreated :: "int option"
  EvEdited :: "int option"
  EvParent :: "int option"
  Emoji :: string
  EvPinned :: bool
  EvTopic :: "string option"

record Author =
  aUser :: int
  aHandle :: string
  aSysop :: bool

record chat_db =
  accounts :: "user list"
  channels :: "channel list"
  members :: "(int \<times> int) list" \<comment> \<open>channel, user\<close>
  marks :: "int \<times> int \<Rightarrow> int option" \<comment> \<open>user, channel: last read message\<close>
  messages :: "chat_msg list"
  reactions :: "(int \<times> int \<times> string) list" \<comment> \<open>message, user, emoji\<close>
  nextChannel :: int
  nextMessage :: int
  published :: "(int \<times> ChatEvent) list"
  fails :: "nat \<Rightarrow> bool"
  calls :: nat

datatype chat_err =
    SqlError | PublishError | ErrNoMessageToEdit | ErrUnknownHandle | ErrCannotDMSelf | ErrNotFound
  | ErrForbidden string | EmptyEmoji

type_synonym 'a res = "'a option \<times> chat_err option"

definition tick :: "chat_db \<Rightarrow> chat_db" where
  "tick db = db\<lparr>calls := Suc (calls db)\<rparr>"

text \<open>A statement: it fails when the oracle says so, else does what it does.\<close>

definition statement :: "(chat_db \<Rightarrow> 'a query \<times> chat_db) \<Rightarrow> chat_db \<Rightarrow> 'a query \<times> chat_db" where
  "statement f db = (if fails db (calls db) then (DbError, tick db) else f (tick db))"

definition reading :: "(chat_db \<Rightarrow> 'a query) \<Rightarrow> chat_db \<Rightarrow> 'a query \<times> chat_db" where
  "reading f = statement (\<lambda>db. (f db, db))"

text \<open>\<open>Bus.Publish\<close>; whether it succeeded.\<close>

definition Publish :: "int \<Rightarrow> ChatEvent \<Rightarrow> chat_db \<Rightarrow> bool \<times> chat_db" where
  "Publish topic ev db =
     (if fails db (calls db) then (False, tick db)
      else (True, (tick db)\<lparr>published := published db @ [(topic, ev)]\<rparr>))"

definition publish_err :: "int \<Rightarrow> ChatEvent \<Rightarrow> chat_db \<Rightarrow> chat_err option \<times> chat_db" where
  "publish_err topic ev db =
     (case Publish topic ev db of (sent, db') \<Rightarrow> (if sent then None else Some PublishError, db'))"

definition blank_event :: "ChatEventKind \<Rightarrow> int \<Rightarrow> int \<Rightarrow> int \<Rightarrow> string \<Rightarrow> ChatEvent" where
  "blank_event k msg ch usr h =
     \<lparr>Kind = k, MessageID = msg, ChannelID = ch, EvUser = usr, EvHandle = h, EvSysop = False, EvBody = [],
      EvCreated = None, EvEdited = None, EvParent = None, Emoji = [], EvPinned = False, EvTopic = None\<rparr>"

section \<open>The SQL statements\<close>

definition user_exists :: "chat_db \<Rightarrow> int \<Rightarrow> bool" where
  "user_exists db i = (i \<in> uID ` set (accounts db))"

definition newest :: "chat_msg list \<Rightarrow> chat_msg list" where
  "newest ms = rev (sort_key mCreated ms)"

definition GetChannelByName :: "(string \<Rightarrow> string) \<Rightarrow> string \<Rightarrow> chat_db \<Rightarrow> channel query \<times> chat_db" where
  "GetChannelByName u name = reading (\<lambda>db.
     case find (\<lambda>c. ToLower u (chName c) = ToLower u name) (channels db) of None \<Rightarrow> NoRows | Some c \<Rightarrow> Row c)"

definition GetChannelByID :: "int \<Rightarrow> chat_db \<Rightarrow> channel query \<times> chat_db" where
  "GetChannelByID i = reading (\<lambda>db. case find (\<lambda>c. chID c = i) (channels db) of None \<Rightarrow> NoRows | Some c \<Rightarrow> Row c)"

definition CreateChannel ::
  "(string \<Rightarrow> string) \<Rightarrow> string \<Rightarrow> bool \<Rightarrow> int \<Rightarrow> int \<Rightarrow> chat_db \<Rightarrow> channel query \<times> chat_db" where
  "CreateChannel u name priv creator now = statement (\<lambda>db.
     let c = \<lparr>chID = nextChannel db, chName = name, chTopic = None, chPrivate = priv, chCreator = Some creator,
              chCreated = now\<rparr>;
         db' = db\<lparr>nextChannel := nextChannel db + 1\<rparr>
     in if list_ex (\<lambda>d. ToLower u (chName d) = ToLower u name) (channels db) \<or> \<not> user_exists db creator
        then (DbError, db')
        else (Row c, db'\<lparr>channels := channels db @ [c]\<rparr>))"

definition GetUser :: "(string \<Rightarrow> string) \<Rightarrow> string \<Rightarrow> chat_db \<Rightarrow> user query \<times> chat_db" where
  "GetUser u h = reading (\<lambda>db.
     GetUserByHandle u \<lparr>users = accounts db, credentials = [], usersFail = False, credsFail = False\<rparr> h)"

definition JoinChannelMembership :: "int \<Rightarrow> int \<Rightarrow> chat_db \<Rightarrow> unit query \<times> chat_db" where
  "JoinChannelMembership ch usr = statement (\<lambda>db.
     if (ch, usr) \<in> set (members db) then (Row (), db)
     else if \<not> list_ex (\<lambda>c. chID c = ch) (channels db) \<or> \<not> user_exists db usr then (DbError, db)
     else (Row (), db\<lparr>members := members db @ [(ch, usr)]\<rparr>))"

definition LeaveChannelMembership :: "int \<Rightarrow> int \<Rightarrow> chat_db \<Rightarrow> unit query \<times> chat_db" where
  "LeaveChannelMembership ch usr = statement (\<lambda>db. (Row (), db\<lparr>members := removeAll (ch, usr) (members db)\<rparr>))"

definition ListChannelsForUser ::
  "(string \<Rightarrow> string) \<Rightarrow> int \<Rightarrow> chat_db \<Rightarrow> channel list query \<times> chat_db" where
  "ListChannelsForUser u usr = reading (\<lambda>db.
     let mine = filter (\<lambda>c. (chID c, usr) \<in> set (members db)) (channels db);
         lobby = (\<lambda>c. ToLower u (chName c) = ''lobby'')
     in Row (filter lobby mine @ sort_key (\<lambda>c. map code (ToLower u (chName c))) (filter (\<lambda>c. \<not> lobby c) mine)))"

definition InsertChatMessage ::
  "int \<Rightarrow> int \<Rightarrow> string \<Rightarrow> int \<Rightarrow> int option \<Rightarrow> chat_db \<Rightarrow> chat_msg query \<times> chat_db" where
  "InsertChatMessage ch usr body now parent = statement (\<lambda>db.
     let m = \<lparr>mID = nextMessage db, mChannel = ch, mUser = usr, mBody = body, mCreated = now, mEdited = None,
              mDeleted = None, mPinned = False, mParent = parent\<rparr>;
         db' = db\<lparr>nextMessage := nextMessage db + 1\<rparr>
     in if \<not> list_ex (\<lambda>c. chID c = ch) (channels db) \<or> \<not> user_exists db usr
           \<or> (case parent of None \<Rightarrow> False | Some p \<Rightarrow> p \<noteq> nextMessage db \<and> \<not> list_ex (\<lambda>x. mID x = p) (messages db))
        then (DbError, db')
        else (Row m, db'\<lparr>messages := messages db @ [m]\<rparr>))"

definition GetChatMessageByID :: "int \<Rightarrow> chat_db \<Rightarrow> chat_msg query \<times> chat_db" where
  "GetChatMessageByID i = reading (\<lambda>db. case find (\<lambda>m. mID m = i) (messages db) of None \<Rightarrow> NoRows | Some m \<Rightarrow> Row m)"

definition live_in :: "int \<Rightarrow> chat_db \<Rightarrow> chat_msg list" where
  "live_in ch db = filter (\<lambda>m. mChannel m = ch \<and> mDeleted m = None) (messages db)"

definition GetLastOwnMessageInChannel :: "int \<Rightarrow> int \<Rightarrow> chat_db \<Rightarrow> chat_msg query \<times> chat_db" where
  "GetLastOwnMessageInChannel ch usr = reading (\<lambda>db.
     case newest (filter (\<lambda>m. mUser m = usr) (live_in ch db)) of [] \<Rightarrow> NoRows | m # ms \<Rightarrow> Row m)"

definition LatestMessageIDInChannel :: "int \<Rightarrow> chat_db \<Rightarrow> int query \<times> chat_db" where
  "LatestMessageIDInChannel ch = reading (\<lambda>db.
     Row (case map mID (live_in ch db) of [] \<Rightarrow> 0 | i # is \<Rightarrow> foldl max i is))"

text \<open>A statement that updates the rows of \<open>chat_messages\<close> with a condition.\<close>

definition update_messages :: "(chat_msg \<Rightarrow> bool) \<Rightarrow> (chat_msg \<Rightarrow> chat_msg) \<Rightarrow> chat_db \<Rightarrow> chat_db" where
  "update_messages p f db = db\<lparr>messages := map (\<lambda>m. if p m then f m else m) (messages db)\<rparr>"

definition UpdateChatMessage :: "int \<Rightarrow> int \<Rightarrow> string \<Rightarrow> int \<Rightarrow> chat_db \<Rightarrow> chat_msg query \<times> chat_db" where
  "UpdateChatMessage i usr body now = statement (\<lambda>db.
     let p = (\<lambda>m. mID m = i \<and> mUser m = usr \<and> mDeleted m = None);
         f = (\<lambda>m. m\<lparr>mBody := body, mEdited := Some now\<rparr>)
     in (case find p (messages db) of None \<Rightarrow> NoRows | Some m \<Rightarrow> Row (f m), update_messages p f db))"

definition SoftDeleteChatMessage :: "int \<Rightarrow> int \<Rightarrow> int \<Rightarrow> chat_db \<Rightarrow> unit query \<times> chat_db" where
  "SoftDeleteChatMessage i usr now = statement (\<lambda>db.
     (Row (), update_messages (\<lambda>m. mID m = i \<and> mUser m = usr \<and> mDeleted m = None) (\<lambda>m. m\<lparr>mDeleted := Some now\<rparr>) db))"

definition SoftDeleteChatMessageAsSysop :: "int \<Rightarrow> int \<Rightarrow> chat_db \<Rightarrow> unit query \<times> chat_db" where
  "SoftDeleteChatMessageAsSysop i now = statement (\<lambda>db.
     (Row (), update_messages (\<lambda>m. mID m = i \<and> mDeleted m = None) (\<lambda>m. m\<lparr>mDeleted := Some now\<rparr>) db))"

definition SetChatMessagePinned :: "int \<Rightarrow> bool \<Rightarrow> chat_db \<Rightarrow> unit query \<times> chat_db" where
  "SetChatMessagePinned i pin = statement (\<lambda>db.
     (Row (), update_messages (\<lambda>m. mID m = i \<and> mDeleted m = None) (\<lambda>m. m\<lparr>mPinned := pin\<rparr>) db))"

definition SetChannelTopic :: "int \<Rightarrow> string option \<Rightarrow> chat_db \<Rightarrow> unit query \<times> chat_db" where
  "SetChannelTopic i topic = statement (\<lambda>db.
     (Row (), db\<lparr>channels := map (\<lambda>c. if chID c = i then c\<lparr>chTopic := topic\<rparr> else c) (channels db)\<rparr>))"

text \<open>The column \<open>emoji\<close> holds 32 characters.\<close>

definition AddReaction :: "int \<Rightarrow> int \<Rightarrow> string \<Rightarrow> chat_db \<Rightarrow> unit query \<times> chat_db" where
  "AddReaction i usr e = statement (\<lambda>db.
     if 32 < utf8_length e then (DbError, db)
     else if (i, usr, e) \<in> set (reactions db) then (Row (), db)
     else if \<not> list_ex (\<lambda>m. mID m = i) (messages db) \<or> \<not> user_exists db usr then (DbError, db)
     else (Row (), db\<lparr>reactions := reactions db @ [(i, usr, e)]\<rparr>))"

definition RemoveReaction :: "int \<Rightarrow> int \<Rightarrow> string \<Rightarrow> chat_db \<Rightarrow> unit query \<times> chat_db" where
  "RemoveReaction i usr e = statement (\<lambda>db. (Row (), db\<lparr>reactions := removeAll (i, usr, e) (reactions db)\<rparr>))"

definition ReactionsFor :: "int \<Rightarrow> chat_db \<Rightarrow> (int \<times> string \<times> int) list query \<times> chat_db" where
  "ReactionsFor ch = reading (\<lambda>db.
     let rs = filter (\<lambda>(i, usr, e). i \<in> mID ` set (live_in ch db)) (reactions db)
     in Row (map (\<lambda>(i, e). (i, e, int (length (filter (\<lambda>(j, usr, d). j = i \<and> d = e) rs))))
               (remdups (map (\<lambda>(i, usr, e). (i, e)) rs))))"

definition MyReactionsFor :: "int \<Rightarrow> int \<Rightarrow> chat_db \<Rightarrow> (int \<times> string) list query \<times> chat_db" where
  "MyReactionsFor ch usr = reading (\<lambda>db.
     Row (map (\<lambda>(i, w, e). (i, e))
       (filter (\<lambda>(i, w, e). w = usr \<and> i \<in> mID ` set (filter (\<lambda>m. mChannel m = ch) (messages db))) (reactions db))))"

definition UpsertChannelRead :: "int \<Rightarrow> int \<Rightarrow> int \<Rightarrow> chat_db \<Rightarrow> unit query \<times> chat_db" where
  "UpsertChannelRead usr ch latest = statement (\<lambda>db.
     if \<not> list_ex (\<lambda>c. chID c = ch) (channels db) \<or> \<not> user_exists db usr then (DbError, db)
     else (Row (), db\<lparr>marks := (marks db)((usr, ch) :=
             Some (case marks db (usr, ch) of None \<Rightarrow> latest | Some n \<Rightarrow> max n latest))\<rparr>))"

definition UnreadCountsForUser :: "int \<Rightarrow> chat_db \<Rightarrow> (int \<times> int) list query \<times> chat_db" where
  "UnreadCountsForUser usr = reading (\<lambda>db.
     Row (map (\<lambda>(ch, w). (ch, int (length (filter
             (\<lambda>m. mID m > (case marks db (usr, ch) of None \<Rightarrow> 0 | Some n \<Rightarrow> n)) (live_in ch db)))))
       (filter (\<lambda>(ch, w). w = usr) (members db))))"

text \<open>Messages joined with their authors, as the service returns them.\<close>

definition with_author :: "chat_db \<Rightarrow> chat_msg \<Rightarrow> Message option" where
  "with_author db m =
     map_option (\<lambda>x. chat_msg.extend m \<lparr>Handle = uHandle x, IsSysop = uSysop x\<rparr>)
       (find (\<lambda>x. uID x = mUser m) (accounts db))"

definition authored :: "chat_db \<Rightarrow> chat_msg list \<Rightarrow> Message list" where
  "authored db ms = List.map_filter (with_author db) ms"

definition RecentMessagesForChannel :: "int \<Rightarrow> int \<Rightarrow> chat_db \<Rightarrow> Message list query \<times> chat_db" where
  "RecentMessagesForChannel ch limit = reading (\<lambda>db.
     if limit < 0 then DbError else Row (take (nat limit) (authored db (newest (live_in ch db)))))"

definition ListPinnedMessagesForChannel :: "int \<Rightarrow> chat_db \<Rightarrow> Message list query \<times> chat_db" where
  "ListPinnedMessagesForChannel ch = reading (\<lambda>db.
     Row (take 50 (authored db (newest (filter mPinned (live_in ch db))))))"

definition ReplyCountsForParents :: "int list \<Rightarrow> chat_db \<Rightarrow> (int \<times> int) list query \<times> chat_db" where
  "ReplyCountsForParents ps = reading (\<lambda>db.
     let kids = filter (\<lambda>m. mDeleted m = None \<and> (case mParent m of None \<Rightarrow> False | Some p \<Rightarrow> p \<in> set ps)) (messages db)
     in Row (map (\<lambda>p. (p, int (length (filter (\<lambda>m. mParent m = Some p) kids))))
               (remdups (List.map_filter mParent kids))))"

text \<open>
  \<open>ILIKE\<close> with its default escape, the backslash: the pattern and the text are compared character
  by character (a character is its UTF-8 bytes) after lower-casing.
\<close>

fun like :: "string list \<Rightarrow> string list \<Rightarrow> bool" where
  "like [] t = (t = [])"
| "like (p # ps) t =
     (if p = ''%'' then like ps t \<or> (case t of [] \<Rightarrow> False | x # t' \<Rightarrow> like (p # ps) t')
      else if p = ''_'' then (case t of [] \<Rightarrow> False | x # t' \<Rightarrow> like ps t')
      else if p = [CHR 0x5C] then
        (case ps of [] \<Rightarrow> False | q # qs \<Rightarrow> (case t of [] \<Rightarrow> False | x # t' \<Rightarrow> x = q \<and> like qs t'))
      else (case t of [] \<Rightarrow> False | x # t' \<Rightarrow> x = p \<and> like ps t'))"

definition ILIKE :: "(string \<Rightarrow> string) \<Rightarrow> string \<Rightarrow> string \<Rightarrow> bool" where
  "ILIKE u body pattern = like (utf8_chars (ToLower u pattern)) (utf8_chars (ToLower u body))"

text \<open>The full-text match is an argument: the term as a web search query against a body.\<close>

definition SearchChatMessages :: "(string \<Rightarrow> bool) \<Rightarrow> int \<Rightarrow> nat \<Rightarrow> chat_db \<Rightarrow> Message list query \<times> chat_db" where
  "SearchChatMessages match ch limit = reading (\<lambda>db.
     Row (take limit (authored db (newest (filter (\<lambda>m. match (mBody m)) (live_in ch db))))))"

section \<open>Channels and membership\<close>

definition ResolvePublicChannel ::
  "(string \<Rightarrow> string) \<Rightarrow> string \<Rightarrow> int \<Rightarrow> int \<Rightarrow> chat_db \<Rightarrow> channel res \<times> chat_db" where
  "ResolvePublicChannel u name usr now db =
     (case GetChannelByName u name db of
        (Row c, db1) \<Rightarrow> ((Some c, None), db1)
      | (DbError, db1) \<Rightarrow> ((None, Some SqlError), db1)
      | (NoRows, db1) \<Rightarrow>
          (case CreateChannel u name False usr now db1 of
             (Row c, db2) \<Rightarrow> ((Some c, None), db2)
           | (_, db2) \<Rightarrow> ((None, Some SqlError), db2)))"

definition sql_err :: "'a query \<times> chat_db \<Rightarrow> chat_err option \<times> chat_db" where
  "sql_err r = (case r of (q, db) \<Rightarrow> (if q = DbError then Some SqlError else None, db))"

definition EnsureMembership :: "int \<Rightarrow> int \<Rightarrow> chat_db \<Rightarrow> chat_err option \<times> chat_db" where
  "EnsureMembership ch usr db = sql_err (JoinChannelMembership ch usr db)"

definition LeaveMembership :: "int \<Rightarrow> int \<Rightarrow> chat_db \<Rightarrow> chat_err option \<times> chat_db" where
  "LeaveMembership ch usr db = sql_err (LeaveChannelMembership ch usr db)"

text \<open>A read of the service: the rows, or the error.\<close>

definition rows_or_err :: "('a \<Rightarrow> 'b) \<Rightarrow> 'a query \<times> chat_db \<Rightarrow> 'b res \<times> chat_db" where
  "rows_or_err f r = (case r of (Row x, db) \<Rightarrow> ((Some (f x), None), db) | (_, db) \<Rightarrow> ((None, Some SqlError), db))"

definition JoinedChannels :: "(string \<Rightarrow> string) \<Rightarrow> int \<Rightarrow> chat_db \<Rightarrow> channel list res \<times> chat_db" where
  "JoinedChannels u usr db = rows_or_err (\<lambda>cs. cs) (ListChannelsForUser u usr db)"

definition DMChannelName :: "(string \<Rightarrow> string) \<Rightarrow> string \<Rightarrow> string \<Rightarrow> string" where
  "DMChannelName u a b =
     (let a = ToLower u a; b = ToLower u b
      in if map code a > map code b then ''dm-'' @ b @ ''-'' @ a else ''dm-'' @ a @ ''-'' @ b)"

definition ResolveDM ::
  "(string \<Rightarrow> string) \<Rightarrow> (string \<Rightarrow> string \<Rightarrow> bool) \<Rightarrow> Author \<Rightarrow> string \<Rightarrow> int \<Rightarrow> chat_db \<Rightarrow> channel res \<times> chat_db" where
  "ResolveDM u ef self h now db =
     (if EqualFold ef (aHandle self) h then ((None, Some ErrCannotDMSelf), db)
      else case GetUser u h db of
        (NoRows, db1) \<Rightarrow> ((None, Some ErrUnknownHandle), db1)
      | (DbError, db1) \<Rightarrow> ((None, Some SqlError), db1)
      | (Row other, db1) \<Rightarrow>
          (let name = DMChannelName u (aHandle self) (uHandle other) in
           case (case GetChannelByName u name db1 of
                   (NoRows, db2) \<Rightarrow> CreateChannel u name True (aUser self) now db2
                 | (q, db2) \<Rightarrow> (q, db2)) of
             (Row c, db3) \<Rightarrow>
               (case EnsureMembership (chID c) (aUser self) db3 of
                  (Some e, db4) \<Rightarrow> ((Some c, Some e), db4)
                | (None, db4) \<Rightarrow>
                    (case EnsureMembership (chID c) (uID other) db4 of (e, db5) \<Rightarrow> ((Some c, e), db5)))
           | (_, db3) \<Rightarrow> ((None, Some SqlError), db3)))"

section \<open>Messages\<close>

definition RecentMessages :: "int \<Rightarrow> int \<Rightarrow> chat_db \<Rightarrow> Message list res \<times> chat_db" where
  "RecentMessages ch limit db = rows_or_err rev (RecentMessagesForChannel ch limit db)"

definition message_of :: "Author \<Rightarrow> chat_msg \<Rightarrow> Message" where
  "message_of au m = chat_msg.extend m \<lparr>Handle = aHandle au, IsSysop = aSysop au\<rparr>"

definition SendReply ::
  "int \<Rightarrow> Author \<Rightarrow> string \<Rightarrow> int option \<Rightarrow> int \<Rightarrow> chat_db \<Rightarrow> Message res \<times> chat_db" where
  "SendReply ch au body parent now db =
     (case InsertChatMessage ch (aUser au) body now parent db of
        (Row m, db1) \<Rightarrow>
          (case publish_err ch ((blank_event MessageCreated (mID m) (mChannel m) (mUser m) (aHandle au))
                  \<lparr>EvSysop := aSysop au, EvBody := mBody m, EvCreated := Some (mCreated m), EvParent := mParent m\<rparr>) db1 of
             (e, db2) \<Rightarrow> ((Some (message_of au m), e), db2))
      | (_, db1) \<Rightarrow> ((None, Some SqlError), db1))"

definition ChatSend :: "int \<Rightarrow> Author \<Rightarrow> string \<Rightarrow> int \<Rightarrow> chat_db \<Rightarrow> Message res \<times> chat_db" where
  "ChatSend ch au body now db = SendReply ch au body None now db"

definition LastOwnMessageID :: "int \<Rightarrow> int \<Rightarrow> chat_db \<Rightarrow> int res \<times> chat_db" where
  "LastOwnMessageID ch usr db =
     (case GetLastOwnMessageInChannel ch usr db of
        (Row m, db1) \<Rightarrow> ((Some (mID m), None), db1)
      | (NoRows, db1) \<Rightarrow> ((Some 0, None), db1)
      | (DbError, db1) \<Rightarrow> ((None, Some SqlError), db1))"

definition EditLastOwnInChannel ::
  "int \<Rightarrow> Author \<Rightarrow> string \<Rightarrow> int \<Rightarrow> chat_db \<Rightarrow> Message res \<times> chat_db" where
  "EditLastOwnInChannel ch au body now db =
     (case GetLastOwnMessageInChannel ch (aUser au) db of
        (NoRows, db1) \<Rightarrow> ((None, Some ErrNoMessageToEdit), db1)
      | (DbError, db1) \<Rightarrow> ((None, Some SqlError), db1)
      | (Row l, db1) \<Rightarrow>
          (case UpdateChatMessage (mID l) (aUser au) body now db1 of
             (Row m, db2) \<Rightarrow>
               (case publish_err ch ((blank_event MessageEdited (mID m) (mChannel m) (mUser m) (aHandle au))
                       \<lparr>EvSysop := aSysop au, EvBody := mBody m, EvCreated := Some (mCreated m), EvEdited := mEdited m\<rparr>) db2 of
                  (e, db3) \<Rightarrow> ((Some (message_of au (m\<lparr>mPinned := False, mParent := None\<rparr>)), e), db3))
           | (_, db2) \<Rightarrow> ((None, Some SqlError), db2)))"

definition DeleteMessage :: "int \<Rightarrow> Author \<Rightarrow> int \<Rightarrow> chat_db \<Rightarrow> chat_err option \<times> chat_db" where
  "DeleteMessage i actor now db =
     (case GetChatMessageByID i db of
        (NoRows, db1) \<Rightarrow> (Some ErrNotFound, db1)
      | (DbError, db1) \<Rightarrow> (Some SqlError, db1)
      | (Row m, db1) \<Rightarrow>
          if mDeleted m \<noteq> None then (None, db1)
          else if mUser m \<noteq> aUser actor \<and> \<not> aSysop actor
            then (Some (ErrForbidden ''you can only delete your own messages''), db1)
          else (case (if aSysop actor \<and> mUser m \<noteq> aUser actor then SoftDeleteChatMessageAsSysop i now db1
                      else SoftDeleteChatMessage i (aUser actor) now db1) of
                  (DbError, db2) \<Rightarrow> (Some SqlError, db2)
                | (_, db2) \<Rightarrow>
                    publish_err (mChannel m) (blank_event MessageDeleted i (mChannel m) (aUser actor) (aHandle actor)) db2))"

definition SetPinned :: "int \<Rightarrow> bool \<Rightarrow> Author \<Rightarrow> chat_db \<Rightarrow> chat_err option \<times> chat_db" where
  "SetPinned i pin actor db =
     (case GetChatMessageByID i db of
        (NoRows, db1) \<Rightarrow> (Some ErrNotFound, db1)
      | (DbError, db1) \<Rightarrow> (Some SqlError, db1)
      | (Row m, db1) \<Rightarrow>
          if mDeleted m \<noteq> None then (Some (ErrForbidden (''can'' @ [CHR 0x27] @ ''t pin a deleted message'')), db1)
          else if mPinned m = pin then (None, db1)
          else (case SetChatMessagePinned i pin db1 of
                  (DbError, db2) \<Rightarrow> (Some SqlError, db2)
                | (_, db2) \<Rightarrow>
                    publish_err (mChannel m) ((blank_event PinChanged i (mChannel m) (aUser actor) (aHandle actor))
                      \<lparr>EvPinned := pin\<rparr>) db2))"

definition ListPins :: "int \<Rightarrow> chat_db \<Rightarrow> Message list res \<times> chat_db" where
  "ListPins ch db = rows_or_err (\<lambda>ms. ms) (ListPinnedMessagesForChannel ch db)"

section \<open>Reactions, topics, read marks\<close>

definition React :: "int \<Rightarrow> int \<Rightarrow> Author \<Rightarrow> string \<Rightarrow> int \<Rightarrow> chat_db \<Rightarrow> chat_err option \<times> chat_db" where
  "React ch i au e now db =
     (if e = [] then (Some EmptyEmoji, db)
      else case AddReaction i (aUser au) e db of
        (DbError, db1) \<Rightarrow> (Some SqlError, db1)
      | (_, db1) \<Rightarrow>
          publish_err ch ((blank_event ReactionAdded i ch (aUser au) (aHandle au))
            \<lparr>EvSysop := aSysop au, Emoji := e, EvCreated := Some now\<rparr>) db1)"

definition Unreact :: "int \<Rightarrow> int \<Rightarrow> Author \<Rightarrow> string \<Rightarrow> int \<Rightarrow> chat_db \<Rightarrow> chat_err option \<times> chat_db" where
  "Unreact ch i au e now db =
     (case RemoveReaction i (aUser au) e db of
        (DbError, db1) \<Rightarrow> (Some SqlError, db1)
      | (_, db1) \<Rightarrow>
          publish_err ch ((blank_event ReactionRemoved i ch (aUser au) (aHandle au))
            \<lparr>Emoji := e, EvCreated := Some now\<rparr>) db1)"

definition PublishTyping :: "int \<Rightarrow> Author \<Rightarrow> int \<Rightarrow> chat_db \<Rightarrow> chat_err option \<times> chat_db" where
  "PublishTyping ch au now db =
     publish_err ch ((blank_event Typing 0 ch (aUser au) (aHandle au))\<lparr>EvSysop := aSysop au, EvCreated := Some now\<rparr>) db"

definition ReactionsForChannel :: "int \<Rightarrow> chat_db \<Rightarrow> (int \<times> string \<Rightarrow> int option) res \<times> chat_db" where
  "ReactionsForChannel ch db = rows_or_err (\<lambda>rs. map_of (map (\<lambda>(i, e, n). ((i, e), n)) rs)) (ReactionsFor ch db)"

definition MyReactionsForChannel :: "int \<Rightarrow> int \<Rightarrow> chat_db \<Rightarrow> (int \<times> string) set res \<times> chat_db" where
  "MyReactionsForChannel ch usr db = rows_or_err set (MyReactionsFor ch usr db)"

definition canSetTopic :: "channel \<Rightarrow> Author \<Rightarrow> bool" where
  "canSetTopic c actor =
     (if aSysop actor then True else case chCreator c of None \<Rightarrow> True | Some i \<Rightarrow> i = aUser actor)"

definition SetTopic :: "int \<Rightarrow> string option \<Rightarrow> Author \<Rightarrow> chat_db \<Rightarrow> chat_err option \<times> chat_db" where
  "SetTopic ch topic actor db =
     (if (case topic of None \<Rightarrow> False | Some t \<Rightarrow> 200 < length t)
        then (Some (ErrForbidden ''topic must be 200 chars or fewer''), db)
      else
        (let topic = (case topic of None \<Rightarrow> None | Some t \<Rightarrow> (let t = TrimSpace t in if t = [] then None else Some t)) in
         case GetChannelByID ch db of
           (NoRows, db1) \<Rightarrow> (Some ErrNotFound, db1)
         | (DbError, db1) \<Rightarrow> (Some SqlError, db1)
         | (Row c, db1) \<Rightarrow>
             if \<not> canSetTopic c actor then (Some (ErrForbidden ''only the channel creator can set the topic''), db1)
             else if case_option [] (\<lambda>t. t) (chTopic c) = case_option [] (\<lambda>t. t) topic then (None, db1)
             else (case SetChannelTopic ch topic db1 of
                     (DbError, db2) \<Rightarrow> (Some SqlError, db2)
                   | (_, db2) \<Rightarrow>
                       publish_err ch ((blank_event TopicChanged 0 ch (aUser actor) (aHandle actor))\<lparr>EvTopic := topic\<rparr>) db2)))"

definition TouchChannelRead :: "int \<Rightarrow> int \<Rightarrow> int \<Rightarrow> chat_db \<Rightarrow> chat_err option \<times> chat_db" where
  "TouchChannelRead usr ch latest db = sql_err (UpsertChannelRead usr ch latest db)"

definition LatestMessageID :: "int \<Rightarrow> chat_db \<Rightarrow> int res \<times> chat_db" where
  "LatestMessageID ch db = rows_or_err (\<lambda>i. i) (LatestMessageIDInChannel ch db)"

definition UnreadCounts :: "int \<Rightarrow> chat_db \<Rightarrow> (int \<Rightarrow> int option) res \<times> chat_db" where
  "UnreadCounts usr db = rows_or_err map_of (UnreadCountsForUser usr db)"

section \<open>Search\<close>

definition escape_with :: "char \<Rightarrow> string \<Rightarrow> string" where
  "escape_with d s = concat (map (\<lambda>c. if c = d then [CHR ''|'', c] else [c]) s)"

definition ilikeEscape :: "string \<Rightarrow> string" where
  "ilikeEscape s = escape_with (CHR ''_'') (escape_with (CHR ''%'') (escape_with (CHR ''|'') s))"

definition ChatSearch ::
  "(string \<Rightarrow> string) \<Rightarrow> (string \<Rightarrow> string \<Rightarrow> bool) \<Rightarrow> int \<Rightarrow> string \<Rightarrow> int \<Rightarrow> chat_db
   \<Rightarrow> Message list res \<times> chat_db" where
  "ChatSearch u fts ch term limit db =
     (let trimmed = TrimSpace term; limit = (if limit < 1 then 1 else limit); limit = (if limit > 100 then 100 else limit) in
      if trimmed = [] then ((Some [], None), db)
      else case SearchChatMessages (fts trimmed) ch (nat limit) db of
        (Row ms, db1) \<Rightarrow>
          if ms \<noteq> [] then ((Some ms, None), db1)
          else rows_or_err (\<lambda>ms. ms)
                 (SearchChatMessages (\<lambda>b. ILIKE u b (''%'' @ ilikeEscape trimmed @ ''%'')) ch (nat limit) db1)
      | (_, db1) \<Rightarrow> ((None, Some SqlError), db1))"

definition ReplyCounts :: "int list \<Rightarrow> chat_db \<Rightarrow> (int \<Rightarrow> int option) res \<times> chat_db" where
  "ReplyCounts ps db = (if ps = [] then ((Some Map.empty, None), db) else rows_or_err map_of (ReplyCountsForParents ps db))"

end
