(* ===== verification/ChatSafety.thy ===== *)
theory ChatSafety
  imports Chat
begin

text \<open>
  Properties of the chat service: the tables stay sound and the history only grows whatever the
  operations and the failing calls, who may change which message, what an event tells, and the
  read marks.
\<close>

section \<open>The operations as one step\<close>

datatype chat_op =
    OpResolve string int int
  | OpDM Author string int
  | OpJoin int int
  | OpLeave int int
  | OpSend int Author string "int option" int
  | OpEdit int Author string int
  | OpDelete int Author int
  | OpPin int bool Author
  | OpReact int int Author string int
  | OpUnreact int int Author string int
  | OpTyping int Author int
  | OpTopic int "string option" Author
  | OpMark int int int
  | OpRead

fun chat_apply ::
  "(string \<Rightarrow> string) \<Rightarrow> (string \<Rightarrow> string \<Rightarrow> bool) \<Rightarrow> chat_op \<Rightarrow> chat_db \<Rightarrow> chat_db" where
  "chat_apply u ef (OpResolve name usr now) db = snd (ResolvePublicChannel u name usr now db)"
| "chat_apply u ef (OpDM au h now) db = snd (ResolveDM u ef au h now db)"
| "chat_apply u ef (OpJoin ch usr) db = snd (EnsureMembership ch usr db)"
| "chat_apply u ef (OpLeave ch usr) db = snd (LeaveMembership ch usr db)"
| "chat_apply u ef (OpSend ch au body parent now) db = snd (SendReply ch au body parent now db)"
| "chat_apply u ef (OpEdit ch au body now) db = snd (EditLastOwnInChannel ch au body now db)"
| "chat_apply u ef (OpDelete i au now) db = snd (DeleteMessage i au now db)"
| "chat_apply u ef (OpPin i pin au) db = snd (SetPinned i pin au db)"
| "chat_apply u ef (OpReact ch i au e now) db = snd (React ch i au e now db)"
| "chat_apply u ef (OpUnreact ch i au e now) db = snd (Unreact ch i au e now db)"
| "chat_apply u ef (OpTyping ch au now) db = snd (PublishTyping ch au now db)"
| "chat_apply u ef (OpTopic ch topic au) db = snd (SetTopic ch topic au db)"
| "chat_apply u ef (OpMark usr ch latest) db = snd (TouchChannelRead usr ch latest db)"
| "chat_apply u ef OpRead db = tick db"

definition chat_run ::
  "(string \<Rightarrow> string) \<Rightarrow> (string \<Rightarrow> string \<Rightarrow> bool) \<Rightarrow> chat_op list \<Rightarrow> chat_db \<Rightarrow> chat_db" where
  "chat_run u ef ops db = fold (chat_apply u ef) ops db"

section \<open>What holds of the tables\<close>

definition chat_ok :: "(string \<Rightarrow> string) \<Rightarrow> chat_db \<Rightarrow> bool" where
  "chat_ok u db \<longleftrightarrow>
     distinct (map mID (messages db)) \<and> distinct (map chID (channels db))
     \<and> distinct (map (\<lambda>c. ToLower u (chName c)) (channels db)) \<and> distinct (members db) \<and> distinct (reactions db)
     \<and> (\<forall>m \<in> set (messages db). mID m < nextMessage db \<and> mChannel m \<in> chID ` set (channels db)
          \<and> mUser m \<in> uID ` set (accounts db) \<and> (\<forall>p. mParent m = Some p \<longrightarrow> p \<in> mID ` set (messages db)))
     \<and> (\<forall>c \<in> set (channels db). chID c < nextChannel db)
     \<and> (\<forall>(ch, w) \<in> set (members db). ch \<in> chID ` set (channels db) \<and> w \<in> uID ` set (accounts db))
     \<and> (\<forall>(i, w, e) \<in> set (reactions db). i \<in> mID ` set (messages db) \<and> w \<in> uID ` set (accounts db)
          \<and> utf8_length e \<le> 32)"

text \<open>A later row of a message: the same message, and the same row once it is deleted.\<close>

definition kept :: "chat_msg \<Rightarrow> chat_msg \<Rightarrow> bool" where
  "kept m m' \<longleftrightarrow> mID m' = mID m \<and> mChannel m' = mChannel m \<and> mUser m' = mUser m \<and> mCreated m' = mCreated m
     \<and> mParent m' = mParent m \<and> (mDeleted m \<noteq> None \<longrightarrow> m' = m)"

definition same_channel :: "channel \<Rightarrow> channel \<Rightarrow> bool" where
  "same_channel c c' \<longleftrightarrow> chID c' = chID c \<and> chName c' = chName c \<and> chPrivate c' = chPrivate c \<and> chCreator c' = chCreator c"

definition evolves :: "chat_db \<Rightarrow> chat_db \<Rightarrow> bool" where
  "evolves db db' \<longleftrightarrow>
     accounts db' = accounts db
     \<and> (\<forall>m \<in> set (messages db). \<exists>m' \<in> set (messages db'). kept m m')
     \<and> (\<forall>c \<in> set (channels db). \<exists>c' \<in> set (channels db'). same_channel c c')
     \<and> (\<forall>k n. marks db k = Some n \<longrightarrow> (\<exists>n'. n \<le> n' \<and> marks db' k = Some n'))
     \<and> (\<exists>evs. published db' = published db @ evs)"

lemma kept_trans: "kept a b \<Longrightarrow> kept b c \<Longrightarrow> kept a c"
  by (auto simp: kept_def)

lemma evolves_refl [simp]: "evolves db db"
  by (auto simp: evolves_def kept_def same_channel_def)

lemma evolves_trans [trans]: "evolves a b \<Longrightarrow> evolves b c \<Longrightarrow> evolves a c"
  unfolding evolves_def
  apply (intro conjI)
      apply simp
     apply (meson kept_trans)
    apply (metis same_channel_def)
   apply (metis order_trans)
  apply auto
  done

text \<open>A sound step: it keeps the tables sound and lets them evolve.\<close>

definition sound :: "(string \<Rightarrow> string) \<Rightarrow> chat_db \<Rightarrow> chat_db \<Rightarrow> bool" where
  "sound u db db' \<longleftrightarrow> (chat_ok u db \<longrightarrow> chat_ok u db') \<and> evolves db db'"

lemma sound_refl [simp]: "sound u db db"
  by (simp add: sound_def)

lemma sound_trans [trans]: "sound u a b \<Longrightarrow> sound u b c \<Longrightarrow> sound u a c"
  unfolding sound_def using evolves_trans by blast

named_theorems statement_sound \<open>the statements are sound steps\<close>

lemma tick_simps [simp]:
  "accounts (tick db) = accounts db" "channels (tick db) = channels db" "members (tick db) = members db"
  "marks (tick db) = marks db" "messages (tick db) = messages db" "reactions (tick db) = reactions db"
  "nextChannel (tick db) = nextChannel db" "nextMessage (tick db) = nextMessage db"
  "published (tick db) = published db" "fails (tick db) = fails db" "calls (tick db) = Suc (calls db)"
  by (simp_all add: tick_def)

lemma sound_tick [simp]: "sound u db (tick db)"
  by (auto simp: sound_def evolves_def chat_ok_def user_exists_def kept_def same_channel_def)

lemma reading_db [simp]: "snd (reading f db) = tick db"
  by (simp add: reading_def statement_def)

lemma sound_reading [statement_sound]: "sound u db (snd (reading f db))"
  by simp

interpretation chat_store: faulty_store "\<lambda>db. fails db (calls db)" tick "sound u" for u
  by unfold_locales (auto intro: sound_trans)

lemma sound_statement: "(\<And>d. sound u d (snd (f d))) \<Longrightarrow> sound u db (snd (statement f db))"
  unfolding statement_def by (rule chat_store.statement_leads)

lemma sound_publish [statement_sound]: "sound u db (snd (publish_err topic ev db))"
  by (auto simp: sound_def evolves_def chat_ok_def publish_err_def Publish_def kept_def same_channel_def
      split: prod.splits if_splits)

lemma sound_update:
  assumes "\<And>m. p m \<Longrightarrow> mDeleted m = None \<and> mID (f m) = mID m \<and> mChannel (f m) = mChannel m \<and> mUser (f m) = mUser m
      \<and> mCreated (f m) = mCreated m \<and> mParent (f m) = mParent m"
  shows "sound u db (update_messages p f db)"
proof -
  have k: "kept m (if p m then f m else m)" for m using assms by (auto simp: kept_def)
  have ids: "map mID (map (\<lambda>m. if p m then f m else m) ms) = map mID ms" for ms using assms by (induction ms) auto
  then have set_ids: "mID ` set (map (\<lambda>m. if p m then f m else m) ms) = mID ` set ms" for ms by (metis set_map)
  have "chat_ok u db \<Longrightarrow> chat_ok u (update_messages p f db)"
    unfolding chat_ok_def update_messages_def
    using assms by (simp add: ids set_ids del: map_map set_map) (auto simp: image_iff)
  moreover have "\<exists>m' \<in> set (map (\<lambda>m. if p m then f m else m) (messages db)). kept m m'" if "m \<in> set (messages db)" for m
    using k [of m] that by (metis (no_types, lifting) image_eqI list.set_map)
  then have "evolves db (update_messages p f db)"
    by (auto simp: evolves_def update_messages_def same_channel_def simp del: set_map)
  ultimately show ?thesis by (simp add: sound_def)
qed


lemmas lookup_defs = GetChannelByName_def GetChannelByID_def GetUser_def ListChannelsForUser_def
  GetChatMessageByID_def GetLastOwnMessageInChannel_def LatestMessageIDInChannel_def ReactionsFor_def
  MyReactionsFor_def UnreadCountsForUser_def RecentMessagesForChannel_def ListPinnedMessagesForChannel_def
  ReplyCountsForParents_def SearchChatMessages_def

lemma lookup_tick [simp]:
  "snd (GetChannelByName u name db) = tick db" "snd (GetChannelByID i db) = tick db" "snd (GetUser u h db) = tick db"
  "snd (GetChatMessageByID i db) = tick db" "snd (GetLastOwnMessageInChannel ch usr db) = tick db"
  by (simp_all add: lookup_defs)

lemma sound_lookups [statement_sound]:
  "sound u db (snd (GetChannelByName v name db))" "sound u db (snd (GetChannelByID i db))"
  "sound u db (snd (GetUser v h db))" "sound u db (snd (GetChatMessageByID i db))"
  "sound u db (snd (GetLastOwnMessageInChannel ch usr db))"
  by simp_all

lemma sound_messages [statement_sound]:
  "sound u db (snd (UpdateChatMessage i usr body now db))"
  "sound u db (snd (SoftDeleteChatMessage i usr now db))"
  "sound u db (snd (SoftDeleteChatMessageAsSysop i now db))"
  "sound u db (snd (SetChatMessagePinned i pin db))"
  unfolding UpdateChatMessage_def SoftDeleteChatMessage_def SoftDeleteChatMessageAsSysop_def SetChatMessagePinned_def Let_def
  by (rule sound_statement, simp, rule sound_update, simp)+

lemma sound_channel [statement_sound]: "sound u db (snd (CreateChannel u name priv creator now db))"
  unfolding CreateChannel_def Let_def
  by (rule sound_statement)
    (force simp: sound_def evolves_def chat_ok_def same_channel_def kept_def list_ex_iff user_exists_def image_iff)

lemma map_retopic:
  "(\<And>c. g (c\<lparr>chTopic := topic\<rparr>) = g c) \<Longrightarrow>
     map g (map (\<lambda>c :: channel. if chID c = i then c\<lparr>chTopic := topic\<rparr> else c) cs) = map g cs"
  by (induction cs) auto

lemma ids_retopic: "chID ` set (map (\<lambda>c :: channel. if chID c = i then c\<lparr>chTopic := topic\<rparr> else c) cs) = chID ` set cs"
  by (simp only: set_map image_image) (rule image_cong; simp)

lemma sound_topic [statement_sound]: "sound u db (snd (SetChannelTopic i topic db))"
proof -
  let ?f = "\<lambda>c. if chID c = i then c\<lparr>chTopic := topic\<rparr> else c"
  have "chat_ok u (d\<lparr>channels := map ?f (channels d)\<rparr>)" if "chat_ok u d" for d
    using that map_retopic [of chID topic i "channels d"] map_retopic [of "\<lambda>c. ToLower u (chName c)" topic i "channels d"]
      ids_retopic [of i topic "channels d"]
    by (simp add: chat_ok_def del: map_map set_map) auto
  moreover have "\<exists>c' \<in> set (map ?f cs). same_channel c c'" if "c \<in> set cs" for c cs
    using that by (intro bexI [of _ "?f c"]) (auto simp: same_channel_def simp del: set_map simp: list.set_map)
  then have "evolves d (d\<lparr>channels := map ?f (channels d)\<rparr>)" for d
    by (auto simp: evolves_def kept_def simp del: set_map)
  ultimately show ?thesis unfolding SetChannelTopic_def by (intro sound_statement) (simp add: sound_def)
qed

lemma evolves_insert:
  "evolves d (d\<lparr>nextMessage := n\<rparr>)" "evolves d (d\<lparr>nextMessage := n, messages := messages d @ ms\<rparr>)"
  by (auto simp: evolves_def same_channel_def kept_def)

lemma chat_ok_insert:
  assumes "chat_ok u d" "list_ex (\<lambda>c. chID c = mChannel m) (channels d)" "user_exists d (mUser m)"
    and "mID m = nextMessage d" "\<forall>p. mParent m = Some p \<longrightarrow> p = mID m \<or> list_ex (\<lambda>x. mID x = p) (messages d)"
  shows "chat_ok u (d\<lparr>nextMessage := nextMessage d + 1, messages := messages d @ [m]\<rparr>)"
proof -
  have "mID m \<notin> mID ` set (messages d)" using assms(1,4) by (auto simp: chat_ok_def)
  moreover have "mChannel m \<in> chID ` set (channels d)" "mUser m \<in> uID ` set (accounts d)"
    using assms(2,3) by (auto simp: list_ex_iff user_exists_def intro: rev_image_eqI)
  moreover have "\<forall>p. mParent m = Some p \<longrightarrow> p \<in> mID ` set (messages d @ [m])" using assms(5) by (auto simp: list_ex_iff)
  ultimately show ?thesis using assms(1,4) by (fastforce simp: chat_ok_def)
qed

lemma sound_insert [statement_sound]: "sound u db (snd (InsertChatMessage ch usr body now parent db))"
  unfolding InsertChatMessage_def Let_def
proof (rule sound_statement, goal_cases)
  case (1 d)
  have n: "sound u d (d\<lparr>nextMessage := nextMessage d + 1\<rparr>)"
    using evolves_insert by (force simp: sound_def chat_ok_def)
  show ?case
    using evolves_insert by (auto simp: n) (auto simp: sound_def intro!: chat_ok_insert split: option.splits)
qed

lemma sound_members [statement_sound]:
  "sound u db (snd (JoinChannelMembership ch usr db))" "sound u db (snd (LeaveChannelMembership ch usr db))"
  unfolding JoinChannelMembership_def LeaveChannelMembership_def
  by (rule sound_statement; fastforce simp: sound_def evolves_def chat_ok_def same_channel_def kept_def list_ex_iff
      user_exists_def distinct_removeAll)+

lemma sound_reactions [statement_sound]:
  "sound u db (snd (AddReaction i usr e db))" "sound u db (snd (RemoveReaction i usr e db))"
  unfolding AddReaction_def RemoveReaction_def
  by (rule sound_statement; fastforce simp: sound_def evolves_def chat_ok_def same_channel_def kept_def list_ex_iff
      user_exists_def distinct_removeAll)+

lemma sound_mark [statement_sound]: "sound u db (snd (UpsertChannelRead usr ch latest db))"
  unfolding UpsertChannelRead_def
  by (rule sound_statement) (auto simp: sound_def evolves_def chat_ok_def same_channel_def kept_def split: option.splits)


section \<open>The operations are sound\<close>

lemma sound_sql_err: "sound u db (snd q) \<Longrightarrow> sound u db (snd (sql_err q))"
  by (cases q) (simp add: sql_err_def)

lemmas op_sound_intros = chat_store.bind_leads statement_sound sound_sql_err

lemma sound_members_ops:
  "sound u db (snd (EnsureMembership ch usr db))" "sound u db (snd (LeaveMembership ch usr db))"
  unfolding EnsureMembership_def LeaveMembership_def by (intro op_sound_intros)+

lemma sound_resolve: "sound u db (snd (ResolvePublicChannel u name usr now db))"
  unfolding ResolvePublicChannel_def by (intro op_sound_intros) (auto intro!: op_sound_intros split: query.split)

lemma sound_dm: "sound u db (snd (ResolveDM u ef au h now db))"
  unfolding ResolveDM_def Let_def
  by (auto intro!: op_sound_intros sound_members_ops split: query.split option.split)

lemma sound_send: "sound u db (snd (SendReply ch au body parent now db))"
  unfolding SendReply_def by (auto intro!: op_sound_intros split: query.split)

lemma sound_edit: "sound u db (snd (EditLastOwnInChannel ch au body now db))"
  unfolding EditLastOwnInChannel_def by (auto intro!: op_sound_intros split: query.split)

lemma sound_delete: "sound u db (snd (DeleteMessage i au now db))"
  unfolding DeleteMessage_def by (auto intro!: op_sound_intros split: query.split)

lemma sound_pin: "sound u db (snd (SetPinned i pin au db))"
  unfolding SetPinned_def by (auto intro!: op_sound_intros split: query.splits)

lemma sound_react: "sound u db (snd (React ch i au e now db))" "sound u db (snd (Unreact ch i au e now db))"
  unfolding React_def Unreact_def by (auto intro!: op_sound_intros split: query.split)

lemma sound_set_topic: "sound u db (snd (SetTopic ch topic au db))"
  unfolding SetTopic_def Let_def by (auto intro!: op_sound_intros split: query.split)

lemma sound_apply: "sound u db (chat_apply u ef op db)"
  by (cases op) (simp_all add: sound_resolve sound_dm sound_members_ops sound_send sound_edit sound_delete sound_pin
      sound_react sound_set_topic PublishTyping_def TouchChannelRead_def sound_sql_err statement_sound)

lemma sound_run: "sound u db (chat_run u ef ops db)"
  unfolding chat_run_def by (rule chat_store.fold_leads) (rule sound_apply)

text \<open>
  C15: Whatever sequence of operations runs, with database and bus failing anywhere, the tables stay
  sound: ids are unique, channel names unique up to case, every message has its channel, author and
  parent, members and reactions are unique and point at what exists; no message is lost, none
  changes its channel, author or time, a deleted one never changes again; channels keep their name
  and privacy; read marks never go back; and what was published stays published.
\<close>

theorem chat_stays_sound:
  assumes "chat_ok u db"
  shows "chat_ok u (chat_run u ef ops db) \<and> evolves db (chat_run u ef ops db)"
  using assms sound_run by (auto simp: sound_def)


section \<open>Who changes a message\<close>

named_theorems same_messages \<open>the steps that leave the messages alone\<close>

lemma messages_statement: "(\<And>d. messages (snd (f d)) = messages d) \<Longrightarrow> messages (snd (statement f db)) = messages db"
  by (simp add: statement_def)

lemma messages_publish [same_messages]: "messages (snd (publish_err topic ev db)) = messages db"
  by (simp add: publish_err_def Publish_def)

lemma messages_others [same_messages]:
  "messages (snd (CreateChannel u name priv creator now db)) = messages db"
  "messages (snd (JoinChannelMembership ch usr db)) = messages db"
  "messages (snd (LeaveChannelMembership ch usr db)) = messages db"
  "messages (snd (SetChannelTopic i topic db)) = messages db"
  "messages (snd (AddReaction i usr e db)) = messages db"
  "messages (snd (RemoveReaction i usr e db)) = messages db"
  "messages (snd (UpsertChannelRead usr ch latest db)) = messages db"
  unfolding CreateChannel_def JoinChannelMembership_def LeaveChannelMembership_def SetChannelTopic_def AddReaction_def
    RemoveReaction_def UpsertChannelRead_def Let_def
  by (rule messages_statement; simp)+

lemma messages_lookups [same_messages]:
  "messages (snd (GetChannelByName u name db)) = messages db" "messages (snd (GetChannelByID i db)) = messages db"
  "messages (snd (GetUser u h db)) = messages db" "messages (snd (GetChatMessageByID i db)) = messages db"
  "messages (snd (GetLastOwnMessageInChannel ch usr db)) = messages db"
  by simp_all

lemma messages_bind:
  assumes "messages (snd q) = messages db" "\<And>x d. q = (x, d) \<Longrightarrow> messages (snd (g x d)) = messages d"
  shows "messages (snd (case q of (x, d) \<Rightarrow> g x d)) = messages db"
  using assms by (cases q) simp

lemma messages_sql_err: "messages (snd q) = messages db \<Longrightarrow> messages (snd (sql_err q)) = messages db"
  by (cases q) (simp add: sql_err_def)

lemmas op_same_intros = messages_bind same_messages messages_sql_err

lemma messages_members_ops:
  "messages (snd (EnsureMembership ch usr db)) = messages db" "messages (snd (LeaveMembership ch usr db)) = messages db"
  unfolding EnsureMembership_def LeaveMembership_def by (intro op_same_intros)+

lemma messages_ops:
  "messages (snd (ResolvePublicChannel u name usr now db)) = messages db"
  "messages (snd (ResolveDM u ef au h now db)) = messages db"
  "messages (snd (React ch i au e now db)) = messages db"
  "messages (snd (Unreact ch i au e now db)) = messages db"
  "messages (snd (SetTopic ch topic au db)) = messages db"
  unfolding ResolvePublicChannel_def ResolveDM_def React_def Unreact_def SetTopic_def Let_def
  by (auto intro!: op_same_intros messages_members_ops split: query.split option.split)

text \<open>What one operation did to the messages: nothing, one more, or one row changed.\<close>

lemma send_messages:
  "messages (snd (SendReply ch au body parent now db)) = messages db
   \<or> (\<exists>m. messages (snd (SendReply ch au body parent now db)) = messages db @ [m] \<and> mID m = nextMessage db)"
  by (auto simp: SendReply_def InsertChatMessage_def statement_def publish_err_def Publish_def Let_def
      split: query.splits prod.splits option.splits if_splits)

lemma update_own_messages:
  "messages (snd (UpdateChatMessage i usr body now db)) = messages db
   \<or> messages (snd (UpdateChatMessage i usr body now db)) =
        map (\<lambda>m. if mID m = i \<and> mUser m = usr \<and> mDeleted m = None then m\<lparr>mBody := body, mEdited := Some now\<rparr> else m)
          (messages db)"
  by (simp add: UpdateChatMessage_def statement_def update_messages_def Let_def)

lemma edit_messages:
  "messages (snd (EditLastOwnInChannel ch au body now db)) = messages db
   \<or> (\<exists>i. messages (snd (EditLastOwnInChannel ch au body now db)) =
        map (\<lambda>m. if mID m = i \<and> mUser m = aUser au \<and> mDeleted m = None then m\<lparr>mBody := body, mEdited := Some now\<rparr> else m)
          (messages db))"
proof (cases "GetLastOwnMessageInChannel ch (aUser au) db")
  case (Pair q d)
  then have d: "messages d = messages db" by (metis messages_lookups(5) snd_conv)
  show ?thesis
  proof (cases q)
    case (Row l)
    obtain q2 d2 where U: "UpdateChatMessage (mID l) (aUser au) body now d = (q2, d2)" by fastforce
    have "messages (snd (EditLastOwnInChannel ch au body now db)) = messages d2"
      unfolding EditLastOwnInChannel_def Pair Row
      by (cases q2) (simp_all add: U publish_err_def Publish_def split: prod.split)
    with update_own_messages [of "mID l" "aUser au" body now d] show ?thesis
      unfolding U d snd_conv by metis
  qed (simp_all add: EditLastOwnInChannel_def Pair d)
qed

lemma find_id:
  assumes "find (\<lambda>m. mID m = i) (messages db) = Some m" "distinct (map mID (messages db))"
    and "m' \<in> set (messages db)" "mID m' = i"
  shows "m' = m"
  using assms by (metis (mono_tags) find_Some_iff nth_mem distinct_map inj_onD)

definition marks_deleted :: "int \<Rightarrow> int \<Rightarrow> chat_msg list \<Rightarrow> chat_msg list \<Rightarrow> bool" where
  "marks_deleted i now ms ms' \<longleftrightarrow>
     (\<exists>p. ms' = map (\<lambda>m. if mID m = i \<and> p m then m\<lparr>mDeleted := Some now\<rparr> else m) ms)"

lemma marks_deleted_refl: "marks_deleted i now ms ms"
  unfolding marks_deleted_def by (rule exI [of _ "\<lambda>m. False"]) simp

lemma marks_deleted_statements:
  "marks_deleted i now (messages db) (messages (snd (SoftDeleteChatMessage i usr now db)))"
  "marks_deleted i now (messages db) (messages (snd (SoftDeleteChatMessageAsSysop i now db)))"
proof -
  have "marks_deleted i now ms (map (\<lambda>m. if mID m = i \<and> p m then m\<lparr>mDeleted := Some now\<rparr> else m) ms)" for p ms
    unfolding marks_deleted_def by (rule exI) (rule refl)
  from this [of "messages db" "\<lambda>m. mUser m = usr \<and> mDeleted m = None"] this [of "messages db" "\<lambda>m. mDeleted m = None"]
  show "marks_deleted i now (messages db) (messages (snd (SoftDeleteChatMessage i usr now db)))"
    "marks_deleted i now (messages db) (messages (snd (SoftDeleteChatMessageAsSysop i now db)))"
    by (simp_all add: SoftDeleteChatMessage_def SoftDeleteChatMessageAsSysop_def statement_def update_messages_def
        marks_deleted_refl)
qed

lemma delete_messages:
  "messages (snd (DeleteMessage i au now db)) = messages db
   \<or> (\<exists>m. find (\<lambda>m. mID m = i) (messages db) = Some m \<and> (mUser m = aUser au \<or> aSysop au)
        \<and> marks_deleted i now (messages db) (messages (snd (DeleteMessage i au now db))))"
proof (cases "GetChatMessageByID i db")
  case (Pair q d)
  then have d: "messages d = messages db" by (metis messages_lookups(4) snd_conv)
  show ?thesis
  proof (cases q)
    case (Row m)
    with Pair have m: "find (\<lambda>m. mID m = i) (messages db) = Some m"
      by (auto simp: GetChatMessageByID_def reading_def statement_def split: if_splits option.splits)
    define res where "res = (if aSysop au \<and> mUser m \<noteq> aUser au then SoftDeleteChatMessageAsSysop i now d
        else SoftDeleteChatMessage i (aUser au) now d)"
    obtain q2 d2 where r: "res = (q2, d2)" by fastforce
    have k: "marks_deleted i now (messages db) (messages d2)"
      using marks_deleted_statements [of i now d] r d unfolding res_def by (metis snd_conv)
    show ?thesis
    proof (cases "mDeleted m \<noteq> None \<or> mUser m \<noteq> aUser au \<and> \<not> aSysop au")
      case True
      then show ?thesis unfolding DeleteMessage_def Pair Row using d by auto
    next
      case False
      then have "messages (snd (DeleteMessage i au now db)) = messages d2"
        unfolding DeleteMessage_def Pair Row
        by (cases q2) (auto simp: r [unfolded res_def] publish_err_def Publish_def split: prod.split)
      with k m False show ?thesis by auto
    qed
  qed (simp_all add: DeleteMessage_def Pair d)
qed

lemma pin_messages:
  "messages (snd (SetPinned i pin au db)) = messages db
   \<or> messages (snd (SetPinned i pin au db)) =
        map (\<lambda>m. if mID m = i \<and> mDeleted m = None then m\<lparr>mPinned := pin\<rparr> else m) (messages db)"
  by (auto simp: SetPinned_def GetChatMessageByID_def reading_def SetChatMessagePinned_def
      statement_def publish_err_def Publish_def update_messages_def
      split: query.splits prod.splits option.splits if_splits)


lemma same_row:
  assumes "distinct (map mID ms)" "m \<in> set ms" "m' \<in> set ms" "mID m' = mID m"
  shows "m' = m"
  using assms by (metis distinct_map inj_onD)

lemma mapped_row:
  assumes "distinct (map mID ms)" "m \<in> set ms" "m' \<in> set (map f ms)" "mID m' = mID m" "\<And>x. mID (f x) = mID x"
  shows "m' = f m"
  using assms same_row by fastforce

text \<open>
  C16: A message's body is changed only by its author's edit, it is deleted only by
  its author or a sysop, it is pinned or unpinned only by the operation that says so; no operation
  of anybody else touches it.
\<close>

theorem message_changes_authorised:
  assumes "chat_ok u db" and "m \<in> set (messages db)"
    and "m' \<in> set (messages (chat_apply u ef op db))" and "mID m' = mID m"
  shows "(mBody m' \<noteq> mBody m \<or> mEdited m' \<noteq> mEdited m \<longrightarrow>
            (\<exists>ch au body now. op = OpEdit ch au body now \<and> aUser au = mUser m \<and> mDeleted m = None))
    \<and> (mDeleted m' \<noteq> mDeleted m \<longrightarrow> (\<exists>au now. op = OpDelete (mID m) au now \<and> (aUser au = mUser m \<or> aSysop au)))
    \<and> (mPinned m' \<noteq> mPinned m \<longrightarrow> (\<exists>au. op = OpPin (mID m) (mPinned m') au))"
proof -
  have d: "distinct (map mID (messages db))" and fresh: "mID m < nextMessage db"
    using assms(1,2) by (auto simp: chat_ok_def)
  have same: ?thesis if "messages (chat_apply u ef op db) = messages db"
  proof -
    have "m' = m" using same_row [OF d assms(2)] assms(3,4) that by simp
    then show ?thesis by simp
  qed
  show ?thesis
  proof (cases op)
    case (OpSend ch au body parent now)
    with send_messages [of ch au body parent now db] consider "messages (chat_apply u ef op db) = messages db"
      | x where "messages (chat_apply u ef op db) = messages db @ [x]" "mID x = nextMessage db" by auto
    then show ?thesis
    proof cases
      case 2
      with assms(3,4) fresh have "m' \<in> set (messages db)" by auto
      with same_row [OF d assms(2)] assms(4) have "m' = m" by simp
      then show ?thesis by simp
    qed (rule same)
  next
    case (OpEdit ch au body now)
    with edit_messages [of ch au body now db] consider "messages (chat_apply u ef op db) = messages db"
      | i where "messages (chat_apply u ef op db) =
          map (\<lambda>m. if mID m = i \<and> mUser m = aUser au \<and> mDeleted m = None then m\<lparr>mBody := body, mEdited := Some now\<rparr> else m)
            (messages db)" by force
    then show ?thesis
    proof cases
      case 2
      with mapped_row [OF d assms(2) assms(3) [unfolded 2] assms(4)] OpEdit show ?thesis by auto
    qed (rule same)
  next
    case (OpDelete i au now)
    with delete_messages [of i au now db] consider "messages (chat_apply u ef op db) = messages db"
      | x where "find (\<lambda>m. mID m = i) (messages db) = Some x" "mUser x = aUser au \<or> aSysop au"
        "marks_deleted i now (messages db) (messages (chat_apply u ef op db))" by auto
    then show ?thesis
    proof cases
      case 2
      then obtain p where p: "messages (chat_apply u ef op db) =
          map (\<lambda>m. if mID m = i \<and> p m then m\<lparr>mDeleted := Some now\<rparr> else m) (messages db)"
        by (auto simp: marks_deleted_def)
      have "mID m = i \<Longrightarrow> m = x" using find_id [OF 2(1) d assms(2)] by simp
      with mapped_row [OF d assms(2) assms(3) [unfolded p] assms(4)] 2(2) OpDelete show ?thesis by auto
    qed (rule same)
  next
    case (OpPin i pin au)
    with pin_messages [of i pin au db] consider "messages (chat_apply u ef op db) = messages db"
      | "messages (chat_apply u ef op db) =
          map (\<lambda>m. if mID m = i \<and> mDeleted m = None then m\<lparr>mPinned := pin\<rparr> else m) (messages db)" by auto
    then show ?thesis
    proof cases
      case 2
      with mapped_row [OF d assms(2) assms(3) [unfolded 2] assms(4)] OpPin show ?thesis by auto
    qed (rule same)
  qed (rule same, simp add: messages_ops messages_members_ops PublishTyping_def TouchChannelRead_def messages_sql_err
      same_messages)+
qed

end
