(* ===== verification/ChatCommands.thy ===== *)
theory ChatCommands
  imports GoConv
begin

text \<open>
  The chat's slash commands (\<^verbatim>\<open>src/internal/tui/chat/commands.go\<close>): a typed line is parsed into a
  command, and a command is mapped to the action the chat screen carries out.  Go's strings are
  byte strings; the argument \<open>u\<close> is what \<open>strings.ToLower\<close> does outside ASCII.
\<close>

record Command =
  Name :: string
  Args :: string

text \<open>The text before and after the first space; \<open>None\<close> when there is none.\<close>

definition cut_space :: "string \<Rightarrow> (string \<times> string) option" where
  "cut_space s =
     (let w = takeWhile (\<lambda>c. c \<noteq> CHR '' '') s
      in if length w < length s then Some (w, drop (Suc (length w)) s) else None)"

definition Parse :: "(string \<Rightarrow> string) \<Rightarrow> string \<Rightarrow> Command option" where
  "Parse u line =
     (let trimmed = TrimSpace line in
      if \<not> HasPrefix trimmed ''/'' \<or> length trimmed < 2 then None
      else let body = drop 1 trimmed in
        case cut_space body of
          Some (w, rest) \<Rightarrow> Some \<lparr>Name = ToLower u w, Args = TrimSpace rest\<rparr>
        | None \<Rightarrow> Some \<lparr>Name = ToLower u body, Args = []\<rparr>)"

datatype dest = DestLogout | DestLobby

datatype Action =
    Send string
  | Switch string bool
  | Leave
  | Navigate dest
  | Notice string
  | Unknown string
  | EditLast string
  | OpenDM string
  | Who
  | Reply string
  | React string
  | Unreact string
  | Thread int
  | DeleteLast
  | Pin
  | Unpin
  | ListPins
  | Topic string
  | Search string
  | Finger string

definition MeMarker :: string where
  "MeMarker = ''/me ''"

definition normalizeHandle :: "string \<Rightarrow> string" where
  "normalizeHandle s =
     (let h = TrimPrefix (TrimSpace s) ''@''
      in case cut_space h of Some (w, rest) \<Rightarrow> w | None \<Rightarrow> h)"

definition normalizeChannelName :: "(string \<Rightarrow> string) \<Rightarrow> string \<Rightarrow> string" where
  "normalizeChannelName u s = ToLower u (TrimPrefix (TrimSpace s) ''#'')"

definition helpText :: string where
  "helpText = join [CHR 0x0A]
    [''commands:'',
     ''  /help              show this list'',
     ''  /join #name        join (create if needed) and switch to a channel'',
     ''  /leave             leave the current channel; falls back to #lobby'',
     ''  /switch #name      switch to a channel without joining'',
     ''  /edit <body>       rewrite your most recent message in this channel'',
     ''  /del               delete your most recent message in this channel'',
     ''  /dm @handle        open a direct message channel with another user'',
     ''  /me <action>       send an italic action line (e.g., \"/me waves\")'',
     ''  /reply <body>      thread under your most-recent message in this channel'',
     ''  /thread <id>       pin the log to one message and its replies (/thread off to clear)'',
     ''  /react <emoji>     add a reaction to the latest message in this channel'',
     ''  /unreact <emoji>   remove your reaction from the latest message'',
     ''  /pin               pin the latest message in this channel'',
     ''  /unpin             unpin the latest message in this channel'',
     ''  /pins              list pinned messages in this channel'',
     ''  /topic <text>      set this channel's topic (omit text to clear)'',
     ''  /search <term>     search this channel's history'',
     ''  /finger @handle    show a user's profile card'',
     ''  /who               list currently-online users'',
     ''  /lobby             return to the lobby screen'',
     ''  /quit              log out of the BBS'',
     '''',
     ''press Esc to return to the lobby; PgUp/PgDn to scroll history.'']"

definition thread_action :: "string \<Rightarrow> Action" where
  "thread_action args =
     (let arg = TrimSpace args in
      if arg \<in> set [[], ''0'', ''off'', ''clear''] then Thread 0
      else case ParseInt arg of
          Some n \<Rightarrow> if n \<le> 0 then Notice ''usage: /thread <message-id>  (or /thread off to clear)'' else Thread n
        | None \<Rightarrow> Notice ''usage: /thread <message-id>  (or /thread off to clear)'')"

definition Dispatch :: "(string \<Rightarrow> string) \<Rightarrow> Command \<Rightarrow> Action" where
  "Dispatch u c =
     (if Name c \<in> set [''help'', ''?''] then Notice helpText
      else if Name c \<in> set [''quit'', ''logout'', ''exit''] then Navigate DestLogout
      else if Name c = ''lobby'' then Navigate DestLobby
      else if Name c = ''join'' then
        (let name = normalizeChannelName u (Args c)
         in if name = [] then Notice ''usage: /join #channel-name'' else Switch name True)
      else if Name c \<in> set [''switch'', ''go''] then
        (let name = normalizeChannelName u (Args c)
         in if name = [] then Notice ''usage: /switch #channel-name'' else Switch name False)
      else if Name c \<in> set [''leave'', ''part''] then Leave
      else if Name c = ''edit'' then
        (if Args c = [] then Notice ''usage: /edit <new message body>'' else EditLast (Args c))
      else if Name c \<in> set [''dm'', ''msg''] then
        (let h = normalizeHandle (Args c) in if h = [] then Notice ''usage: /dm @handle'' else OpenDM h)
      else if Name c = ''me'' then
        (if Args c = [] then Notice ''usage: /me <action>'' else Send (MeMarker @ Args c))
      else if Name c \<in> set [''who'', ''users''] then Who
      else if Name c \<in> set [''reply'', ''r''] then
        (if Args c = [] then Notice ''usage: /reply <message body>'' else Reply (Args c))
      else if Name c \<in> set [''react'', ''+''] then
        (let e = TrimSpace (Args c) in if e = [] then Notice ''usage: /react <emoji>'' else React e)
      else if Name c \<in> set [''unreact'', ''-''] then
        (let e = TrimSpace (Args c) in if e = [] then Notice ''usage: /unreact <emoji>'' else Unreact e)
      else if Name c \<in> set [''thread'', ''t''] then thread_action (Args c)
      else if Name c \<in> set [''del'', ''delete''] then DeleteLast
      else if Name c = ''pin'' then Pin
      else if Name c = ''unpin'' then Unpin
      else if Name c = ''pins'' then ListPins
      else if Name c = ''topic'' then Topic (TrimSpace (Args c))
      else if Name c \<in> set [''search'', ''find''] then
        (let t = TrimSpace (Args c) in if t = [] then Notice ''usage: /search <term>'' else Search t)
      else if Name c = ''finger'' then
        (let h = normalizeHandle (Args c) in if h = [] then Notice ''usage: /finger @handle'' else Finger h)
      else Unknown (Name c))"

end
