(* ===== verification/ChatPrivacy.thy ===== *)
theory ChatPrivacy
  imports ChatSafety ChatCommands "HOL-Library.Sublist"
begin

text \<open>
  Who can read what: the terminal's way into a channel (\<^verbatim>\<open>src/internal/tui/screens/chat.go\<close>,
  \<open>joinChannel\<close>) and the web's (\<^verbatim>\<open>src/internal/web/handlers_chat.go\<close>, \<open>chatJoin\<close> and
  \<open>loadChannelForUser\<close>), direct message channels, search and unread counts.  Opening the event
  subscription is an argument; badges and pictures are not modelled.
\<close>

section \<open>Joining\<close>

record joined =
  jChannels :: "channel list"
  jActive :: "int \<times> string \<times> string option"
  jHistory :: "Message list"
  jReactions :: "int \<times> string \<Rightarrow> int option"

definition joinChannel ::
  "(string \<Rightarrow> string) \<Rightarrow> bool \<Rightarrow> string \<Rightarrow> int \<Rightarrow> int \<Rightarrow> chat_db \<Rightarrow> joined option \<times> chat_db" where
  "joinChannel u subscribed name usr now db =
     (case ResolvePublicChannel u name usr now db of
        ((Some c, None), db1) \<Rightarrow>
          (case EnsureMembership (chID c) usr db1 of
             (Some e, db2) \<Rightarrow> (None, db2)
           | (None, db2) \<Rightarrow>
               (case JoinedChannels u usr db2 of
                  ((Some cs, None), db3) \<Rightarrow>
                    if \<not> subscribed then (None, db3)
                    else (case RecentMessages (chID c) 100 db3 of
                        ((Some ms, None), db4) \<Rightarrow>
                          (case ReactionsForChannel (chID c) db4 of
                             ((Some rs, None), db5) \<Rightarrow>
                               (Some \<lparr>jChannels = cs, jActive = (chID c, chName c, chTopic c), jHistory = ms,
                                  jReactions = rs\<rparr>, db5)
                           | (_, db5) \<Rightarrow> (None, db5))
                      | (_, db4) \<Rightarrow> (None, db4))
                | (_, db3) \<Rightarrow> (None, db3)))
      | (_, db1) \<Rightarrow> (None, db1))"

datatype web_reply = BadName | InternalError | GoTo int

definition chatChannelNameMax :: nat where
  "chatChannelNameMax = 64"

definition chatJoin ::
  "(string \<Rightarrow> string) \<Rightarrow> string \<Rightarrow> int \<Rightarrow> int \<Rightarrow> chat_db \<Rightarrow> web_reply \<times> chat_db" where
  "chatJoin u raw usr now db =
     (let name = TrimPrefix (ToLower u (TrimSpace raw)) ''#'' in
      if name = [] \<or> chatChannelNameMax < length name \<or> HasPrefix name ''dm-'' then (BadName, db)
      else case ResolvePublicChannel u name usr now db of
        ((Some c, None), db1) \<Rightarrow>
          (case EnsureMembership (chID c) usr db1 of
             (Some e, db2) \<Rightarrow> (InternalError, db2) | (None, db2) \<Rightarrow> (GoTo (chID c), db2))
      | (_, db1) \<Rightarrow> (BadName, db1))"

definition isMember :: "(string \<Rightarrow> string) \<Rightarrow> int \<Rightarrow> int \<Rightarrow> chat_db \<Rightarrow> bool \<times> chat_db" where
  "isMember u usr ch db =
     (case JoinedChannels u usr db of
        ((Some cs, None), db1) \<Rightarrow> (list_ex (\<lambda>c. chID c = ch) cs, db1) | (_, db1) \<Rightarrow> (False, db1))"

definition loadChannelForUser :: "(string \<Rightarrow> string) \<Rightarrow> int \<Rightarrow> int \<Rightarrow> chat_db \<Rightarrow> channel option \<times> chat_db" where
  "loadChannelForUser u ch usr db =
     (case GetChannelByID ch db of
        (Row c, db1) \<Rightarrow>
          if chPrivate c then (case isMember u usr (chID c) db1 of (b, db2) \<Rightarrow> (if b then Some c else None, db2))
          else (Some c, db1)
      | (_, db1) \<Rightarrow> (None, db1))"

definition dmPartner :: "(string \<Rightarrow> string) \<Rightarrow> string \<Rightarrow> string \<Rightarrow> string" where
  "dmPartner u name selfHandle =
     (let rest = TrimPrefix name ''dm-''; self = ToLower u selfHandle in
      if HasPrefix rest (self @ ''-'') then drop (length self + 1) rest
      else if HasSuffix rest (''-'' @ self) then take (length rest - length self - 1) rest
      else rest)"

section \<open>Without faults\<close>

definition healthy :: "chat_db \<Rightarrow> bool" where
  "healthy db \<longleftrightarrow> (\<forall>n. \<not> fails db n)"

lemma healthy_tick [simp]: "healthy (tick db) = healthy db"
  by (simp add: healthy_def)

lemma healthy_statement: "healthy db \<Longrightarrow> statement f db = f (tick db)"
  by (simp add: healthy_def statement_def)

lemma healthy_reading: "healthy db \<Longrightarrow> reading f db = (f (tick db), tick db)"
  by (simp add: reading_def healthy_statement)

definition named :: "(string \<Rightarrow> string) \<Rightarrow> string \<Rightarrow> chat_db \<Rightarrow> channel option" where
  "named u name db = find (\<lambda>c. ToLower u (chName c) = ToLower u name) (channels db)"

lemma named_in: "named u name db = Some c \<Longrightarrow> c \<in> set (channels db)"
  unfolding named_def by (metis find_Some_iff nth_mem)

lemma lookup_named: "healthy db \<Longrightarrow>
    GetChannelByName u name db = (case named u name db of None \<Rightarrow> NoRows | Some c \<Rightarrow> Row c, tick db)"
  by (simp add: GetChannelByName_def healthy_reading named_def)

definition joining :: "int \<Rightarrow> int \<Rightarrow> chat_db \<Rightarrow> chat_db" where
  "joining ch usr db =
     (if (ch, usr) \<in> set (members db) then tick db else (tick db)\<lparr>members := members db @ [(ch, usr)]\<rparr>)"

lemma joining_simps [simp]:
  "messages (joining ch usr db) = messages db" "channels (joining ch usr db) = channels db"
  "accounts (joining ch usr db) = accounts db" "reactions (joining ch usr db) = reactions db"
  "set (members (joining ch usr db)) = insert (ch, usr) (set (members db))"
  "healthy (joining ch usr db) = healthy db" "marks (joining ch usr db) = marks db"
  by (auto simp: joining_def healthy_def)

lemma ensure_joining:
  assumes "healthy db" "c \<in> set (channels db)" "user_exists db usr"
  shows "EnsureMembership (chID c) usr db = (None, joining (chID c) usr db)"
  using assms
  by (auto simp: EnsureMembership_def sql_err_def JoinChannelMembership_def healthy_statement joining_def list_ex_iff
      user_exists_def)

lemma live_in_cong: "messages db' = messages db \<Longrightarrow> live_in ch db' = live_in ch db"
  by (simp add: live_in_def)

lemma live_in_tick [simp]: "live_in ch (tick db) = live_in ch db"
  by (rule live_in_cong) simp

lemma authored_cong: "accounts db' = accounts db \<Longrightarrow> authored db' = authored db"
proof -
  assume "accounts db' = accounts db"
  then have e: "with_author db' = with_author db" by (simp add: with_author_def fun_eq_iff)
  show ?thesis by (rule ext) (simp only: authored_def e)
qed

lemma authored_tick [simp]: "authored (tick db) = authored db"
  by (rule authored_cong) simp

definition history :: "int \<Rightarrow> chat_db \<Rightarrow> Message list" where
  "history ch db = rev (take 100 (authored db (newest (live_in ch db))))"

lemma recent_history: "healthy db \<Longrightarrow> RecentMessages ch 100 db = ((Some (history ch db), None), tick db)"
  by (simp add: RecentMessages_def RecentMessagesForChannel_def healthy_reading rows_or_err_def history_def)

lemma history_cong: "messages db' = messages db \<Longrightarrow> accounts db' = accounts db \<Longrightarrow> history ch db' = history ch db"
  by (simp add: history_def live_in_cong [of db'] authored_cong [of db'])

text \<open>
  C18: On a healthy database, \<open>/join\<close> in the terminal opens whatever channel has the name, private or
  not: anyone who types the name of another pair's direct message channel becomes a member of it and
  reads its last hundred messages.  The web form refuses every such name.
\<close>

theorem join_opens_private_channel:
  assumes "healthy db" and "user_exists db usr" and "named u name db = Some c"
    and "Parse u line = Some cmd" and "Dispatch u cmd = Switch name True"
  shows "(\<exists>j db'. joinChannel u True name usr now db = (Some j, db') \<and> jActive j = (chID c, chName c, chTopic c)
        \<and> jHistory j = history (chID c) db \<and> (chID c, usr) \<in> set (members db'))
    \<and> (\<forall>raw. HasPrefix (TrimPrefix (ToLower u (TrimSpace raw)) ''#'') ''dm-'' \<longrightarrow>
          chatJoin u raw usr now db = (BadName, db))"
proof -
  let ?d = "joining (chID c) usr (tick db)"
  have c: "c \<in> set (channels (tick db))" using named_in [OF assms(3)] by simp
  have "ResolvePublicChannel u name usr now db = ((Some c, None), tick db)"
    using assms(3) by (simp add: ResolvePublicChannel_def lookup_named [OF assms(1)])
  moreover have "EnsureMembership (chID c) usr (tick db) = (None, ?d)"
    using ensure_joining [OF _ c] assms(1,2) by (simp add: user_exists_def)
  moreover have h: "healthy ?d" using assms(1) by simp
  then obtain cs where "JoinedChannels u usr ?d = ((Some cs, None), tick ?d)"
    by (simp add: JoinedChannels_def ListChannelsForUser_def healthy_reading rows_or_err_def Let_def)
  moreover have "RecentMessages (chID c) 100 (tick ?d) = ((Some (history (chID c) db), None), tick (tick ?d))"
    using recent_history [of "tick ?d"] h history_cong [of "tick ?d" db] by simp
  moreover obtain rs where "ReactionsForChannel (chID c) (tick (tick ?d)) = ((Some rs, None), tick (tick (tick ?d)))"
    using h by (simp add: ReactionsForChannel_def ReactionsFor_def healthy_reading rows_or_err_def Let_def)
  ultimately have "\<exists>j db'. joinChannel u True name usr now db = (Some j, db') \<and> jActive j = (chID c, chName c, chTopic c)
      \<and> jHistory j = history (chID c) db \<and> (chID c, usr) \<in> set (members db')"
    by (simp add: joinChannel_def)
  then show ?thesis by (simp add: chatJoin_def Let_def)
qed


text \<open>
  C17: The web lets a user into a private channel only as a member of it, also when the database fails,
  and changes nothing while it decides.
\<close>

theorem web_gate_private_channels:
  assumes "loadChannelForUser u ch usr db = (Some c, db')"
  shows "c \<in> set (channels db) \<and> chID c = ch \<and> (chPrivate c \<longrightarrow> (ch, usr) \<in> set (members db))
    \<and> members db' = members db \<and> messages db' = messages db \<and> channels db' = channels db"
proof -
  obtain d where g: "GetChannelByID ch db = (Row c, d)" "d = tick db"
    and m: "if chPrivate c then isMember u usr (chID c) d = (True, db') else db' = d"
    using assms
    by (auto simp: loadChannelForUser_def GetChannelByID_def reading_def statement_def
        split: query.splits option.splits if_splits prod.splits)
  then have c: "c \<in> set (channels db)" "chID c = ch"
    by (auto simp: GetChannelByID_def reading_def statement_def find_Some_iff split: option.splits if_splits)
  have "\<exists>c' \<in> set (filter (\<lambda>c. (chID c, usr) \<in> set (members db)) (channels db)). chID c' = chID c" "db' = tick d"
    if "isMember u usr (chID c) d = (True, db')"
    using that g(2)
    by (auto simp: isMember_def JoinedChannels_def ListChannelsForUser_def rows_or_err_def reading_def statement_def
        list_ex_iff Let_def split: if_splits)
  with m c g(2) show ?thesis by (auto split: if_splits)
qed

section \<open>Direct messages\<close>

lemma codes_inject: "map code s = map code t \<longleftrightarrow> s = t"
  by (rule inj_map_eq_map) (simp add: inj_def)

lemma codes_order:
  assumes "\<not> map code a > map code b" "\<not> map code b > map code a"
  shows "a = b"
proof -
  have "map code a = map code b" using assms by (meson not_less_iff_gr_or_eq)
  then show ?thesis by (simp only: codes_inject)
qed

lemma DMChannelName_sym: "DMChannelName u a b = DMChannelName u b a"
proof (cases "ToLower u a = ToLower u b")
  case False
  then consider "map code (ToLower u a) > map code (ToLower u b)" "\<not> map code (ToLower u b) > map code (ToLower u a)"
    | "\<not> map code (ToLower u a) > map code (ToLower u b)" "map code (ToLower u b) > map code (ToLower u a)"
    by (meson codes_order order.asym)
  then show ?thesis by cases (simp_all add: DMChannelName_def)
qed (simp add: DMChannelName_def)

lemma DMChannelName_cases:
  "(DMChannelName u a b = ''dm-'' @ ToLower u a @ ''-'' @ ToLower u b)
   \<or> (DMChannelName u a b = ''dm-'' @ ToLower u b @ ''-'' @ ToLower u a)"
  by (simp add: DMChannelName_def Let_def)

lemma dm_split:
  assumes "CHR ''-'' \<notin> set a"
  shows "split_on (CHR ''-'') (''dm-'' @ a @ ''-'' @ b) = ''dm'' # a # split_on (CHR ''-'') b"
  using assms split_on_append [of "CHR ''-''" a b] by simp

text \<open>
  Two users have one direct message channel whichever of them opens it, and two pairs of users
  whose handles have no hyphen share a channel exactly when they are the same pair, up to case.
\<close>

theorem dm_channel_of_pair:
  assumes "\<forall>h \<in> {a, b, c, d}. CHR ''-'' \<notin> set (ToLower u h)"
  shows "DMChannelName u a b = DMChannelName u b a
    \<and> (DMChannelName u a b = DMChannelName u c d \<longleftrightarrow>
        {ToLower u a, ToLower u b} = {ToLower u c, ToLower u d})"
proof -
  have s: "split_on (CHR ''-'') (''dm-'' @ x @ ''-'' @ y) = [''dm'', x, y]"
    if "CHR ''-'' \<notin> set x" "CHR ''-'' \<notin> set y" for x y
    using dm_split [OF that(1), of y] split_on_free [OF that(2)] by simp
  have inj: "''dm-'' @ x @ ''-'' @ y = ''dm-'' @ x' @ ''-'' @ y' \<longleftrightarrow> x = x' \<and> y = y'"
    if "CHR ''-'' \<notin> set x" "CHR ''-'' \<notin> set y" "CHR ''-'' \<notin> set x'" "CHR ''-'' \<notin> set y'" for x y x' y'
    using s [OF that(1,2)] s [OF that(3,4)] by (metis list.inject)
  have "DMChannelName u a b = DMChannelName u c d \<Longrightarrow> {ToLower u a, ToLower u b} = {ToLower u c, ToLower u d}"
    using DMChannelName_cases [of u a b] DMChannelName_cases [of u c d] assms inj by (elim disjE) auto
  moreover have "DMChannelName u a b = DMChannelName u c d" if "{ToLower u a, ToLower u b} = {ToLower u c, ToLower u d}"
    using that DMChannelName_sym by (fastforce simp: doubleton_eq_iff DMChannelName_def)
  ultimately show ?thesis using DMChannelName_sym by blast
qed

text \<open>
  But handles may contain hyphens.  The user \<open>x\<close> who writes to \<open>y-z\<close> is put into the channel of
  \<open>x-y\<close> and \<open>z\<close>, becomes a member of it and can read what they wrote.
\<close>

theorem dm_collision_admits_third:
  assumes "healthy db" and "user_exists db (aUser self)"
    and "GetUserByHandle u \<lparr>users = accounts db, credentials = [], usersFail = False, credsFail = False\<rparr> h = Row other"
    and "\<not> EqualFold ef (aHandle self) h"
    and "ToLower u (aHandle self) = x" and "ToLower u (uHandle other) = y @ ''-'' @ z"
    and "ToLower u p = x @ ''-'' @ y" and "ToLower u q = z"
    and "\<not> map code x > map code (y @ ''-'' @ z)" and "\<not> map code (x @ ''-'' @ y) > map code z"
    and "named u (DMChannelName u p q) db = Some c"
  shows "\<exists>db'. ResolveDM u ef self h now db = ((Some c, None), db') \<and> (chID c, aUser self) \<in> set (members db')
    \<and> fst (RecentMessages (chID c) 100 db') = (Some (history (chID c) db), None)"
proof -
  let ?d = "tick (tick db)"
  let ?e = "joining (chID c) (uID other) (joining (chID c) (aUser self) ?d)"
  have n: "DMChannelName u (aHandle self) (uHandle other) = DMChannelName u p q"
    using assms(5-10) by (simp add: DMChannelName_def)
  have c: "c \<in> set (channels ?d)" using named_in [OF assms(11)] by simp
  have o: "user_exists db (uID other)"
    using assms(3) by (auto simp: GetUserByHandle_def user_exists_def find_Some_iff split: option.splits)
  have "ResolveDM u ef self h now db = ((Some c, None), ?e)"
    using assms(1-4,11) c o n ensure_joining [of ?d c "aUser self"]
      ensure_joining [of "joining (chID c) (aUser self) ?d" c "uID other"]
    by (simp add: ResolveDM_def GetUser_def healthy_reading lookup_named named_def Let_def user_exists_def)
  moreover have "fst (RecentMessages (chID c) 100 ?e) = (Some (history (chID c) db), None)"
    using recent_history [of ?e] history_cong [of ?e db] assms(1) by simp
  ultimately show ?thesis by auto
qed

text \<open>
  The partner the web reads off a channel name is right unless the own handle, followed by a hyphen,
  begins the other one; it is wrong for the handles \<open>ab-\<close> and \<open>ab--ab\<close>.
\<close>

lemma dm_partner:
  assumes "\<not> HasPrefix (ToLower u h @ ''-'' @ ToLower u s) (ToLower u s @ ''-'')"
    and "ToLower u s \<noteq> ToLower u h"
  shows "dmPartner u (DMChannelName u s h) s = ToLower u h"
  using DMChannelName_cases [of u s h] assms
  by (auto simp: dmPartner_def TrimPrefix_def HasPrefix_iff HasSuffix_def Let_def)

lemma dm_partner_wrong: "dmPartner id (DMChannelName id ''ab--ab'' ''ab-'') ''ab--ab'' = ''-ab''"
  by (simp add: dmPartner_def DMChannelName_def TrimPrefix_def HasPrefix_def ToLower_def is_ascii_def lower_byte_def
      char_of_def bit_Suc_0_iff)

section \<open>Unread messages\<close>

lemma foldl_max_ge: "(a::int) \<le> foldl max a xs \<and> (\<forall>x \<in> set xs. x \<le> foldl max a xs)"
proof (induction xs arbitrary: a)
  case (Cons y xs)
  show ?case using Cons.IH [of "max a y"] by auto
qed simp

text \<open>
  After a member marks a channel as read up to a message, the unread count of the channel is the
  number of undeleted messages after that mark or an older, higher one; in particular it is zero
  when the mark is the latest message.
\<close>

theorem unread_after_mark:
  assumes "healthy db" and "chat_ok u db" and "(ch, usr) \<in> set (members db)"
    and "TouchChannelRead usr ch latest db = (e, db1)" and "UnreadCounts usr db1 = (r, db2)"
  shows "\<exists>f. e = None \<and> r = (Some f, None)
    \<and> f ch = Some (int (length (filter (\<lambda>m. max latest (case marks db (usr, ch) of None \<Rightarrow> latest | Some n \<Rightarrow> n) < mID m)
                          (live_in ch db))))
    \<and> (fst (LatestMessageID ch db) = (Some latest, None) \<longrightarrow> f ch = Some 0)"
proof -
  let ?mark = "max latest (case marks db (usr, ch) of None \<Rightarrow> latest | Some n \<Rightarrow> n)"
  have ex: "list_ex (\<lambda>c. chID c = ch) (channels db)" "user_exists db usr"
    using assms(2,3) by (auto simp: chat_ok_def list_ex_iff user_exists_def)
  then have d: "e = None" "db1 = (tick db)\<lparr>marks := (marks db)((usr, ch) := Some ?mark)\<rparr>"
    using assms(1,4) by (auto simp: TouchChannelRead_def sql_err_def UpsertChannelRead_def healthy_statement
        user_exists_def max.commute split: option.splits)
  let ?n = "\<lambda>c. int (length (filter (\<lambda>m. mID m > (case marks db1 (usr, c) of None \<Rightarrow> 0 | Some n \<Rightarrow> n)) (live_in c db1)))"
  have "healthy db1" using assms(1) d(2) by (simp add: healthy_def)
  then have "UnreadCounts usr db1 =
      ((Some (map_of (map (\<lambda>(c, w). (c, ?n c)) (filter (\<lambda>(c, w). w = usr) (members db1)))), None), tick db1)"
    by (simp add: UnreadCounts_def UnreadCountsForUser_def healthy_reading rows_or_err_def)
  then have r: "r = (Some (map_of (map (\<lambda>(c, w). (c, ?n c)) (filter (\<lambda>(c, w). w = usr) (members db)))), None)"
    using assms(5) by (simp add: d(2))
  have m: "map_of (map (\<lambda>(c, w). (c, ?n c)) (filter (\<lambda>(c, w). w = usr) xs)) ch = Some (?n ch)"
    if "(ch, usr) \<in> set xs" for xs
    using that by (induction xs) auto
  have l: "live_in ch db1 = live_in ch db" using d(2) by (simp add: live_in_def)
  have "mID x \<le> latest" if "fst (LatestMessageID ch db) = (Some latest, None)" "x \<in> set (live_in ch db)" for x
  proof -
    have "latest = (case map mID (live_in ch db) of [] \<Rightarrow> 0 | i # is \<Rightarrow> foldl max i is)"
      using that(1) assms(1)
      by (simp add: LatestMessageID_def LatestMessageIDInChannel_def healthy_reading rows_or_err_def)
    moreover have "mID x \<in> set (map mID (live_in ch db))" using that(2) by simp
    ultimately show ?thesis using foldl_max_ge by (auto split: list.splits)
  qed
  then have "fst (LatestMessageID ch db) = (Some latest, None) \<longrightarrow> filter (\<lambda>m. ?mark < mID m) (live_in ch db) = []"
    by (force simp: filter_empty_conv)
  with d r m [OF assms(3)] l show ?thesis by auto
qed

section \<open>Search\<close>

definition wildcard :: "char \<Rightarrow> bool" where
  "wildcard c \<longleftrightarrow> c \<in> {CHR ''%'', CHR ''_'', CHR 0x5C}"

lemma utf8_chars_ascii: "is_ascii s \<Longrightarrow> utf8_chars s = map (\<lambda>c. [c]) s"
  by (induction s) (auto simp: is_ascii_def split: list.split)

lemma like_percent: "like (''%'' # ps) t \<longleftrightarrow> (\<exists>a b. t = a @ b \<and> like ps b)"
proof (induction t)
  case (Cons x t)
  have "(\<exists>a b. x # t = a @ b \<and> like ps b) \<longleftrightarrow> like ps (x # t) \<or> (\<exists>a b. t = a @ b \<and> like ps b)"
    by (metis append_Cons append_eq_Cons_conv self_append_conv2)
  with Cons show ?case by simp
qed simp

lemma like_char: "\<not> wildcard c \<Longrightarrow> like ([c] # ps) t \<longleftrightarrow> (\<exists>b. t = [c] # b \<and> like ps b)"
  by (cases t) (auto simp: wildcard_def)

lemma like_literal:
  "\<forall>c \<in> set s. \<not> wildcard c \<Longrightarrow> like (map (\<lambda>c. [c]) s @ qs) t \<longleftrightarrow> (\<exists>b. t = map (\<lambda>c. [c]) s @ b \<and> like qs b)"
proof (induction s arbitrary: t)
  case (Cons c s)
  then show ?case by (auto simp: like_char simp del: like.simps)
qed simp

lemma like_needs: "like ps t \<Longrightarrow> \<not> wildcard c \<Longrightarrow> [c] \<in> set ps \<Longrightarrow> [c] \<in> set t"
proof (induction ps t rule: like.induct)
  case (2 p ps t)
  from 2(6) [unfolded like.simps(2) [of p ps t]] 2(1-5,7,8) show ?case
    by (auto simp: wildcard_def simp del: like.simps split: list.splits if_splits)
qed simp

lemma escaped_plain: "\<forall>c \<in> set s. \<not> wildcard c \<and> c \<noteq> CHR ''|'' \<Longrightarrow> ilikeEscape s = s"
  by (induction s) (auto simp: ilikeEscape_def escape_with_def wildcard_def)

lemma escaped_bar: "CHR ''%'' \<in> set s \<or> CHR ''_'' \<in> set s \<Longrightarrow> CHR ''|'' \<in> set (ilikeEscape s)"
  by (auto simp: ilikeEscape_def escape_with_def)

lemma escaped_ascii: "is_ascii s \<Longrightarrow> is_ascii (ilikeEscape s)"
  by (auto simp: ilikeEscape_def escape_with_def is_ascii_def list_all_iff)

lemma is_ascii_append: "is_ascii (s @ t) \<longleftrightarrow> is_ascii s \<and> is_ascii t"
  by (simp add: is_ascii_def)

lemma wildcard_code: "wildcard c \<longleftrightarrow> code c \<in> {37, 95, 92}"
  using code_inject [of c "CHR ''%''"] code_inject [of c "CHR ''_''"] code_inject [of c "CHR 0x5C"]
  by (simp add: wildcard_def del: of_char_eq_iff)

lemma wildcard_lower [simp]: "wildcard (lower_byte c) = wildcard c"
  by (simp add: wildcard_code code_lower_byte)

lemma like_any: "like [''%''] t"
  unfolding like_percent by (rule exI [of _ t]) simp

lemma ILIKE_ascii: "is_ascii b \<Longrightarrow> is_ascii p \<Longrightarrow>
    ILIKE u b p \<longleftrightarrow> like (map (\<lambda>c. [c]) (map lower_byte p)) (map (\<lambda>c. [c]) (map lower_byte b))"
  by (simp add: ILIKE_def ToLower_def utf8_chars_ascii del: like.simps)

lemma like_contains:
  assumes "\<forall>c \<in> set s. \<not> wildcard c"
  shows "like (''%'' # map (\<lambda>c. [c]) s @ [''%'']) t \<longleftrightarrow> (\<exists>a b. t = a @ map (\<lambda>c. [c]) s @ b)"
proof -
  have "like (map (\<lambda>c. [c]) s @ [''%'']) b \<longleftrightarrow> (\<exists>c. b = map (\<lambda>c. [c]) s @ c)" for b
    by (simp only: like_literal [OF assms] like_any simp_thms)
  then show ?thesis by (simp only: like_percent) blast
qed

lemma singles_sublist: "(\<exists>x y. map (\<lambda>c. [c]) b = x @ map (\<lambda>c. [c]) s @ y) \<longleftrightarrow> sublist s b"
proof
  assume "\<exists>x y. map (\<lambda>c. [c]) b = x @ map (\<lambda>c. [c]) s @ y"
  then obtain x y where "map (\<lambda>c. [c]) b = x @ map (\<lambda>c. [c]) s @ y" by blast
  then obtain us r where r: "b = us @ r" "map (\<lambda>c. [c]) s @ y = map (\<lambda>c. [c]) r" unfolding map_eq_append_conv by blast
  from r(2) [symmetric] obtain vs ws where "r = vs @ ws" and v: "map (\<lambda>c. [c]) s = map (\<lambda>c. [c]) vs"
    unfolding map_eq_append_conv by blast
  with r have b: "b = us @ vs @ ws" by simp
  have "inj (\<lambda>c :: 'a. [c])" by (simp add: inj_def)
  with v have "s = vs" by (simp only: inj_map_eq_map)
  with b show "sublist s b" by (auto simp: sublist_def)
next
  assume "sublist s b"
  then obtain us ws where "b = us @ s @ ws" by (auto simp: sublist_def)
  then have "map (\<lambda>c. [c]) b = map (\<lambda>c. [c]) us @ map (\<lambda>c. [c]) s @ map (\<lambda>c. [c]) ws" by simp
  then show "\<exists>x y. map (\<lambda>c. [c]) b = x @ map (\<lambda>c. [c]) s @ y" by blast
qed

text \<open>The match of the search's second statement, for ASCII.\<close>

lemma ILIKE_contains:
  assumes "is_ascii s" "is_ascii b" "\<forall>c \<in> set s. \<not> wildcard c \<and> c \<noteq> CHR ''|''"
  shows "ILIKE u b (''%'' @ ilikeEscape s @ ''%'') \<longleftrightarrow> sublist (map lower_byte s) (map lower_byte b)"
proof -
  let ?s = "map lower_byte s" and ?b = "map lower_byte b"
  have p: "lower_byte (CHR ''%'') = CHR ''%''" by (simp add: lower_byte_def)
  have lit: "\<forall>c \<in> set ?s. \<not> wildcard c" using assms(3) by simp
  have a: "is_ascii (''%'' @ s @ ''%'')" using assms(1) by (simp add: is_ascii_def)
  have "ILIKE u b (''%'' @ ilikeEscape s @ ''%'') \<longleftrightarrow> like (''%'' # map (\<lambda>c. [c]) ?s @ [''%'']) (map (\<lambda>c. [c]) ?b)"
    unfolding escaped_plain [OF assms(3)] ILIKE_ascii [OF assms(2) a] by (simp only: map_append list.map p append.simps)
  also have "\<dots> \<longleftrightarrow> (\<exists>x y. map (\<lambda>c. [c]) ?b = x @ map (\<lambda>c. [c]) ?s @ y)"
    by (rule like_contains [OF lit])
  also have "\<dots> \<longleftrightarrow> sublist ?s ?b"
    by (rule singles_sublist)
  finally show ?thesis .
qed

lemma ILIKE_needs_bar:
  assumes "is_ascii s" "is_ascii b" "CHR ''%'' \<in> set s \<or> CHR ''_'' \<in> set s" "CHR ''|'' \<notin> set b"
  shows "\<not> ILIKE u b (''%'' @ ilikeEscape s @ ''%'')"
proof
  let ?p = "''%'' @ ilikeEscape s @ ''%''"
  assume "ILIKE u b ?p"
  moreover have a: "is_ascii ?p" using escaped_ascii [OF assms(1)] by (simp add: is_ascii_def)
  ultimately have "like (map (\<lambda>c. [c]) (map lower_byte ?p)) (map (\<lambda>c. [c]) (map lower_byte b))"
    using ILIKE_ascii [OF assms(2) a] by blast
  moreover have bar: "lower_byte (CHR ''|'') = CHR ''|''" by (simp add: lower_byte_def)
  then have "CHR ''|'' \<in> set (map lower_byte ?p)" using escaped_bar [OF assms(3)] by force
  then have "[CHR ''|''] \<in> set (map (\<lambda>c. [c]) (map lower_byte ?p))" by force
  moreover have "\<not> wildcard (CHR ''|'')" by (simp add: wildcard_def)
  ultimately have "[CHR ''|''] \<in> set (map (\<lambda>c. [c]) (map lower_byte b))" by (blast intro: like_needs)
  then obtain c where "c \<in> set b" "lower_byte c = CHR ''|''" by auto
  then show False using assms(4) code_lower_byte [of c] code_inject [of c "CHR ''|''"]
    by (auto simp del: of_char_eq_iff split: if_splits)
qed

lemma empty_rows [simp]: "newest [] = []" "authored db [] = []"
  by (simp_all add: newest_def authored_def List.map_filter_def)

lemma second_search:
  assumes "healthy db" "s = TrimSpace term" "s \<noteq> []" "\<forall>m \<in> set (live_in ch db). \<not> fts s (mBody m)"
  shows "fst (ChatSearch u fts ch term limit db) =
    (Some (take (nat (min 100 (max 1 limit))) (authored db (newest
        (filter (\<lambda>m. ILIKE u (mBody m) (''%'' @ ilikeEscape s @ ''%'')) (live_in ch db))))), None)"
proof -
  have "filter (\<lambda>m. fts s (mBody m)) (live_in ch db) = []" using assms(4) by (simp add: filter_empty_conv)
  then show ?thesis using assms(1,3)
    by (simp add: ChatSearch_def assms(2) [symmetric] SearchChatMessages_def healthy_reading rows_or_err_def Let_def)
qed

lemma filter_live:
  "(\<And>m. m \<in> set (live_in ch db) \<Longrightarrow> p m = q m) \<Longrightarrow> filter p (live_in ch db) = filter q (live_in ch db)"
  by (rule filter_cong) simp_all

text \<open>
  When the full-text search finds nothing, a search for an ASCII term without wildcard characters
  returns the newest undeleted messages of the channel whose text contains it, whatever the case, at
  most the limit (kept between 1 and 100) of them.
\<close>

theorem search_finds_substring:
  assumes "healthy db" and "s = TrimSpace term" and "s \<noteq> []" and "is_ascii s"
    and "\<forall>c \<in> set s. \<not> wildcard c \<and> c \<noteq> CHR ''|''"
    and "\<forall>m \<in> set (live_in ch db). is_ascii (mBody m) \<and> \<not> fts s (mBody m)"
  shows "fst (ChatSearch u fts ch term limit db) =
    (Some (take (nat (min 100 (max 1 limit))) (authored db (newest
        (filter (\<lambda>m. sublist (map lower_byte s) (map lower_byte (mBody m))) (live_in ch db))))), None)"
proof -
  have "filter (\<lambda>m. ILIKE u (mBody m) (''%'' @ ilikeEscape s @ ''%'')) (live_in ch db) =
      filter (\<lambda>m. sublist (map lower_byte s) (map lower_byte (mBody m))) (live_in ch db)"
    by (rule filter_live) (use assms(6) in \<open>simp only: ILIKE_contains [OF assms(4) _ assms(5)]\<close>)
  then show ?thesis using second_search [OF assms(1-3)] assms(6) by simp
qed

text \<open>
  But a term with a percent sign or an underscore finds no message without a vertical bar, not even
  one that consists of the term: the term is escaped with bars and the statement has no
  \<open>ESCAPE\<close> clause that says so.
\<close>

theorem search_loses_wildcard_terms:
  assumes "healthy db" and "s = TrimSpace term" and "is_ascii s" and "CHR ''%'' \<in> set s \<or> CHR ''_'' \<in> set s"
    and "\<forall>m \<in> set (live_in ch db). is_ascii (mBody m) \<and> CHR ''|'' \<notin> set (mBody m) \<and> \<not> fts s (mBody m)"
  shows "fst (ChatSearch u fts ch term limit db) = (Some [], None)"
proof -
  have "s \<noteq> []" using assms(4) by auto
  moreover have "filter (\<lambda>m. ILIKE u (mBody m) (''%'' @ ilikeEscape s @ ''%'')) (live_in ch db) = []"
    using assms(3-5) ILIKE_needs_bar by (auto simp: filter_empty_conv)
  ultimately show ?thesis using second_search [OF assms(1,2)] assms(5) by simp
qed

section \<open>Witnesses\<close>

text \<open>The direct message channel of \<open>ann-bob\<close> and \<open>cy\<close>, and two other users.\<close>

definition demo_account :: "int \<Rightarrow> string \<Rightarrow> user" where
  "demo_account i h = \<lparr>uID = i, uHandle = h, uSysop = False, uBanned = False, uHash = [], uAlgo = None,
     uRequireKey = False\<rparr>"

definition demo_chat :: chat_db where
  "demo_chat =
     \<lparr>accounts = [demo_account 1 ''ann'', demo_account 2 ''bob-cy'', demo_account 3 ''ann-bob'', demo_account 4 ''cy''],
      channels = [\<lparr>chID = 5, chName = ''dm-ann-bob-cy'', chTopic = None, chPrivate = True, chCreator = Some 3,
                   chCreated = 10\<rparr>],
      members = [(5, 3), (5, 4)], marks = (\<lambda>_. None),
      messages = [\<lparr>mID = 8, mChannel = 5, mUser = 3, mBody = ''50% OFF'', mCreated = 20, mEdited = None,
                   mDeleted = None, mPinned = False, mParent = None\<rparr>],
      reactions = [], nextChannel = 6, nextMessage = 9, published = [], fails = (\<lambda>_. False), calls = 0\<rparr>"

lemmas demo_chat_defs = demo_chat_def demo_account_def

lemmas lower_eval = ToLower_def is_ascii_def lower_byte_def char_of_def bit_Suc_0_iff

lemma demo_healthy: "healthy demo_chat"
  by (simp add: healthy_def demo_chat_def)

lemma demo_named: "named id ''dm-ann-bob-cy'' demo_chat = Some (hd (channels demo_chat))"
  by (simp add: named_def demo_chat_def lower_eval)

lemma demo_chat_ok: "chat_ok id demo_chat"
  by (simp add: chat_ok_def demo_chat_defs)

lemma demo_live: "live_in 5 demo_chat = messages demo_chat"
  by (simp add: live_in_def demo_chat_def)

definition demo_author :: Author where
  "demo_author = \<lparr>aUser = 3, aHandle = ''ann-bob'', aSysop = False\<rparr>"

lemma demo_authored: "authored demo_chat (newest (messages demo_chat)) = [message_of demo_author (hd (messages demo_chat))]"
  by (simp add: newest_def authored_def List.map_filter_def with_author_def demo_chat_defs message_of_def demo_author_def)

lemma demo_history: "history 5 demo_chat = [message_of demo_author (hd (messages demo_chat))]"
  by (simp add: history_def demo_live demo_authored)

lemma demo_body: "mBody (message_of demo_author (hd (messages demo_chat))) = ''50% OFF''"
  by (simp add: message_of_def chat_msg.defs demo_chat_def)

lemma demo_rows: "\<forall>m \<in> set (live_in 5 demo_chat). is_ascii (mBody m) \<and> CHR ''|'' \<notin> set (mBody m)"
  unfolding demo_live by (simp add: demo_chat_def is_ascii_def)

lemma demo_user_exists: "user_exists demo_chat 1"
  by (simp add: user_exists_def demo_chat_defs)

lemma join_opens_private_channel_witness:
  "\<exists>j db'. joinChannel id True ''dm-ann-bob-cy'' 1 0 demo_chat = (Some j, db') \<and> map mBody (jHistory j) = [''50% OFF'']
     \<and> (5, 1) \<in> set (members db')"
proof -
  have t: "TrimSpace ''/join #dm-ann-bob-cy'' = ''/join #dm-ann-bob-cy''" "TrimSpace ''#dm-ann-bob-cy'' = ''#dm-ann-bob-cy''"
    by (rule TrimSpace_plain; simp)+
  have p: "Parse id ''/join #dm-ann-bob-cy'' = Some \<lparr>Name = ''join'', Args = ''#dm-ann-bob-cy''\<rparr>"
    by (simp add: Parse_def t HasPrefix_def cut_space_def lower_eval)
  have d: "Dispatch id \<lparr>Name = ''join'', Args = ''#dm-ann-bob-cy''\<rparr> = Switch ''dm-ann-bob-cy'' True"
    by (simp add: Dispatch_def normalizeChannelName_def t TrimPrefix_def HasPrefix_def lower_eval)
  have "chID (hd (channels demo_chat)) = 5" by (simp add: demo_chat_def)
  with conjunct1 [OF join_opens_private_channel [OF demo_healthy demo_user_exists demo_named p d], of 0]
  show ?thesis by (auto simp: demo_history demo_body)
qed

lemma lower_ann: "DMChannelName id ''Ann'' h = DMChannelName id ''ann'' h"
  by (simp add: DMChannelName_def lower_eval)

lemma dm_channel_of_pair_witness:
  "DMChannelName id ''Ann'' ''bob'' = DMChannelName id ''bob'' ''ann'' \<and> DMChannelName id ''Ann'' ''bob'' \<noteq> DMChannelName id ''ann'' ''cy''"
proof
  show "DMChannelName id ''Ann'' ''bob'' = DMChannelName id ''bob'' ''ann''"
    using dm_channel_of_pair [of "''Ann''" "''bob''" "''bob''" "''ann''" id] by (metis DMChannelName_sym lower_ann)
  show "DMChannelName id ''Ann'' ''bob'' \<noteq> DMChannelName id ''ann'' ''cy''"
    using conjunct2 [OF dm_channel_of_pair [of "''Ann''" "''bob''" "''ann''" "''cy''" id]]
    by (simp add: lower_eval doubleton_eq_iff)
qed

lemma dm_collision_admits_third_witness:
  "\<exists>c db'. ResolveDM id (\<lambda>a b. False) \<lparr>aUser = 1, aHandle = ''ann'', aSysop = False\<rparr> ''bob-cy'' 0 demo_chat = ((Some c, None), db')
     \<and> chID c = 5 \<and> (5, 1) \<in> set (members db')"
proof -
  have "GetUserByHandle id \<lparr>users = accounts demo_chat, credentials = [], usersFail = False, credsFail = False\<rparr> ''bob-cy''
      = Row (demo_account 2 ''bob-cy'')"
    by (simp add: GetUserByHandle_def demo_chat_defs lower_eval)
  moreover have "named id (DMChannelName id ''ann-bob'' ''cy'') demo_chat = Some (hd (channels demo_chat))"
    using demo_named by (simp add: DMChannelName_def lower_eval)
  moreover have "chID (hd (channels demo_chat)) = 5" by (simp add: demo_chat_def)
  ultimately show ?thesis
    using dm_collision_admits_third [OF demo_healthy, of "\<lparr>aUser = 1, aHandle = ''ann'', aSysop = False\<rparr>" id
        "''bob-cy''" "demo_account 2 ''bob-cy''" "\<lambda>a b. False" "''ann''" "''bob''" "''cy''" "''ann-bob''" "''cy''"
        "hd (channels demo_chat)" 0] demo_user_exists
    by (simp add: demo_account_def lower_eval EqualFold_def) blast
qed

lemma unread_after_mark_witness:
  "\<exists>f. fst (UnreadCounts 4 (snd (TouchChannelRead 4 5 8 demo_chat))) = (Some f, None) \<and> f 5 = Some 0"
proof -
  have "fst (LatestMessageID 5 demo_chat) = (Some 8, None)"
    by (simp add: LatestMessageID_def LatestMessageIDInChannel_def healthy_reading demo_healthy rows_or_err_def demo_live)
      (simp add: demo_chat_def)
  moreover have "(5, 4) \<in> set (members demo_chat)" by (simp add: demo_chat_def)
  ultimately show ?thesis
    using unread_after_mark [OF demo_healthy demo_chat_ok, of 5 4 8] by (metis prod.collapse)
qed

lemma search_finds_substring_witness:
  "\<exists>m. fst (ChatSearch id (\<lambda>s b. False) 5 '' off '' 10 demo_chat) = (Some [m], None) \<and> mBody m = ''50% OFF''"
proof -
  have s: "TrimSpace '' off '' = ''off''" by code_simp
  have p: "is_ascii ''off''" "\<forall>c \<in> set ''off''. \<not> wildcard c \<and> c \<noteq> CHR ''|''" by (simp_all add: is_ascii_def wildcard_def)
  have "filter (\<lambda>m. sublist (map lower_byte ''off'') (map lower_byte (mBody m))) (live_in 5 demo_chat) = messages demo_chat"
    unfolding demo_live by (simp add: demo_chat_def lower_eval sublist_Cons_right)
  then show ?thesis
    using search_finds_substring [OF demo_healthy s [symmetric] _ p, of 5 "\<lambda>s b. False" id 10] demo_rows
    by (simp add: demo_authored demo_body)
qed

lemma search_loses_wildcard_terms_witness:
  "fst (ChatSearch id (\<lambda>s b. False) 5 ''50% OFF'' 10 demo_chat) = (Some [], None)"
proof -
  have "''50% OFF'' = TrimSpace ''50% OFF''" by (simp add: TrimSpace_plain)
  moreover have "is_ascii ''50% OFF''" by (simp add: is_ascii_def)
  ultimately show ?thesis
    using search_loses_wildcard_terms [OF demo_healthy, of "''50% OFF''" "''50% OFF''" 5 "\<lambda>s b. False" id 10] demo_rows
    by simp
qed

lemma chat_stays_sound_witness:
  "chat_ok id (chat_run id (\<lambda>a b. False) [OpSend 5 \<lparr>aUser = 3, aHandle = ''ann-bob'', aSysop = False\<rparr> ''hi'' (Some 8) 30,
     OpDelete 8 \<lparr>aUser = 4, aHandle = ''cy'', aSysop = False\<rparr> 40] demo_chat)"
  using chat_stays_sound [OF demo_chat_ok] by blast

lemma message_changes_authorised_witness:
  "filter (\<lambda>m'. mID m' = 8 \<and> mDeleted m' \<noteq> None)
     (messages (chat_apply id (\<lambda>a b. False) (OpDelete 8 \<lparr>aUser = 4, aHandle = ''cy'', aSysop = False\<rparr> 40) demo_chat)) = []"
proof -
  let ?m = "hd (messages demo_chat)"
  have m: "?m \<in> set (messages demo_chat)" "mID ?m = 8" "mDeleted ?m = None" "mUser ?m = 3" by (simp_all add: demo_chat_def)
  show ?thesis unfolding filter_empty_conv using message_changes_authorised [OF demo_chat_ok m(1)] m by fastforce
qed

lemma isMember_healthy: "healthy db \<Longrightarrow>
    isMember u usr ch db = (\<exists>c \<in> set (channels db). chID c = ch \<and> (ch, usr) \<in> set (members db), tick db)"
  by (auto simp: isMember_def JoinedChannels_def ListChannelsForUser_def rows_or_err_def healthy_reading list_ex_iff Let_def)

lemma web_gate_private_channels_witness:
  "fst (loadChannelForUser id 5 1 demo_chat) = None
   \<and> (\<exists>c d. loadChannelForUser id 5 3 demo_chat = (Some c, d) \<and> (chID c, 3) \<in> set (members demo_chat))"
proof
  have g: "GetChannelByID 5 demo_chat = (Row (hd (channels demo_chat)), tick demo_chat)"
    by (simp add: GetChannelByID_def healthy_reading demo_healthy) (simp add: demo_chat_def)
  have c: "channels demo_chat = [hd (channels demo_chat)]" "chPrivate (hd (channels demo_chat))"
    "chID (hd (channels demo_chat)) = 5" "(5, 1) \<notin> set (members demo_chat)" "(5, 3) \<in> set (members demo_chat)"
    by (simp_all add: demo_chat_def)
  show "fst (loadChannelForUser id 5 1 demo_chat) = None"
    using c by (simp add: loadChannelForUser_def g isMember_healthy demo_healthy)
  have "hd (channels demo_chat) \<in> set (channels demo_chat)" by (subst (2) c(1)) simp
  then have "\<exists>c d. loadChannelForUser id 5 3 demo_chat = (Some c, d) \<and> chPrivate c"
    using c by (auto simp: loadChannelForUser_def g isMember_healthy demo_healthy)
  then show "\<exists>c d. loadChannelForUser id 5 3 demo_chat = (Some c, d) \<and> (chID c, 3) \<in> set (members demo_chat)"
    using web_gate_private_channels by metis
qed

end
