(* ===== verification/Boards.thy ===== *)
theory Boards
  imports FaultyStore "HOL-Library.List_Lexorder"
begin

text \<open>
  The boards (\<^verbatim>\<open>src/internal/realtime/forums.go\<close>) over the tables its SQL statements read and write
  (\<^verbatim>\<open>src/internal/data/gen/forums.sql.go\<close>): forums with their denormalised counters, topics, posts
  and the read marks.  The state holds the tables and an oracle that says which calls of the
  database fail; a failed statement changes no table.  Topics with the same time come newest
  inserted first, posts oldest inserted first; \<open>coll\<close> is the sort key of the database's collation.  Times are
  integers, \<open>None\<close> is Go's zero time.  A result is a value and an error, each optional.
\<close>

section \<open>Tables\<close>

record forum =
  fID :: int
  fName :: string
  fDescription :: "string option"
  fSortOrder :: int
  fTopicCount :: int
  fLastActivity :: "int option"

record topic =
  tID :: int
  tForum :: int
  tTitle :: string
  tCreator :: int
  tCreated :: int
  tLastPost :: int

record post =
  pID :: int
  pTopic :: int
  pParent :: "int option"
  pBody :: string
  pCreator :: int
  pCreated :: int
  pEdited :: "int option"

text \<open>What the service returns.\<close>

record Forum =
  forumID :: int
  forumName :: string
  forumDescription :: string
  SortOrder :: int
  TopicCount :: int
  LastActivityAt :: "int option"

record Topic = topic +
  TopicAuthor :: string
  PostCount :: int

record Post = post +
  PostAuthor :: string
  AuthorIsSysop :: bool

record board_db =
  bUsers :: "user list"
  forums :: "forum list"
  topics :: "topic list"
  posts :: "post list"
  reads :: "int \<times> int \<Rightarrow> (int \<times> int option) option" \<comment> \<open>user, topic: time, post\<close>
  nextForum :: int
  nextTopic :: int
  nextPost :: int
  bFails :: "nat \<Rightarrow> bool"
  bCalls :: nat

datatype board_err = BoardSql | ErrForumNotFound | ErrTopicNotFound

definition btick :: "board_db \<Rightarrow> board_db" where
  "btick db = db\<lparr>bCalls := Suc (bCalls db)\<rparr>"

definition bstatement :: "(board_db \<Rightarrow> 'a query \<times> board_db) \<Rightarrow> board_db \<Rightarrow> 'a query \<times> board_db" where
  "bstatement f db = (if bFails db (bCalls db) then (DbError, btick db) else f (btick db))"

definition breading :: "(board_db \<Rightarrow> 'a query) \<Rightarrow> board_db \<Rightarrow> 'a query \<times> board_db" where
  "breading f = bstatement (\<lambda>db. (f db, db))"

section \<open>The SQL statements\<close>

definition posts_of :: "int \<Rightarrow> board_db \<Rightarrow> post list" where
  "posts_of t db = filter (\<lambda>p. pTopic p = t) (posts db)"

definition topics_of :: "int \<Rightarrow> board_db \<Rightarrow> topic list" where
  "topics_of f db = filter (\<lambda>t. tForum t = f) (topics db)"

definition board_user :: "board_db \<Rightarrow> int \<Rightarrow> user option" where
  "board_user db i = find (\<lambda>x. uID x = i) (bUsers db)"

definition sql_ListForums :: "(string \<Rightarrow> int list) \<Rightarrow> board_db \<Rightarrow> forum list query \<times> board_db" where
  "sql_ListForums coll = breading (\<lambda>db. Row (sort_key fSortOrder (sort_key (\<lambda>f. coll (fName f)) (forums db))))"

definition GetForumByID :: "int \<Rightarrow> board_db \<Rightarrow> forum query \<times> board_db" where
  "GetForumByID i = breading (\<lambda>db. case find (\<lambda>f. fID f = i) (forums db) of None \<Rightarrow> NoRows | Some f \<Rightarrow> Row f)"

definition GetTopicByID :: "int \<Rightarrow> board_db \<Rightarrow> topic query \<times> board_db" where
  "GetTopicByID i = breading (\<lambda>db. case find (\<lambda>t. tID t = i) (topics db) of None \<Rightarrow> NoRows | Some t \<Rightarrow> Row t)"

definition counted_topic :: "board_db \<Rightarrow> topic \<Rightarrow> Topic option" where
  "counted_topic db t =
     map_option (\<lambda>x. topic.extend t \<lparr>TopicAuthor = uHandle x, PostCount = int (length (posts_of (tID t) db))\<rparr>)
       (board_user db (tCreator t))"

definition by_activity :: "int \<Rightarrow> board_db \<Rightarrow> Topic list" where
  "by_activity f db = List.map_filter (counted_topic db) (rev (sort_key tLastPost (topics_of f db)))"

definition ListTopicsInForumPaged :: "int \<Rightarrow> int \<Rightarrow> int \<Rightarrow> board_db \<Rightarrow> Topic list query \<times> board_db" where
  "ListTopicsInForumPaged f limit offset = breading (\<lambda>db.
     if limit < 0 \<or> offset < 0 then DbError else Row (take (nat limit) (drop (nat offset) (by_activity f db))))"

definition ListTopicsInForum :: "int \<Rightarrow> int \<Rightarrow> board_db \<Rightarrow> Topic list query \<times> board_db" where
  "ListTopicsInForum f limit = breading (\<lambda>db. if limit < 0 then DbError else Row (take (nat limit) (by_activity f db)))"

definition with_poster :: "board_db \<Rightarrow> post \<Rightarrow> Post option" where
  "with_poster db p =
     map_option (\<lambda>x. post.extend p \<lparr>PostAuthor = uHandle x, AuthorIsSysop = uSysop x\<rparr>) (board_user db (pCreator p))"

definition thread :: "int \<Rightarrow> board_db \<Rightarrow> Post list" where
  "thread t db = List.map_filter (with_poster db) (sort_key pCreated (posts_of t db))"

definition ListPostsInTopic :: "int \<Rightarrow> board_db \<Rightarrow> Post list query \<times> board_db" where
  "ListPostsInTopic t = breading (\<lambda>db. Row (thread t db))"

definition ListPostsInTopicPaged :: "int \<Rightarrow> int \<Rightarrow> int \<Rightarrow> board_db \<Rightarrow> Post list query \<times> board_db" where
  "ListPostsInTopicPaged t limit offset = breading (\<lambda>db.
     if limit < 0 \<or> offset < 0 then DbError else Row (take (nat limit) (drop (nat offset) (thread t db))))"

definition sql_CreateTopic :: "int \<Rightarrow> string \<Rightarrow> int \<Rightarrow> int \<Rightarrow> board_db \<Rightarrow> topic query \<times> board_db" where
  "sql_CreateTopic f title usr now = bstatement (\<lambda>db.
     let t = \<lparr>tID = nextTopic db, tForum = f, tTitle = title, tCreator = usr, tCreated = now, tLastPost = now\<rparr>;
         db' = db\<lparr>nextTopic := nextTopic db + 1\<rparr>
     in if 120 < utf8_length title \<or> \<not> list_ex (\<lambda>x. fID x = f) (forums db) \<or> board_user db usr = None
        then (DbError, db')
        else (Row t, db'\<lparr>topics := topics db @ [t]\<rparr>))"

definition CreatePost :: "int \<Rightarrow> int option \<Rightarrow> string \<Rightarrow> int \<Rightarrow> int \<Rightarrow> board_db \<Rightarrow> post query \<times> board_db" where
  "CreatePost t parent body usr now = bstatement (\<lambda>db.
     let p = \<lparr>pID = nextPost db, pTopic = t, pParent = parent, pBody = body, pCreator = usr, pCreated = now,
              pEdited = None\<rparr>;
         db' = db\<lparr>nextPost := nextPost db + 1\<rparr>
     in if \<not> list_ex (\<lambda>x. tID x = t) (topics db) \<or> board_user db usr = None
           \<or> (case parent of None \<Rightarrow> False | Some i \<Rightarrow> i \<noteq> nextPost db \<and> \<not> list_ex (\<lambda>x. pID x = i) (posts db))
        then (DbError, db')
        else (Row p, db'\<lparr>posts := posts db @ [p]\<rparr>))"

definition later :: "int \<Rightarrow> int option \<Rightarrow> int option" where
  "later now at = Some (case at of None \<Rightarrow> now | Some a \<Rightarrow> max a now)"

definition IncrementForumTopicCount :: "int \<Rightarrow> int \<Rightarrow> board_db \<Rightarrow> unit query \<times> board_db" where
  "IncrementForumTopicCount i now = bstatement (\<lambda>db.
     if list_ex (\<lambda>f. fID f = i \<and> fTopicCount f \<ge> 2 ^ 31 - 1) (forums db) then (DbError, db)
     else (Row (), db\<lparr>forums := map (\<lambda>f. if fID f = i
             then f\<lparr>fTopicCount := fTopicCount f + 1, fLastActivity := later now (fLastActivity f)\<rparr> else f) (forums db)\<rparr>))"

definition TouchForumLastActivity :: "int \<Rightarrow> int \<Rightarrow> board_db \<Rightarrow> unit query \<times> board_db" where
  "TouchForumLastActivity i now = bstatement (\<lambda>db.
     (Row (), db\<lparr>forums := map (\<lambda>f. if fID f = i then f\<lparr>fLastActivity := later now (fLastActivity f)\<rparr> else f) (forums db)\<rparr>))"

definition TouchTopicLastPost :: "int \<Rightarrow> int \<Rightarrow> board_db \<Rightarrow> unit query \<times> board_db" where
  "TouchTopicLastPost i now = bstatement (\<lambda>db.
     (Row (), db\<lparr>topics := map (\<lambda>t. if tID t = i then t\<lparr>tLastPost := now\<rparr> else t) (topics db)\<rparr>))"

definition largest :: "int list \<Rightarrow> int option" where
  "largest xs = (case xs of [] \<Rightarrow> None | x # xs \<Rightarrow> Some (foldl max x xs))"

definition LatestPostInTopic :: "int \<Rightarrow> board_db \<Rightarrow> (int \<times> int option) query \<times> board_db" where
  "LatestPostInTopic t = breading (\<lambda>db.
     Row (case largest (map pID (posts_of t db)) of None \<Rightarrow> 0 | Some i \<Rightarrow> i, largest (map pCreated (posts_of t db))))"

definition coalesce :: "int option \<Rightarrow> int" where
  "coalesce x = (case x of None \<Rightarrow> 0 | Some i \<Rightarrow> i)"

definition UpsertPostRead :: "int \<Rightarrow> int \<Rightarrow> int \<Rightarrow> int option \<Rightarrow> board_db \<Rightarrow> unit query \<times> board_db" where
  "UpsertPostRead usr t at mark = bstatement (\<lambda>db.
     case reads db (usr, t) of
       None \<Rightarrow>
         if board_user db usr = None \<or> \<not> list_ex (\<lambda>x. tID x = t) (topics db) then (DbError, db)
         else (Row (), db\<lparr>reads := (reads db)((usr, t) := Some (at, mark))\<rparr>)
     | Some (a, i) \<Rightarrow>
         (Row (), db\<lparr>reads := (reads db)((usr, t) := Some (max a at, Some (max (coalesce i) (coalesce mark))))\<rparr>))"

definition read_upto :: "int \<Rightarrow> int \<Rightarrow> board_db \<Rightarrow> int" where
  "read_upto usr t db = (case reads db (usr, t) of None \<Rightarrow> 0 | Some (a, i) \<Rightarrow> coalesce i)"

definition unread_in :: "int \<Rightarrow> int \<Rightarrow> board_db \<Rightarrow> int" where
  "unread_in usr t db = int (length (filter (\<lambda>p. pID p > read_upto usr t db) (posts_of t db)))"

definition UnreadTopicCountsForForum :: "int \<Rightarrow> int \<Rightarrow> board_db \<Rightarrow> (int \<times> int) list query \<times> board_db" where
  "UnreadTopicCountsForForum usr f = breading (\<lambda>db.
     Row (map (\<lambda>t. (tID t, unread_in usr (tID t) db)) (topics_of f db)))"

definition UnreadCountsByForumForUser :: "int \<Rightarrow> board_db \<Rightarrow> (int \<times> int) list query \<times> board_db" where
  "UnreadCountsByForumForUser usr = breading (\<lambda>db.
     Row (map (\<lambda>f. (f, sum_list (map (\<lambda>t. unread_in usr (tID t) db) (topics_of f db))))
       (remdups (map tForum (topics db)))))"

definition SeedGeneralForum :: "board_db \<Rightarrow> unit query \<times> board_db" where
  "SeedGeneralForum = bstatement (\<lambda>db.
     let db' = db\<lparr>nextForum := nextForum db + 1\<rparr>
     in (Row (), if list_ex (\<lambda>f. fName f = ''General'') (forums db) then db'
           else db'\<lparr>forums := forums db @ [\<lparr>fID = nextForum db, fName = ''General'',
                    fDescription = Some ''general discussion'', fSortOrder = 0, fTopicCount = 0, fLastActivity = None\<rparr>]\<rparr>))"

section \<open>The service\<close>

definition mapForum :: "forum \<Rightarrow> Forum" where
  "mapForum f =
     \<lparr>forumID = fID f, forumName = fName f,
      forumDescription = (case fDescription f of None \<Rightarrow> [] | Some d \<Rightarrow> d),
      SortOrder = fSortOrder f, TopicCount = fTopicCount f, LastActivityAt = fLastActivity f\<rparr>"

definition or_missing :: "board_err \<Rightarrow> ('a \<Rightarrow> 'b) \<Rightarrow> 'a query \<times> board_db \<Rightarrow> (board_err + 'b) \<times> board_db" where
  "or_missing e f r =
     (case r of (Row x, db) \<Rightarrow> (Inr (f x), db) | (NoRows, db) \<Rightarrow> (Inl e, db) | (DbError, db) \<Rightarrow> (Inl BoardSql, db))"

definition ListForums :: "(string \<Rightarrow> int list) \<Rightarrow> board_db \<Rightarrow> (board_err + Forum list) \<times> board_db" where
  "ListForums coll db = or_missing BoardSql (map mapForum) (sql_ListForums coll db)"

definition GetForum :: "int \<Rightarrow> board_db \<Rightarrow> (board_err + Forum) \<times> board_db" where
  "GetForum i db = or_missing ErrForumNotFound mapForum (GetForumByID i db)"

definition RecentTopics :: "int \<Rightarrow> int \<Rightarrow> board_db \<Rightarrow> (board_err + Topic list) \<times> board_db" where
  "RecentTopics f limit db = or_missing BoardSql id (ListTopicsInForum f limit db)"

definition TopicsPage :: "int \<Rightarrow> int \<Rightarrow> int \<Rightarrow> board_db \<Rightarrow> (board_err + Topic list) \<times> board_db" where
  "TopicsPage f limit offset db = or_missing BoardSql id (ListTopicsInForumPaged f limit offset db)"

text \<open>\<open>GetTopic\<close> leaves the author and the post count at their zero values.\<close>

definition GetTopic :: "int \<Rightarrow> board_db \<Rightarrow> (board_err + Topic) \<times> board_db" where
  "GetTopic i db = or_missing ErrTopicNotFound (\<lambda>t. topic.extend t \<lparr>TopicAuthor = [], PostCount = 0\<rparr>) (GetTopicByID i db)"

definition Posts :: "int \<Rightarrow> board_db \<Rightarrow> (board_err + Post list) \<times> board_db" where
  "Posts t db = or_missing BoardSql id (ListPostsInTopic t db)"

definition PostsPage :: "int \<Rightarrow> int \<Rightarrow> int \<Rightarrow> board_db \<Rightarrow> (board_err + Post list) \<times> board_db" where
  "PostsPage t limit offset db = or_missing BoardSql id (ListPostsInTopicPaged t limit offset db)"

definition CreateTopic ::
  "int \<Rightarrow> int \<Rightarrow> string \<Rightarrow> string \<Rightarrow> string \<Rightarrow> int \<Rightarrow> board_db \<Rightarrow> (Topic option \<times> board_err option) \<times> board_db" where
  "CreateTopic f usr handle title body now db =
     (case sql_CreateTopic f title usr now db of
        (Row t, db1) \<Rightarrow>
          (case CreatePost (tID t) None body usr now db1 of
             (Row p, db2) \<Rightarrow>
               (case IncrementForumTopicCount f now db2 of (q, db3) \<Rightarrow>
                  ((Some (topic.extend t \<lparr>TopicAuthor = handle, PostCount = 1\<rparr>), None), db3))
           | (_, db2) \<Rightarrow> ((Some (topic.extend t \<lparr>TopicAuthor = handle, PostCount = 0\<rparr>), Some BoardSql), db2))
      | (_, db1) \<Rightarrow> ((None, Some BoardSql), db1))"

definition Reply ::
  "int \<Rightarrow> int \<Rightarrow> int \<Rightarrow> string \<Rightarrow> int \<Rightarrow> board_db \<Rightarrow> (Post option \<times> board_err option) \<times> board_db" where
  "Reply f t usr body now db =
     (case CreatePost t None body usr now db of
        (Row p, db1) \<Rightarrow>
          (case TouchTopicLastPost t now db1 of (q1, db2) \<Rightarrow>
           case TouchForumLastActivity f now db2 of (q2, db3) \<Rightarrow>
             ((Some (post.extend p \<lparr>PostAuthor = [], AuthorIsSysop = False\<rparr>), None), db3))
      | (_, db1) \<Rightarrow> ((None, Some BoardSql), db1))"

definition TouchTopicRead :: "int \<Rightarrow> int \<Rightarrow> int \<Rightarrow> board_db \<Rightarrow> board_err option \<times> board_db" where
  "TouchTopicRead usr t now db =
     (case LatestPostInTopic t db of
        (Row (i, at), db1) \<Rightarrow>
          (case UpsertPostRead usr t now (if i > 0 then Some i else None) db1 of
             (q, db2) \<Rightarrow> (if q = DbError then Some BoardSql else None, db2))
      | (_, db1) \<Rightarrow> (Some BoardSql, db1))"

definition UnreadTopicCounts :: "int \<Rightarrow> int \<Rightarrow> board_db \<Rightarrow> (board_err + (int \<Rightarrow> int option)) \<times> board_db" where
  "UnreadTopicCounts usr f db = or_missing BoardSql map_of (UnreadTopicCountsForForum usr f db)"

definition UnreadCountsByForum :: "int \<Rightarrow> board_db \<Rightarrow> (board_err + (int \<Rightarrow> int option)) \<times> board_db" where
  "UnreadCountsByForum usr db = or_missing BoardSql map_of (UnreadCountsByForumForUser usr db)"

end
