(* ===== verification/BoardsSafety.thy ===== *)
theory BoardsSafety
  imports Boards
begin

text \<open>
  What holds of the boards whatever is posted and whichever statement fails: the tables stay sound,
  posts are never changed or removed, the counters only grow and never exceed what they
  count; what \<open>CreateTopic\<close> leaves when it is cut short; and the unread counts.
\<close>

lemma coalesce_simps [simp]: "coalesce None = 0" "coalesce (Some i) = i"
  by (simp_all add: coalesce_def)

section \<open>The operations as steps\<close>

datatype board_op =
    OpTopic int int string string string int
  | OpReply int int int string int
  | OpMark int int int
  | OpSeed
  | OpRead

fun board_apply :: "board_op \<Rightarrow> board_db \<Rightarrow> board_db" where
  "board_apply (OpTopic f usr handle title body now) db = snd (CreateTopic f usr handle title body now db)"
| "board_apply (OpReply f t usr body now) db = snd (Reply f t usr body now db)"
| "board_apply (OpMark usr t now) db = snd (TouchTopicRead usr t now db)"
| "board_apply OpSeed db = snd (SeedGeneralForum db)"
| "board_apply OpRead db = btick db"

section \<open>Sound tables and how they grow\<close>

definition forum_ok :: "board_db \<Rightarrow> forum \<Rightarrow> bool" where
  "forum_ok db f \<longleftrightarrow> fID f < nextForum db \<and> 0 \<le> fTopicCount f \<and> fTopicCount f \<le> int (length (topics_of (fID f) db))"

definition topic_ok :: "board_db \<Rightarrow> topic \<Rightarrow> bool" where
  "topic_ok db t \<longleftrightarrow> tID t < nextTopic db \<and> tForum t \<in> fID ` set (forums db) \<and> board_user db (tCreator t) \<noteq> None"

definition post_ok :: "board_db \<Rightarrow> post \<Rightarrow> bool" where
  "post_ok db p \<longleftrightarrow> 0 < pID p \<and> pID p < nextPost db \<and> pTopic p \<in> tID ` set (topics db)
     \<and> board_user db (pCreator p) \<noteq> None \<and> (\<forall>i. pParent p = Some i \<longrightarrow> i \<in> pID ` set (posts db))"

definition board_ok :: "board_db \<Rightarrow> bool" where
  "board_ok db \<longleftrightarrow>
     distinct (map fID (forums db)) \<and> distinct (map fName (forums db))
     \<and> distinct (map tID (topics db)) \<and> distinct (map pID (posts db))
     \<and> (\<forall>f \<in> set (forums db). forum_ok db f) \<and> (\<forall>t \<in> set (topics db). topic_ok db t)
     \<and> (\<forall>p \<in> set (posts db). post_ok db p)
     \<and> (\<forall>k a i. reads db k = Some (a, i) \<longrightarrow> coalesce i < nextPost db) \<and> 0 < nextPost db"

lemmas row_ok_defs = forum_ok_def topic_ok_def post_ok_def

text \<open>A table that grows: its rows are kept in the sense of \<open>R\<close>, new ones come behind.\<close>

definition grows :: "('a \<Rightarrow> 'a \<Rightarrow> bool) \<Rightarrow> 'a list \<Rightarrow> 'a list \<Rightarrow> bool" where
  "grows R xs ys \<longleftrightarrow> (\<exists>zs new. ys = zs @ new \<and> list_all2 R xs zs)"

lemma grows_refl [intro]: "(\<And>x. R x x) \<Longrightarrow> grows R xs xs"
  unfolding grows_def by (intro exI [of _ xs] exI [of _ "[]"]) (simp add: list_all2_refl)

lemma grows_append [intro]: "(\<And>x. R x x) \<Longrightarrow> grows R xs (xs @ new)"
  unfolding grows_def by (intro exI [of _ xs] exI [of _ new]) (simp add: list_all2_refl)

lemma grows_map [intro]: "(\<And>x. R x (f x)) \<Longrightarrow> grows R xs (map f xs)"
  unfolding grows_def by (intro exI [of _ "map f xs"] exI [of _ "[]"]) (simp add: list_all2_conv_all_nth)

lemma grows_trans:
  assumes "\<And>x y z. R x y \<Longrightarrow> R y z \<Longrightarrow> R x z" and "grows R xs ys" and "grows R ys zs"
  shows "grows R xs zs"
proof -
  obtain ys1 ys2 where y: "ys = ys1 @ ys2" "list_all2 R xs ys1" using assms(2) by (auto simp: grows_def)
  obtain zs1 zs2 where z: "zs = zs1 @ zs2" "list_all2 R ys zs1" using assms(3) by (auto simp: grows_def)
  obtain z1 z2 where w: "zs1 = z1 @ z2" "list_all2 R ys1 z1"
    using z(2) y(1) by (auto simp: list_all2_append1)
  have "list_all2 R xs z1" using list_all2_trans [of R R R, OF assms(1) y(2) w(2)] .
  with z(1) w(1) show ?thesis unfolding grows_def by (intro exI [of _ z1] exI [of _ "z2 @ zs2"]) simp
qed

definition grown_forum :: "forum \<Rightarrow> forum \<Rightarrow> bool" where
  "grown_forum f f' \<longleftrightarrow> fID f' = fID f \<and> fName f' = fName f \<and> fDescription f' = fDescription f
     \<and> fSortOrder f' = fSortOrder f \<and> fTopicCount f \<le> fTopicCount f'
     \<and> (\<forall>a. fLastActivity f = Some a \<longrightarrow> (\<exists>b \<ge> a. fLastActivity f' = Some b))"

definition same_topic :: "topic \<Rightarrow> topic \<Rightarrow> bool" where
  "same_topic t t' \<longleftrightarrow> t' = t\<lparr>tLastPost := tLastPost t'\<rparr>"

definition board_grows :: "board_db \<Rightarrow> board_db \<Rightarrow> bool" where
  "board_grows db db' \<longleftrightarrow>
     bUsers db' = bUsers db \<and> grows grown_forum (forums db) (forums db')
     \<and> grows same_topic (topics db) (topics db')
     \<and> (\<exists>new. posts db' = posts db @ new \<and> (\<forall>p \<in> set new. nextPost db \<le> pID p)) \<and> nextPost db \<le> nextPost db'
     \<and> (\<forall>k a i. reads db k = Some (a, i) \<longrightarrow>
          (\<exists>b j. reads db' k = Some (b, j) \<and> a \<le> b \<and> coalesce i \<le> coalesce j))"

lemma grown_forum_refl [simp]: "grown_forum f f"
  by (auto simp: grown_forum_def)

lemma grown_forum_trans: "grown_forum a b \<Longrightarrow> grown_forum b c \<Longrightarrow> grown_forum a c"
  unfolding grown_forum_def by (metis order_trans)

lemma same_topic_refl [simp]: "same_topic t t"
  by (simp add: same_topic_def)

lemma same_topic_trans: "same_topic a b \<Longrightarrow> same_topic b c \<Longrightarrow> same_topic a c"
  unfolding same_topic_def by (cases a; cases b; cases c) simp

lemma board_grows_refl [simp]: "board_grows db db"
  by (auto simp: board_grows_def)

lemma board_grows_trans:
  assumes "board_grows a b" and "board_grows b c"
  shows "board_grows a c"
  unfolding board_grows_def
proof (intro conjI allI impI)
  show "grows grown_forum (forums a) (forums c)" "grows same_topic (topics a) (topics c)"
    using assms grows_trans [of grown_forum "forums a" "forums b" "forums c"]
      grows_trans [of same_topic "topics a" "topics b" "topics c"] grown_forum_trans same_topic_trans
    unfolding board_grows_def by blast+
  obtain m n where "posts b = posts a @ m" "\<forall>p \<in> set m. nextPost a \<le> pID p" "nextPost a \<le> nextPost b"
      "posts c = posts b @ n" "\<forall>p \<in> set n. nextPost b \<le> pID p"
    using assms unfolding board_grows_def by blast
  then show "\<exists>new. posts c = posts a @ new \<and> (\<forall>p \<in> set new. nextPost a \<le> pID p)"
    by (intro exI [of _ "m @ n"]) force
  fix k x i assume "reads a k = Some (x, i)"
  then obtain y j where "reads b k = Some (y, j)" "x \<le> y" "coalesce i \<le> coalesce j"
    using assms(1) unfolding board_grows_def by blast
  then show "\<exists>y j. reads c k = Some (y, j) \<and> x \<le> y \<and> coalesce i \<le> coalesce j"
    using assms(2) unfolding board_grows_def by (meson order_trans)
qed (use assms in \<open>simp_all add: board_grows_def\<close>)

definition board_sound :: "board_db \<Rightarrow> board_db \<Rightarrow> bool" where
  "board_sound db db' \<longleftrightarrow> (board_ok db \<longrightarrow> board_ok db') \<and> board_grows db db'"

lemma btick_simps [simp]:
  "bUsers (btick db) = bUsers db" "forums (btick db) = forums db" "topics (btick db) = topics db"
  "posts (btick db) = posts db" "reads (btick db) = reads db" "nextForum (btick db) = nextForum db"
  "nextTopic (btick db) = nextTopic db" "nextPost (btick db) = nextPost db" "bFails (btick db) = bFails db"
  "bCalls (btick db) = Suc (bCalls db)"
  by (simp_all add: btick_def)

lemma frames [simp]:
  "board_user (btick db) = board_user db" "topics_of f (btick db) = topics_of f db" "posts_of t (btick db) = posts_of t db"
  "board_user (d\<lparr>nextForum := n\<rparr>) = board_user d" "board_user (d\<lparr>nextTopic := n\<rparr>) = board_user d"
  "board_user (d\<lparr>nextPost := n\<rparr>) = board_user d" "board_user (d\<lparr>forums := fs\<rparr>) = board_user d"
  "board_user (d\<lparr>topics := ts\<rparr>) = board_user d" "board_user (d\<lparr>posts := ps\<rparr>) = board_user d"
  "board_user (d\<lparr>reads := rs\<rparr>) = board_user d"
  "topics_of f (d\<lparr>nextForum := n\<rparr>) = topics_of f d" "topics_of f (d\<lparr>nextTopic := n\<rparr>) = topics_of f d"
  "topics_of f (d\<lparr>nextPost := n\<rparr>) = topics_of f d" "topics_of f (d\<lparr>forums := fs\<rparr>) = topics_of f d"
  "topics_of f (d\<lparr>posts := ps\<rparr>) = topics_of f d" "topics_of f (d\<lparr>reads := rs\<rparr>) = topics_of f d"
  "topics_of f (d\<lparr>topics := ts\<rparr>) = filter (\<lambda>t. tForum t = f) ts"
  by (simp_all add: board_user_def topics_of_def posts_of_def fun_eq_iff)

lemma board_sound_btick: "board_sound db (btick db)"
  by (auto simp: board_sound_def board_ok_def board_grows_def row_ok_defs)

interpretation board_store: faulty_store "\<lambda>db. bFails db (bCalls db)" btick board_sound
  by unfold_locales (auto simp: board_sound_btick, auto simp: board_sound_def intro: board_grows_trans)

lemma bstatement_sound: "(\<And>d. board_sound d (snd (f d))) \<Longrightarrow> board_sound db (snd (bstatement f db))"
  unfolding bstatement_def by (rule board_store.statement_leads)

lemma bstatement_sound_at: "board_sound (btick db) (snd (f (btick db))) \<Longrightarrow> board_sound db (snd (bstatement f db))"
  unfolding bstatement_def by (rule board_store.statement_leads_at)

lemma breading_sound [simp]: "board_sound db (snd (breading f db))"
  unfolding breading_def by (rule bstatement_sound) (simp add: board_store.leads_refl)

section \<open>The statements are sound steps\<close>

lemma board_ok_next:
  assumes "board_ok d"
  shows "board_ok (d\<lparr>nextTopic := nextTopic d + 1\<rparr>)" "board_ok (d\<lparr>nextPost := nextPost d + 1\<rparr>)"
    "board_ok (d\<lparr>nextForum := nextForum d + 1\<rparr>)"
  using assms by (fastforce simp: board_ok_def row_ok_defs)+

lemma topic_row_ok:
  assumes "board_ok d" and "tForum t \<in> fID ` set (forums d)" "board_user d (tCreator t) \<noteq> None" "tID t = nextTopic d"
  shows "board_ok (d\<lparr>nextTopic := nextTopic d + 1, topics := topics d @ [t]\<rparr>)" (is "board_ok ?d")
proof -
  have "tID t \<notin> tID ` set (topics d)" using assms(1,4) by (auto simp: board_ok_def topic_ok_def)
  moreover have "forum_ok ?d f" if "forum_ok d f" for f using that by (auto simp: forum_ok_def topics_of_def)
  moreover have "topic_ok ?d x" if "x = t \<or> topic_ok d x" for x using that assms(2-4) by (auto simp: topic_ok_def)
  moreover have "post_ok ?d p" if "post_ok d p" for p using that by (auto simp: post_ok_def)
  ultimately show ?thesis using assms(1) by (auto simp: board_ok_def)
qed

lemma post_row_ok:
  assumes "board_ok d" and "pTopic p \<in> tID ` set (topics d)" "board_user d (pCreator p) \<noteq> None" "pID p = nextPost d"
    "\<And>i. pParent p = Some i \<Longrightarrow> i = nextPost d \<or> i \<in> pID ` set (posts d)"
  shows "board_ok (d\<lparr>nextPost := nextPost d + 1, posts := posts d @ [p]\<rparr>)" (is "board_ok ?d")
proof -
  have "pID p \<notin> pID ` set (posts d)" using assms(1,4) by (auto simp: board_ok_def post_ok_def)
  moreover have "forum_ok ?d f" if "forum_ok d f" for f using that by (auto simp: forum_ok_def)
  moreover have "topic_ok ?d x" if "topic_ok d x" for x using that by (auto simp: topic_ok_def)
  moreover have "post_ok ?d x" if "x = p \<or> post_ok d x" for x
    using that assms(1) assms(2-5) by (auto simp: post_ok_def board_ok_def)
  moreover have "coalesce i < nextPost ?d" if "reads d k = Some (a, i)" for k a i
  proof -
    have "coalesce i < nextPost d" using that assms(1) unfolding board_ok_def by blast
    then show ?thesis by simp
  qed
  ultimately show ?thesis using assms(1) by (auto simp: board_ok_def)
qed

lemma grow_rows:
  "board_grows d (d\<lparr>nextTopic := n\<rparr>)" "nextPost d \<le> n \<Longrightarrow> board_grows d (d\<lparr>nextPost := n\<rparr>)"
  "board_grows d (d\<lparr>nextTopic := n, topics := topics d @ ts\<rparr>)"
  "nextPost d \<le> n \<Longrightarrow> \<forall>p \<in> set ps. nextPost d \<le> pID p \<Longrightarrow> board_grows d (d\<lparr>nextPost := n, posts := posts d @ ps\<rparr>)"
  "board_grows d (d\<lparr>nextForum := n\<rparr>)" "board_grows d (d\<lparr>nextForum := n, forums := forums d @ fs\<rparr>)"
  by (auto simp: board_grows_def)

lemma CreateTopic_row_sound: "board_sound db (snd (sql_CreateTopic f title usr now db))"
  unfolding sql_CreateTopic_def Let_def
  by (rule bstatement_sound)
    (auto simp: board_sound_def grow_rows board_ok_next list_ex_iff intro!: topic_row_ok)

lemma CreatePost_sound: "board_sound db (snd (CreatePost t parent body usr now db))"
  unfolding CreatePost_def Let_def
  by (rule bstatement_sound)
    (auto simp: board_sound_def grow_rows board_ok_next list_ex_iff intro!: post_row_ok split: option.splits)

lemma map_kept: "(\<And>x. g (f x) = g x) \<Longrightarrow> map g (map f xs) = map g xs"
  by simp

lemma forums_map_sound:
  assumes "\<And>f. grown_forum f (g f)"
    and "\<And>f. f \<in> set (forums d) \<Longrightarrow> fTopicCount (g f) \<le> max (fTopicCount f) (int (length (topics_of (fID f) d)))"
  shows "board_sound d (d\<lparr>forums := map g (forums d)\<rparr>)"
proof -
  have g: "fID (g f) = fID f" "fName (g f) = fName f" "fTopicCount f \<le> fTopicCount (g f)" for f
    using assms(1) [of f] by (auto simp: grown_forum_def)
  have "board_ok (d\<lparr>forums := map g (forums d)\<rparr>)" if ok: "board_ok d"
  proof -
    have "forum_ok (d\<lparr>forums := map g (forums d)\<rparr>) (g f)" if "f \<in> set (forums d)" for f
      using that ok assms(2) [OF that] g [of f] unfolding board_ok_def forum_ok_def by fastforce
    moreover have "topic_ok (d\<lparr>forums := map g (forums d)\<rparr>) t" if "topic_ok d t" for t
      using that g by (auto simp: topic_ok_def image_image)
    moreover have "post_ok (d\<lparr>forums := map g (forums d)\<rparr>) p" if "post_ok d p" for p
      using that by (auto simp: post_ok_def)
    ultimately show ?thesis using ok by (auto simp: board_ok_def g map_kept o_def)
  qed
  moreover have "board_grows d (d\<lparr>forums := map g (forums d)\<rparr>)" using assms(1) by (auto simp: board_grows_def)
  ultimately show ?thesis by (simp add: board_sound_def)
qed

lemma grown_touched: "grown_forum f (f\<lparr>fLastActivity := later now (fLastActivity f)\<rparr>)"
  "grown_forum f (f\<lparr>fTopicCount := fTopicCount f + 1, fLastActivity := later now (fLastActivity f)\<rparr>)"
  by (auto simp: grown_forum_def later_def)

lemma TouchForum_sound: "board_sound db (snd (TouchForumLastActivity i now db))"
  unfolding TouchForumLastActivity_def
  by (rule bstatement_sound) (auto simp: grown_touched intro!: forums_map_sound)

lemma TouchTopic_sound: "board_sound db (snd (TouchTopicLastPost i now db))"
  unfolding TouchTopicLastPost_def
proof (rule bstatement_sound)
  fix d :: board_db
  let ?g = "\<lambda>t :: topic. if tID t = i then t\<lparr>tLastPost := now\<rparr> else t"
  let ?d = "d\<lparr>topics := map ?g (topics d)\<rparr>"
  have ids: "map tID (map ?g ts) = map tID ts" for ts by (rule map_kept) simp
  then have set_ids: "tID ` set (map ?g ts) = tID ` set ts" for ts by (metis set_map)
  have "length (filter (\<lambda>t. tForum t = f) (map ?g ts)) = length (filter (\<lambda>t. tForum t = f) ts)" for f ts
    by (induction ts) auto
  then have same: "length (topics_of f ?d) = length (topics_of f d)" for f by (simp add: topics_of_def)
  have "board_ok ?d" if ok: "board_ok d"
  proof -
    have "forum_ok ?d f" if "forum_ok d f" for f using that by (simp add: forum_ok_def same del: frames)
    moreover have "topic_ok ?d x" if "x \<in> set (topics ?d)" for x
      using that ok by (auto simp: topic_ok_def board_ok_def)
    moreover have "post_ok ?d p" if "post_ok d p" for p using that set_ids by (simp add: post_ok_def del: set_map)
    moreover have "distinct (map tID (topics ?d))" using ok ids by (simp add: board_ok_def del: map_map)
    ultimately show ?thesis using ok unfolding board_ok_def by simp
  qed
  moreover have "board_grows d ?d" by (auto simp: board_grows_def same_topic_def intro!: grows_map)
  ultimately show "board_sound d (snd (Row (), ?d))" by (simp add: board_sound_def)
qed

lemma UpsertPostRead_sound:
  assumes "coalesce mark < nextPost db"
  shows "board_sound db (snd (UpsertPostRead usr t at mark db))"
  unfolding UpsertPostRead_def
  by (rule bstatement_sound_at)
    (use assms in \<open>auto simp: board_sound_def board_grows_def board_ok_def row_ok_defs coalesce_def split: option.splits\<close>)

lemma forum_row_ok:
  assumes "board_ok d" "fID f = nextForum d" "fName f \<notin> fName ` set (forums d)" "fTopicCount f = 0"
  shows "board_ok (d\<lparr>nextForum := nextForum d + 1, forums := forums d @ [f]\<rparr>)" (is "board_ok ?d")
proof -
  have "fID f \<notin> fID ` set (forums d)" using assms(1,2) by (auto simp: board_ok_def forum_ok_def)
  moreover have "forum_ok ?d x" if "x = f \<or> forum_ok d x" for x using that assms by (auto simp: forum_ok_def)
  moreover have "topic_ok ?d t" if "topic_ok d t" for t using that by (auto simp: topic_ok_def)
  moreover have "post_ok ?d p" if "post_ok d p" for p using that by (auto simp: post_ok_def)
  ultimately show ?thesis using assms(1,3) by (auto simp: board_ok_def)
qed

lemma Seed_sound: "board_sound db (snd (SeedGeneralForum db))"
  unfolding SeedGeneralForum_def Let_def
  by (rule bstatement_sound)
    (auto simp: board_sound_def grow_rows board_ok_next list_ex_iff intro!: forum_row_ok)

section \<open>The operations are sound\<close>

lemmas board_intros = board_store.bind_leads board_store.keep_leads board_store.leads_refl
  CreateTopic_row_sound CreatePost_sound TouchForum_sound TouchTopic_sound Seed_sound

lemma Increment_sound:
  assumes "\<And>f. f \<in> set (forums db) \<Longrightarrow> fID f = i \<Longrightarrow> fTopicCount f + 1 \<le> int (length (topics_of i db))"
  shows "board_sound db (snd (IncrementForumTopicCount i now db))"
  unfolding IncrementForumTopicCount_def
  by (rule bstatement_sound_at)
    (use assms in \<open>auto simp: grown_touched board_store.leads_refl le_max_iff_disj intro!: forums_map_sound [where d = "btick db", simplified]\<close>)

lemma Increment_grows: "board_grows db (snd (IncrementForumTopicCount i now db))"
  by (auto simp: IncrementForumTopicCount_def bstatement_def board_grows_def grown_touched intro!: grows_map)

lemma CreateTopic_cases:
  obtains (no_topic) db1 where "CreateTopic f usr handle title body now db = ((None, Some BoardSql), db1)"
      "topics db1 = topics db" "posts db1 = posts db" "forums db1 = forums db" "board_sound db db1"
  | (no_post) t db2 where "CreateTopic f usr handle title body now db
        = ((Some (topic.extend t \<lparr>TopicAuthor = handle, PostCount = 0\<rparr>), Some BoardSql), db2)"
      "t = \<lparr>tID = nextTopic db, tForum = f, tTitle = title, tCreator = usr, tCreated = now, tLastPost = now\<rparr>"
      "topics db2 = topics db @ [t]" "posts db2 = posts db" "forums db2 = forums db" "board_sound db db2"
  | (created) t p db2 where "CreateTopic f usr handle title body now db
        = ((Some (topic.extend t \<lparr>TopicAuthor = handle, PostCount = 1\<rparr>), None), snd (IncrementForumTopicCount f now db2))"
      "t = \<lparr>tID = nextTopic db, tForum = f, tTitle = title, tCreator = usr, tCreated = now, tLastPost = now\<rparr>"
      "p = \<lparr>pID = nextPost db, pTopic = tID t, pParent = None, pBody = body, pCreator = usr, pCreated = now, pEdited = None\<rparr>"
      "topics db2 = topics db @ [t]" "posts db2 = posts db @ [p]" "forums db2 = forums db" "board_sound db db2"
proof -
  obtain q db1 where q: "sql_CreateTopic f title usr now db = (q, db1)" by fastforce
  have s1: "board_sound db db1" using CreateTopic_row_sound [of db f title usr now] q by simp
  show ?thesis
  proof (cases q)
    case (Row t)
    obtain q2 db2 where p: "CreatePost (tID t) None body usr now db1 = (q2, db2)" by fastforce
    have s2: "board_sound db db2"
      using CreatePost_sound [of db1 "tID t" None body usr now] s1 p board_store.leads_trans by simp
    have t: "t = \<lparr>tID = nextTopic db, tForum = f, tTitle = title, tCreator = usr, tCreated = now, tLastPost = now\<rparr>"
        "topics db1 = topics db @ [t]" "posts db1 = posts db" "forums db1 = forums db" "nextPost db1 = nextPost db"
      using q Row by (auto simp: sql_CreateTopic_def bstatement_def Let_def split: if_splits)
    show ?thesis
    proof (cases q2)
      case (Row x)
      have "x = \<lparr>pID = nextPost db, pTopic = tID t, pParent = None, pBody = body, pCreator = usr, pCreated = now, pEdited = None\<rparr>"
          "posts db2 = posts db1 @ [x]" "topics db2 = topics db1" "forums db2 = forums db1"
        using p Row t by (auto simp: CreatePost_def bstatement_def Let_def split: if_splits)
      then show ?thesis
        using created [where t = t and p = x and ?db2.0 = db2] q \<open>q = Row t\<close> p Row t s2 by (simp add: CreateTopic_def split: prod.split)
    next
      case no: NoRows
      have "posts db2 = posts db1" "topics db2 = topics db1" "forums db2 = forums db1"
        using p no by (auto simp: CreatePost_def bstatement_def Let_def split: if_splits)
      then show ?thesis using no_post [where t = t and ?db2.0 = db2] q \<open>q = Row t\<close> p no t s2 by (simp add: CreateTopic_def)
    next
      case err: DbError
      have "posts db2 = posts db1" "topics db2 = topics db1" "forums db2 = forums db1"
        using p err by (auto simp: CreatePost_def bstatement_def Let_def split: if_splits)
      then show ?thesis using no_post [where t = t and ?db2.0 = db2] q \<open>q = Row t\<close> p err t s2 by (simp add: CreateTopic_def)
    qed
  next
    case NoRows
    then show ?thesis using no_topic [where ?db1.0 = db1] q s1
      by (auto simp: CreateTopic_def sql_CreateTopic_def bstatement_def Let_def split: if_splits)
  next
    case DbError
    then show ?thesis using no_topic [where ?db1.0 = db1] q s1
      by (auto simp: CreateTopic_def sql_CreateTopic_def bstatement_def Let_def split: if_splits)
  qed
qed

lemma CreateTopic_sound: "board_sound db (snd (CreateTopic f usr handle title body now db))"
proof (cases rule: CreateTopic_cases [of f usr handle title body now db])
  case (created t p db2)
  have "board_ok (snd (IncrementForumTopicCount f now db2))" if ok: "board_ok db"
  proof -
    have "topics_of f db2 = topics_of f db @ [t]" using created by (simp add: topics_of_def)
    then have "board_sound db2 (snd (IncrementForumTopicCount f now db2))"
      using ok created(6) by (intro Increment_sound) (auto simp: board_ok_def forum_ok_def)
    then show ?thesis using created(7) ok by (simp add: board_sound_def)
  qed
  then show ?thesis
    using created Increment_grows [of db2 f now] board_grows_trans by (auto simp: board_sound_def)
qed simp_all

lemma Reply_sound: "board_sound db (snd (Reply f t usr body now db))"
  unfolding Reply_def by (auto intro!: board_intros split: query.split)

lemma largest_in: "largest xs = Some i \<Longrightarrow> i \<in> set xs \<and> (\<forall>j \<in> set xs. j \<le> i)"
proof -
  have "foldl max x xs \<in> set (x # xs) \<and> (\<forall>j \<in> set (x # xs). j \<le> foldl max x xs)" for x :: int and xs
  proof (induction xs rule: rev_induct)
    case (snoc y ys)
    then show ?case by (auto simp: max_def)
  qed simp
  then show "largest xs = Some i \<Longrightarrow> i \<in> set xs \<and> (\<forall>j \<in> set xs. j \<le> i)"
    by (auto simp: largest_def split: list.splits)
qed

definition latest_id :: "int \<Rightarrow> board_db \<Rightarrow> int" where
  "latest_id t db = coalesce (largest (map pID (posts_of t db)))"

lemma latest_id_bound: "board_ok db \<Longrightarrow> latest_id t db < nextPost db \<and> 0 \<le> latest_id t db"
  using largest_in [of "map pID (posts_of t db)"]
  by (fastforce simp: latest_id_def coalesce_def board_ok_def post_ok_def posts_of_def split: option.split)

lemma latest_marked:
  "snd (TouchTopicRead usr t now db) = btick db
   \<or> snd (TouchTopicRead usr t now db)
       = snd (UpsertPostRead usr t now (if latest_id t db > 0 then Some (latest_id t db) else None) (btick db))"
  by (auto simp: TouchTopicRead_def LatestPostInTopic_def breading_def bstatement_def latest_id_def coalesce_def split: prod.split)

lemma TouchTopicRead_sound: "board_sound db (snd (TouchTopicRead usr t now db))"
proof -
  let ?m = "if latest_id t db > 0 then Some (latest_id t db) else None"
  have "board_grows (btick db) (snd (UpsertPostRead usr t now ?m (btick db)))"
    by (auto simp: UpsertPostRead_def bstatement_def board_grows_def split: option.splits)
  moreover have "board_sound (btick db) (snd (UpsertPostRead usr t now ?m (btick db)))" if "board_ok db"
    using that latest_id_bound [OF that, of t] by (intro UpsertPostRead_sound) (auto simp: coalesce_def board_ok_def)
  ultimately have "board_sound db (snd (UpsertPostRead usr t now ?m (btick db)))"
    using board_sound_btick [of db] board_grows_trans [of db "btick db"] unfolding board_sound_def by blast
  then show ?thesis using latest_marked [of usr t now db] board_sound_btick [of db] by metis
qed

lemma board_apply_sound: "board_sound db (board_apply op db)"
  by (cases op) (simp_all add: CreateTopic_sound Reply_sound TouchTopicRead_sound Seed_sound board_sound_btick)


section \<open>Creating a topic\<close>

lemma create_topic_works:
  assumes "\<forall>n. \<not> bFails db n" and "list_ex (\<lambda>x. fID x = f) (forums db)"
    and "\<not> list_ex (\<lambda>x. fID x = f \<and> fTopicCount x \<ge> 2 ^ 31 - 1) (forums db)"
    and "board_user db usr = Some y" and "utf8_length title \<le> 120"
  shows "snd (fst (CreateTopic f usr handle title body now db)) = None"
    and "forums (snd (CreateTopic f usr handle title body now db)) = map (\<lambda>x. if fID x = f
          then x\<lparr>fTopicCount := fTopicCount x + 1, fLastActivity := later now (fLastActivity x)\<rparr> else x) (forums db)"
  using assms
  by (simp_all add: CreateTopic_def sql_CreateTopic_def CreatePost_def IncrementForumTopicCount_def bstatement_def Let_def)

text \<open>
  Creating a topic is not a transaction.  It leaves the topic with its first post; or, with an
  error, the topic alone, an empty thread that the forum's counter does not count; or nothing.
  With a working database, an existing forum that is not full, an existing user and a title of at most 120
  characters it succeeds and counts the topic.
\<close>

theorem create_topic_outcomes:
  assumes "CreateTopic f usr handle title body now db = ((v, e), db')"
    and "t = \<lparr>tID = nextTopic db, tForum = f, tTitle = title, tCreator = usr, tCreated = now, tLastPost = now\<rparr>"
  shows "((e = None \<and> map_option topic.truncate v = Some t \<and> topics db' = topics db @ [t]
            \<and> (\<exists>p. posts db' = posts db @ [p] \<and> pTopic p = tID t \<and> pBody p = body \<and> pCreator p = usr))
        \<or> (e \<noteq> None \<and> map_option topic.truncate v = Some t \<and> topics db' = topics db @ [t] \<and> posts db' = posts db
            \<and> forums db' = forums db)
        \<or> (e \<noteq> None \<and> v = None \<and> topics db' = topics db \<and> posts db' = posts db \<and> forums db' = forums db))
    \<and> ((\<forall>n. \<not> bFails db n) \<and> (\<exists>x \<in> set (forums db). fID x = f) \<and> (\<forall>x \<in> set (forums db). fTopicCount x < 2 ^ 31 - 1)
          \<and> board_user db usr \<noteq> None \<and> utf8_length title \<le> 120 \<longrightarrow>
        e = None \<and> forums db' = map (\<lambda>x. if fID x = f
          then x\<lparr>fTopicCount := fTopicCount x + 1, fLastActivity := later now (fLastActivity x)\<rparr> else x) (forums db))"
proof (intro conjI)
  show "(e = None \<and> map_option topic.truncate v = Some t \<and> topics db' = topics db @ [t]
            \<and> (\<exists>p. posts db' = posts db @ [p] \<and> pTopic p = tID t \<and> pBody p = body \<and> pCreator p = usr))
        \<or> (e \<noteq> None \<and> map_option topic.truncate v = Some t \<and> topics db' = topics db @ [t] \<and> posts db' = posts db
            \<and> forums db' = forums db)
        \<or> (e \<noteq> None \<and> v = None \<and> topics db' = topics db \<and> posts db' = posts db \<and> forums db' = forums db)"
  proof (cases rule: CreateTopic_cases [of f usr handle title body now db])
    case (created x p db2)
    have "topics (snd (IncrementForumTopicCount f now db2)) = topics db2"
        "posts (snd (IncrementForumTopicCount f now db2)) = posts db2"
      by (simp_all add: IncrementForumTopicCount_def bstatement_def)
    with created assms show ?thesis by (auto simp: topic.defs)
  qed (use assms in \<open>auto simp: topic.defs\<close>)
  show "(\<forall>n. \<not> bFails db n) \<and> (\<exists>x \<in> set (forums db). fID x = f) \<and> (\<forall>x \<in> set (forums db). fTopicCount x < 2 ^ 31 - 1)
          \<and> board_user db usr \<noteq> None \<and> utf8_length title \<le> 120 \<longrightarrow>
        e = None \<and> forums db' = map (\<lambda>x. if fID x = f
          then x\<lparr>fTopicCount := fTopicCount x + 1, fLastActivity := later now (fLastActivity x)\<rparr> else x) (forums db)"
    (is "?working \<longrightarrow> ?counted")
  proof
    assume w: ?working
    then obtain y where "board_user db usr = Some y" by auto
    with w show ?counted
      using create_topic_works [of db f usr y title handle body now] assms(1) by (simp add: list_ex_iff Bex_def not_le)
  qed
qed

section \<open>Unread posts\<close>

lemma marked_upto:
  assumes "TouchTopicRead usr t now db = (None, db1)" and "0 \<le> latest_id t db"
  shows "read_upto usr t db1 = max (read_upto usr t db) (latest_id t db)"
    and "k \<noteq> (usr, t) \<Longrightarrow> reads db1 k = reads db k" and "posts db1 = posts db" and "nextPost db1 = nextPost db"
proof -
  let ?m = "if latest_id t db > 0 then Some (latest_id t db) else None"
  obtain q where q: "UpsertPostRead usr t now ?m (btick db) = (q, db1)" "q \<noteq> DbError"
    using assms(1)
    by (auto simp: TouchTopicRead_def LatestPostInTopic_def breading_def bstatement_def latest_id_def coalesce_def
        split: prod.splits if_splits)
  have m: "coalesce ?m = latest_id t db" using assms(2) by simp
  show "read_upto usr t db1 = max (read_upto usr t db) (latest_id t db)"
    and "k \<noteq> (usr, t) \<Longrightarrow> reads db1 k = reads db k" and "posts db1 = posts db" and "nextPost db1 = nextPost db"
    using q m assms(2)
    by (auto simp: UpsertPostRead_def bstatement_def read_upto_def split: if_splits option.splits)
qed

lemma read_kept:
  assumes "\<And>n. op \<noteq> OpMark usr t n"
  shows "reads (board_apply op db) (usr, t) = reads db (usr, t)"
proof (cases op)
  case (OpTopic f w handle title body now)
  have "reads (snd (CreateTopic f w handle title body now db)) = reads db"
    by (auto simp: CreateTopic_def sql_CreateTopic_def CreatePost_def IncrementForumTopicCount_def bstatement_def Let_def
        split: query.splits prod.splits if_splits)
  with OpTopic show ?thesis by simp
next
  case (OpReply f x w body now)
  have "reads (snd (Reply f x w body now db)) = reads db"
    by (auto simp: Reply_def CreatePost_def TouchTopicLastPost_def TouchForumLastActivity_def bstatement_def Let_def
        split: query.splits prod.splits if_splits)
  with OpReply show ?thesis by simp
next
  case (OpMark w x now)
  then have "(w, x) \<noteq> (usr, t)" using assms by auto
  then have "reads (snd (UpsertPostRead w x now m (btick db))) (usr, t) = reads db (usr, t)" for m
    by (auto simp: UpsertPostRead_def bstatement_def split: option.split)
  with OpMark show ?thesis using latest_marked [of w x now db] by auto
qed (simp_all add: SeedGeneralForum_def bstatement_def Let_def)

lemma reads_kept:
  "list_all (\<lambda>op. \<forall>n. op \<noteq> OpMark usr t n) ops \<Longrightarrow> reads (fold board_apply ops db) (usr, t) = reads db (usr, t)"
  by (induction ops arbitrary: db) (simp_all add: read_kept)

text \<open>
  C20: Reading a topic leaves exactly the posts that come later unread, whatever else happens until the reader
  returns; and it touches no other topic's and no other reader's mark.
\<close>

theorem unread_posts_are_new:
  assumes "board_ok db" and "TouchTopicRead usr t now db = (None, db1)"
    and "list_all (\<lambda>op. \<forall>n. op \<noteq> OpMark usr t n) ops" and "db2 = fold board_apply ops db1"
  shows "unread_in usr t db2 = int (length (filter (\<lambda>p. pTopic p = t) (drop (length (posts db)) (posts db2))))
    \<and> (\<forall>k. k \<noteq> (usr, t) \<longrightarrow> reads db1 k = reads db k)"
proof -
  have latest: "latest_id t db < nextPost db" "0 \<le> latest_id t db" using latest_id_bound [OF assms(1)] by auto
  note marked = marked_upto [OF assms(2) latest(2)]
  have "read_upto usr t db < nextPost db"
    using assms(1) by (fastforce simp: read_upto_def board_ok_def split: option.split)
  then have upto_: "read_upto usr t db1 < nextPost db" using marked(1) latest(1) by simp
  have "board_grows db1 db2"
    using board_store.fold_leads [of board_apply db1 ops, OF board_apply_sound] assms(4) by (simp add: board_sound_def)
  then obtain new where new: "posts db2 = posts db @ new" "\<forall>p \<in> set new. nextPost db \<le> pID p"
    using marked(3,4) by (auto simp: board_grows_def)
  have same: "read_upto usr t db2 = read_upto usr t db1"
    using reads_kept [OF assms(3), of db1] assms(4) by (simp add: read_upto_def)
  have old: "pID p \<le> read_upto usr t db1" if "p \<in> set (posts db)" "pTopic p = t" for p
  proof -
    have "pID p \<in> set (map pID (posts_of t db))" using that by (auto simp: posts_of_def)
    then have "pID p \<le> latest_id t db" using largest_in [of "map pID (posts_of t db)"]
      by (cases "largest (map pID (posts_of t db))") (auto simp: latest_id_def largest_def split: list.splits)
    then show ?thesis using marked(1) by simp
  qed
  have "filter (\<lambda>p. pID p > read_upto usr t db2) (filter (\<lambda>p. pTopic p = t) (posts db)) = []"
    using old same by (auto simp: filter_empty_conv not_less)
  moreover have "filter (\<lambda>p. pID p > read_upto usr t db2) (filter (\<lambda>p. pTopic p = t) new) = filter (\<lambda>p. pTopic p = t) new"
    using new(2) upto_ same by (auto intro!: filter_cong)
  ultimately show ?thesis using marked(2) new(1) by (simp add: unread_in_def posts_of_def)
qed

section \<open>Witnesses\<close>

text \<open>One forum with one topic of two posts; the second call of the database fails.\<close>

definition board_users :: "user list" where
  "board_users = [\<lparr>uID = 3, uHandle = ''ann'', uSysop = False, uBanned = False, uHash = [], uAlgo = None, uRequireKey = False\<rparr>]"

definition demo_board :: board_db where
  "demo_board =
     \<lparr>bUsers = board_users,
      forums = [\<lparr>fID = 1, fName = ''General'', fDescription = None, fSortOrder = 0, fTopicCount = 1, fLastActivity = Some 20\<rparr>],
      topics = [\<lparr>tID = 1, tForum = 1, tTitle = ''hello'', tCreator = 3, tCreated = 10, tLastPost = 20\<rparr>],
      posts = [\<lparr>pID = 1, pTopic = 1, pParent = None, pBody = ''a'', pCreator = 3, pCreated = 10, pEdited = None\<rparr>,
               \<lparr>pID = 2, pTopic = 1, pParent = None, pBody = ''b'', pCreator = 3, pCreated = 20, pEdited = None\<rparr>],
      reads = \<lambda>k. None, nextForum = 2, nextTopic = 2, nextPost = 3, bFails = \<lambda>n. False, bCalls = 0\<rparr>"

lemma demo_board_ok: "board_ok demo_board"
  by (simp add: board_ok_def row_ok_defs demo_board_def topics_of_def board_user_def board_users_def)


lemma create_topic_outcomes_witness:
  "\<exists>v e db'. CreateTopic 1 3 ''ann'' ''two'' ''x'' 40 (demo_board\<lparr>bFails := \<lambda>n. n = 1\<rparr>) = ((v, e), db')
     \<and> e \<noteq> None \<and> length (topics db') = 2 \<and> length (posts db') = 2"
proof -
  let ?db = "demo_board\<lparr>bFails := \<lambda>n. n = 1\<rparr>"
  obtain v e db' where r: "CreateTopic 1 3 ''ann'' ''two'' ''x'' 40 ?db = ((v, e), db')" by (metis prod.collapse)
  have e: "e \<noteq> None" "v \<noteq> None"
    using r by (auto simp: CreateTopic_def sql_CreateTopic_def CreatePost_def bstatement_def Let_def demo_board_def
        board_user_def board_users_def utf8_length_def)
  from create_topic_outcomes [OF r refl] e
  have "topics db' = topics ?db @ [\<lparr>tID = 2, tForum = 1, tTitle = ''two'', tCreator = 3, tCreated = 40, tLastPost = 40\<rparr>]"
      "posts db' = posts ?db"
    by (auto simp: demo_board_def)
  then have "length (topics db') = 2" "length (posts db') = 2" by (simp_all add: demo_board_def)
  with r e show ?thesis by blast
qed

lemma unread_posts_are_new_witness:
  "\<exists>db1. TouchTopicRead 3 1 50 demo_board = (None, db1)
     \<and> unread_in 3 1 (fold board_apply [OpReply 1 1 3 ''c'' 60] db1) = 1"
proof -
  obtain db1 where r: "TouchTopicRead 3 1 50 demo_board = (None, db1)"
    and db1: "db1 = demo_board\<lparr>bCalls := 2, reads := (\<lambda>k. None)((3, 1) := Some (50, Some 2))\<rparr>"
    by (simp add: TouchTopicRead_def LatestPostInTopic_def breading_def bstatement_def UpsertPostRead_def demo_board_def
        posts_of_def largest_def board_user_def board_users_def btick_def)
  have "posts (fold board_apply [OpReply 1 1 3 ''c'' 60] db1) = posts demo_board
      @ [\<lparr>pID = 3, pTopic = 1, pParent = None, pBody = ''c'', pCreator = 3, pCreated = 60, pEdited = None\<rparr>]"
    unfolding db1 by (simp add: Reply_def CreatePost_def TouchTopicLastPost_def TouchForumLastActivity_def bstatement_def
        Let_def board_user_def board_users_def demo_board_def)
  moreover have "unread_in 3 1 (fold board_apply [OpReply 1 1 3 ''c'' 60] db1)
      = int (length (filter (\<lambda>p. pTopic p = 1) (drop (length (posts demo_board)) (posts (fold board_apply [OpReply 1 1 3 ''c'' 60] db1)))))"
    using unread_posts_are_new [OF demo_board_ok r _ refl, of "[OpReply 1 1 3 ''c'' 60]"] by simp
  ultimately show ?thesis using r by simp
qed

end
