(* ===== verification/BoardsWeb.thy ===== *)
theory BoardsWeb
  imports BoardsSafety
begin

text \<open>
  The web pages of the boards (\<^verbatim>\<open>src/internal/web/handlers_boards.go\<close>): the list of forums, a page of
  topics, a page of a thread, and the forms for a topic and a reply.  A handler is given the path and query
  parameters as text and returns what it answers; the rendering of the templates is left out.  The page
  numbers come from counters kept with the rows, not from the rows.
\<close>

section \<open>Page numbers\<close>

definition topicsPerPage :: int where "topicsPerPage = 25"
definition postsPerPage :: int where "postsPerPage = 20"
definition boardTitleMax :: nat where "boardTitleMax = 120"
definition boardBodyMax :: nat where "boardBodyMax = 4000"

record pageNav =
  CurrentPage :: int
  TotalPages :: int
  HasPrev :: bool
  HasNext :: bool
  PrevPage :: int
  NextPage :: int
  BasePath :: string

definition newPageNav :: "int \<Rightarrow> int \<Rightarrow> int \<Rightarrow> string \<Rightarrow> pageNav" where
  "newPageNav page perPage rows basePath =
     (let pages0 = go_div (i64 (rows + perPage - 1)) perPage;
          pages = (if pages0 < 1 then 1 else pages0);
          p0 = (if page < 1 then 1 else page);
          p = (if p0 > pages then pages else p0)
      in \<lparr>CurrentPage = p, TotalPages = pages, HasPrev = p > 1, HasNext = p < pages,
          PrevPage = i64 (p - 1), NextPage = i64 (p + 1), BasePath = basePath\<rparr>)"

definition parsePage :: "string \<Rightarrow> int" where
  "parsePage q = (case ParseInt q of None \<Rightarrow> 1 | Some p \<Rightarrow> if p > 1 then p else 1)"

definition parseID :: "string \<Rightarrow> int option" where
  "parseID s = (case ParseInt s of None \<Rightarrow> None | Some v \<Rightarrow> if v \<le> 0 then None else Some v)"

section \<open>Answers\<close>

datatype 'a answer =
    Page 'a | BadRequest 'a | NotFound | InternalError | BadForm | Redirect string

record web_identity =
  idUser :: int
  idHandle :: string

text \<open>A lookup by the handler: what it found, or the answer that ends the request.\<close>

definition found :: "board_err \<Rightarrow> board_err + 'a \<Rightarrow> 'b answer + 'a" where
  "found missing r = (case r of Inr x \<Rightarrow> Inr x | Inl e \<Rightarrow> Inl (if e = missing then NotFound else InternalError))"

definition unread_or_0 :: "(board_err + (int \<Rightarrow> int option)) option \<Rightarrow> int \<Rightarrow> int" where
  "unread_or_0 u i = (case u of Some (Inr m) \<Rightarrow> (case m i of None \<Rightarrow> 0 | Some n \<Rightarrow> n) | _ \<Rightarrow> 0)"

section \<open>The list of forums\<close>

record forumListItem =
  liForum :: Forum
  liUnread :: int

definition boardsIndex ::
  "(string \<Rightarrow> int list) \<Rightarrow> web_identity option \<Rightarrow> board_db \<Rightarrow> forumListItem list answer \<times> board_db" where
  "boardsIndex coll who db =
     (case ListForums coll db of
        (Inl e, db1) \<Rightarrow> (InternalError, db1)
      | (Inr fs, db1) \<Rightarrow>
          (case (case who of None \<Rightarrow> (None, db1)
                 | Some w \<Rightarrow> (case UnreadCountsByForum (idUser w) db1 of (u, d) \<Rightarrow> (Some u, d))) of (u, db2) \<Rightarrow>
             (Page (map (\<lambda>f. \<lparr>liForum = f, liUnread = unread_or_0 u (forumID f)\<rparr>) fs), db2)))"

section \<open>A forum\<close>

record topicListItem =
  tiID :: int
  tiTitle :: string
  tiAuthor :: string
  tiPosts :: int
  tiLastPost :: int
  tiUnread :: int

record boardForumData =
  bfForum :: Forum
  bfTopics :: "topicListItem list"
  bfNav :: pageNav

definition topic_item :: "(board_err + (int \<Rightarrow> int option)) option \<Rightarrow> Topic \<Rightarrow> topicListItem" where
  "topic_item u t = \<lparr>tiID = tID t, tiTitle = tTitle t, tiAuthor = TopicAuthor t, tiPosts = PostCount t,
     tiLastPost = tLastPost t, tiUnread = unread_or_0 u (tID t)\<rparr>"

definition boardForum ::
  "string \<Rightarrow> string \<Rightarrow> web_identity option \<Rightarrow> board_db \<Rightarrow> boardForumData answer \<times> board_db" where
  "boardForum forumParam page who db =
     (case parseID forumParam of
        None \<Rightarrow> (NotFound, db)
      | Some fid \<Rightarrow>
          (case GetForum fid db of (r, db1) \<Rightarrow>
           case found ErrForumNotFound r of
             Inl a \<Rightarrow> (a, db1)
           | Inr forum \<Rightarrow>
               (let nav = newPageNav (parsePage page) topicsPerPage (TopicCount forum) (''/boards/'' @ Itoa fid);
                    offset = i32 ((CurrentPage nav - 1) * topicsPerPage)
                in case TopicsPage fid topicsPerPage offset db1 of
                     (Inl e, db2) \<Rightarrow> (InternalError, db2)
                   | (Inr ts, db2) \<Rightarrow>
                       (case (case who of None \<Rightarrow> (None, db2)
                              | Some w \<Rightarrow> (case UnreadTopicCounts (idUser w) fid db2 of (u, d) \<Rightarrow> (Some u, d))) of
                          (u, db3) \<Rightarrow>
                            (Page \<lparr>bfForum = forum, bfTopics = map (topic_item u) ts, bfNav = nav\<rparr>, db3)))))"

section \<open>A thread\<close>

record postItem =
  piAuthor :: string
  piBody :: string
  piCreated :: int
  piIsOP :: bool
  piSysop :: bool
  piEdited :: bool

record boardTopicData =
  btForum :: Forum
  btTopic :: Topic
  btPosts :: "postItem list"
  btNav :: pageNav
  btCanReply :: bool
  btNotice :: string

definition post_item :: "Topic \<Rightarrow> Post \<Rightarrow> postItem" where
  "post_item t p = \<lparr>piAuthor = PostAuthor p, piBody = pBody p, piCreated = pCreated p, piIsOP = (pCreator p = tCreator t),
     piSysop = AuthorIsSysop p, piEdited = (pEdited p \<noteq> None)\<rparr>"

definition topic_path :: "int \<Rightarrow> int \<Rightarrow> string" where
  "topic_path f t = ''/boards/'' @ Itoa f @ ''/'' @ Itoa t"

definition reply_notice :: "string \<Rightarrow> string" where
  "reply_notice err =
     (if err = ''empty'' then ''reply can't be empty''
      else if err = ''toolong'' then ''reply too long (4000 characters max)'' else [])"

definition boardTopic ::
  "string \<Rightarrow> string \<Rightarrow> string \<Rightarrow> string \<Rightarrow> web_identity option \<Rightarrow> int \<Rightarrow> board_db \<Rightarrow> boardTopicData answer \<times> board_db" where
  "boardTopic forumParam topicParam page err who now db =
     (case (parseID forumParam, parseID topicParam) of
        (Some fid, Some tid) \<Rightarrow>
          (case GetTopic tid db of (r, db1) \<Rightarrow>
           case found ErrTopicNotFound r of
             Inl a \<Rightarrow> (a, db1)
           | Inr topic \<Rightarrow>
               if tForum topic \<noteq> fid then (NotFound, db1)
               else (case GetForum fid db1 of (r2, db2) \<Rightarrow>
                     case found ErrForumNotFound r2 of
                       Inl a \<Rightarrow> (a, db2)
                     | Inr forum \<Rightarrow>
                         (let nav = newPageNav (parsePage page) postsPerPage (PostCount topic) (topic_path fid tid);
                              offset = i32 ((CurrentPage nav - 1) * postsPerPage)
                          in case PostsPage tid postsPerPage offset db2 of
                               (Inl e, db3) \<Rightarrow> (InternalError, db3)
                             | (Inr ps, db3) \<Rightarrow>
                                 (Page \<lparr>btForum = forum, btTopic = topic, btPosts = map (post_item topic) ps, btNav = nav,
                                        btCanReply = (who \<noteq> None), btNotice = reply_notice err\<rparr>,
                                  (case who of None \<Rightarrow> db3 | Some w \<Rightarrow> snd (TouchTopicRead (idUser w) tid now db3))))))
      | _ \<Rightarrow> (NotFound, db))"

section \<open>The forms\<close>

datatype new_form = Form Forum string string string \<comment> \<open>forum, title, body, error\<close>

definition boardNewGet :: "string \<Rightarrow> web_identity option \<Rightarrow> board_db \<Rightarrow> new_form answer \<times> board_db" where
  "boardNewGet forumParam who db =
     (case who of
        None \<Rightarrow> (Redirect ''/login'', db)
      | Some w \<Rightarrow>
          (case parseID forumParam of
             None \<Rightarrow> (NotFound, db)
           | Some fid \<Rightarrow>
               (case GetForum fid db of (r, db1) \<Rightarrow>
                case found ErrForumNotFound r of
                  Inl a \<Rightarrow> (a, db1) | Inr forum \<Rightarrow> (Page (Form forum [] [] []), db1))))"

text \<open>The form values are \<open>None\<close> when the request's form does not parse.\<close>

definition boardNewPost ::
  "string \<Rightarrow> (string \<times> string) option \<Rightarrow> web_identity option \<Rightarrow> int \<Rightarrow> board_db \<Rightarrow> new_form answer \<times> board_db" where
  "boardNewPost forumParam form who now db =
     (case who of
        None \<Rightarrow> (Redirect ''/login'', db)
      | Some w \<Rightarrow>
          (case parseID forumParam of
             None \<Rightarrow> (NotFound, db)
           | Some f \<Rightarrow>
               (case GetForum f db of (r, db1) \<Rightarrow>
                case found ErrForumNotFound r of
                  Inl a \<Rightarrow> (a, db1)
                | Inr forum \<Rightarrow>
                    (case form of
                       None \<Rightarrow> (BadForm, db1)
                     | Some (rawTitle, rawBody) \<Rightarrow>
                         (let title = TrimSpace rawTitle; body = TrimSpace rawBody;
                              reRender = (\<lambda>msg. BadRequest (Form forum title body msg))
                          in if title = [] then (reRender ''title is required'', db1)
                             else if utf8_length title > boardTitleMax
                               then (reRender ''title too long (120 characters max)'', db1)
                             else if body = [] then (reRender ''post body is required'', db1)
                             else if utf8_length body > boardBodyMax
                               then (reRender ''post too long (4000 characters max)'', db1)
                             else (case CreateTopic f (idUser w) (idHandle w) title body now db1 of
                                 ((Some t, None), db2) \<Rightarrow> (Redirect (topic_path f (tID t)), db2)
                               | (_, db2) \<Rightarrow> (reRender (''could not create topic '' @ map char_of [226 :: nat, 128, 148] @ '' try again''), db2)))))))"

definition boardReplyPost ::
  "string \<Rightarrow> string \<Rightarrow> string option \<Rightarrow> web_identity option \<Rightarrow> int \<Rightarrow> board_db \<Rightarrow> unit answer \<times> board_db" where
  "boardReplyPost forumParam topicParam form who now db =
     (case who of
        None \<Rightarrow> (Redirect ''/login'', db)
      | Some w \<Rightarrow>
          (case (parseID forumParam, parseID topicParam) of
             (Some f, Some t) \<Rightarrow>
               (case GetTopic t db of (r, db1) \<Rightarrow>
                case found ErrTopicNotFound r of
                  Inl a \<Rightarrow> (a, db1)
                | Inr topic \<Rightarrow>
                    if tForum topic \<noteq> f then (NotFound, db1)
                    else (case form of
                       None \<Rightarrow> (BadForm, db1)
                     | Some raw \<Rightarrow>
                         (let body = TrimSpace raw
                          in if body = [] then (Redirect (topic_path f t @ ''?err=empty''), db1)
                             else if utf8_length body > boardBodyMax
                               then (Redirect (topic_path f t @ ''?err=toolong''), db1)
                             else (case Reply f t (idUser w) body now db1 of
                                 ((_, Some e), db2) \<Rightarrow> (InternalError, db2)
                               | ((_, None), db2) \<Rightarrow>
                                   (let last = go_div (i64 (PostCount topic + 1 + postsPerPage - 1)) postsPerPage
                                    in (Redirect (topic_path f t @ ''?page='' @ Itoa (if last < 1 then 1 else last)), db2))))))
           | _ \<Rightarrow> (NotFound, db)))"

section \<open>Paging\<close>

lemma concat_pages:
  "0 < k \<Longrightarrow> concat (map (\<lambda>p. take k (drop (p * k) xs)) [0..<n]) = take (n * k) xs"
proof (induction n)
  case (Suc n)
  have "take (Suc n * k) xs = take (n * k) xs @ take k (drop (n * k) xs)"
    by (simp add: take_add add.commute [of k])
  with Suc show ?case by simp
qed simp

text \<open>The number of pages for so many rows, and the page that a query shows.\<close>

definition pages :: "int \<Rightarrow> int \<Rightarrow> int" where
  "pages rows perPage = max 1 ((rows + perPage - 1) div perPage)"

lemma newPageNav_page:
  assumes "0 \<le> rows" "rows < 2 ^ 31" "0 < perPage" "perPage < 100"
  shows "TotalPages (newPageNav p perPage rows path) = pages rows perPage"
    and "CurrentPage (newPageNav p perPage rows path) = min (max 1 p) (pages rows perPage)"
    and "HasNext (newPageNav p perPage rows path) \<longleftrightarrow> max 1 p < pages rows perPage"
proof -
  have "i64 (rows + perPage - 1) = rows + perPage - 1" using assms by (intro i64_id) auto
  then have d: "go_div (i64 (rows + perPage - 1)) perPage = (rows + perPage - 1) div perPage"
    using assms by (simp add: go_div_nonneg)
  show "TotalPages (newPageNav p perPage rows path) = pages rows perPage"
    and "CurrentPage (newPageNav p perPage rows path) = min (max 1 p) (pages rows perPage)"
    and "HasNext (newPageNav p perPage rows path) \<longleftrightarrow> max 1 p < pages rows perPage"
    by (auto simp: newPageNav_def d pages_def Let_def)
qed

lemma parsePage_ge: "1 \<le> parsePage q"
  by (simp add: parsePage_def split: option.split)

lemma parsePage_Itoa: "1 \<le> p \<Longrightarrow> p < 2 ^ 63 \<Longrightarrow> parsePage (Itoa p) = p"
  by (simp add: parsePage_def ParseInt_Itoa)

lemma parseID_Itoa: "0 < i \<Longrightarrow> i < 2 ^ 63 \<Longrightarrow> parseID (Itoa i) = Some i"
  by (simp add: parseID_def ParseInt_Itoa)

lemma pages_bound: "0 \<le> rows \<Longrightarrow> rows < 2 ^ 31 \<Longrightarrow> 0 < k \<Longrightarrow> (pages rows k - 1) * k \<le> rows"
proof -
  assume "0 \<le> rows" "0 < k"
  moreover have "(rows + k - 1) div k * k \<le> rows + k - 1"
    using div_mult_mod_eq [of "rows + k - 1" k] pos_mod_sign [OF \<open>0 < k\<close>, of "rows + k - 1"] by linarith
  ultimately show ?thesis by (auto simp: pages_def max_def algebra_simps)
qed

section \<open>What the pages show\<close>

definition board_works :: "board_db \<Rightarrow> bool" where
  "board_works db \<longleftrightarrow> (\<forall>n. \<not> bFails db n)"

lemma works_simps [simp]:
  "board_works db \<Longrightarrow> bstatement f db = f (btick db)" "board_works db \<Longrightarrow> breading g db = (g (btick db), btick db)"
  "board_works (btick db) = board_works db"
  by (simp_all add: board_works_def bstatement_def breading_def)

lemma btick_joins [simp]: "counted_topic (btick db) = counted_topic db" "with_poster (btick db) = with_poster db"
  by (simp_all add: counted_topic_def with_poster_def fun_eq_iff)

lemma btick_views [simp]:
  "by_activity f (btick db) = by_activity f db" "thread t (btick db) = thread t db" "latest_id t (btick db) = latest_id t db"
  "unread_in w t (btick db) = unread_in w t db" "read_upto w t (btick db) = read_upto w t db"
  by (simp_all add: by_activity_def thread_def latest_id_def unread_in_def read_upto_def)

definition topics_shown :: "boardForumData answer \<Rightarrow> int list" where
  "topics_shown a = (case a of Page d \<Rightarrow> map tiID (bfTopics d) | _ \<Rightarrow> [])"

lemma tiID_topic_item [simp]: "tiID (topic_item u t) = tID t"
  by (simp add: topic_item_def)

lemma boardForum_shows:
  assumes "board_works db" and "find (\<lambda>x. fID x = f) (forums db) = Some r" and "parseID fp = Some f"
    and "0 \<le> fTopicCount r" "fTopicCount r < 2 ^ 31"
  shows "topics_shown (fst (boardForum fp q who db))
      = map tID (take 25 (drop (25 * nat (min (parsePage q) (pages (fTopicCount r) 25) - 1)) (by_activity f db)))"
proof -
  let ?p = "min (parsePage q) (pages (fTopicCount r) 25)"
  have p: "CurrentPage (newPageNav (parsePage q) topicsPerPage (fTopicCount r) path) = ?p" for path
    using newPageNav_page(2) [of "fTopicCount r" topicsPerPage "parsePage q" path] assms(4,5) parsePage_ge [of q]
    by (simp add: topicsPerPage_def)
  have one: "1 \<le> ?p" using parsePage_ge [of q] by (simp add: pages_def)
  have "(pages (fTopicCount r) 25 - 1) * 25 \<le> fTopicCount r" using assms(4,5) by (intro pages_bound) auto
  moreover have "(?p - 1) * 25 \<le> (pages (fTopicCount r) 25 - 1) * 25" by (rule mult_right_mono) auto
  ultimately have "(?p - 1) * 25 \<le> fTopicCount r" by (rule order_trans [rotated])
  with one have off: "i32 ((?p - 1) * topicsPerPage) = (?p - 1) * 25" using assms(5)
    by (simp add: topicsPerPage_def i32_id)
  have get: "GetForum f db = (Inr (mapForum r), btick db)"
    using assms(1,2) by (simp add: GetForum_def GetForumByID_def or_missing_def)
  have page: "TopicsPage f topicsPerPage ((?p - 1) * 25) (btick db)
      = (Inr (take 25 (drop (nat ((?p - 1) * 25)) (by_activity f db))), btick (btick db))"
    using assms(1) one by (simp add: TopicsPage_def ListTopicsInForumPaged_def or_missing_def topicsPerPage_def not_less)
  have "nat ((?p - 1) * 25) = 25 * nat (?p - 1)" using one by (simp add: nat_mult_distrib)
  with get page show ?thesis
    unfolding boardForum_def assms(3)
    by (cases who)
      (simp_all add: found_def Let_def mapForum_def p off topics_shown_def o_def split: prod.split)
qed

lemma by_activity_ids:
  assumes "board_ok db"
  shows "map tID (by_activity f db) = map tID (rev (sort_key tLastPost (topics_of f db)))"
proof -
  have "map tID (List.map_filter (counted_topic db) ts) = map tID ts" if "\<forall>t \<in> set ts. board_user db (tCreator t) \<noteq> None" for ts
    using that by (induction ts) (auto simp: map_filter_simps counted_topic_def topic.defs)
  moreover have "\<forall>t \<in> set (rev (sort_key tLastPost (topics_of f db))). board_user db (tCreator t) \<noteq> None"
    using assms by (auto simp: board_ok_def topic_ok_def topics_of_def)
  ultimately show ?thesis by (simp add: by_activity_def)
qed


text \<open>
  When the counter is behind, because one increment failed, the topics beyond the pages that it
  yields are on no page at all, whatever page is asked for.
\<close>

theorem stale_counter_hides_topics:
  assumes "board_works db" and "board_ok db" and "find (\<lambda>x. fID x = f) (forums db) = Some r" and "0 < f" "f < 2 ^ 63"
    and "fTopicCount r < 2 ^ 31" and "25 * pages (fTopicCount r) 25 < int (length (topics_of f db))"
  shows "\<exists>t \<in> set (topics_of f db). \<forall>q who. tID t \<notin> set (topics_shown (fst (boardForum (Itoa f) q who db)))"
proof -
  let ?n = "nat (pages (fTopicCount r) 25)" and ?ids = "map tID (rev (sort_key tLastPost (topics_of f db)))"
  have c: "0 \<le> fTopicCount r" using assms(2,3) by (auto simp: board_ok_def forum_ok_def find_Some_iff)
  have dist: "distinct ?ids" using assms(2) by (auto simp: board_ok_def topics_of_def distinct_map intro: inj_on_subset)
  have n: "25 * ?n < length ?ids" using assms(7) by (simp add: pages_def)
  have shown: "set (topics_shown (fst (boardForum (Itoa f) q who db))) \<subseteq> set (take (25 * ?n) ?ids)" for q who
  proof -
    let ?k = "nat (min (parsePage q) (pages (fTopicCount r) 25) - 1)"
    have "1 \<le> pages (fTopicCount r) 25" by (simp add: pages_def)
    then have k: "?k + 1 \<le> ?n" using parsePage_ge [of q] by linarith
    have "topics_shown (fst (boardForum (Itoa f) q who db)) = take 25 (drop (25 * ?k) ?ids)"
      using boardForum_shows [OF assms(1,3) parseID_Itoa [OF assms(4,5)] c assms(6), of q who] by_activity_ids [OF assms(2), of f]
      by (metis drop_map take_map)
    also have "\<dots> = drop (25 * ?k) (take (25 * (?k + 1)) ?ids)" by (simp add: take_drop add.commute)
    finally have "set (topics_shown (fst (boardForum (Itoa f) q who db))) \<subseteq> set (take (25 * (?k + 1)) ?ids)"
      using set_drop_subset by metis
    also have "\<dots> \<subseteq> set (take (25 * ?n) ?ids)" using k by (intro set_take_subset_set_take) simp
    finally show ?thesis .
  qed
  have "?ids ! (25 * ?n) \<notin> set (take (25 * ?n) ?ids)"
    using set_take_disj_set_drop_if_distinct [OF dist, of "25 * ?n" "25 * ?n"] Cons_nth_drop_Suc [OF n]
    by (metis disjoint_iff list.set_intros(1) order_refl)
  moreover have "?ids ! (25 * ?n) \<in> set ?ids" using n by (rule nth_mem)
  then obtain t where "t \<in> set (topics_of f db)" "tID t = ?ids ! (25 * ?n)" by auto
  ultimately show ?thesis using shown by (intro bexI [of _ t]) auto
qed

section \<open>A thread has one page\<close>

definition posts_shown :: "boardTopicData answer \<Rightarrow> postItem list" where
  "posts_shown a = (case a of Page d \<Rightarrow> btPosts d | _ \<Rightarrow> [])"

lemma TouchTopicRead_works:
  assumes "board_works db" and "board_user db w \<noteq> None" and "list_ex (\<lambda>x. tID x = t) (topics db)"
  shows "fst (TouchTopicRead w t now db) = None"
  using assms
  by (auto simp: TouchTopicRead_def LatestPostInTopic_def UpsertPostRead_def split: option.splits prod.splits)

lemma read_nothing_new:
  assumes "board_ok db" and "TouchTopicRead w t now db = (None, db1)"
  shows "unread_in w t db1 = 0"
proof -
  have latest: "0 \<le> latest_id t db" using latest_id_bound [OF assms(1)] by auto
  note marked = marked_upto [OF assms(2) latest]
  have "pID p \<le> latest_id t db" if "p \<in> set (posts_of t db)" for p
    using that largest_in [of "map pID (posts_of t db)"]
    by (cases "largest (map pID (posts_of t db))") (auto simp: latest_id_def largest_def split: list.splits)
  then have "\<forall>p \<in> set (posts_of t db). \<not> pID p > read_upto w t db1" using marked(1) by fastforce
  then have "filter (\<lambda>p. pID p > read_upto w t db1) (posts_of t db) = []" by (simp add: filter_empty_conv)
  then show ?thesis using marked(3) by (simp add: unread_in_def posts_of_def)
qed

lemma one_page: "newPageNav (parsePage q) postsPerPage 0 path
    = \<lparr>CurrentPage = 1, TotalPages = 1, HasPrev = False, HasNext = False, PrevPage = 0, NextPage = 2, BasePath = path\<rparr>"
  using parsePage_ge [of q] by (auto simp: newPageNav_def postsPerPage_def i64_def go_div_def Let_def)

lemma Reply_works:
  assumes "board_works db" and "board_user db w = Some x" and "list_ex (\<lambda>x. tID x = t) (topics db)"
  shows "snd (fst (Reply f t w body now db)) = None"
    and "posts (snd (Reply f t w body now db)) = posts db
      @ [\<lparr>pID = nextPost db, pTopic = t, pParent = None, pBody = body, pCreator = w, pCreated = now, pEdited = None\<rparr>]"
  using assms
  by (simp_all add: Reply_def CreatePost_def TouchTopicLastPost_def TouchForumLastActivity_def Let_def bstatement_def
      board_works_def)

text \<open>
  C25: The page numbers of a thread come from a post count that \<open>GetTopic\<close> never sets.  A thread of any length has one
  page: whatever page is asked for shows the first twenty posts, without a link to more; a
  signed-in reader has then read all of them, the unseen ones included; and after a reply, which
  is stored behind them, the redirect leads to page one again.
\<close>

theorem long_thread_cut_off:
  assumes "board_works db" and "board_ok db" and "find (\<lambda>x. tID x = t) (topics db) = Some row" and "0 < t" "t < 2 ^ 63"
    and "f = tForum row" "0 < f" "f < 2 ^ 63" and "board_user db (idUser w) \<noteq> None"
    and "TrimSpace raw \<noteq> []" "utf8_length (TrimSpace raw) \<le> 4000"
  shows "(\<exists>d. fst (boardTopic (Itoa f) (Itoa t) q err (Some w) now db) = Page d
        \<and> btPosts d = map (post_item (topic.extend row \<lparr>TopicAuthor = [], PostCount = 0\<rparr>)) (take 20 (thread t db))
        \<and> \<not> HasNext (btNav d) \<and> \<not> HasPrev (btNav d))
    \<and> unread_in (idUser w) t (snd (boardTopic (Itoa f) (Itoa t) q err (Some w) now db)) = 0
    \<and> fst (boardReplyPost (Itoa f) (Itoa t) (Some raw) (Some w) now db) = Redirect (topic_path f t @ ''?page=1'')
    \<and> (\<exists>p. posts (snd (boardReplyPost (Itoa f) (Itoa t) (Some raw) (Some w) now db)) = posts db @ [p]
          \<and> pTopic p = t \<and> pBody p = TrimSpace raw \<and> pCreator p = idUser w)"
proof -
  let ?T = "topic.extend row \<lparr>TopicAuthor = [], PostCount = 0\<rparr>"
  have row: "row \<in> set (topics db)" "tID row = t" using assms(3) by (auto simp: find_Some_iff)
  have ids: "parseID (Itoa f) = Some f" "parseID (Itoa t) = Some t" using assms(4-8) parseID_Itoa by auto
  have get: "GetTopic t db = (Inr ?T, btick db)"
    using assms(1,3) by (simp add: GetTopic_def GetTopicByID_def or_missing_def)
  have T: "tForum ?T = f" "PostCount ?T = 0" using assms(6) by (simp_all add: topic.defs)
  obtain r where r: "find (\<lambda>x. fID x = f) (forums db) = Some r"
    using assms(2,6) row(1) by (fastforce simp: board_ok_def topic_ok_def dest: find_None_iff [THEN iffD1]) 
  have getf: "GetForum f (btick db) = (Inr (mapForum r), btick (btick db))"
    using assms(1) r by (simp add: GetForum_def GetForumByID_def or_missing_def)
  have page: "PostsPage t postsPerPage (i32 0) (btick (btick db)) = (Inr (take 20 (thread t db)), btick (btick (btick db)))"
    using assms(1) by (simp add: PostsPage_def ListPostsInTopicPaged_def or_missing_def postsPerPage_def i32_def)
  let ?db3 = "btick (btick (btick db))"
  have ok3: "board_ok ?db3" using assms(2) board_sound_btick by (simp add: board_sound_def)
  have "fst (TouchTopicRead (idUser w) t now ?db3) = None"
    using assms(1,9) row by (intro TouchTopicRead_works) (auto simp: list_ex_iff)
  then obtain db4 where db4: "TouchTopicRead (idUser w) t now ?db3 = (None, db4)" by (metis prod.collapse)
  have view: "boardTopic (Itoa f) (Itoa t) q err (Some w) now db =
      (Page \<lparr>btForum = mapForum r, btTopic = ?T, btPosts = map (post_item ?T) (take 20 (thread t db)),
             btNav = newPageNav (parsePage q) postsPerPage 0 (topic_path f t), btCanReply = True, btNotice = reply_notice err\<rparr>, db4)"
    unfolding boardTopic_def ids using get getf page db4 T by (simp add: found_def Let_def one_page)
  obtain v e d where reply: "Reply f t (idUser w) (TrimSpace raw) now (btick db) = ((v, e), d)" by (metis prod.collapse)
  obtain x where "board_user (btick db) (idUser w) = Some x" using assms(9) by auto
  moreover have "list_ex (\<lambda>x. tID x = t) (topics (btick db))" using row by (auto simp: list_ex_iff)
  ultimately have works: "e = None" "posts d = posts (btick db) @ [\<lparr>pID = nextPost (btick db), pTopic = t, pParent = None,
      pBody = TrimSpace raw, pCreator = idUser w, pCreated = now, pEdited = None\<rparr>]"
    using Reply_works [of "btick db" "idUser w" x t f "TrimSpace raw" now] assms(1) reply by simp_all
  have d: "e = None" "\<exists>p. posts d = posts db @ [p] \<and> pTopic p = t \<and> pBody p = TrimSpace raw \<and> pCreator p = idUser w"
    using works by simp_all
  have one: "Itoa 1 = ''1''" by code_simp
  have "boardReplyPost (Itoa f) (Itoa t) (Some raw) (Some w) now db = (Redirect (topic_path f t @ ''?page=1''), d)"
    unfolding boardReplyPost_def ids using get T reply d(1) assms(10,11)
    by (simp add: found_def Let_def boardBodyMax_def postsPerPage_def i64_def go_div_def one)
  then show ?thesis using view d(2) read_nothing_new [OF ok3 db4] by (simp add: one_page)
qed

section \<open>Witnesses\<close>

lemma demo_works [simp]: "board_works demo_board"
  by (simp add: board_works_def demo_board_def)


definition crowded_board :: board_db where
  "crowded_board = demo_board\<lparr>
     forums := [\<lparr>fID = 1, fName = ''General'', fDescription = None, fSortOrder = 0, fTopicCount = 25, fLastActivity = Some 20\<rparr>],
     topics := map (\<lambda>i. \<lparr>tID = int i, tForum = 1, tTitle = ''t'', tCreator = 3, tCreated = int i, tLastPost = int i\<rparr>) [1..<27],
     nextTopic := 27\<rparr>"

lemma crowded_ok: "board_ok crowded_board" "board_works crowded_board"
proof -
  have len: "length (topics_of 1 crowded_board) = 26" by (simp add: crowded_board_def topics_of_def filter_map o_def)
  have ids: "map tID (topics crowded_board) = map int [1..<27]" by (simp add: crowded_board_def o_def)
  have t: "tForum t = 1 \<and> tCreator t = 3 \<and> tID t < 27" if "t \<in> set (topics crowded_board)" for t
    using that by (auto simp: crowded_board_def)
  have "1 \<in> set (map int [1..<27])" by simp
  then have "1 \<in> tID ` set (topics crowded_board)" using ids by (metis list.set_map)
  moreover have "forums crowded_board = [\<lparr>fID = 1, fName = ''General'', fDescription = None, fSortOrder = 0,
      fTopicCount = 25, fLastActivity = Some 20\<rparr>]" "posts crowded_board = posts demo_board" "nextPost crowded_board = 3"
      "nextTopic crowded_board = 27" "nextForum crowded_board = 2" "reads crowded_board = (\<lambda>k. None)"
      "board_user crowded_board = board_user demo_board"
    by (simp_all add: crowded_board_def demo_board_def board_user_def fun_eq_iff)
  moreover have "board_user demo_board 3 \<noteq> None" "distinct (map int [1..<27])"
    by (simp_all add: demo_board_def board_user_def board_users_def distinct_map inj_on_def)
  moreover have "distinct (map pID (posts demo_board))"
      "\<forall>p \<in> set (posts demo_board). 0 < pID p \<and> pID p < 3 \<and> pTopic p = 1 \<and> pCreator p = 3 \<and> pParent p = None"
    by (simp_all add: demo_board_def)
  ultimately show "board_ok crowded_board"
    using len ids t by (simp add: board_ok_def row_ok_defs)
  show "board_works crowded_board" by (simp add: crowded_board_def board_works_def demo_board_def)
qed

lemma stale_counter_hides_topics_witness:
  "\<exists>t \<in> set (topics crowded_board). tID t \<notin> set (topics_shown (fst (boardForum (Itoa 1) ''2'' None crowded_board)))
     \<and> tID t \<notin> set (topics_shown (fst (boardForum (Itoa 1) [] None crowded_board)))"
proof -
  let ?r = "hd (forums crowded_board)"
  have r: "find (\<lambda>x. fID x = 1) (forums crowded_board) = Some ?r" "fTopicCount ?r = 25"
    "length (topics_of 1 crowded_board) = 26" "topics_of 1 crowded_board = topics crowded_board"
    by (simp_all add: crowded_board_def topics_of_def filter_map o_def)
  have "pages 25 25 = 1" by (simp add: pages_def)
  then show ?thesis
    using stale_counter_hides_topics [OF crowded_ok(2,1) r(1)] r(2-4) by fastforce
qed

lemma long_thread_cut_off_witness:
  "\<exists>d. fst (boardTopic ''1'' ''1'' ''7'' [] (Some \<lparr>idUser = 3, idHandle = ''ann''\<rparr>) 50 demo_board) = Page d
     \<and> \<not> HasNext (btNav d) \<and> length (btPosts d) = 2"
proof -
  let ?w = "\<lparr>idUser = 3, idHandle = ''ann''\<rparr>" and ?row = "hd (topics demo_board)"
  have one: "Itoa 1 = ''1''" by code_simp
  have h: "find (\<lambda>x. tID x = 1) (topics demo_board) = Some ?row" "tForum ?row = 1" "board_user demo_board (idUser ?w) \<noteq> None"
    "length (thread 1 demo_board) = 2"
    by (simp_all add: demo_board_def board_user_def board_users_def thread_def posts_of_def with_poster_def map_filter_simps)
  have hi: "TrimSpace ''hi'' = ''hi''" by (rule TrimSpace_plain) code_simp+
  then have b: "TrimSpace ''hi'' \<noteq> []" "utf8_length (TrimSpace ''hi'') \<le> 4000" by (simp_all add: utf8_length_def)
  from long_thread_cut_off [OF demo_works demo_board_ok h(1) _ _ h(2) [symmetric] _ _ h(3) b, of "''7''" "[]" 50] h(4)
  show ?thesis unfolding one by fastforce
qed

end
