(* ===== verification/WebSessions.thy ===== *)
theory WebSessions
  imports GoConv "HOL-Library.Option_ord"
begin

text \<open>
  The sessions of the web (\<^verbatim>\<open>src/internal/web/sessions.go\<close>): a hash per session and a set of sessions per
  user in Redis, both with a time to live that every use renews.  An operation reads, and then sends
  commands; \<open>up\<close> says which of its calls succeed, counted from 0.  When requests run in parallel, a
  transaction is one step and every command of a pipeline is a step of its own.  The random session
  ID is an argument; times are seconds.
\<close>

section \<open>Redis\<close>

text \<open>A key with its deadline, \<open>None\<close> when it has none.\<close>

record web_redis =
  hashes :: "string \<Rightarrow> ((string \<Rightarrow> string option) \<times> int option) option" \<comment> \<open>\<open>web:session:\<close> and the ID\<close>
  sets :: "int \<Rightarrow> (string list \<times> int option) option" \<comment> \<open>\<open>web:user:\<close> and the user\<close>
  clock :: int

definition before_deadline :: "web_redis \<Rightarrow> int option \<Rightarrow> bool" where
  "before_deadline s e = (case e of None \<Rightarrow> True | Some t \<Rightarrow> clock s < t)"

definition HGetAll :: "string \<Rightarrow> web_redis \<Rightarrow> (string \<Rightarrow> string option) option" where
  "HGetAll sid s = (case hashes s sid of None \<Rightarrow> None | Some (h, e) \<Rightarrow> if before_deadline s e then Some h else None)"

definition HGet :: "string \<Rightarrow> string \<Rightarrow> web_redis \<Rightarrow> string option" where
  "HGet sid f s = (case HGetAll sid s of None \<Rightarrow> None | Some h \<Rightarrow> h f)"

definition HSet :: "string \<Rightarrow> (string \<times> string) list \<Rightarrow> web_redis \<Rightarrow> web_redis" where
  "HSet sid kvs s = s\<lparr>hashes := (hashes s)(sid :=
     (case HGetAll sid s of
        None \<Rightarrow> Some (map_of kvs, None)
      | Some h \<Rightarrow> Some (h ++ map_of kvs, snd (the (hashes s sid)))))\<rparr>"

definition ExpireHash :: "string \<Rightarrow> int \<Rightarrow> web_redis \<Rightarrow> web_redis" where
  "ExpireHash sid ttl s =
     (case HGetAll sid s of None \<Rightarrow> s | Some h \<Rightarrow> s\<lparr>hashes := (hashes s)(sid := Some (h, Some (clock s + ttl)))\<rparr>)"

definition DelHash :: "string \<Rightarrow> web_redis \<Rightarrow> web_redis" where
  "DelHash sid s = s\<lparr>hashes := (hashes s)(sid := None)\<rparr>"

definition live_set :: "int \<Rightarrow> web_redis \<Rightarrow> (string list \<times> int option) option" where
  "live_set u s = (case sets s u of None \<Rightarrow> None | Some (m, e) \<Rightarrow> if before_deadline s e then Some (m, e) else None)"

definition SMembers :: "int \<Rightarrow> web_redis \<Rightarrow> string list" where
  "SMembers u s = (case live_set u s of None \<Rightarrow> [] | Some (m, e) \<Rightarrow> m)"

definition SAdd :: "int \<Rightarrow> string \<Rightarrow> web_redis \<Rightarrow> web_redis" where
  "SAdd u sid s = s\<lparr>sets := (sets s)(u :=
     (case live_set u s of None \<Rightarrow> Some ([sid], None) | Some (m, e) \<Rightarrow> Some (List.insert sid m, e)))\<rparr>"

definition SRem :: "int \<Rightarrow> string \<Rightarrow> web_redis \<Rightarrow> web_redis" where
  "SRem u sid s = s\<lparr>sets := (sets s)(u :=
     (case live_set u s of None \<Rightarrow> None
      | Some (m, e) \<Rightarrow> if removeAll sid m = [] then None else Some (removeAll sid m, e)))\<rparr>"

definition ExpireSet :: "int \<Rightarrow> int \<Rightarrow> web_redis \<Rightarrow> web_redis" where
  "ExpireSet u ttl s =
     (case live_set u s of None \<Rightarrow> s | Some (m, e) \<Rightarrow> s\<lparr>sets := (sets s)(u := Some (m, Some (clock s + ttl)))\<rparr>)"

definition DelSet :: "int \<Rightarrow> web_redis \<Rightarrow> web_redis" where
  "DelSet u s = s\<lparr>sets := (sets s)(u := None)\<rparr>"

datatype session_cmd =
    CSeen string string | CExpireHash string | CExpireSet int | CDelHashes "string list" | CDelSet int | CSRem int string

fun run_cmd :: "int \<Rightarrow> session_cmd \<Rightarrow> web_redis \<Rightarrow> web_redis" where
  "run_cmd ttl (CSeen sid t) s = HSet sid [(''seen'', t)] s"
| "run_cmd ttl (CExpireHash sid) s = ExpireHash sid ttl s"
| "run_cmd ttl (CExpireSet u) s = ExpireSet u ttl s"
| "run_cmd ttl (CDelHashes sids) s = fold DelHash sids s"
| "run_cmd ttl (CDelSet u) s = DelSet u s"
| "run_cmd ttl (CSRem u sid) s = SRem u sid s"

section \<open>The session store\<close>

definition newSessionStore :: "int \<Rightarrow> int" where
  "newSessionStore timeout = (if timeout = 0 then 30 * 24 * 3600 else timeout)"

text \<open>\<open>truncate\<close> cuts bytes; \<open>remoteIP\<close> cuts what follows the last colon unless that is at the front.\<close>

definition truncate :: "string \<Rightarrow> nat \<Rightarrow> string" where
  "truncate s n = (if length s \<le> n then s else take n s)"

definition remoteIP :: "string \<Rightarrow> string" where
  "remoteIP addr =
     (let tail = takeWhile (\<lambda>c. c \<noteq> CHR '':'') (rev addr); i = int (length addr) - int (length tail) - 1
      in if i > 0 then take (nat i) addr else addr)"

text \<open>The transaction of a login, with the browser's name and address.\<close>

definition Set_tx :: "int \<Rightarrow> string \<Rightarrow> int \<Rightarrow> string \<Rightarrow> string \<Rightarrow> web_redis \<Rightarrow> web_redis" where
  "Set_tx ttl sid u agent addr s =
     (let now = Itoa (clock s)
      in ExpireSet u ttl (SAdd u sid (ExpireHash sid ttl
           (HSet sid [(''uid'', Itoa u), (''ua'', truncate agent 200), (''ip'', remoteIP addr), (''ts'', now), (''seen'', now)] s))))"

text \<open>A login: the ID minted (\<open>None\<close> when the random source fails) is the cookie's value.\<close>

definition SetSession ::
  "int \<Rightarrow> (nat \<Rightarrow> bool) \<Rightarrow> string option \<Rightarrow> int \<Rightarrow> string \<Rightarrow> string \<Rightarrow> web_redis \<Rightarrow> string option \<times> web_redis" where
  "SetSession ttl up minted u agent addr s =
     (case minted of
        None \<Rightarrow> (None, s)
      | Some sid \<Rightarrow> if up 0 then (Some sid, Set_tx ttl sid u agent addr s) else (None, s))"

text \<open>A pipeline, and whether it was executed.\<close>

definition Exec :: "int \<Rightarrow> bool \<Rightarrow> session_cmd list \<Rightarrow> web_redis \<Rightarrow> bool \<times> web_redis" where
  "Exec ttl okay cmds s = (if okay then (True, fold (run_cmd ttl) cmds s) else (False, s))"

text \<open>The user a session ID stands for.\<close>

definition session_user :: "string \<Rightarrow> web_redis \<Rightarrow> int option" where
  "session_user sid s = (case HGet sid ''uid'' s of None \<Rightarrow> None | Some raw \<Rightarrow> ParseInt raw)"

definition read_cmds :: "string \<Rightarrow> int \<Rightarrow> web_redis \<Rightarrow> session_cmd list" where
  "read_cmds sid u s = [CSeen sid (Itoa (clock s)), CExpireHash sid, CExpireSet u]"

definition ReadSession :: "int \<Rightarrow> (nat \<Rightarrow> bool) \<Rightarrow> string option \<Rightarrow> web_redis \<Rightarrow> int option \<times> web_redis" where
  "ReadSession ttl up cookie s =
     (case cookie of
        None \<Rightarrow> (None, s)
      | Some sid \<Rightarrow>
          if sid = [] \<or> \<not> up 0 then (None, s)
          else (case session_user sid s of
                  None \<Rightarrow> (None, s)
                | Some u \<Rightarrow> (Some u, snd (Exec ttl (up 1) (read_cmds sid u s) s))))"

definition CurrentSID :: "string option \<Rightarrow> string" where
  "CurrentSID cookie = (case cookie of None \<Rightarrow> [] | Some sid \<Rightarrow> sid)"

text \<open>The commands after the first call, whose result is \<open>None\<close> also when it failed.\<close>

definition clear_cmds :: "string \<Rightarrow> string option \<Rightarrow> session_cmd list" where
  "clear_cmds sid got =
     (case got of
        None \<Rightarrow> [CDelHashes [sid]]
      | Some raw \<Rightarrow> (case ParseInt raw of None \<Rightarrow> [] | Some u \<Rightarrow> [CDelHashes [sid], CSRem u sid]))"

definition ClearSession :: "int \<Rightarrow> (nat \<Rightarrow> bool) \<Rightarrow> string option \<Rightarrow> web_redis \<Rightarrow> web_redis" where
  "ClearSession ttl up cookie s =
     (case cookie of
        None \<Rightarrow> s
      | Some sid \<Rightarrow>
          if sid = [] then s
          else snd (Exec ttl (up 1) (clear_cmds sid (if up 0 then HGet sid ''uid'' s else None)) s))"

definition clear_all_cmds :: "int \<Rightarrow> string list \<Rightarrow> session_cmd list" where
  "clear_all_cmds u sids = (if sids = [] then [CDelSet u] else [CDelHashes sids, CDelSet u])"

text \<open>Whether it reports success.\<close>

definition ClearAllForUser :: "int \<Rightarrow> (nat \<Rightarrow> bool) \<Rightarrow> int \<Rightarrow> web_redis \<Rightarrow> bool \<times> web_redis" where
  "ClearAllForUser ttl up u s =
     (if \<not> up 0 then (False, s) else Exec ttl (up 1) (clear_all_cmds u (SMembers u s)) s)"

definition revoke_cmds :: "int \<Rightarrow> string \<Rightarrow> string option \<Rightarrow> session_cmd list" where
  "revoke_cmds u sid got =
     (case got of
        None \<Rightarrow> [CSRem u sid]
      | Some raw \<Rightarrow> (if ParseInt raw = Some u then [CDelHashes [sid], CSRem u sid] else []))"

definition Revoke :: "int \<Rightarrow> (nat \<Rightarrow> bool) \<Rightarrow> int \<Rightarrow> string \<Rightarrow> web_redis \<Rightarrow> bool \<times> web_redis" where
  "Revoke ttl up u sid s =
     (let got = (if up 0 then HGet sid ''uid'' s else None) in
      case Exec ttl (up 1) (revoke_cmds u sid got) s of (sent, s') \<Rightarrow>
        (sent \<or> (case got of None \<Rightarrow> True | Some raw \<Rightarrow> ParseInt raw \<noteq> Some u), s'))"

record SessionInfo =
  SID :: string
  UA :: string
  IP :: string
  CreatedAt :: "int option" \<comment> \<open>\<open>None\<close>: the zero time\<close>
  LastSeen :: "int option"
  Current :: bool

definition session_info :: "string \<Rightarrow> string \<Rightarrow> (string \<Rightarrow> string option) \<Rightarrow> SessionInfo" where
  "session_info current sid h =
     (let text = (\<lambda>f. case h f of None \<Rightarrow> [] | Some x \<Rightarrow> x)
      in \<lparr>SID = sid, UA = text ''ua'', IP = text ''ip'', CreatedAt = ParseInt (text ''ts''),
          LastSeen = ParseInt (text ''seen''), Current = (sid = current)\<rparr>)"

text \<open>\<open>After\<close> on times of which the zero time is before every second of the clock.\<close>

definition seen_after :: "SessionInfo \<Rightarrow> SessionInfo \<Rightarrow> bool" where
  "seen_after a b = (case (LastSeen a, LastSeen b) of
     (Some x, Some y) \<Rightarrow> x > y | (Some x, None) \<Rightarrow> True | (None, _) \<Rightarrow> False)"

fun sift :: "SessionInfo list \<Rightarrow> nat \<Rightarrow> SessionInfo list" where
  "sift s 0 = s"
| "sift s (Suc j) =
     (if seen_after (s ! Suc j) (s ! j) then sift (s[Suc j := s ! j, j := s ! Suc j]) j else s)"

definition sortByLastSeenDesc :: "SessionInfo list \<Rightarrow> SessionInfo list" where
  "sortByLastSeenDesc s = fold (\<lambda>i s. sift s i) [1..<length s] s"

fun list_loop ::
  "(nat \<Rightarrow> bool) \<Rightarrow> nat \<Rightarrow> int \<Rightarrow> string \<Rightarrow> string list \<Rightarrow> SessionInfo list \<Rightarrow> web_redis \<Rightarrow> SessionInfo list \<times> web_redis" where
  "list_loop up k u current [] out s = (out, s)"
| "list_loop up k u current (sid # sids) out s =
     (case (if up k then HGetAll sid s else None) of
        None \<Rightarrow> list_loop up (k + 2) u current sids out (if up (k + 1) then SRem u sid s else s)
      | Some h \<Rightarrow> list_loop up (k + 1) u current sids (out @ [session_info current sid h]) s)"

definition ListSessions ::
  "(nat \<Rightarrow> bool) \<Rightarrow> int \<Rightarrow> string \<Rightarrow> web_redis \<Rightarrow> SessionInfo list option \<times> web_redis" where
  "ListSessions up u current s =
     (if \<not> up 0 then (None, s)
      else case list_loop up 1 u current (SMembers u s) [] s of (out, s') \<Rightarrow> (Some (sortByLastSeenDesc out), s'))"

section \<open>The listing is sorted\<close>

lemma seen_after_less: "seen_after a b \<longleftrightarrow> LastSeen b < LastSeen a"
  by (auto simp: seen_after_def split: option.split)

lemma sift_insert:
  "\<exists>ys. sift (xs @ y # zs) (length xs) = ys @ zs \<and> mset ys = add_mset y (mset xs)
    \<and> (\<forall>k. filter (\<lambda>x. LastSeen x = k) ys = filter (\<lambda>x. LastSeen x = k) (xs @ [y]))
    \<and> (sorted (map LastSeen (rev xs)) \<longrightarrow> sorted (map LastSeen (rev ys)))"
proof (induction xs arbitrary: zs rule: rev_induct)
  case Nil
  show ?case by (intro exI [of _ "[y]"]) simp
next
  case (snoc x xs)
  show ?case
  proof (cases "seen_after y x")
    case False
    then have "sift ((xs @ [x]) @ y # zs) (length (xs @ [x])) = (xs @ [x, y]) @ zs" by (simp add: nth_append)
    moreover have "sorted (map LastSeen (rev (xs @ [x]))) \<longrightarrow> sorted (map LastSeen (rev (xs @ [x, y])))"
      using False by (auto simp: seen_after_less not_less)
    ultimately show ?thesis by (intro exI [of _ "xs @ [x, y]"]) simp
  next
    case True
    obtain ys where ys: "sift (xs @ y # x # zs) (length xs) = ys @ x # zs" "mset ys = add_mset y (mset xs)"
      "\<forall>k. filter (\<lambda>x. LastSeen x = k) ys = filter (\<lambda>x. LastSeen x = k) (xs @ [y])"
      "sorted (map LastSeen (rev xs)) \<longrightarrow> sorted (map LastSeen (rev ys))"
      using snoc.IH [of "x # zs"] by blast
    have "sift ((xs @ [x]) @ y # zs) (length (xs @ [x])) = (ys @ [x]) @ zs"
      using True ys(1) by (simp add: nth_append list_update_append)
    moreover have "sorted (map LastSeen (rev (xs @ [x]))) \<longrightarrow> sorted (map LastSeen (rev (ys @ [x])))"
      using ys(4) True mset_eq_setD [of ys "y # xs"] ys(2) by (auto simp: seen_after_less)
    moreover have "filter (\<lambda>x. LastSeen x = k) (ys @ [x]) = filter (\<lambda>x. LastSeen x = k) ((xs @ [x]) @ [y])" for k
      using ys(3) True by (auto simp: seen_after_less)
    ultimately show ?thesis using ys(2) by (intro exI [of _ "ys @ [x]"]) simp
  qed
qed

lemma sift_length [simp]: "length (sift s n) = length s"
  by (induction s n rule: sift.induct) auto

lemma sorting_prefix:
  assumes "n \<le> length s"
  defines "r \<equiv> fold (\<lambda>i s. sift s i) [1..<n] s"
  shows "mset r = mset s \<and> (\<forall>k. filter (\<lambda>x. LastSeen x = k) r = filter (\<lambda>x. LastSeen x = k) s)
    \<and> sorted (map LastSeen (rev (take n r)))"
  using assms(1) unfolding r_def
proof (induction n)
  case (Suc n)
  let ?r = "fold (\<lambda>i s. sift s i) [1..<n] s"
  show ?case
  proof (cases "n = 0")
    case True
    then show ?thesis using Suc.prems by (cases s) auto
  next
    case False
    have len: "length ?r = length s" using Suc by (metis Suc_leD size_mset)
    then have r: "?r = take n ?r @ ?r ! n # drop (Suc n) ?r" "length (take n ?r) = n"
      using Suc.prems by (simp_all add: id_take_nth_drop [symmetric])
    obtain ys where ys: "sift ?r n = ys @ drop (Suc n) ?r" "mset ys = add_mset (?r ! n) (mset (take n ?r))"
      "\<forall>k. filter (\<lambda>x. LastSeen x = k) ys = filter (\<lambda>x. LastSeen x = k) (take n ?r @ [?r ! n])"
      "sorted (map LastSeen (rev (take n ?r))) \<longrightarrow> sorted (map LastSeen (rev ys))"
      using sift_insert [of "take n ?r" "?r ! n" "drop (Suc n) ?r"] r by metis
    have "length ys = Suc n" using ys(2) r(2) by (metis size_add_mset size_mset)
    moreover have "mset (sift ?r n) = mset ?r" using ys(1,2) r(1) by (metis mset_append mset.simps(2) union_mset_add_mset_left union_mset_add_mset_right)
    moreover have "filter (\<lambda>x. LastSeen x = k) (sift ?r n) = filter (\<lambda>x. LastSeen x = k) ?r" for k
    proof -
      let ?f = "filter (\<lambda>x. LastSeen x = k)"
      have "?f (sift ?r n) = ?f (take n ?r @ [?r ! n]) @ ?f (drop (Suc n) ?r)" using ys(1,3) by simp
      also have "\<dots> = ?f (take n ?r @ ?r ! n # drop (Suc n) ?r)" by simp
      finally show ?thesis by (simp only: r(1) [symmetric])
    qed
    ultimately show ?thesis using Suc False ys(1,4) by (simp add: upt_Suc)
  qed
qed simp

text \<open>The hand-written sort is the library's stable sort: the latest seen first, ties in their order.\<close>

theorem listing_is_stable_sort: "sortByLastSeenDesc s = rev (sort_key LastSeen (rev s))"
proof -
  let ?r = "sortByLastSeenDesc s"
  have r: "mset ?r = mset s" "sorted (map LastSeen (rev ?r))"
    and same: "filter (\<lambda>x. LastSeen x = k) ?r = filter (\<lambda>x. LastSeen x = k) s" for k
    using sorting_prefix [of "length s" s] size_mset [of ?r] unfolding sortByLastSeenDesc_def by (metis order_refl size_mset take_all)+
  have "sort_key LastSeen (rev s) = rev ?r"
    using r same by (intro properties_for_sort_key) (auto simp: rev_filter [symmetric] eq_commute)
  then show ?thesis by simp
qed

end
