(* ===== verification/SessionSafety.thy ===== *)
theory SessionSafety
  imports WebSessions
begin

text \<open>
  What holds of the web sessions: a session belongs to the user it was made for and once ended never
  comes back, whatever requests run in parallel; in sequence, logging out everywhere ends exactly
  the sessions of the user; and the interleavings and errors after which one of them is missed.
\<close>

section \<open>What the commands do to a session\<close>

lemma before_deadline_simps [simp]:
  "before_deadline (s\<lparr>hashes := h\<rparr>) = before_deadline s" "before_deadline (s\<lparr>sets := m\<rparr>) = before_deadline s"
  "before_deadline s None" "0 < ttl \<Longrightarrow> before_deadline s (Some (clock s + ttl))"
  by (simp_all add: before_deadline_def fun_eq_iff split: option.split)

lemma clocks [simp]:
  "clock (HSet sid kvs s) = clock s" "clock (ExpireHash sid ttl s) = clock s" "clock (DelHash sid s) = clock s"
  "clock (SAdd u sid s) = clock s" "clock (SRem u sid s) = clock s" "clock (ExpireSet u ttl s) = clock s"
  "clock (DelSet u s) = clock s"
  by (simp_all add: HSet_def ExpireHash_def DelHash_def SAdd_def SRem_def ExpireSet_def DelSet_def split: option.split)

lemma HGetAll_HSet [simp]:
  "HGetAll x (HSet sid kvs s) = (if x = sid
     then Some ((case HGetAll sid s of None \<Rightarrow> Map.empty | Some h \<Rightarrow> h) ++ map_of kvs) else HGetAll x s)"
  by (auto simp: HGetAll_def HSet_def split: option.splits prod.splits if_splits)

lemma HGetAll_ExpireHash [simp]: "0 < ttl \<Longrightarrow> HGetAll x (ExpireHash sid ttl s) = HGetAll x s"
  by (auto simp: HGetAll_def ExpireHash_def split: option.splits prod.splits if_splits)

lemma HGetAll_others [simp]:
  "HGetAll x (DelHash sid s) = (if x = sid then None else HGetAll x s)"
  "HGetAll x (SAdd u sid s) = HGetAll x s" "HGetAll x (SRem u sid s) = HGetAll x s"
  "HGetAll x (ExpireSet u ttl s) = HGetAll x s" "HGetAll x (DelSet u s) = HGetAll x s"
  by (auto simp: HGetAll_def DelHash_def SAdd_def SRem_def ExpireSet_def DelSet_def split: option.split)

lemma live_set_hashes [simp]:
  "live_set u (HSet sid kvs s) = live_set u s" "live_set u (ExpireHash sid ttl s) = live_set u s"
  "live_set u (DelHash sid s) = live_set u s"
  by (auto simp: live_set_def HSet_def ExpireHash_def DelHash_def split: option.split)

lemma live_set_sets [simp]:
  "live_set v (SAdd u sid s) = (if v = u
     then Some (case live_set u s of None \<Rightarrow> ([sid], None) | Some (m, e) \<Rightarrow> (List.insert sid m, e)) else live_set v s)"
  "live_set v (SRem u sid s) = (if v = u
     then (case live_set u s of None \<Rightarrow> None | Some (m, e) \<Rightarrow> if removeAll sid m = [] then None else Some (removeAll sid m, e))
     else live_set v s)"
  "live_set v (DelSet u s) = (if v = u then None else live_set v s)"
  by (auto simp: live_set_def SAdd_def SRem_def DelSet_def split: option.splits prod.splits if_splits)

lemma live_set_ExpireSet [simp]:
  "0 < ttl \<Longrightarrow> live_set v (ExpireSet u ttl s) = (if v = u
     then (case live_set u s of None \<Rightarrow> None | Some (m, e) \<Rightarrow> Some (m, Some (clock s + ttl))) else live_set v s)"
  by (auto simp: live_set_def ExpireSet_def split: option.splits prod.splits if_splits)

lemma fold_DelHash [simp]:
  "HGetAll x (fold DelHash sids s) = (if x \<in> set sids then None else HGetAll x s)"
  "live_set u (fold DelHash sids s) = live_set u s" "clock (fold DelHash sids s) = clock s"
  by (induction sids arbitrary: s) auto

lemma SMembers_live: "SMembers u s = (case live_set u s of None \<Rightarrow> [] | Some (m, e) \<Rightarrow> m)"
  by (simp add: SMembers_def)

lemma HGet_HGetAll: "HGet x f s = (case HGetAll x s of None \<Rightarrow> None | Some h \<Rightarrow> h f)"
  by (simp add: HGet_def)

lemma field_names [simp]: "''uid'' \<noteq> ''seen''" "''uid'' \<noteq> ''ua''" "''uid'' \<noteq> ''ip''" "''uid'' \<noteq> ''ts''"
  by simp_all

lemma uid_after_cmd:
  "0 < ttl \<Longrightarrow> HGet x ''uid'' (run_cmd ttl c s) = None \<or> HGet x ''uid'' (run_cmd ttl c s) = HGet x ''uid'' s"
  by (cases c) (auto simp: HGet_HGetAll split: option.splits)

lemma uid_after_Set:
  "0 < ttl \<Longrightarrow> HGet x ''uid'' (Set_tx ttl sid u agent addr s) = (if x = sid then Some (Itoa u) else HGet x ''uid'' s)"
  by (simp add: Set_tx_def Let_def HGet_HGetAll)

lemma uid_after_wait: "0 \<le> d \<Longrightarrow> HGet x ''uid'' (s\<lparr>clock := clock s + d\<rparr>) = None
    \<or> HGet x ''uid'' (s\<lparr>clock := clock s + d\<rparr>) = HGet x ''uid'' s"
  by (auto simp: HGet_def HGetAll_def before_deadline_def split: option.splits)

section \<open>Requests in parallel\<close>

record session_sys =
  redis :: web_redis
  minted :: "string \<Rightarrow> int option" \<comment> \<open>the user an ID was minted for\<close>
  pending :: "session_cmd list list"

definition int64 :: "int \<Rightarrow> bool" where
  "int64 u \<longleftrightarrow> - (2 ^ 63) \<le> u \<and> u < 2 ^ 63"

inductive par_step :: "int \<Rightarrow> session_sys \<Rightarrow> session_sys \<Rightarrow> bool" for ttl where
  Login: "\<lbrakk>minted y sid = None; int64 u\<rbrakk> \<Longrightarrow>
    par_step ttl y (y\<lparr>redis := Set_tx ttl sid u agent addr (redis y), minted := (minted y)(sid := Some u)\<rparr>)"
| Use: "session_user sid (redis y) = Some u \<Longrightarrow>
    par_step ttl y (y\<lparr>pending := pending y @ [read_cmds sid u (redis y)]\<rparr>)"
| Logout: "got \<in> {None, HGet sid ''uid'' (redis y)} \<Longrightarrow>
    par_step ttl y (y\<lparr>pending := pending y @ [clear_cmds sid got]\<rparr>)"
| LogoutAll: "par_step ttl y (y\<lparr>pending := pending y @ [clear_all_cmds u (SMembers u (redis y))]\<rparr>)"
| Revoked: "got \<in> {None, HGet sid ''uid'' (redis y)} \<Longrightarrow>
    par_step ttl y (y\<lparr>pending := pending y @ [revoke_cmds u sid got]\<rparr>)"
| Listed: "par_step ttl y (y\<lparr>pending := pending y @ [[CSRem u sid]]\<rparr>)"
| Run: "\<lbrakk>i < length (pending y); pending y ! i = c # cs\<rbrakk> \<Longrightarrow>
    par_step ttl y (y\<lparr>redis := run_cmd ttl c (redis y), pending := (pending y)[i := cs]\<rparr>)"
| Cut: "par_step ttl y (y\<lparr>pending := (pending y)[i := []]\<rparr>)"
| Wait: "0 \<le> d \<Longrightarrow> par_step ttl y (y\<lparr>redis := (redis y)\<lparr>clock := clock (redis y) + d\<rparr>\<rparr>)"

definition no_sessions :: session_sys where
  "no_sessions = \<lparr>redis = \<lparr>hashes = \<lambda>k. None, sets = \<lambda>u. None, clock = 0\<rparr>, minted = \<lambda>k. None, pending = []\<rparr>"

inductive par_run :: "int \<Rightarrow> session_sys \<Rightarrow> session_sys \<Rightarrow> bool" for ttl where
  here: "par_run ttl y y"
| further: "par_run ttl y z \<Longrightarrow> par_step ttl z w \<Longrightarrow> par_run ttl y w"

definition owned :: "session_sys \<Rightarrow> bool" where
  "owned y \<longleftrightarrow>
     (\<forall>sid raw. HGet sid ''uid'' (redis y) = Some raw \<longrightarrow> (\<exists>u. minted y sid = Some u \<and> raw = Itoa u \<and> int64 u))
     \<and> (\<forall>sid u. sid \<in> set (SMembers u (redis y)) \<longrightarrow> minted y sid = Some u)"

lemma SMembers_after_cmd: "0 < ttl \<Longrightarrow> set (SMembers u (run_cmd ttl c s)) \<subseteq> set (SMembers u s)"
  by (cases c) (auto simp: SMembers_live split: option.splits if_splits prod.splits)

lemma SMembers_after_Set:
  "0 < ttl \<Longrightarrow> set (SMembers v (Set_tx ttl sid u agent addr s)) = set (SMembers v s) \<union> (if v = u then {sid} else {})"
  by (auto simp: Set_tx_def Let_def SMembers_live split: option.splits)

lemma SMembers_after_wait: "0 \<le> d \<Longrightarrow> set (SMembers u (s\<lparr>clock := clock s + d\<rparr>)) \<subseteq> set (SMembers u s)"
  by (auto simp: SMembers_def live_set_def before_deadline_def split: option.splits if_splits)

lemma owned_step:
  assumes "par_step ttl y z" and "0 < ttl" and "owned y"
  shows "owned z"
  using assms
proof (cases rule: par_step.cases)
  case (Login sid u agent addr)
  with assms(2,3) show ?thesis
    by (auto simp: owned_def uid_after_Set SMembers_after_Set split: if_splits)
next
  case (Run i c cs)
  then show ?thesis
    using assms(2,3) uid_after_cmd [of ttl _ c "redis y"] SMembers_after_cmd [of ttl _ c "redis y"]
    by (auto simp: owned_def) (metis option.distinct(1), blast)
next
  case (Wait d)
  then show ?thesis
    using assms(3) uid_after_wait [of d _ "redis y"] SMembers_after_wait [of d _ "redis y"]
    by (auto simp: owned_def) (metis option.distinct(1), blast)
qed (auto simp: owned_def)

lemma owned_run: "par_run ttl y z \<Longrightarrow> 0 < ttl \<Longrightarrow> owned y \<Longrightarrow> owned z"
  by (induction rule: par_run.induct) (auto intro: owned_step)

lemma owned_start: "owned no_sessions"
  by (simp add: owned_def no_sessions_def HGet_def HGetAll_def SMembers_def live_set_def)

text \<open>
  Whatever requests run in parallel and wherever they are cut off: a session stands for the user it was made
  for, as long as it stands for anybody; a user's index lists sessions of that user only, so that
  revoking, and logging out everywhere, delete sessions of the asking user only.
\<close>

theorem sessions_keep_their_owner:
  assumes "par_run ttl no_sessions y" and "0 < ttl"
  shows "(\<forall>sid u. session_user sid (redis y) = Some u \<longrightarrow> minted y sid = Some u)
    \<and> (\<forall>u sids. CDelHashes sids \<in> set (clear_all_cmds u (SMembers u (redis y))) \<longrightarrow> (\<forall>sid \<in> set sids. minted y sid = Some u))
    \<and> (\<forall>u sid sids. CDelHashes sids \<in> set (revoke_cmds u sid (HGet sid ''uid'' (redis y))) \<longrightarrow>
          sids = [sid] \<and> minted y sid = Some u)"
proof -
  have o: "owned y" using owned_run [OF assms owned_start] .
  have user: "minted y sid = Some u" if "HGet sid ''uid'' (redis y) = Some raw" "ParseInt raw = Some u" for sid raw u
    using o that by (fastforce simp: owned_def int64_def ParseInt_Itoa)
  then show ?thesis
    using o unfolding session_user_def clear_all_cmds_def revoke_cmds_def owned_def
    by (auto split: option.splits if_splits)
qed

lemma ended_step:
  assumes "par_step ttl y z" and "0 < ttl" and "minted y sid \<noteq> None" and "session_user sid (redis y) = None"
  shows "minted z sid \<noteq> None \<and> session_user sid (redis z) = None"
  using assms
proof (cases rule: par_step.cases)
  case (Login x u agent addr)
  then show ?thesis using assms(2-4) by (auto simp: session_user_def uid_after_Set)
next
  case (Run i c cs)
  then show ?thesis using assms(2-4) uid_after_cmd [of ttl sid c "redis y"] by (auto simp: session_user_def)
next
  case (Wait d)
  then show ?thesis using assms(3,4) uid_after_wait [of d sid "redis y"] by (auto simp: session_user_def)
qed auto

text \<open>
  C5: A session that was ended, or ran out, never comes back: a use of it that was under way renews a row
  without a user.
\<close>

theorem ended_sessions_stay_ended:
  assumes "par_run ttl y z" and "0 < ttl" and "minted y sid \<noteq> None" and "session_user sid (redis y) = None"
  shows "session_user sid (redis z) = None \<and> fst (ReadSession ttl up (Some sid) (redis z)) = None"
proof -
  have "minted z sid \<noteq> None \<and> session_user sid (redis z) = None"
    using assms by (induction rule: par_run.induct) (simp, metis ended_step)
  then show ?thesis by (simp add: ReadSession_def)
qed

section \<open>Requests in sequence\<close>

text \<open>
  Every live session is in the live index of its user, which does not run out before it.
\<close>

definition hash_deadline :: "string \<Rightarrow> web_redis \<Rightarrow> int option" where
  "hash_deadline sid s = (case hashes s sid of None \<Rightarrow> None | Some (h, e) \<Rightarrow> e)"

definition indexed_in :: "int \<Rightarrow> web_redis \<Rightarrow> string \<Rightarrow> (string \<Rightarrow> string option) \<Rightarrow> bool" where
  "indexed_in ttl s sid h \<longleftrightarrow>
     (\<exists>u e m d. h ''uid'' = Some (Itoa u) \<and> int64 u \<and> hash_deadline sid s = Some e \<and> e \<le> clock s + ttl
        \<and> live_set u s = Some (m, Some d) \<and> sid \<in> set m \<and> e \<le> d)"

definition indexed :: "int \<Rightarrow> web_redis \<Rightarrow> bool" where
  "indexed ttl s \<longleftrightarrow>
     (\<forall>sid h. HGetAll sid s = Some h \<longrightarrow> indexed_in ttl s sid h)
     \<and> (\<forall>sid u. sid \<in> set (SMembers u s) \<longrightarrow> HGetAll sid s = None \<or> session_user sid s = Some u)"

datatype session_op =
    DoLogin string int string string
  | DoUse string
  | DoLogout string
  | DoLogoutAll int
  | DoList int string
  | DoRevoke int string
  | DoWait int

fun session_apply :: "int \<Rightarrow> session_op \<Rightarrow> web_redis \<Rightarrow> web_redis" where
  "session_apply ttl (DoLogin sid u agent addr) s = snd (SetSession ttl (\<lambda>k. True) (Some sid) u agent addr s)"
| "session_apply ttl (DoUse sid) s = snd (ReadSession ttl (\<lambda>k. True) (Some sid) s)"
| "session_apply ttl (DoLogout sid) s = ClearSession ttl (\<lambda>k. True) (Some sid) s"
| "session_apply ttl (DoLogoutAll u) s = snd (ClearAllForUser ttl (\<lambda>k. True) u s)"
| "session_apply ttl (DoList u sid) s = snd (ListSessions (\<lambda>k. True) u sid s)"
| "session_apply ttl (DoRevoke u sid) s = snd (Revoke ttl (\<lambda>k. True) u sid s)"
| "session_apply ttl (DoWait d) s = s\<lparr>clock := clock s + d\<rparr>"

text \<open>A login mints an ID that no session has and no index lists; time goes forward.\<close>

fun may_do :: "session_op \<Rightarrow> web_redis \<Rightarrow> bool" where
  "may_do (DoLogin sid u agent addr) s = (int64 u \<and> HGetAll sid s = None \<and> (\<forall>v. sid \<notin> set (SMembers v s)))"
| "may_do (DoWait d) s = (0 \<le> d)"
| "may_do _ s = True"

lemma hash_deadline_simps [simp]:
  "hash_deadline x (HSet sid kvs s) = (if x = sid then (if HGetAll sid s = None then None else hash_deadline sid s) else hash_deadline x s)"
  "hash_deadline x (ExpireHash sid ttl s) = (if x = sid \<and> HGetAll sid s \<noteq> None then Some (clock s + ttl) else hash_deadline x s)"
  "hash_deadline x (DelHash sid s) = (if x = sid then None else hash_deadline x s)"
  "hash_deadline x (SAdd u sid s) = hash_deadline x s" "hash_deadline x (SRem u sid s) = hash_deadline x s"
  "hash_deadline x (ExpireSet u ttl s) = hash_deadline x s" "hash_deadline x (DelSet u s) = hash_deadline x s"
  by (auto simp: hash_deadline_def HSet_def ExpireHash_def DelHash_def SAdd_def SRem_def ExpireSet_def DelSet_def HGetAll_def
      split: option.splits prod.splits if_splits)

lemma session_user_HGetAll:
  "session_user sid s = (case HGetAll sid s of None \<Rightarrow> None | Some h \<Rightarrow> case h ''uid'' of None \<Rightarrow> None | Some raw \<Rightarrow> ParseInt raw)"
  by (simp add: session_user_def HGet_def split: option.split)

lemma indexedD:
  "indexed ttl s \<Longrightarrow> HGetAll sid s = Some h \<Longrightarrow> \<exists>u e m d. h ''uid'' = Some (Itoa u) \<and> int64 u
     \<and> hash_deadline sid s = Some e \<and> e \<le> clock s + ttl \<and> live_set u s = Some (m, Some d) \<and> sid \<in> set m \<and> e \<le> d"
  unfolding indexed_def indexed_in_def by blast

lemma user_of_indexed:
  assumes "indexed ttl s" and "session_user sid s = Some u"
  shows "\<exists>h. HGetAll sid s = Some h \<and> h ''uid'' = Some (Itoa u) \<and> int64 u \<and> sid \<in> set (SMembers u s)"
proof -
  obtain h where h: "HGetAll sid s = Some h" using assms(2) by (auto simp: session_user_HGetAll split: option.splits)
  then obtain v m d where v: "h ''uid'' = Some (Itoa v)" "int64 v" "live_set v s = Some (m, Some d)" "sid \<in> set m"
    using assms(1) by (blast dest: indexedD)
  then have "v = u" using assms(2) h by (simp add: session_user_HGetAll int64_def ParseInt_Itoa)
  with h v show ?thesis by (simp add: SMembers_live)
qed

lemma Set_views [simp]:
  "clock (Set_tx ttl sid u agent addr s) = clock s"
  "x \<noteq> sid \<Longrightarrow> 0 < ttl \<Longrightarrow> HGetAll x (Set_tx ttl sid u agent addr s) = HGetAll x s"
  "hash_deadline x (Set_tx ttl sid u agent addr s) = (if x = sid then Some (clock s + ttl) else hash_deadline x s)"
  "0 < ttl \<Longrightarrow> live_set v (Set_tx ttl sid u agent addr s) = (if v = u
     then Some (case live_set u s of None \<Rightarrow> [sid] | Some (m, e) \<Rightarrow> List.insert sid m, Some (clock s + ttl)) else live_set v s)"
  by (auto simp: Set_tx_def Let_def split: option.split)

lemma indexed_inI:
  "h ''uid'' = Some (Itoa u) \<Longrightarrow> int64 u \<Longrightarrow> hash_deadline sid s = Some e \<Longrightarrow> e \<le> clock s + ttl \<Longrightarrow>
     live_set u s = Some (m, Some d) \<Longrightarrow> sid \<in> set m \<Longrightarrow> e \<le> d \<Longrightarrow> indexed_in ttl s sid h"
  unfolding indexed_in_def by blast

lemma indexed_login:
  assumes "indexed ttl s" "0 < ttl" "may_do (DoLogin sid u agent addr) s"
  shows "indexed ttl (Set_tx ttl sid u agent addr s)" (is "indexed ttl ?s")
  unfolding indexed_def
proof (intro conjI allI impI)
  fix x h assume h: "HGetAll x ?s = Some h"
  show "indexed_in ttl ?s x h"
  proof (cases "x = sid")
    case True
    have "h ''uid'' = Some (Itoa u)" using uid_after_Set [OF assms(2), of sid sid u agent addr s] h True by (simp add: HGet_def)
    with True assms(2,3) show ?thesis
      by (intro indexed_inI [of h u x ?s "clock s + ttl" ttl "case live_set u s of None \<Rightarrow> [sid] | Some (m, e) \<Rightarrow> List.insert sid m" "clock s + ttl"])
        (auto split: option.split)
  next
    case False
    then have "HGetAll x s = Some h" using h assms(2) by simp
    then obtain v e m d where v: "h ''uid'' = Some (Itoa v)" "int64 v" "hash_deadline x s = Some e" "e \<le> clock s + ttl"
        "live_set v s = Some (m, Some d)" "x \<in> set m" "e \<le> d"
      using assms(1) by (blast dest: indexedD)
    with False assms(2) show ?thesis
      by (intro indexed_inI [of h v x ?s e ttl "if v = u then List.insert sid m else m" "if v = u then clock s + ttl else d"])
        auto
  qed
next
  fix x v assume x: "x \<in> set (SMembers v ?s)"
  show "HGetAll x ?s = None \<or> session_user x ?s = Some v"
  proof (cases "x = sid")
    case True
    then have "v = u" using x assms by (auto simp: SMembers_after_Set split: if_splits)
    with True assms(2,3) show ?thesis by (simp add: session_user_def uid_after_Set int64_def ParseInt_Itoa)
  next
    case False
    then have "x \<in> set (SMembers v s)" using x assms(2) by (auto simp: SMembers_after_Set split: if_splits)
    then have "HGetAll x s = None \<or> session_user x s = Some v" using assms(1) by (simp add: indexed_def)
    with False assms(2) show ?thesis by (simp add: session_user_def uid_after_Set)
  qed
qed

lemma use_views:
  assumes "0 < ttl" "session_user sid s = Some u"
  shows "clock (fold (run_cmd ttl) (read_cmds sid u s) s) = clock s"
    and "HGetAll x (fold (run_cmd ttl) (read_cmds sid u s) s)
      = (if x = sid then map_option (\<lambda>h. h(''seen'' := Some (Itoa (clock s)))) (HGetAll sid s) else HGetAll x s)"
    and "hash_deadline x (fold (run_cmd ttl) (read_cmds sid u s) s) = (if x = sid then Some (clock s + ttl) else hash_deadline x s)"
    and "live_set v (fold (run_cmd ttl) (read_cmds sid u s) s) = (if v = u
      then map_option (\<lambda>(m, e). (m, Some (clock s + ttl))) (live_set u s) else live_set v s)"
  using assms by (auto simp: read_cmds_def session_user_HGetAll map_add_def fun_eq_iff split: option.splits)

lemma indexed_use:
  assumes "indexed ttl s" "0 < ttl" "session_user sid s = Some u"
  shows "indexed ttl (fold (run_cmd ttl) (read_cmds sid u s) s)" (is "indexed ttl ?s")
  unfolding indexed_def
proof (intro conjI allI impI)
  note views = use_views [OF assms(2,3)]
  fix x h assume h: "HGetAll x ?s = Some h"
  then obtain h0 where h0: "HGetAll x s = Some h0" "h ''uid'' = h0 ''uid''" by (auto simp: views split: if_splits)
  then obtain v e m d where v: "h ''uid'' = Some (Itoa v)" "int64 v" "hash_deadline x s = Some e" "e \<le> clock s + ttl"
      "live_set v s = Some (m, Some d)" "x \<in> set m" "e \<le> d"
    using indexedD [OF assms(1) h0(1)] h0(2) by auto
  have "h0 ''uid'' = Some (Itoa v)" using v(1) h0(2) by simp
  then have same: "v = u" if "x = sid"
    using that assms(3) h0(1) v(2) by (simp add: session_user_HGetAll int64_def ParseInt_Itoa)
  show "indexed_in ttl ?s x h"
    by (rule indexed_inI [of h v x ?s "if x = sid then clock s + ttl else e" ttl m "if v = u then clock s + ttl else d"])
      (use v same in \<open>auto simp: views\<close>)
next
  note views = use_views [OF assms(2,3)]
  fix x v assume "x \<in> set (SMembers v ?s)"
  then have "x \<in> set (SMembers v s)" by (cases "live_set u s") (auto simp: SMembers_live views split: option.splits if_splits)
  then have "HGetAll x s = None \<or> session_user x s = Some v" using assms(1) by (simp add: indexed_def)
  then show "HGetAll x ?s = None \<or> session_user x ?s = Some v"
    by (auto simp: session_user_HGetAll views split: option.splits)
qed

lemma indexed_wait:
  assumes "indexed ttl s" "0 \<le> d"
  shows "indexed ttl (s\<lparr>clock := clock s + d\<rparr>)" (is "indexed ttl ?s")
  unfolding indexed_def
proof (intro conjI allI impI)
  fix x h assume h: "HGetAll x ?s = Some h"
  then have live: "HGetAll x s = Some h" "\<And>e. hash_deadline x s = Some e \<Longrightarrow> clock s + d < e"
    using assms(2) by (auto simp: HGetAll_def hash_deadline_def before_deadline_def split: option.splits if_splits)
  then obtain v e m f where v: "h ''uid'' = Some (Itoa v)" "int64 v" "hash_deadline x s = Some e" "e \<le> clock s + ttl"
      "live_set v s = Some (m, Some f)" "x \<in> set m" "e \<le> f"
    using assms(1) by (blast dest: indexedD)
  then have "live_set v ?s = Some (m, Some f)" using live(2) [OF v(3)]
    by (auto simp: live_set_def before_deadline_def split: option.splits if_splits)
  moreover have "hash_deadline x ?s = Some e" using v(3) by (simp add: hash_deadline_def)
  ultimately show "indexed_in ttl ?s x h" using v assms(2)
    by (intro indexed_inI [of h v x ?s e ttl m f]) auto
next
  fix x v assume "x \<in> set (SMembers v ?s)"
  then have "x \<in> set (SMembers v s)" using SMembers_after_wait [OF assms(2), of v s] by blast
  then have "HGetAll x s = None \<or> session_user x s = Some v" using assms(1) by (simp add: indexed_def)
  moreover have "HGetAll x ?s = None \<or> HGetAll x ?s = HGetAll x s"
    by (auto simp: HGetAll_def split: option.splits)
     (use assms(2) in \<open>auto simp: before_deadline_def split: option.splits\<close>)
  ultimately show "HGetAll x ?s = None \<or> session_user x ?s = Some v" by (auto simp: session_user_HGetAll)
qed

lemma indexed_unlist:
  assumes "indexed ttl s" "HGetAll sid s = None"
  shows "indexed ttl (SRem u sid s)" (is "indexed ttl ?s")
  unfolding indexed_def
proof (intro conjI allI impI)
  fix x h assume "HGetAll x ?s = Some h"
  then have h: "HGetAll x s = Some h" by simp
  then obtain v e m d where v: "h ''uid'' = Some (Itoa v)" "int64 v" "hash_deadline x s = Some e" "e \<le> clock s + ttl"
      "live_set v s = Some (m, Some d)" "x \<in> set m" "e \<le> d"
    using assms(1) by (blast dest: indexedD)
  moreover have "x \<noteq> sid" using h assms(2) by auto
  moreover have "removeAll sid m \<noteq> []" using \<open>x \<noteq> sid\<close> v(6) by (auto simp: removeAll_filter_not_eq filter_empty_conv)
  ultimately show "indexed_in ttl ?s x h"
    by (intro indexed_inI [of h v x ?s e ttl "if v = u then removeAll sid m else m" d]) auto
next
  fix x v assume "x \<in> set (SMembers v ?s)"
  then have "x \<in> set (SMembers v s)" by (auto simp: SMembers_live split: option.splits if_splits)
  then show "HGetAll x ?s = None \<or> session_user x ?s = Some v"
    using assms(1) by (auto simp: indexed_def session_user_HGetAll)
qed

lemma indexed_delete:
  assumes "indexed ttl s"
  shows "indexed ttl (DelHash sid s)"
  using assms by (auto simp: indexed_def indexed_in_def session_user_HGetAll SMembers_live)

lemma indexed_deletes: "indexed ttl s \<Longrightarrow> indexed ttl (fold DelHash sids s)"
  by (induction sids arbitrary: s) (simp_all add: indexed_delete)

lemma indexed_drop_set:
  assumes "indexed ttl s" "\<And>sid. session_user sid s \<noteq> Some u"
  shows "indexed ttl (DelSet u s)" (is "indexed ttl ?s")
  unfolding indexed_def
proof (intro conjI allI impI)
  fix x h assume "HGetAll x ?s = Some h"
  then have h: "HGetAll x s = Some h" by simp
  then obtain v e m d where v: "h ''uid'' = Some (Itoa v)" "int64 v" "hash_deadline x s = Some e" "e \<le> clock s + ttl"
      "live_set v s = Some (m, Some d)" "x \<in> set m" "e \<le> d"
    using assms(1) by (blast dest: indexedD)
  have "session_user x s = Some v" using h v(1,2) by (simp add: session_user_HGetAll int64_def ParseInt_Itoa)
  then have "v \<noteq> u" using assms(2) [of x] by auto
  with v show "indexed_in ttl ?s x h" by (intro indexed_inI [of h v x ?s e ttl m d]) auto
next
  fix x v assume "x \<in> set (SMembers v ?s)"
  then have "x \<in> set (SMembers v s)" by (auto simp: SMembers_live split: if_splits)
  then show "HGetAll x ?s = None \<or> session_user x ?s = Some v"
    using assms(1) by (auto simp: indexed_def session_user_HGetAll)
qed

lemma clear_all_effect:
  assumes "indexed ttl s"
  shows "session_user sid (snd (ClearAllForUser ttl (\<lambda>k. True) u s)) = (if session_user sid s = Some u then None else session_user sid s)"
    and "indexed ttl (snd (ClearAllForUser ttl (\<lambda>k. True) u s))"
proof -
  have mem: "sid \<in> set (SMembers u s)" if "session_user sid s = Some u" for sid
    using user_of_indexed [OF assms that] by blast
  have own: "HGetAll sid s = None \<or> session_user sid s = Some u" if "sid \<in> set (SMembers u s)" for sid
    using assms that by (simp add: indexed_def)
  show "session_user sid (snd (ClearAllForUser ttl (\<lambda>k. True) u s)) = (if session_user sid s = Some u then None else session_user sid s)"
    using mem [of sid] own [of sid]
    by (auto simp: ClearAllForUser_def Exec_def clear_all_cmds_def session_user_HGetAll)
  have "session_user sid (fold DelHash (SMembers u s) s) \<noteq> Some u" for sid
    using mem [of sid] by (auto simp: session_user_HGetAll)
  then have "indexed ttl (DelSet u (fold DelHash (SMembers u s) s))"
    by (intro indexed_drop_set indexed_deletes assms)
  moreover have "fold DelHash (SMembers u s) s = s" if "SMembers u s = []" using that by simp
  ultimately show "indexed ttl (snd (ClearAllForUser ttl (\<lambda>k. True) u s))"
    by (auto simp: ClearAllForUser_def Exec_def clear_all_cmds_def)
qed

lemma dead_or_user: "indexed ttl s \<Longrightarrow> HGet sid ''uid'' s = None \<Longrightarrow> HGetAll sid s = None"
  using indexedD [of ttl s sid] by (cases "HGetAll sid s") (auto simp: HGet_def)

lemma indexed_list:
  "indexed ttl s \<Longrightarrow> indexed ttl (snd (list_loop (\<lambda>k. True) k u c sids out s))
     \<and> (\<forall>x. HGetAll x (snd (list_loop (\<lambda>k. True) k u c sids out s)) = HGetAll x s)"
  by (induction "(\<lambda>k :: nat. True)" k u c sids out s rule: list_loop.induct)
    (auto simp: indexed_unlist split: option.split)

lemma indexed_apply:
  assumes "indexed ttl s" "0 < ttl" "may_do op s"
  shows "indexed ttl (session_apply ttl op s)"
proof (cases op)
  case (DoLogin sid u agent addr)
  then show ?thesis using indexed_login [OF assms(1,2)] assms(3) by (simp add: SetSession_def)
next
  case (DoUse sid)
  then show ?thesis
    using indexed_use [OF assms(1,2)] assms(1) by (auto simp: ReadSession_def Exec_def split: option.split)
next
  case (DoLogout sid)
  then show ?thesis using assms(1)
    by (auto simp: ClearSession_def Exec_def clear_cmds_def indexed_delete indexed_unlist split: option.split)
next
  case (DoLogoutAll u)
  then show ?thesis using clear_all_effect(2) [OF assms(1)] by simp
next
  case (DoList u c)
  then show ?thesis using indexed_list [OF assms(1)]
    by (simp add: ListSessions_def split: prod.split) (metis snd_conv)
next
  case (DoRevoke u sid)
  then show ?thesis using assms(1) dead_or_user [OF assms(1)]
    by (auto simp: Revoke_def Let_def Exec_def revoke_cmds_def indexed_delete indexed_unlist split: option.split)
next
  case (DoWait d)
  then show ?thesis using indexed_wait assms by simp
qed

inductive session_reach :: "int \<Rightarrow> web_redis \<Rightarrow> bool" for ttl where
  none: "session_reach ttl (redis no_sessions)"
| apply_op: "session_reach ttl s \<Longrightarrow> may_do op s \<Longrightarrow> session_reach ttl (session_apply ttl op s)"

lemma reach_indexed: "session_reach ttl s \<Longrightarrow> 0 < ttl \<Longrightarrow> indexed ttl s"
proof (induction rule: session_reach.induct)
  case none
  show ?case by (simp add: indexed_def no_sessions_def HGetAll_def SMembers_def live_set_def)
qed (rule indexed_apply)

text \<open>
  C6: When requests come one after the other and Redis answers them, logging out everywhere ends exactly the
  sessions of that user; revoking ends the one session, if it is the asking user's; logging out ends the one of
  the cookie.
\<close>

theorem sessions_end_as_asked:
  assumes "session_reach ttl s" and "0 < ttl" and "c \<noteq> []"
  shows "session_user sid (snd (ClearAllForUser ttl (\<lambda>k. True) u s)) = (if session_user sid s = Some u then None else session_user sid s)
    \<and> session_user sid (snd (Revoke ttl (\<lambda>k. True) u c s)) = (if sid = c \<and> session_user c s = Some u then None else session_user sid s)
    \<and> session_user sid (ClearSession ttl (\<lambda>k. True) (Some c) s) = (if sid = c then None else session_user sid s)"
proof (intro conjI)
  have ix: "indexed ttl s" using reach_indexed assms by blast
  show "session_user sid (snd (ClearAllForUser ttl (\<lambda>k. True) u s)) = (if session_user sid s = Some u then None else session_user sid s)"
    using clear_all_effect(1) [OF ix] .
  show "session_user sid (snd (Revoke ttl (\<lambda>k. True) u c s)) = (if sid = c \<and> session_user c s = Some u then None else session_user sid s)"
    by (auto simp: Revoke_def Let_def Exec_def revoke_cmds_def session_user_HGetAll HGet_def split: option.splits)
  have "HGetAll c s = None \<or> session_user c s \<noteq> None"
    using ix by (fastforce simp: indexed_def indexed_in_def session_user_HGetAll int64_def ParseInt_Itoa)
  with assms(3) show "session_user sid (ClearSession ttl (\<lambda>k. True) (Some c) s) = (if sid = c then None else session_user sid s)"
    by (auto simp: ClearSession_def Exec_def clear_cmds_def session_user_HGetAll HGet_def split: option.splits)
qed

lemma session_start:
  "int64 u \<Longrightarrow> may_do (DoLogin sid u agent addr) (redis no_sessions)"
  by (simp add: no_sessions_def HGetAll_def SMembers_def live_set_def)

theorem sessions_end_as_asked_witness:
  "session_reach 60 (session_apply 60 (DoLogin ''aa'' 7 ''ff'' ''h:1'') (redis no_sessions))
    \<and> session_user ''aa'' (session_apply 60 (DoLogin ''aa'' 7 ''ff'' ''h:1'') (redis no_sessions)) = Some 7
    \<and> session_user ''aa'' (snd (ClearAllForUser 60 (\<lambda>k. True) 7
        (session_apply 60 (DoLogin ''aa'' 7 ''ff'' ''h:1'') (redis no_sessions)))) = None"
proof (intro conjI)
  let ?s = "session_apply 60 (DoLogin ''aa'' 7 ''ff'' ''h:1'') (redis no_sessions)"
  show reach: "session_reach 60 ?s"
    by (rule apply_op [OF none], rule session_start) (simp_all add: int64_def)
  show user: "session_user ''aa'' ?s = Some 7"
    by (simp add: SetSession_def session_user_def uid_after_Set ParseInt_Itoa)
  show "session_user ''aa'' (snd (ClearAllForUser 60 (\<lambda>k. True) 7 ?s)) = None"
    using sessions_end_as_asked [OF reach, of "''aa''" "''aa''" 7] user by simp
qed

section \<open>What is missed\<close>

text \<open>A session outside the index of its user is out of reach of logging out everywhere.\<close>

lemma unlisted_survives:
  "sid \<notin> set (SMembers u s) \<Longrightarrow> session_user sid (snd (ClearAllForUser ttl up u s)) = session_user sid s"
  by (auto simp: ClearAllForUser_def Exec_def clear_all_cmds_def session_user_HGetAll)

text \<open>
  C21: A login that commits after logging out everywhere has read the index, and before its deletions run: the new session
  lives, its user's index is gone, and logging out everywhere once more does not end it.
\<close>

theorem logout_everywhere_misses_login:
  assumes "0 < ttl" and "int64 u" and "sid \<notin> set (SMembers u s)"
    and "s' = fold (run_cmd ttl) (clear_all_cmds u (SMembers u s)) (Set_tx ttl sid u agent addr s)"
  shows "session_user sid s' = Some u \<and> ListSessions up u sid s' = (if up 0 then Some [] else None, s')
    \<and> session_user sid (snd (ClearAllForUser ttl up u s')) = Some u"
proof -
  have live: "session_user sid s' = Some u"
    using assms(1-3) uid_after_Set [OF assms(1), of sid sid u agent addr s]
    by (auto simp: assms(4) clear_all_cmds_def session_user_HGetAll HGet_HGetAll int64_def ParseInt_Itoa split: option.splits)
  moreover have none: "SMembers u s' = []"
    by (simp add: assms(4) clear_all_cmds_def SMembers_live)
  moreover have "session_user sid (snd (ClearAllForUser ttl up u s')) = Some u"
    using unlisted_survives [of sid u _ ttl up] none live by simp
  ultimately show ?thesis by (simp add: ListSessions_def sortByLastSeenDesc_def)
qed

theorem logout_everywhere_misses_login_witness:
  "session_user ''bb'' (snd (ClearAllForUser 60 (\<lambda>k. True) 7
     (fold (run_cmd 60) (clear_all_cmds 7 (SMembers 7 (redis no_sessions))) (Set_tx 60 ''bb'' 7 ''ff'' ''h:1'' (redis no_sessions))))) = Some 7"
  using logout_everywhere_misses_login [of 60 7 "''bb''" "redis no_sessions" _ "''ff''" "''h:1''" "\<lambda>k. True"]
  by (simp add: int64_def no_sessions_def SMembers_def live_set_def)

lemma listing_loses:
  "(\<forall>x. HGetAll x (snd (list_loop up k u c sids out s)) = HGetAll x s)
     \<and> set (SMembers u (snd (list_loop up k u c sids out s))) \<subseteq> set (SMembers u s)"
proof (induction up k u c sids out s rule: list_loop.induct)
  case (2 up k u c sid sids out s)
  have fewer: "set (SMembers u (if up (k + 1) then SRem u sid s else s)) \<subseteq> set (SMembers u s)"
    by (auto simp: SMembers_live split: option.splits if_splits)
  show ?case
  proof (cases "if up k then HGetAll sid s else None")
    case None
    have "HGetAll x (if up (k + 1) then SRem u sid s else s) = HGetAll x s" for x by simp
    then show ?thesis using 2(1) [OF None] fewer by (simp only: list_loop.simps None option.case) blast
  next
    case (Some h)
    then show ?thesis using 2(2) [OF Some] by simp
  qed
qed simp

text \<open>
  One failed read while the sessions are listed takes the session out of the index, as if it had ended: it
  lives on, and logging out everywhere does not end it.  Revoking it during an outage reports success.
\<close>

theorem outage_hides_session:
  assumes "session_user sid s = Some u" and "SMembers u s = sid # sids"
  shows "session_user sid (snd (ListSessions (\<lambda>k. k \<noteq> 1) u c s)) = Some u
    \<and> session_user sid (snd (ClearAllForUser ttl up u (snd (ListSessions (\<lambda>k. k \<noteq> 1) u c s)))) = Some u
    \<and> Revoke ttl (\<lambda>k. False) u sid s = (True, s)"
proof -
  let ?s = "SRem u sid s" and ?t = "snd (ListSessions (\<lambda>k. k \<noteq> 1) u c s)"
  have t: "?t = snd (list_loop (\<lambda>k. k \<noteq> 1) 3 u c sids [] ?s)"
    using assms(2) by (simp add: ListSessions_def numeral_3_eq_3 split: prod.split)
  have "session_user sid ?t = session_user sid ?s"
    using listing_loses [of "\<lambda>k. k \<noteq> 1" 3 u c sids "[]" ?s] unfolding t by (simp only: session_user_HGetAll)
  then have live: "session_user sid ?t = Some u" using assms(1) by (simp add: session_user_HGetAll)
  moreover have "sid \<notin> set (SMembers u ?s)" by (auto simp: SMembers_live split: option.splits if_splits)
  then have "sid \<notin> set (SMembers u ?t)"
    using listing_loses [of "\<lambda>k. k \<noteq> 1" 3 u c sids "[]" ?s] unfolding t by blast
  then have "session_user sid (snd (ClearAllForUser ttl up u ?t)) = Some u"
    using unlisted_survives [of sid u _ ttl up] live by simp
  ultimately show ?thesis by (simp add: Revoke_def Exec_def)
qed

theorem outage_hides_session_witness:
  "session_user ''aa'' (snd (ClearAllForUser 60 (\<lambda>k. True) 7
     (snd (ListSessions (\<lambda>k. k \<noteq> 1) 7 ''aa'' (Set_tx 60 ''aa'' 7 ''ff'' ''h:1'' (redis no_sessions)))))) = Some 7"
proof -
  let ?s = "Set_tx 60 ''aa'' 7 ''ff'' ''h:1'' (redis no_sessions)"
  have "session_user ''aa'' ?s = Some 7" by (simp add: session_user_def uid_after_Set ParseInt_Itoa)
  moreover have "SMembers 7 ?s = [''aa'']" by (simp add: SMembers_live, simp add: no_sessions_def live_set_def)
  ultimately show ?thesis using outage_hides_session [of "''aa''" ?s 7 "[]" "''aa''" 60 "\<lambda>k. True"] by blast
qed

text \<open>A login, then a page of its user, then time: the session stands while it is used, and ends with its deadline.\<close>

theorem sessions_keep_their_owner_witness:
  "\<exists>y. par_run 60 no_sessions y \<and> minted y ''aa'' = Some 7 \<and> session_user ''aa'' (redis y) = Some 7"
proof -
  let ?y = "no_sessions\<lparr>redis := Set_tx 60 ''aa'' 7 ''ff'' ''h:1'' (redis no_sessions), minted := (minted no_sessions)(''aa'' := Some 7)\<rparr>"
  have run: "par_run 60 no_sessions ?y"
    by (rule further [OF here], rule Login) (simp_all add: no_sessions_def int64_def)
  have "session_user ''aa'' (redis ?y) = Some 7" by (simp add: session_user_def uid_after_Set ParseInt_Itoa)
  moreover from this have "minted ?y ''aa'' = Some 7"
    using sessions_keep_their_owner [OF run] by (metis zero_less_numeral)
  ultimately show ?thesis using run by blast
qed

theorem ended_sessions_stay_ended_witness:
  "\<exists>y z. par_run 60 y z \<and> session_user ''aa'' (redis y) = None \<and> minted y ''aa'' = Some 7 \<and> pending y \<noteq> pending z
     \<and> session_user ''aa'' (redis z) = None"
proof -
  let ?y = "no_sessions\<lparr>minted := (minted no_sessions)(''aa'' := Some 7), pending := [[CSeen ''aa'' ''5'']]\<rparr>"
  let ?z = "?y\<lparr>redis := run_cmd 60 (CSeen ''aa'' ''5'') (redis ?y), pending := (pending ?y)[0 := []]\<rparr>"
  have run: "par_run 60 ?y ?z" by (rule further [OF here], rule Run) simp_all
  moreover have gone: "session_user ''aa'' (redis ?y) = None"
    by (simp add: no_sessions_def session_user_HGetAll HGetAll_def)
  moreover have "session_user ''aa'' (redis ?z) = None"
    using ended_sessions_stay_ended [OF run _ _ gone, of "\<lambda>k. True"] by simp
  ultimately show ?thesis by (intro exI [of _ ?y] exI [of _ ?z]) simp
qed

end
