(* ===== verification/SessionKick.thy ===== *)
theory SessionKick
  imports GoConv
begin

text \<open>
  Dropping the sessions of a user (\<^verbatim>\<open>src/internal/realtime/sessionkick.go\<close>).  The registry of a replica
  maps a user to a slice of registrations.  A kick copies the slice header under the lock and
  walks the array without it, while a session that ends is deleted from the same array in place; so
  the arrays are a store of their own here, and a slice is an address with a length.  A close
  function is the number of the connection it closes.
\<close>

section \<open>The registry\<close>

record registration =
  reg_id :: int
  conn :: nat \<comment> \<open>\<open>close\<close>\<close>

definition no_registration :: registration where
  "no_registration = \<lparr>reg_id = 0, conn = 0\<rparr>"

text \<open>A slice starts at the front of its array, whose length is its capacity.\<close>

record reg_slice =
  array :: nat
  slice_len :: nat

record SessionKicker =
  next_id :: int \<comment> \<open>\<open>next\<close>\<close>
  regs :: "int \<Rightarrow> reg_slice option"
  arrays :: "nat \<Rightarrow> registration list"
  allocated :: nat \<comment> \<open>the addresses from here on are unused\<close>

definition NewSessionKicker :: SessionKicker where
  "NewSessionKicker = \<lparr>next_id = 0, regs = \<lambda>u. None, arrays = \<lambda>a. [], allocated = 0\<rparr>"

definition view :: "reg_slice \<Rightarrow> SessionKicker \<Rightarrow> registration list" where
  "view sl k = take (slice_len sl) (arrays k (array sl))"

text \<open>
  \<open>append\<close> of one element: in place while the capacity allows it, into a new array of capacity \<open>grow n\<close>
  otherwise, where \<open>n\<close> is the length needed.  \<open>None\<close> is the nil slice.
\<close>

definition append_reg :: "(nat \<Rightarrow> nat) \<Rightarrow> reg_slice option \<Rightarrow> registration \<Rightarrow> SessionKicker \<Rightarrow> reg_slice \<times> SessionKicker" where
  "append_reg grow osl r k =
     (let old = (case osl of None \<Rightarrow> [] | Some sl \<Rightarrow> view sl k); n = length old in
      case osl of
        Some sl \<Rightarrow>
          if n < length (arrays k (array sl))
          then (sl\<lparr>slice_len := n + 1\<rparr>, k\<lparr>arrays := (arrays k)(array sl := (arrays k (array sl))[n := r])\<rparr>)
          else (\<lparr>array = allocated k, slice_len = n + 1\<rparr>,
            k\<lparr>arrays := (arrays k)(allocated k := old @ [r] @ replicate (grow (n + 1) - (n + 1)) no_registration),
              allocated := allocated k + 1\<rparr>)
      | None \<Rightarrow>
          (\<lparr>array = allocated k, slice_len = 1\<rparr>,
            k\<lparr>arrays := (arrays k)(allocated k := [r] @ replicate (grow 1 - 1) no_registration),
              allocated := allocated k + 1\<rparr>))"

definition Register :: "(nat \<Rightarrow> nat) \<Rightarrow> int \<Rightarrow> nat \<Rightarrow> SessionKicker \<Rightarrow> int \<times> SessionKicker" where
  "Register grow u c k =
     (let i = next_id k + 1; k = k\<lparr>next_id := i\<rparr> in
      case append_reg grow (regs k u) \<lparr>reg_id = i, conn = c\<rparr> k of (sl, k) \<Rightarrow> (i, k\<lparr>regs := (regs k)(u := Some sl)\<rparr>))"

text \<open>The index of the first registration with the ID.\<close>

fun find_reg :: "int \<Rightarrow> registration list \<Rightarrow> nat option" where
  "find_reg i [] = None"
| "find_reg i (r # rs) = (if reg_id r = i then Some 0 else map_option Suc (find_reg i rs))"

text \<open>\<open>append(list[:i], list[i+1:]...)\<close>: the elements behind \<open>i\<close> move up, the last place keeps its value.\<close>

definition remove_at :: "nat \<Rightarrow> reg_slice \<Rightarrow> SessionKicker \<Rightarrow> reg_slice \<times> SessionKicker" where
  "remove_at i sl k =
     (let n = slice_len sl; xs = arrays k (array sl)
      in (sl\<lparr>slice_len := n - 1\<rparr>,
          k\<lparr>arrays := (arrays k)(array sl := take i xs @ drop (i + 1) (take n xs) @ drop (n - 1) xs)\<rparr>))"

definition deregister :: "int \<Rightarrow> int \<Rightarrow> SessionKicker \<Rightarrow> SessionKicker" where
  "deregister u i k =
     (case regs k u of
        None \<Rightarrow> k
      | Some sl \<Rightarrow>
          (case (case find_reg i (view sl k) of None \<Rightarrow> (sl, k) | Some j \<Rightarrow> remove_at j sl k) of (sl, k) \<Rightarrow>
             k\<lparr>regs := (regs k)(u := if slice_len sl = 0 then None else Some sl)\<rparr>))"

section \<open>Kicking\<close>

text \<open>What other goroutines do under the lock while a kick walks the array.\<close>

datatype registry_op = Reg int nat | Dereg int int

fun registry_do :: "(nat \<Rightarrow> nat) \<Rightarrow> registry_op \<Rightarrow> SessionKicker \<Rightarrow> SessionKicker" where
  "registry_do grow (Reg u c) k = snd (Register grow u c k)"
| "registry_do grow (Dereg u i) k = deregister u i k"

text \<open>
  \<open>kickLocal\<close>: \<open>during n r\<close> runs after the \<open>n\<close>-th close function, the one of \<open>r\<close>, has been called.  The
  result is the connections closed, in order.
\<close>

fun kick_walk ::
  "(nat \<Rightarrow> nat) \<Rightarrow> (nat \<Rightarrow> registration \<Rightarrow> registry_op list) \<Rightarrow> reg_slice \<Rightarrow> nat \<Rightarrow> nat \<Rightarrow> SessionKicker \<Rightarrow> nat list \<times> SessionKicker" where
  "kick_walk grow during sl i 0 k = ([], k)"
| "kick_walk grow during sl i (Suc n) k =
     (let r = arrays k (array sl) ! i; k = fold (registry_do grow) (during i r) k
      in case kick_walk grow during sl (i + 1) n k of (cs, k) \<Rightarrow> (conn r # cs, k))"

definition kickLocal :: "(nat \<Rightarrow> nat) \<Rightarrow> (nat \<Rightarrow> registration \<Rightarrow> registry_op list) \<Rightarrow> int \<Rightarrow> SessionKicker \<Rightarrow> nat list \<times> SessionKicker" where
  "kickLocal grow during u k =
     (case regs k u of None \<Rightarrow> ([], k) | Some sl \<Rightarrow> kick_walk grow during sl 0 (slice_len sl) k)"

text \<open>A kick closes here, then publishes the user for the other replicas (and for this one).\<close>

definition Kick ::
  "(nat \<Rightarrow> nat) \<Rightarrow> (nat \<Rightarrow> registration \<Rightarrow> registry_op list) \<Rightarrow> bool \<Rightarrow> int \<Rightarrow> SessionKicker \<Rightarrow> string option \<times> nat list \<times> SessionKicker" where
  "Kick grow during bus u k =
     (case kickLocal grow during u k of (cs, k) \<Rightarrow> (if bus then Some (Itoa u) else None, cs, k))"

section \<open>The subscription\<close>

datatype kick_event = Cancelled | Lost | Message string
datatype consume_end = Waiting | Returned | Failed

text \<open>\<open>consume\<close>: the users it kicks, and how it ends; with no further event it waits.\<close>

fun consume_loop :: "kick_event list \<Rightarrow> int list \<times> consume_end \<times> kick_event list" where
  "consume_loop [] = ([], Waiting, [])"
| "consume_loop (Cancelled # es) = ([], Returned, es)"
| "consume_loop (Lost # es) = ([], Failed, es)"
| "consume_loop (Message p # es) =
     (case ParseInt p of
        None \<Rightarrow> consume_loop es
      | Some u \<Rightarrow> (case consume_loop es of (us, e, rest) \<Rightarrow> (u # us, e, rest)))"

lemma consume_loop_rest: "consume_loop es = (us, Failed, rest) \<Longrightarrow> length rest < length es"
proof (induction es arbitrary: us rest rule: consume_loop.induct)
  case (4 p es)
  then show ?case by (cases "ParseInt p") (force split: prod.splits)+
qed auto

text \<open>\<open>Run\<close>, with its waits in milliseconds; \<open>Lost\<close> at the front is also a failed subscription.\<close>

definition next_backoff :: "int \<Rightarrow> int" where
  "next_backoff b = (if b < 30000 then b * 2 else b)"

function run_kicker :: "int \<Rightarrow> kick_event list \<Rightarrow> int list \<times> int list \<times> bool" where
  "run_kicker b es =
     (case consume_loop es of
        (us, Failed, rest) \<Rightarrow>
          (case run_kicker (next_backoff b) rest of (us', waits, ended) \<Rightarrow> (us @ us', b # waits, ended))
      | (us, e, rest) \<Rightarrow> (us, [], e = Returned))"
  by auto
termination
  by (relation "measure (length \<circ> snd)") (auto dest!: consume_loop_rest dest: sym)

declare run_kicker.simps [simp del]

definition Run :: "bool \<Rightarrow> kick_event list \<Rightarrow> int list \<times> int list \<times> bool" where
  "Run bus es = (if bus then run_kicker 500 es else ([], [], True))"

section \<open>The registry is a list per user\<close>

text \<open>What the registry promises: a user's registrations in the order they were made.\<close>

fun spec_do :: "registry_op \<Rightarrow> int \<times> (int \<Rightarrow> registration list) \<Rightarrow> int \<times> (int \<Rightarrow> registration list)" where
  "spec_do (Reg u c) (n, f) = (n + 1, f(u := f u @ [\<lparr>reg_id = n + 1, conn = c\<rparr>]))"
| "spec_do (Dereg u i) (n, f) = (n, f(u := filter (\<lambda>r. reg_id r \<noteq> i) (f u)))"

definition contents :: "SessionKicker \<Rightarrow> int \<Rightarrow> registration list" where
  "contents k u = (case regs k u of None \<Rightarrow> [] | Some sl \<Rightarrow> view sl k)"

definition kicker_ok :: "SessionKicker \<Rightarrow> bool" where
  "kicker_ok k \<longleftrightarrow>
     (\<forall>u sl. regs k u = Some sl \<longrightarrow>
        array sl < allocated k \<and> 0 < slice_len sl \<and> slice_len sl \<le> length (arrays k (array sl)))
     \<and> (\<forall>u v sl sl'. regs k u = Some sl \<longrightarrow> regs k v = Some sl' \<longrightarrow> array sl = array sl' \<longrightarrow> u = v)
     \<and> (\<forall>u. distinct (map reg_id (contents k u)) \<and> (\<forall>r \<in> set (contents k u). reg_id r \<le> next_id k))"

lemma kicker_okD:
  assumes "kicker_ok k" and "regs k u = Some sl"
  shows "array sl < allocated k" "0 < slice_len sl" "slice_len sl \<le> length (arrays k (array sl))"
    "length (view sl k) = slice_len sl" "contents k u = view sl k"
    "\<And>v sl'. regs k v = Some sl' \<Longrightarrow> array sl' = array sl \<Longrightarrow> v = u"
  using assms unfolding kicker_ok_def contents_def view_def by (fastforce, fastforce, fastforce, fastforce, fastforce, metis)

lemma kicker_ok_ids:
  assumes "kicker_ok k"
  shows "distinct (map reg_id (contents k u))" and "r \<in> set (contents k u) \<Longrightarrow> reg_id r \<le> next_id k"
  using assms unfolding kicker_ok_def by simp_all

lemma find_reg_Some:
  "find_reg i rs = Some j \<Longrightarrow> distinct (map reg_id rs) \<Longrightarrow>
     j < length rs \<and> reg_id (rs ! j) = i \<and> take j rs @ drop (Suc j) rs = filter (\<lambda>r. reg_id r \<noteq> i) rs"
proof (induction rs arbitrary: j)
  case (Cons r rs)
  show ?case
  proof (cases "reg_id r = i")
    case True
    then have "i \<notin> reg_id ` set rs" using Cons.prems(2) by simp
    then have "filter (\<lambda>r. reg_id r \<noteq> i) rs = rs" by (force simp: filter_id_conv)
    moreover note True
    ultimately show ?thesis using Cons.prems(1) by simp
  next
    case False
    then obtain m where "find_reg i rs = Some m" "j = Suc m" using Cons.prems(1) by auto
    then show ?thesis using Cons.IH [of m] Cons.prems(2) False by simp
  qed
qed simp

lemma find_reg_None: "find_reg i rs = None \<Longrightarrow> filter (\<lambda>r. reg_id r \<noteq> i) rs = rs"
  by (induction rs) (auto split: if_splits)

lemma append_reg_effect:
  assumes "kicker_ok k" and "append_reg grow (regs k u) r k = (sl, k')"
  shows "take (slice_len sl) (arrays k' (array sl)) = contents k u @ [r]"
    and "slice_len sl \<le> length (arrays k' (array sl))" and "slice_len sl = length (contents k u) + 1"
    and "regs k' = regs k" and "next_id k' = next_id k" and "allocated k \<le> allocated k'" and "array sl < allocated k'"
    and "\<And>v sl'. regs k v = Some sl' \<Longrightarrow> v \<noteq> u \<Longrightarrow>
           array sl' \<noteq> array sl \<and> arrays k' (array sl') = arrays k (array sl')"
proof -
  have "take (slice_len sl) (arrays k' (array sl)) = contents k u @ [r]
    \<and> slice_len sl \<le> length (arrays k' (array sl)) \<and> slice_len sl = length (contents k u) + 1
    \<and> regs k' = regs k \<and> next_id k' = next_id k \<and> allocated k \<le> allocated k' \<and> array sl < allocated k'
    \<and> (\<forall>v sl'. regs k v = Some sl' \<longrightarrow> v \<noteq> u \<longrightarrow> array sl' \<noteq> array sl \<and> arrays k' (array sl') = arrays k (array sl'))"
  proof (cases "regs k u")
    case None
    have new: "array sl' \<noteq> allocated k" if "regs k v = Some sl'" for v sl' using kicker_okD(1) [OF assms(1) that] by simp
    have "sl = \<lparr>array = allocated k, slice_len = 1\<rparr>"
      "k' = k\<lparr>arrays := (arrays k)(allocated k := [r] @ replicate (grow 1 - 1) no_registration), allocated := allocated k + 1\<rparr>"
      using assms(2) None by (simp_all add: append_reg_def)
    then show ?thesis using None new by (simp add: contents_def)
  next
    case (Some old)
    note old = kicker_okD [OF assms(1) Some]
    have other: "array sl' \<noteq> allocated k \<and> array sl' \<noteq> array old" if "regs k v = Some sl'" "v \<noteq> u" for v sl'
      using kicker_okD(1) [OF assms(1) that(1)] old(6) [OF that(1)] that(2) by auto
    show ?thesis
    proof (cases "slice_len old < length (arrays k (array old))")
      case True
      then have "take (slice_len old + 1) ((arrays k (array old))[slice_len old := r]) = view old k @ [r]"
        by (simp add: view_def take_Suc_conv_app_nth)
      moreover have "sl = old\<lparr>slice_len := slice_len old + 1\<rparr>"
        "k' = k\<lparr>arrays := (arrays k)(array old := (arrays k (array old))[slice_len old := r])\<rparr>"
        using assms(2) Some True old(4) by (simp_all add: append_reg_def Let_def)
      ultimately show ?thesis using True old(1-5) other by simp
    next
      case False
      then have "sl = \<lparr>array = allocated k, slice_len = slice_len old + 1\<rparr>"
        "k' = k\<lparr>arrays := (arrays k)(allocated k :=
            view old k @ [r] @ replicate (grow (slice_len old + 1) - (slice_len old + 1)) no_registration), allocated := allocated k + 1\<rparr>"
        using assms(2) Some old(4) by (simp_all add: append_reg_def Let_def)
      then show ?thesis using old(1-5) other by simp
    qed
  qed
  then show "take (slice_len sl) (arrays k' (array sl)) = contents k u @ [r]"
    and "slice_len sl \<le> length (arrays k' (array sl))" and "slice_len sl = length (contents k u) + 1"
    and "regs k' = regs k" and "next_id k' = next_id k" and "allocated k \<le> allocated k'" and "array sl < allocated k'"
    and "\<And>v sl'. regs k v = Some sl' \<Longrightarrow> v \<noteq> u \<Longrightarrow>
           array sl' \<noteq> array sl \<and> arrays k' (array sl') = arrays k (array sl')"
    by blast+
qed

text \<open>A state that keeps the other users' slices and gives one user a new list is well-formed.\<close>

lemma kicker_okI:
  assumes ok: "kicker_ok k" and later: "next_id k \<le> next_id k'" and alloc: "allocated k \<le> allocated k'"
    and others: "\<And>v. v \<noteq> u \<Longrightarrow> regs k' v = regs k v"
    and kept: "\<And>v sl. regs k v = Some sl \<Longrightarrow> v \<noteq> u \<Longrightarrow> arrays k' (array sl) = arrays k (array sl)"
    and mine: "\<And>sl. regs k' u = Some sl \<Longrightarrow> array sl < allocated k' \<and> 0 < slice_len sl \<and> slice_len sl \<le> length (arrays k' (array sl))
      \<and> (\<forall>v sl'. regs k v = Some sl' \<longrightarrow> v \<noteq> u \<longrightarrow> array sl' \<noteq> array sl)"
    and list: "distinct (map reg_id (contents k' u))" "\<forall>r \<in> set (contents k' u). reg_id r \<le> next_id k'"
  shows "kicker_ok k' \<and> contents k' = (contents k)(u := contents k' u)"
proof -
  have same: "contents k' v = contents k v" if "v \<noteq> u" for v
    using others [OF that] kept [OF _ that] by (auto simp: contents_def view_def split: option.split)
  have "array sl < allocated k' \<and> 0 < slice_len sl \<and> slice_len sl \<le> length (arrays k' (array sl))" if "regs k' v = Some sl" for v sl
    using that mine [of sl] others [of v] kept [of v sl] kicker_okD(1-3) [OF ok, of v sl] alloc by (cases "v = u") auto
  moreover have "v = w" if "regs k' v = Some sl" "regs k' w = Some sl'" "array sl = array sl'" for v w sl sl'
  proof (rule ccontr)
    assume "v \<noteq> w"
    then consider "v = u" "w \<noteq> u" | "v \<noteq> u" "w = u" | "v \<noteq> u" "w \<noteq> u" by blast
    then show False
    proof cases
      case 1
      then have "regs k w = Some sl'" "regs k' u = Some sl" using others that by auto
      then show ?thesis using mine [of sl] 1 that(3) by metis
    next
      case 2
      then have "regs k v = Some sl" "regs k' u = Some sl'" using others that by auto
      then show ?thesis using mine [of sl'] 2 that(3) by metis
    next
      case 3
      then show ?thesis using kicker_okD(6) [OF ok, of v sl w sl'] others that \<open>v \<noteq> w\<close> by auto
    qed
  qed
  moreover have "distinct (map reg_id (contents k' v)) \<and> (\<forall>r \<in> set (contents k' v). reg_id r \<le> next_id k')" for v
    using list same [of v] kicker_ok_ids(1) [OF ok, of v] kicker_ok_ids(2) [OF ok, of _ v] later by (cases "v = u") force+
  ultimately show ?thesis unfolding kicker_ok_def using same by (auto simp: fun_eq_iff)
qed

lemma Register_effect:
  assumes "kicker_ok k"
    and "k' = snd (Register grow u c k)"
  shows "kicker_ok k' \<and> next_id k' = next_id k + 1
    \<and> contents k' = (contents k)(u := contents k u @ [\<lparr>reg_id = next_id k + 1, conn = c\<rparr>])"
proof -
  let ?k = "k\<lparr>next_id := next_id k + 1\<rparr>" and ?r = "\<lparr>reg_id = next_id k + 1, conn = c\<rparr>"
  have same: "contents ?k = contents k" by (simp add: contents_def view_def fun_eq_iff split: option.split)
  have "reg_id r \<le> next_id k + 1" if "r \<in> set (contents k v)" for r v
    using assms(1) that unfolding kicker_ok_def by force
  then have ok: "kicker_ok ?k" using assms(1) unfolding kicker_ok_def by (simp add: same)
  obtain sl m where m: "append_reg grow (regs ?k u) ?r ?k = (sl, m)" by fastforce
  note eff = append_reg_effect [OF ok m]
  have k': "k' = m\<lparr>regs := (regs m)(u := Some sl)\<rparr>" using m by (simp add: assms(2) Register_def Let_def)
  have mine: "contents k' u = contents k u @ [?r]" using eff(1) same by (simp add: k' contents_def view_def)
  have "distinct (map reg_id (contents k u)) \<and> (\<forall>r \<in> set (contents k u). reg_id r \<le> next_id k)"
    using assms(1) by (simp add: kicker_ok_def)
  then have list: "distinct (map reg_id (contents k' u))" "\<forall>r \<in> set (contents k' u). reg_id r \<le> next_id k + 1"
    using mine by force+
  have "kicker_ok k' \<and> contents k' = (contents ?k)(u := contents k' u)"
  proof (rule kicker_okI [OF ok])
    show "distinct (map reg_id (contents k' u))" "\<forall>r \<in> set (contents k' u). reg_id r \<le> next_id k'"
      using list eff(5) by (simp_all add: k')
  qed (use eff in \<open>auto simp: k'\<close>)
  then show ?thesis using eff(5) mine same by (simp add: k')
qed

lemma deregister_effect:
  assumes "kicker_ok k"
  shows "kicker_ok (deregister u i k) \<and> next_id (deregister u i k) = next_id k
    \<and> contents (deregister u i k) = (contents k)(u := filter (\<lambda>r. reg_id r \<noteq> i) (contents k u))"
proof (cases "regs k u")
  case None
  then show ?thesis using assms by (auto simp: deregister_def contents_def)
next
  case (Some sl)
  note sl = kicker_okD [OF assms Some]
  have dist: "distinct (map reg_id (view sl k))" "\<forall>r \<in> set (view sl k). reg_id r \<le> next_id k"
    using assms sl(5) unfolding kicker_ok_def by metis+
  show ?thesis
  proof (cases "find_reg i (view sl k)")
    case None
    then have "deregister u i k = k" using Some sl(2) by (simp add: deregister_def fun_upd_idem)
    then show ?thesis using assms find_reg_None [OF None] sl(5) by (simp add: fun_upd_idem)
  next
    case (Some j)
    let ?k = "deregister u i k" and ?xs = "arrays k (array sl)" and ?n = "slice_len sl"
    let ?ys = "take j ?xs @ drop (j + 1) (take ?n ?xs) @ drop (?n - 1) ?xs"
    note j = find_reg_Some [OF Some dist(1)]
    have "j < ?n" using j sl(4) by simp
    then have len: "length (take j ?xs @ drop (j + 1) (take ?n ?xs)) = ?n - 1" using sl(3) by simp
    have list: "take (?n - 1) ?ys = filter (\<lambda>r. reg_id r \<noteq> i) (view sl k)"
    proof -
      have "take (?n - 1) ?ys = take j ?xs @ drop (j + 1) (take ?n ?xs)" using len by (metis append.assoc append_eq_conv_conj)
      also have "\<dots> = take j (view sl k) @ drop (Suc j) (view sl k)" using \<open>j < ?n\<close> by (simp add: view_def min_def)
      finally show ?thesis using j by simp
    qed
    have k: "?k = k\<lparr>arrays := (arrays k)(array sl := ?ys),
        regs := (regs k)(u := if ?n - 1 = 0 then None else Some (sl\<lparr>slice_len := ?n - 1\<rparr>))\<rparr>"
      using Some \<open>regs k u = Some sl\<close> by (simp add: deregister_def remove_at_def Let_def)
    have mine: "contents ?k u = filter (\<lambda>r. reg_id r \<noteq> i) (contents k u)"
      using list sl(5) by (auto simp: k contents_def view_def)
    have "kicker_ok ?k \<and> contents ?k = (contents k)(u := contents ?k u)"
    proof (rule kicker_okI [OF assms])
      show "distinct (map reg_id (contents ?k u))" "\<forall>r \<in> set (contents ?k u). reg_id r \<le> next_id ?k"
        using dist sl(5) mine by (auto simp: distinct_map_filter k)
    qed (use sl len in \<open>auto simp: k split: if_splits\<close>)
    then show ?thesis using mine by (simp add: k)
  qed
qed

lemma registry_run:
  "kicker_ok k \<Longrightarrow> kicker_ok (fold (registry_do grow) ops k)
     \<and> (next_id (fold (registry_do grow) ops k), contents (fold (registry_do grow) ops k)) = fold spec_do ops (next_id k, contents k)"
proof (induction ops arbitrary: k)
  case (Cons x ops)
  have "kicker_ok (registry_do grow x k) \<and> (next_id (registry_do grow x k), contents (registry_do grow x k)) = spec_do x (next_id k, contents k)"
    using Register_effect [OF Cons.prems refl] deregister_effect [OF Cons.prems] by (cases x) auto
  then show ?case using Cons.IH [of "registry_do grow x k"] by simp
qed simp

lemma new_kicker: "kicker_ok NewSessionKicker" "contents NewSessionKicker = (\<lambda>u. [])"
  by (simp_all add: kicker_ok_def NewSessionKicker_def contents_def fun_eq_iff)

text \<open>
  C7: Whatever is registered and deregistered, in place or in a new array: the registry holds for every user
  exactly the registrations made and not ended, in order.
\<close>

theorem registry_refines:
  "(next_id (fold (registry_do grow) ops NewSessionKicker), contents (fold (registry_do grow) ops NewSessionKicker))
     = fold spec_do ops (0, \<lambda>u. [])"
  using registry_run [OF new_kicker(1), of grow ops] by (simp add: new_kicker(2)) (simp add: NewSessionKicker_def)

section \<open>Which sessions a kick closes\<close>

text \<open>The places of the walked array that registering, and the other users, leave alone.\<close>

definition walk_ok :: "int \<Rightarrow> reg_slice \<Rightarrow> registration list \<Rightarrow> SessionKicker \<Rightarrow> bool" where
  "walk_ok u sl rs k \<longleftrightarrow> kicker_ok k \<and> array sl < allocated k \<and> take (slice_len sl) (arrays k (array sl)) = rs
     \<and> slice_len sl \<le> length (arrays k (array sl))
     \<and> (\<forall>v sl'. regs k v = Some sl' \<longrightarrow> array sl' = array sl \<longrightarrow> v = u \<and> slice_len sl \<le> slice_len sl')"

lemma walk_Register:
  assumes "walk_ok u sl rs k"
  shows "walk_ok u sl rs (snd (Register grow v c k))"
proof -
  note ok = assms [unfolded walk_ok_def]
  let ?k = "snd (Register grow v c k)"
  have new: "kicker_ok ?k" using Register_effect [OF _ refl] ok by blast
  show ?thesis
  proof (cases "regs k v")
    case None
    then show ?thesis using ok new by (auto simp: walk_ok_def Register_def append_reg_def Let_def split: if_splits)
  next
    case (Some old)
    note old = kicker_okD [OF conjunct1 [OF ok] Some]
    have same: "v = u \<and> slice_len sl \<le> slice_len old" if "array old = array sl" using ok Some that by blast
    have "take (slice_len sl) (arrays ?k (array sl)) = rs \<and> slice_len sl \<le> length (arrays ?k (array sl)) \<and> array sl < allocated ?k"
      using Some ok old(1-5) same by (auto simp: Register_def append_reg_def view_def Let_def)
    moreover have "w = u \<and> slice_len sl \<le> slice_len sl'" if "regs ?k w = Some sl'" "array sl' = array sl" for w sl'
    proof (cases "w = v")
      case True
      then have "sl' = old\<lparr>slice_len := Suc (slice_len old)\<rparr> \<or> array sl' = allocated k"
        using that(1) Some old(1-5) by (auto simp: Register_def append_reg_def view_def Let_def split: if_splits)
      then have "array old = array sl \<and> slice_len sl' = Suc (slice_len old)" using that(2) ok by fastforce
      then show ?thesis using same True by simp
    next
      case False
      then have "regs k w = Some sl'" using that(1) Some by (auto simp: Register_def append_reg_def Let_def split: if_splits)
      then show ?thesis using ok that(2) by blast
    qed
    ultimately show ?thesis using new unfolding walk_ok_def by blast
  qed
qed

lemma walk_deregister:
  assumes "walk_ok u sl rs k" and "v \<noteq> u"
  shows "walk_ok u sl rs (deregister v i k)"
proof -
  note ok = assms(1) [unfolded walk_ok_def]
  have new: "kicker_ok (deregister v i k)" using deregister_effect ok by blast
  show ?thesis
    using ok new assms(2) by (auto simp: walk_ok_def deregister_def remove_at_def Let_def split: option.splits if_splits)
qed

lemma walk_ops:
  "walk_ok u sl rs k \<Longrightarrow> (\<And>i. Dereg u i \<notin> set ops) \<Longrightarrow> walk_ok u sl rs (fold (registry_do grow) ops k)"
proof (induction ops arbitrary: k)
  case (Cons x ops)
  then have "walk_ok u sl rs (registry_do grow x k)"
    by (cases x) (auto intro!: walk_Register walk_deregister)
  then show ?case using Cons by simp
qed simp

lemma quiet_walk:
  assumes "\<And>j r i. Dereg u i \<notin> set (during j r)"
  shows "walk_ok u sl rs k \<Longrightarrow> i + n = slice_len sl \<Longrightarrow> fst (kick_walk grow during sl i n k) = map conn (drop i rs)"
proof (induction n arbitrary: i k)
  case 0
  then show ?case by (auto simp: walk_ok_def)
next
  case (Suc n)
  let ?r = "arrays k (array sl) ! i"
  have rs: "take (slice_len sl) (arrays k (array sl)) = rs" "slice_len sl \<le> length (arrays k (array sl))"
    using Suc.prems(1) unfolding walk_ok_def by blast+
  then have "length rs = slice_len sl" by auto
  moreover have "rs ! i = ?r" using rs(1) [symmetric] Suc.prems(2) by simp
  ultimately have "i < length rs" "rs ! i = ?r" using Suc.prems(2) by simp_all
  then have "drop i rs = ?r # drop (i + 1) rs" by (simp add: Cons_nth_drop_Suc [symmetric])
  moreover have "walk_ok u sl rs (fold (registry_do grow) (during i ?r) k)" (is "walk_ok u sl rs ?k")
    using walk_ops Suc.prems(1) assms by blast
  then have "fst (kick_walk grow during sl (i + 1) n ?k) = map conn (drop (i + 1) rs)"
    using Suc.IH [of ?k "i + 1"] Suc.prems(2) by simp
  ultimately show ?case by (simp add: Let_def split: prod.split) (metis fst_conv)
qed

text \<open>
  While no session of the user ends, a kick closes every session that was registered when it started, each
  once and in order, whatever else the registry goes through meanwhile.
\<close>

theorem kick_closes_all:
  assumes "k = fold (registry_do grow) ops NewSessionKicker" and "\<forall>j r i. Dereg u i \<notin> set (during j r)"
  shows "fst (kickLocal grow during u k) = map conn (contents k u)"
proof (cases "regs k u")
  case (Some sl)
  have ok: "kicker_ok k" using registry_run [OF new_kicker(1)] assms(1) by blast
  note sl = kicker_okD [OF ok Some]
  have "v = u \<and> slice_len sl \<le> slice_len sl'" if "regs k v = Some sl'" "array sl' = array sl" for v sl'
    using sl(6) [OF that] that Some by auto
  then have "walk_ok u sl (view sl k) k"
    using ok sl(1-3) unfolding walk_ok_def view_def by blast
  then have "fst (kick_walk grow during sl 0 (slice_len sl) k) = map conn (drop 0 (view sl k))"
    by (intro quiet_walk [of u]) (use assms(2) in auto)
  then show ?thesis by (simp only: kickLocal_def Some option.case sl(5) drop_0)
qed (simp add: kickLocal_def contents_def)

section \<open>Sessions that end while they are kicked\<close>

text \<open>Every second registration but the last.\<close>

fun skipped :: "'a list \<Rightarrow> 'a list" where
  "skipped (x # y # z # xs) = y # skipped (z # xs)"
| "skipped _ = []"

fun evens :: "'a list \<Rightarrow> 'a list" where
  "evens (x # y # xs) = x # evens xs"
| "evens xs = xs"

fun odds :: "'a list \<Rightarrow> 'a list" where
  "odds (x # y # xs) = y # odds xs"
| "odds xs = []"

lemma evens_odds: "set (evens xs) \<union> set (odds xs) = set xs" "distinct xs \<Longrightarrow> set (evens xs) \<inter> set (odds xs) = {}"
  by (induction xs rule: evens.induct) auto

lemma skipped_odds: "xs \<noteq> [] \<Longrightarrow> distinct xs \<Longrightarrow> skipped xs = filter (\<lambda>x. x \<noteq> last xs) (odds xs)"
proof (induction xs rule: skipped.induct)
  case (1 x y z xs)
  then show ?case by auto
qed auto

lemma length_skipped: "length (skipped xs) = (length xs - 1) div 2"
  by (induction xs rule: skipped.induct) auto

text \<open>The walked array: the registrations left, then copies that deletions left behind.\<close>

definition walked :: "int \<Rightarrow> nat \<Rightarrow> registration list \<Rightarrow> registration list \<Rightarrow> SessionKicker \<Rightarrow> bool" where
  "walked u a rs pad k \<longleftrightarrow> kicker_ok k \<and> contents k u = rs \<and> (\<forall>sl. regs k u = Some sl \<longrightarrow> array sl = a)
     \<and> (\<exists>more. arrays k a = rs @ pad @ more)"

lemma deregister_unknown:
  assumes "kicker_ok k" and "i \<notin> reg_id ` set (contents k u)"
  shows "deregister u i k = k"
proof (cases "regs k u")
  case (Some sl)
  have "find_reg i rs = None" if "i \<notin> reg_id ` set rs" for rs using that by (induction rs) auto
  then have "find_reg i (view sl k) = None" using assms(2) kicker_okD(5) [OF assms(1) Some] by simp
  then show ?thesis using Some kicker_okD(2) [OF assms(1) Some] by (simp add: deregister_def fun_upd_idem)
qed (simp add: deregister_def)

lemma find_reg_at: "reg_id r \<notin> reg_id ` set xs \<Longrightarrow> find_reg (reg_id r) (xs @ r # ys) = Some (length xs)"
  by (induction xs) auto

lemma walked_step:
  assumes "walked u a (xs @ r # ys) pad k"
  shows "walked u a (xs @ ys) (last (r # ys) # pad) (deregister u (reg_id r) k)"
proof -
  let ?rs = "xs @ r # ys"
  obtain more where k: "kicker_ok k" "contents k u = ?rs" "arrays k a = ?rs @ pad @ more"
    using assms unfolding walked_def by blast
  then obtain sl where sl: "regs k u = Some sl" "array sl = a"
    using assms by (auto simp: walked_def contents_def split: option.splits)
  have view: "view sl k = ?rs" "slice_len sl = length ?rs"
    using kicker_okD(4,5) [OF k(1) sl(1)] k(2) by simp_all
  have ids: "distinct (map reg_id ?rs)" using kicker_ok_ids(1) [OF k(1), of u] k(2) by simp
  then have "find_reg (reg_id r) (view sl k) = Some (length xs)" using view(1) by (simp add: find_reg_at)
  then have d: "deregister u (reg_id r) k = k\<lparr>arrays := (arrays k)(a := xs @ ys @ drop (length (xs @ ys)) (?rs @ pad @ more)),
      regs := (regs k)(u := if xs @ ys = [] then None else Some (sl\<lparr>slice_len := length (xs @ ys)\<rparr>))\<rparr>"
    using sl view(2) k(3) by (simp add: deregister_def remove_at_def Let_def)
  have "drop (length (xs @ ys)) ?rs = [last (r # ys)]" by (induction ys arbitrary: r xs rule: rev_induct) simp_all
  then have "xs @ ys @ drop (length (xs @ ys)) (?rs @ pad @ more) = (xs @ ys) @ (last (r # ys) # pad) @ more"
    using drop_append [of "length (xs @ ys)" ?rs "pad @ more"] by (simp only:) simp
  moreover have "kicker_ok (deregister u (reg_id r) k)"
    "contents (deregister u (reg_id r) k) u = filter (\<lambda>x. reg_id x \<noteq> reg_id r) ?rs"
    using deregister_effect [OF k(1), of u "reg_id r"] k(2) by auto
  moreover have "filter (\<lambda>x. reg_id x \<noteq> reg_id r) ?rs = xs @ ys"
    using find_reg_Some [of "reg_id r" ?rs "length xs"] ids by (simp add: find_reg_at)
  ultimately show ?thesis using sl unfolding walked_def by (auto simp: d)
qed

definition ends_at_once :: "int \<Rightarrow> nat \<Rightarrow> registration \<Rightarrow> registry_op list" where
  "ends_at_once u = (\<lambda>j r. [Dereg u (reg_id r)])"

lemma walk_copies:
  "walked u (array sl) rs pad k \<Longrightarrow> drop i (rs @ pad) = replicate n l \<Longrightarrow> length (rs @ pad) = i + n \<Longrightarrow>
     (l \<in> set rs \<longrightarrow> last rs = l) \<Longrightarrow> (\<forall>r \<in> set rs. reg_id r = reg_id l \<longrightarrow> r = l) \<Longrightarrow>
     kick_walk grow (ends_at_once u) sl i n k = (cs, k') \<Longrightarrow>
     cs = replicate n (conn l) \<and> contents k' u = (if n = 0 then rs else filter (\<lambda>r. r \<noteq> l) rs)"
proof (induction n arbitrary: i rs pad k cs)
  case 0
  then show ?case by (auto simp: walked_def)
next
  case (Suc n)
  obtain more where more: "arrays k (array sl) = rs @ pad @ more" "kicker_ok k" "contents k u = rs"
    using Suc.prems(1) unfolding walked_def by blast
  have at: "(rs @ pad) ! i = l" "drop (i + 1) (rs @ pad) = replicate n l"
    using Cons_nth_drop_Suc [of i "rs @ pad"] Suc.prems(2,3) by simp_all
  then have l: "arrays k (array sl) ! i = l" using more(1) Suc.prems(3) nth_append [of "rs @ pad" more i] by simp
  let ?k = "deregister u (reg_id l) k"
  obtain cs' where cs': "kick_walk grow (ends_at_once u) sl (i + 1) n ?k = (cs', k')" "cs = conn l # cs'"
    using Suc.prems(6) l by (auto simp: ends_at_once_def Let_def split: prod.splits)
  show ?case
  proof (cases "l \<in> set rs")
    case True
    then have rs: "rs = butlast rs @ [l]" using Suc.prems(4) by (metis append_butlast_last_id empty_iff empty_set)
    have ids: "distinct (map reg_id rs)" using kicker_ok_ids(1) [OF more(2), of u] more(3) by simp
    then have gone: "l \<notin> set (butlast rs)" using arg_cong [OF rs, of "map reg_id"] by (metis distinct_map distinct_append disjoint_iff list.set_intros(1) rs)
    have "walked u (array sl) (butlast rs) (l # pad) ?k"
      using walked_step [of u "array sl" "butlast rs" l "[]" pad k] Suc.prems(1) rs by simp
    moreover have same: "butlast rs @ l # pad = rs @ pad" using arg_cong [OF rs, of "\<lambda>xs. xs @ pad"] by simp
    ultimately have "cs' = replicate n (conn l) \<and> contents k' u = (if n = 0 then butlast rs else filter (\<lambda>r. r \<noteq> l) (butlast rs))"
      using Suc.IH [of "butlast rs" "l # pad" ?k "i + 1" cs', unfolded same] at(2) Suc.prems(3,5) cs'(1) gone
      by (simp add: in_set_butlastD)
    moreover have one: "filter (\<lambda>r. r \<noteq> l) (butlast rs) = butlast rs" using gone by (auto intro!: filter_True)
    moreover have "filter (\<lambda>r. r \<noteq> l) rs = butlast rs"
      using arg_cong [OF rs, of "filter (\<lambda>r. r \<noteq> l)"] one by simp
    ultimately show ?thesis using cs'(2) by auto
  next
    case False
    then have "reg_id l \<notin> reg_id ` set rs" using Suc.prems(5) by force
    then have "?k = k" using deregister_unknown more(2,3) by simp
    then have "cs' = replicate n (conn l) \<and> contents k' u = (if n = 0 then rs else filter (\<lambda>r. r \<noteq> l) rs)"
      using Suc.IH [of rs pad k "i + 1" cs'] Suc.prems at(2) cs'(1) by simp
    moreover have "filter (\<lambda>r. r \<noteq> l) rs = rs" using False by (auto intro!: filter_True)
    ultimately show ?thesis using cs'(2) by simp
  qed
qed

lemma walk_ending:
  "walked u (array sl) (left @ rs) pad k \<Longrightarrow> n = length rs + length pad \<Longrightarrow> set pad \<subseteq> {l} \<Longrightarrow>
     (rs \<noteq> [] \<longrightarrow> last rs = l) \<Longrightarrow> (rs = [] \<longrightarrow> l \<in> set left \<longrightarrow> last left = l) \<Longrightarrow> l \<in> L \<Longrightarrow> set (left @ rs) \<subseteq> L \<Longrightarrow>
     inj_on reg_id L \<Longrightarrow> kick_walk grow (ends_at_once u) sl (length left) n k = (cs, k') \<Longrightarrow>
     set cs = conn ` set (evens rs) \<union> (if n = 0 then {} else {conn l})
       \<and> contents k' u = (if n = 0 then left else filter (\<lambda>r. r \<noteq> l) (left @ odds rs))"
proof (induction rs arbitrary: left pad k n cs rule: induct_list012)
  case 1
  have n: "n = length pad" using "1.prems"(2) by simp
  have pad: "pad = replicate (length pad) l" using "1.prems"(3) by (metis replicate_eqI singletonD subset_iff)
  have same: "\<forall>r \<in> set left. reg_id r = reg_id l \<longrightarrow> r = l" using "1.prems"(6-8) by (auto dest: inj_onD)
  have "cs = replicate (length pad) (conn l) \<and> contents k' u = (if length pad = 0 then left else filter (\<lambda>r. r \<noteq> l) left)"
    by (rule walk_copies [of u sl left pad k "length left"]) (use "1.prems"(1,5,9) pad same n in simp_all)
  then have "cs = replicate n (conn l) \<and> contents k' u = (if n = 0 then left else filter (\<lambda>r. r \<noteq> l) left)"
    by (simp only: n)
  then show ?case by simp
next
  case (2 x)
  obtain more where more: "arrays k (array sl) = left @ [x] @ pad @ more" "kicker_ok k" "contents k u = left @ [x]"
    using "2.prems"(1) by (auto simp: walked_def)
  let ?k = "deregister u (reg_id x) k"
  have x: "x = l" using "2.prems"(4) by simp
  obtain cs' where cs': "kick_walk grow (ends_at_once u) sl (length left + 1) (length pad) ?k = (cs', k')" "cs = conn x # cs'"
    using "2.prems"(2,9) more(1) by (auto simp: ends_at_once_def Let_def split: prod.splits)
  have gone: "l \<notin> set left" using kicker_ok_ids(1) [OF more(2), of u] more(3) x by auto
  have "walked u (array sl) left (l # pad) ?k" using walked_step [of u "array sl" left x "[]" pad k] "2.prems"(1) x by simp
  moreover have "pad = replicate (length pad) l" using "2.prems"(3) by (metis replicate_eqI singletonD subset_iff)
  moreover have "\<forall>r \<in> set left. reg_id r = reg_id l \<longrightarrow> r = l" using "2.prems"(6-8) by (auto dest: inj_onD)
  ultimately have "cs' = replicate (length pad) (conn l) \<and> contents k' u = (if length pad = 0 then left else filter (\<lambda>r. r \<noteq> l) left)"
    using gone cs'(1) by (intro walk_copies [of u sl left "l # pad" ?k "length left + 1"]) simp_all
  moreover have "filter (\<lambda>r. r \<noteq> l) left = left" using gone by (auto intro!: filter_True)
  ultimately show ?case using cs'(2) x "2.prems"(2) by auto
next
  case (3 x y rs)
  obtain more where more: "arrays k (array sl) = left @ (x # y # rs) @ pad @ more"
    using "3.prems"(1) by (auto simp: walked_def)
  let ?k = "deregister u (reg_id x) k"
  obtain cs' where cs': "kick_walk grow (ends_at_once u) sl (length (left @ [y])) (n - 1) ?k = (cs', k')" "cs = conn x # cs'"
    using "3.prems"(2,9) more(1) by (auto simp: ends_at_once_def Let_def split: prod.splits)
  have last: "last (x # y # rs) = l" using "3.prems"(4) by simp
  have "walked u (array sl) ((left @ [y]) @ rs) (l # pad) ?k"
    using walked_step [of u "array sl" left x "y # rs" pad k] "3.prems"(1) last by simp
  then have "set cs' = conn ` set (evens rs) \<union> (if n - 1 = 0 then {} else {conn l})
       \<and> contents k' u = (if n - 1 = 0 then left @ [y] else filter (\<lambda>r. r \<noteq> l) ((left @ [y]) @ odds rs))"
    using "3.prems"(2-8) last cs'(1) by (intro "3.IH"(1) [of "left @ [y]" "l # pad" ?k "n - 1" cs']) auto
  then show ?case using cs'(2) "3.prems"(2) by (simp add: insert_commute)
qed

text \<open>
  C8: When the sessions of a user end as soon as they are closed, which deletes them from the array that is being
  walked, a kick closes the first, third, fifth session and so on, and the last: the others
  are passed over and stay connected.
\<close>

theorem kick_passes_over_sessions:
  assumes "k = fold (registry_do grow) ops NewSessionKicker" and "distinct (map conn (contents k u))"
    and "kickLocal grow (ends_at_once u) u k = (cs, k')"
  shows "contents k' u = skipped (contents k u) \<and> length (skipped (contents k u)) = (length (contents k u) - 1) div 2
    \<and> set cs = conn ` (set (contents k u) - set (skipped (contents k u)))"
proof (cases "regs k u")
  case None
  then show ?thesis using assms(3) by (auto simp: kickLocal_def contents_def)
next
  case (Some sl)
  have ok: "kicker_ok k" using registry_run [OF new_kicker(1)] assms(1) by blast
  note sl = kicker_okD [OF ok Some]
  let ?v = "contents k u"
  have v: "?v \<noteq> []" "length ?v = slice_len sl" using sl(2,4,5) by auto
  have ids: "distinct (map reg_id ?v)" using kicker_ok_ids(1) [OF ok] .
  have "walked u (array sl) ([] @ ?v) [] k"
    using ok Some sl(5) unfolding walked_def by (auto simp: view_def) (metis append_take_drop_id)
  then have "set cs = conn ` set (evens ?v) \<union> (if slice_len sl = 0 then {} else {conn (last ?v)})
      \<and> contents k' u = (if slice_len sl = 0 then [] else filter (\<lambda>r. r \<noteq> last ?v) ([] @ odds ?v))"
    using v ids assms(3) Some
    by (intro walk_ending [where L = "set ?v" and pad = "[]" and k = k]) (auto simp: kickLocal_def distinct_map)
  then have eff: "set cs = conn ` (set (evens ?v) \<union> {last ?v})" "contents k' u = skipped ?v"
    using sl(2) skipped_odds [OF v(1)] ids by (auto simp: distinct_map)
  have "distinct ?v" using ids by (simp add: distinct_map)
  then have "set (evens ?v) \<union> {last ?v} = set ?v - set (skipped ?v)"
    using evens_odds [of ?v] skipped_odds [OF v(1)] last_in_set [OF v(1)] by auto
  then show ?thesis using eff length_skipped [of ?v] by simp
qed

text \<open>A console kicks a user with four sessions, each of which ends at once: the second stays.\<close>

theorem kick_passes_over_sessions_witness:
  "let k = fold (registry_do (\<lambda>n. 2 * n)) [Reg 7 1, Reg 7 2, Reg 8 9, Reg 7 3, Reg 7 4] NewSessionKicker;
       (cs, k') = kickLocal (\<lambda>n. 2 * n) (ends_at_once 7) 7 k
   in map conn (contents k 7) = [1, 2, 3, 4] \<and> map conn (contents k' 7) = [2] \<and> set cs = {1, 3, 4}"
proof -
  define k where "k = fold (registry_do (\<lambda>n. 2 * n)) [Reg 7 1, Reg 7 2, Reg 8 9, Reg 7 3, Reg 7 4] NewSessionKicker"
  obtain cs k' where r: "kickLocal (\<lambda>n. 2 * n) (ends_at_once 7) 7 k = (cs, k')" by fastforce
  have v: "contents k 7 = [\<lparr>reg_id = 1, conn = 1\<rparr>, \<lparr>reg_id = 2, conn = 2\<rparr>, \<lparr>reg_id = 4, conn = 3\<rparr>, \<lparr>reg_id = 5, conn = 4\<rparr>]"
    using registry_run [OF new_kicker(1), of "\<lambda>n. 2 * n" "[Reg 7 1, Reg 7 2, Reg 8 9, Reg 7 3, Reg 7 4]"]
    by (simp add: new_kicker(2) k_def) (simp add: NewSessionKicker_def fun_eq_iff)
  have "distinct (map conn (contents k 7))" by (simp add: v)
  note eff = kick_passes_over_sessions [OF k_def this r, unfolded v]
  then have "set cs = {1, 3, 4}" by (simp add: insert_Diff_if)
  then show ?thesis unfolding k_def [symmetric] Let_def r prod.case using eff v by simp
qed

theorem kick_closes_all_witness:
  "fst (kickLocal (\<lambda>n. n) (\<lambda>j r. [Reg 7 5]) 7 (fold (registry_do (\<lambda>n. n)) [Reg 7 1, Reg 7 2, Reg 7 3] NewSessionKicker)) = [1, 2, 3]"
proof -
  let ?k = "fold (registry_do (\<lambda>n. n)) [Reg 7 1, Reg 7 2, Reg 7 3] NewSessionKicker"
  have "contents ?k 7 = [\<lparr>reg_id = 1, conn = 1\<rparr>, \<lparr>reg_id = 2, conn = 2\<rparr>, \<lparr>reg_id = 3, conn = 3\<rparr>]"
    using registry_run [OF new_kicker(1), of "\<lambda>n. n" "[Reg 7 1, Reg 7 2, Reg 7 3]"]
    by (simp add: new_kicker(2)) (simp add: NewSessionKicker_def fun_eq_iff)
  then show ?thesis using kick_closes_all [of ?k "\<lambda>n. n" "[Reg 7 1, Reg 7 2, Reg 7 3]" 7 "\<lambda>j r. [Reg 7 5]"] by simp
qed

section \<open>The subscription keeps going\<close>

definition kick_of :: "kick_event \<Rightarrow> int option" where
  "kick_of e = (case e of Message p \<Rightarrow> ParseInt p | _ \<Rightarrow> None)"

lemma consume_kicks:
  "Cancelled \<notin> set es \<Longrightarrow> consume_loop es = (us, e, rest) \<Longrightarrow>
     e \<noteq> Returned \<and> Cancelled \<notin> set rest \<and> us @ List.map_filter kick_of rest = List.map_filter kick_of es \<and> (e = Waiting \<longrightarrow> rest = [])"
  by (induction es arbitrary: us e rest rule: consume_loop.induct)
    (auto simp: map_filter_simps kick_of_def split: option.splits prod.splits)

text \<open>
  Until it is cancelled the subscription loop never ends, however often the subscription is lost, and kicks the
  user of every message that is delivered.
\<close>

theorem run_kicks_every_message:
  assumes "Cancelled \<notin> set es"
  shows "\<not> snd (snd (Run True es)) \<and> fst (Run True es) = List.map_filter kick_of es"
proof -
  have "Cancelled \<notin> set es \<Longrightarrow> \<not> snd (snd (run_kicker b es)) \<and> fst (run_kicker b es) = List.map_filter kick_of es" for b
  proof (induction b es rule: run_kicker.induct)
    case (1 b es)
    obtain us e rest where c: "consume_loop es = (us, e, rest)" by (cases "consume_loop es") auto
    note k = consume_kicks [OF "1.prems" c]
    show ?case
    proof (cases e)
      case Failed
      then have "\<not> snd (snd (run_kicker (next_backoff b) rest)) \<and> fst (run_kicker (next_backoff b) rest) = List.map_filter kick_of rest"
        using "1.IH" [OF c [symmetric] refl] k by simp
      then show ?thesis using c k Failed by (subst (1 2) run_kicker.simps) (auto split: prod.splits)
    qed (use c k in \<open>auto simp: run_kicker.simps [of b es] map_filter_simps\<close>)
  qed
  then show ?thesis using assms by (simp add: Run_def)
qed

theorem run_kicks_every_message_witness: "fst (Run True [Message ''x'', Lost, Lost, Message ''42'']) = [42]"
proof -
  have "Itoa 42 = ''42''" "\<not> is_digit (CHR ''x'')" by code_simp+
  then have "ParseInt ''x'' = None" "ParseInt ''42'' = Some 42"
    using ParseInt_Itoa [of 42] by (simp_all add: ParseInt_def decimal_def)
  then have "List.map_filter kick_of [Message ''x'', Lost, Lost, Message ''42''] = [42]"
    by (simp add: map_filter_simps kick_of_def)
  then show ?thesis using run_kicks_every_message [of "[Message ''x'', Lost, Lost, Message ''42'']"] by simp
qed

text \<open>The waits double from half a second; the last doubling passes the thirty seconds it should stop at.\<close>

lemma next_backoff_power: "next_backoff (min (500 * 2 ^ j) 32000) = min (500 * 2 ^ Suc j) 32000"
proof (cases "j < 6")
  case True
  then have "j \<in> {0, 1, 2, 3, 4, 5}" by auto
  then show ?thesis by (auto simp: next_backoff_def)
next
  case False
  then have "(2 :: int) ^ 6 \<le> 2 ^ j" by (intro power_increasing) auto
  then show ?thesis by (simp add: next_backoff_def)
qed

theorem run_backs_off: "fst (snd (Run True (replicate n Lost))) = map (\<lambda>i. min (500 * 2 ^ i) 32000) [0..<n]"
proof -
  have "fst (snd (run_kicker (min (500 * 2 ^ j) 32000) (replicate n Lost))) = map (\<lambda>i. min (500 * 2 ^ i) 32000) [j..<j + n]" for j
  proof (induction n arbitrary: j)
    case (Suc n)
    have "run_kicker (min (500 * 2 ^ j) 32000) (replicate (Suc n) Lost)
      = (case run_kicker (min (500 * 2 ^ Suc j) 32000) (replicate n Lost) of (us, waits, ended) \<Rightarrow> (us, min (500 * 2 ^ j) 32000 # waits, ended))"
      by (subst run_kicker.simps) (simp only: replicate_Suc consume_loop.simps next_backoff_power prod.case consume_end.case append_Nil)
    then have "fst (snd (run_kicker (min (500 * 2 ^ j) 32000) (replicate (Suc n) Lost)))
      = min (500 * 2 ^ j) 32000 # fst (snd (run_kicker (min (500 * 2 ^ Suc j) 32000) (replicate n Lost)))"
      by (simp del: power_Suc split: prod.split)
    also have "\<dots> = map (\<lambda>i. min (500 * 2 ^ i) 32000) (j # [Suc j..<Suc j + n])" by (simp only: Suc list.map)
    also have "j # [Suc j..<Suc j + n] = [j..<j + Suc n]" by (simp add: upt_conv_Cons del: upt_Suc)
    finally show ?case .
  qed (simp add: run_kicker.simps)
  from this [of 0] show ?thesis by (simp add: Run_def)
qed

end
