(* ===== verification/EventQuery.thy ===== *)
theory EventQuery
  imports GoConv
begin

text \<open>
  Searching the events of the sysop console: the typed filter
  (\<^verbatim>\<open>src/internal/tui/screens/sysop_events_filter.go\<close>), the statement built from it
  (\<^verbatim>\<open>src/internal/data/events_filtered.go\<close>) and its rows
  (\<^verbatim>\<open>src/internal/data/gen/events.sql.go\<close>).  A condition is a constructor that is rendered to the
  text of the code, so that the text and the meaning of the statement are both here.  Postgres'
  \<open>ILIKE\<close> and the parsers of floating-point numbers, durations and times are parameters; times are
  nanoseconds, \<open>None\<close> the zero time.
\<close>

section \<open>The filter text\<close>

record Filter =
  Dim :: string
  Text :: string
  Time :: "int option"

text \<open>\<open>strings.Fields\<close>, with the word read so far.\<close>

function fields_go :: "string \<Rightarrow> string \<Rightarrow> string list" where
  "fields_go w s =
     (if s = [] then (if w = [] then [] else [w])
      else case find (\<lambda>sp. sp \<noteq> [] \<and> HasPrefix s sp) spaces of
        Some sp \<Rightarrow> (if w = [] then [] else [w]) @ fields_go [] (drop (length sp) s)
      | None \<Rightarrow> fields_go (w @ [hd s]) (tl s))"
  by auto
termination
  by (relation "measure (length \<circ> snd)") (auto simp: find_Some_iff)

declare fields_go.simps [simp del]

definition Fields :: "string \<Rightarrow> string list" where
  "Fields s = fields_go [] s"

text \<open>\<open>strings.Cut\<close> at a colon.\<close>

definition cut_colon :: "string \<Rightarrow> (string \<times> string) option" where
  "cut_colon s =
     (let k = takeWhile (\<lambda>c. c \<noteq> CHR '':'') s
      in if length k < length s then Some (k, drop (Suc (length k)) s) else None)"

text \<open>
  \<open>ParseFloat\<close> with the number of days or weeks already multiplied out to a duration,
  \<open>time.ParseDuration\<close>, and \<open>time.Parse\<close> with the layout of a date and of RFC 3339.
\<close>

record time_parsers =
  float_days :: "int \<Rightarrow> string \<Rightarrow> int option"
  ParseDuration :: "string \<Rightarrow> int option"
  parse_date :: "string \<Rightarrow> int option"
  parse_rfc3339 :: "string \<Rightarrow> int option"

definition parseExtendedDuration :: "time_parsers \<Rightarrow> string \<Rightarrow> int option" where
  "parseExtendedDuration T val =
     (let plain = ParseDuration T val in
      if length val \<ge> 2 \<and> last val = CHR ''d''
      then (case float_days T 1 (butlast val) of Some d \<Rightarrow> Some d | None \<Rightarrow> plain)
      else if length val \<ge> 2 \<and> last val = CHR ''w''
      then (case float_days T 7 (butlast val) of Some d \<Rightarrow> Some d | None \<Rightarrow> plain)
      else plain)"

definition parseFilterTime :: "time_parsers \<Rightarrow> int \<Rightarrow> string \<Rightarrow> int option" where
  "parseFilterTime T now val =
     (case parseExtendedDuration T val of
        Some d \<Rightarrow> Some (now - d)
      | None \<Rightarrow> (case parse_date T val of Some t \<Rightarrow> Some t | None \<Rightarrow> parse_rfc3339 T val))"

definition text_filter :: "string \<Rightarrow> string \<Rightarrow> Filter" where
  "text_filter d t = \<lparr>Dim = d, Text = t, Time = None\<rparr>"

definition parseToken :: "(string \<Rightarrow> string) \<Rightarrow> time_parsers \<Rightarrow> int \<Rightarrow> string \<Rightarrow> Filter option" where
  "parseToken u T now tok =
     (case cut_colon tok of
        None \<Rightarrow> Some (text_filter ''text'' tok)
      | Some (k, v) \<Rightarrow>
          (let key = ToLower u (TrimSpace k); val = TrimSpace v in
           if val = [] then None
           else if key \<in> set [''severity'', ''handle'', ''ip'', ''kind'', ''source'', ''text''] then Some (text_filter key val)
           else if key \<in> set [''since'', ''until'']
           then (case parseFilterTime T now val of
                   None \<Rightarrow> Some (text_filter ''text'' tok)
                 | Some t \<Rightarrow> Some \<lparr>Dim = key, Text = [], Time = Some t\<rparr>)
           else Some (text_filter ''text'' tok)))"

definition parseFilters :: "(string \<Rightarrow> string) \<Rightarrow> time_parsers \<Rightarrow> int \<Rightarrow> string \<Rightarrow> Filter list" where
  "parseFilters u T now input = List.map_filter (parseToken u T now) (Fields input)"

section \<open>The two logs as one\<close>

record audit_log_row =
  alID :: int
  alAt :: int
  alAction :: string
  alActor :: "string option" \<comment> \<open>the handle of the acting user, when there is one\<close>
  alTargetType :: string
  alTargetID :: "int option"
  alDetails :: "string option"

record security_event_row =
  seID :: int
  seAt :: int
  seType :: string
  seSeverity :: string
  seHandle :: "string option"
  seIP :: "string option"
  seDetails :: "string option"

record unified_event =
  Source :: string
  ID :: int
  At :: int
  Kind :: string
  Severity :: "string option"
  Actor :: string
  SubjectHandle :: "string option"
  SubjectIp :: "string option"
  Target :: string
  Details :: "string option"

definition of_audit :: "audit_log_row \<Rightarrow> unified_event" where
  "of_audit a =
     \<lparr>Source = ''audit'', ID = alID a, At = alAt a, Kind = alAction a, Severity = None,
      Actor = (case alActor a of None \<Rightarrow> ''<system>'' | Some h \<Rightarrow> h), SubjectHandle = None, SubjectIp = None,
      Target = alTargetType a @ (case alTargetID a of None \<Rightarrow> [] | Some i \<Rightarrow> ''#'' @ Itoa i), Details = alDetails a\<rparr>"

definition of_security :: "security_event_row \<Rightarrow> unified_event" where
  "of_security e =
     \<lparr>Source = ''security'', ID = seID e, At = seAt e, Kind = seType e, Severity = Some (seSeverity e), Actor = [],
      SubjectHandle = seHandle e, SubjectIp = seIP e, Target = [], Details = seDetails e\<rparr>"

definition unified :: "audit_log_row list \<Rightarrow> security_event_row list \<Rightarrow> unified_event list" where
  "unified as ss = map of_audit as @ map of_security ss"

text \<open>\<open>ORDER BY at DESC LIMIT\<close>; rows of one instant keep the order of the tables.\<close>

definition newest :: "nat \<Rightarrow> unified_event list \<Rightarrow> unified_event list" where
  "newest n es = take n (sort_key (\<lambda>e. - At e) es)"

definition ListUnifiedEvents :: "int option \<Rightarrow> int \<Rightarrow> unified_event list \<Rightarrow> unified_event list" where
  "ListUnifiedEvents before n es =
     newest (nat n) (filter (\<lambda>e. case before of None \<Rightarrow> True | Some t \<Rightarrow> At e < t) es)"

definition ListUnifiedEventsRelated :: "int \<Rightarrow> int \<Rightarrow> string \<Rightarrow> string \<Rightarrow> unified_event list \<Rightarrow> unified_event list" where
  "ListUnifiedEventsRelated around seconds handle ip es =
     newest 20 (filter (\<lambda>e. around - seconds * 1000000000 \<le> At e \<and> At e \<le> around + seconds * 1000000000
       \<and> (handle \<noteq> [] \<and> (Actor e = handle \<or> SubjectHandle e = Some handle) \<or> ip \<noteq> [] \<and> SubjectIp e = Some ip)) es)"

section \<open>The statement\<close>

datatype event_column = ColSeverity | ColSource | ColKind | ColActor | ColHandle | ColIP | ColDetails

fun column_text :: "event_column \<Rightarrow> string" where
  "column_text ColSeverity = ''severity''"
| "column_text ColSource = ''source''"
| "column_text ColKind = ''kind''"
| "column_text ColActor = ''actor''"
| "column_text ColHandle = ''subject_handle''"
| "column_text ColIP = ''subject_ip''"
| "column_text ColDetails = ''details::text''"

fun column_value :: "event_column \<Rightarrow> unified_event \<Rightarrow> string option" where
  "column_value ColSeverity e = Severity e"
| "column_value ColSource e = Some (Source e)"
| "column_value ColKind e = Some (Kind e)"
| "column_value ColActor e = Some (Actor e)"
| "column_value ColHandle e = SubjectHandle e"
| "column_value ColIP e = SubjectIp e"
| "column_value ColDetails e = Details e"

text \<open>A condition names its argument by number, from 1.\<close>

datatype sql_pred = PEq event_column nat | PILike "event_column list" nat | PBefore nat | PSince nat | PUntil nat

definition placeholder :: "nat \<Rightarrow> string" where
  "placeholder n = CHR ''$'' # Itoa (int n)"

fun pred_text :: "sql_pred \<Rightarrow> string" where
  "pred_text (PEq c n) = column_text c @ '' = '' @ placeholder n"
| "pred_text (PILike cs n) = ''('' @ join '' OR '' (map (\<lambda>c. column_text c @ '' ILIKE '' @ placeholder n) cs) @ '')''"
| "pred_text (PBefore n) = ''at < '' @ placeholder n"
| "pred_text (PSince n) = ''at >= '' @ placeholder n"
| "pred_text (PUntil n) = ''at <= '' @ placeholder n"

datatype sql_arg = ArgText string | ArgTime "int option" | ArgLimit int

definition allowedFilterDims :: "string list" where
  "allowedFilterDims = [''severity'', ''handle'', ''ip'', ''kind'', ''source'', ''since'', ''until'', ''text'']"

text \<open>One pass of the loop: the argument and the condition of a filter, which gets the next number.\<close>

definition filter_pred :: "Filter \<Rightarrow> nat \<Rightarrow> sql_arg \<times> sql_pred" where
  "filter_pred f n =
     (let like = ArgText (''%'' @ Text f @ ''%'') in
      if Dim f = ''severity'' then (ArgText (Text f), PEq ColSeverity n)
      else if Dim f = ''source'' then (ArgText (Text f), PEq ColSource n)
      else if Dim f = ''kind'' then (ArgText (Text f), PEq ColKind n)
      else if Dim f = ''handle'' then (like, PILike [ColActor, ColHandle] n)
      else if Dim f = ''ip'' then (ArgText (Text f), PEq ColIP n)
      else if Dim f = ''text'' then (like, PILike [ColDetails, ColKind, ColActor, ColHandle, ColIP] n)
      else if Dim f = ''since'' then (ArgTime (Time f), PSince n)
      else (ArgTime (Time f), PUntil n))"

fun add_filter :: "Filter \<Rightarrow> sql_arg list \<times> sql_pred list \<Rightarrow> sql_arg list \<times> sql_pred list" where
  "add_filter f (args, preds) =
     (if Dim f \<notin> set allowedFilterDims then (args, preds)
      else case filter_pred f (length args + 1) of (a, p) \<Rightarrow> (args @ [a], preds @ [p]))"

definition query_parts :: "Filter list \<Rightarrow> int \<Rightarrow> int option \<Rightarrow> sql_arg list \<times> sql_pred list" where
  "query_parts fs limit before =
     (case fold add_filter fs (case before of None \<Rightarrow> ([], []) | Some t \<Rightarrow> ([ArgTime (Some t)], [PBefore 1])) of
        (args, preds) \<Rightarrow> (args @ [ArgLimit (if limit \<le> 0 \<or> limit > 500 then 100 else limit)], preds))"

definition newline :: string where
  "newline = [CHR 0x0A]"

text \<open>The text after the definition of \<open>unified\<close>, with its arguments.\<close>

definition query_text :: "sql_arg list \<times> sql_pred list \<Rightarrow> string" where
  "query_text q =
     ''SELECT source, id, at, kind, severity, actor, subject_handle, subject_ip, target, details'' @ newline @ ''FROM unified'' @ newline
     @ (if snd q = [] then [] else ''WHERE '' @ join '' AND '' (map pred_text (snd q)) @ newline)
     @ ''ORDER BY at DESC'' @ newline @ ''LIMIT '' @ placeholder (length (fst q))"

text \<open>What Postgres makes of it; a condition on a missing value does not hold.\<close>

fun pred_holds :: "(string \<Rightarrow> string \<Rightarrow> bool) \<Rightarrow> sql_arg list \<Rightarrow> unified_event \<Rightarrow> sql_pred \<Rightarrow> bool" where
  "pred_holds ilike args e (PEq c n) =
     (case (column_value c e, args ! (n - 1)) of (Some x, ArgText t) \<Rightarrow> x = t | _ \<Rightarrow> False)"
| "pred_holds ilike args e (PILike cs n) =
     (case args ! (n - 1) of
        ArgText p \<Rightarrow> list_ex (\<lambda>c. case column_value c e of None \<Rightarrow> False | Some x \<Rightarrow> ilike x p) cs
      | _ \<Rightarrow> False)"
| "pred_holds ilike args e (PBefore n) = (case args ! (n - 1) of ArgTime (Some t) \<Rightarrow> At e < t | _ \<Rightarrow> False)"
| "pred_holds ilike args e (PSince n) = (case args ! (n - 1) of ArgTime (Some t) \<Rightarrow> At e \<ge> t | _ \<Rightarrow> False)"
| "pred_holds ilike args e (PUntil n) = (case args ! (n - 1) of ArgTime (Some t) \<Rightarrow> At e \<le> t | _ \<Rightarrow> False)"

definition run_query :: "(string \<Rightarrow> string \<Rightarrow> bool) \<Rightarrow> sql_arg list \<times> sql_pred list \<Rightarrow> unified_event list \<Rightarrow> unified_event list" where
  "run_query ilike q es =
     newest (case last (fst q) of ArgLimit n \<Rightarrow> nat n | _ \<Rightarrow> 0)
       (filter (\<lambda>e. list_all (pred_holds ilike (fst q) e) (snd q)) es)"

definition ListUnifiedEventsFiltered ::
  "(string \<Rightarrow> string \<Rightarrow> bool) \<Rightarrow> Filter list \<Rightarrow> int \<Rightarrow> int option \<Rightarrow> unified_event list \<Rightarrow> unified_event list" where
  "ListUnifiedEventsFiltered ilike fs limit before es = run_query ilike (query_parts fs limit before) es"

section \<open>The statement means its filters\<close>

text \<open>What an event has to satisfy for a filter, without numbers of arguments.\<close>

definition event_matches :: "(string \<Rightarrow> string \<Rightarrow> bool) \<Rightarrow> Filter \<Rightarrow> unified_event \<Rightarrow> bool" where
  "event_matches ilike f e =
     (let has = (\<lambda>x. case x of None \<Rightarrow> False | Some y \<Rightarrow> ilike y (''%'' @ Text f @ ''%'')) in
      if Dim f = ''severity'' then Severity e = Some (Text f)
      else if Dim f = ''source'' then Source e = Text f
      else if Dim f = ''kind'' then Kind e = Text f
      else if Dim f = ''handle'' then has (Some (Actor e)) \<or> has (SubjectHandle e)
      else if Dim f = ''ip'' then SubjectIp e = Some (Text f)
      else if Dim f = ''text''
      then has (Details e) \<or> has (Some (Kind e)) \<or> has (Some (Actor e)) \<or> has (SubjectHandle e) \<or> has (SubjectIp e)
      else if Dim f = ''since'' then (case Time f of None \<Rightarrow> False | Some t \<Rightarrow> At e \<ge> t)
      else if Dim f = ''until'' then (case Time f of None \<Rightarrow> False | Some t \<Rightarrow> At e \<le> t)
      else True)"

definition wanted :: "(string \<Rightarrow> string \<Rightarrow> bool) \<Rightarrow> Filter list \<Rightarrow> int option \<Rightarrow> unified_event \<Rightarrow> bool" where
  "wanted ilike fs before e \<longleftrightarrow>
     (case before of None \<Rightarrow> True | Some t \<Rightarrow> At e < t) \<and> list_all (\<lambda>f. event_matches ilike f e) fs"

lemma filter_pred_holds:
  assumes "Dim f \<in> set allowedFilterDims" and "filter_pred f (length args + 1) = (a, p)"
  shows "pred_holds ilike (args @ a # xs) e p \<longleftrightarrow> event_matches ilike f e"
  using assms by (auto simp: filter_pred_def event_matches_def allowedFilterDims_def Let_def split: if_splits option.splits)

fun pred_arg :: "sql_pred \<Rightarrow> nat" where
  "pred_arg (PEq c n) = n" | "pred_arg (PILike cs n) = n" | "pred_arg (PBefore n) = n" | "pred_arg (PSince n) = n" | "pred_arg (PUntil n) = n"

lemma pred_holds_more: "1 \<le> pred_arg p \<Longrightarrow> pred_arg p \<le> length args \<Longrightarrow>
    pred_holds ilike (args @ xs) e p = pred_holds ilike args e p"
  by (cases p) (auto simp: nth_append)

lemma filter_pred_arg: "filter_pred f n = (a, p) \<Longrightarrow> pred_arg p = n"
  by (auto simp: filter_pred_def Let_def split: if_splits)

lemma unknown_dim: "Dim f \<notin> set allowedFilterDims \<Longrightarrow> event_matches ilike f e"
  by (simp add: event_matches_def allowedFilterDims_def Let_def)

lemma add_filters:
  assumes "fold add_filter fs (args, preds) = (args', preds')" and "\<forall>p \<in> set preds. 1 \<le> pred_arg p \<and> pred_arg p \<le> length args"
  shows "(\<exists>xs. args' = args @ xs) \<and> (\<forall>p \<in> set preds'. 1 \<le> pred_arg p \<and> pred_arg p \<le> length args')
    \<and> list_all (pred_holds ilike args' e) preds' = (list_all (pred_holds ilike args e) preds \<and> list_all (\<lambda>f. event_matches ilike f e) fs)"
  using assms
proof (induction fs arbitrary: args preds)
  case (Cons f fs)
  show ?case
  proof (cases "Dim f \<in> set allowedFilterDims")
    case False
    then show ?thesis using Cons unknown_dim by simp
  next
    case True
    obtain a p where p: "filter_pred f (length args + 1) = (a, p)" by fastforce
    have "fold add_filter fs (args @ [a], preds @ [p]) = (args', preds')" using Cons.prems(1) True p by simp
    moreover have "\<forall>q \<in> set (preds @ [p]). 1 \<le> pred_arg q \<and> pred_arg q \<le> length (args @ [a])"
      using Cons.prems(2) filter_pred_arg [OF p] by fastforce
    ultimately have ih: "(\<exists>xs. args' = (args @ [a]) @ xs) \<and> (\<forall>p \<in> set preds'. 1 \<le> pred_arg p \<and> pred_arg p \<le> length args')
      \<and> list_all (pred_holds ilike args' e) preds'
        = (list_all (pred_holds ilike (args @ [a]) e) (preds @ [p]) \<and> list_all (\<lambda>f. event_matches ilike f e) fs)"
      by (rule Cons.IH)
    moreover have "list_all (pred_holds ilike (args @ [a]) e) preds = list_all (pred_holds ilike args e) preds"
      using Cons.prems(2) pred_holds_more by (intro list.pred_cong) auto
    ultimately show ?thesis using filter_pred_holds [OF True p, of ilike "[]" e] by auto
  qed
qed auto

lemma query_meaning:
  "run_query ilike (query_parts fs limit before) es
     = newest (nat (if limit \<le> 0 \<or> limit > 500 then 100 else limit)) (filter (wanted ilike fs before) es)"
proof -
  obtain a0 p0 where start: "(case before of None \<Rightarrow> ([], []) | Some t \<Rightarrow> ([ArgTime (Some t)], [PBefore 1])) = (a0, p0)" by fastforce
  obtain args preds where r: "fold add_filter fs (a0, p0) = (args, preds)" by fastforce
  have ok: "\<forall>p \<in> set p0. 1 \<le> pred_arg p \<and> pred_arg p \<le> length a0" using start by (auto split: option.splits)
  note all = add_filters [OF r ok, of ilike]
  have cursor: "list_all (pred_holds ilike a0 e) p0 = (case before of None \<Rightarrow> True | Some t \<Rightarrow> At e < t)" for e
    using start by (auto split: option.splits)
  have "list_all (pred_holds ilike (args @ [l]) e) preds = list_all (pred_holds ilike args e) preds" for e l
    using all pred_holds_more by (intro list.pred_cong) auto
  then have "list_all (pred_holds ilike (args @ [l]) e) preds = wanted ilike fs before e" for e l
    using all cursor by (simp add: wanted_def)
  then show ?thesis by (simp add: run_query_def query_parts_def start r)
qed

text \<open>
  The statement built from any filters, with their arguments numbered as they come, has exactly the rows that
  satisfy all of them and come before the cursor, the newest first, at most the limit.
\<close>

theorem filtered_query_correct:
  "ListUnifiedEventsFiltered ilike fs limit before es
     = newest (nat (if limit \<le> 0 \<or> limit > 500 then 100 else limit)) (filter (wanted ilike fs before) es)"
  unfolding ListUnifiedEventsFiltered_def by (rule query_meaning)

lemma same_preds:
  "map Dim fs = map Dim gs \<Longrightarrow> length args = length brgs \<Longrightarrow>
     snd (fold add_filter fs (args, preds)) = snd (fold add_filter gs (brgs, preds))
     \<and> length (fst (fold add_filter fs (args, preds))) = length (fst (fold add_filter gs (brgs, preds)))"
proof (induction fs arbitrary: gs args brgs preds)
  case (Cons f fs)
  then obtain g gs' where gs: "gs = g # gs'" "Dim f = Dim g" "map Dim fs = map Dim gs'" by auto
  obtain a p where p: "filter_pred f (length args + 1) = (a, p)" by fastforce
  obtain b q where q: "filter_pred g (length brgs + 1) = (b, q)" by fastforce
  have "p = q" using p q gs(2) Cons.prems(2) by (auto simp: filter_pred_def Let_def split: if_splits)
  show ?case
  proof (cases "Dim f \<in> set allowedFilterDims")
    case True
    then show ?thesis using Cons.IH [of gs' "args @ [a]" "brgs @ [b]" "preds @ [p]"] Cons.prems(2) gs p q \<open>p = q\<close> by simp
  next
    case False
    then show ?thesis using Cons.IH [of gs' args brgs preds] Cons.prems(2) gs by simp
  qed
qed auto

text \<open>
  C22: The words of the operator travel as arguments only: filters of the same kinds give the same text, with one
  placeholder per argument.
\<close>

theorem filter_text_never_in_sql:
  assumes "map Dim fs = map Dim gs" and "before = None \<longleftrightarrow> before' = None"
  shows "query_text (query_parts fs limit before) = query_text (query_parts gs limit' before')"
proof -
  have "snd (query_parts fs limit before) = snd (query_parts gs limit' before')
    \<and> length (fst (query_parts fs limit before)) = length (fst (query_parts gs limit' before'))"
    using same_preds [OF assms(1), of "[]" "[]" "[]"] assms(2)
      same_preds [OF assms(1), of "[ArgTime before]" "[ArgTime before']" "[PBefore 1]"]
    by (cases before; cases before') (auto simp: query_parts_def split: prod.splits)
  then show ?thesis by (simp only: query_text_def)
qed

theorem filter_text_never_in_sql_witness:
  "query_text (query_parts [text_filter ''kind'' ''x'', text_filter ''text'' ''1; DROP TABLE users''] 50 None)
     = query_text (query_parts [text_filter ''kind'' ''y'', text_filter ''text'' []] 9 None)"
  by (rule filter_text_never_in_sql) (simp_all add: text_filter_def)

text \<open>The parser only makes filters the statement knows.\<close>

theorem parsed_filters_known: "list_all (\<lambda>f. Dim f \<in> set allowedFilterDims) (parseFilters u T now input)"
proof -
  have "Dim f \<in> set allowedFilterDims" if "parseToken u T now tok = Some f" for tok f
    using that by (auto simp: parseToken_def text_filter_def allowedFilterDims_def Let_def split: option.splits if_splits)
  then show ?thesis by (auto simp: parseFilters_def list_all_iff List.map_filter_def)
qed

end
