(* ===== verification/SysopEvents.thy ===== *)
theory SysopEvents
  imports EventQuery
begin

text \<open>
  The Events tab of the sysop console (\<^verbatim>\<open>src/internal/tui/screens/sysop_events.go\<close>): loading pages,
  joining them to what is shown, the keys, and the part of the list that is drawn.  A command that
  the screen hands to its runtime is a value; carrying it out yields a message.  The text field below
  the list is a library's, so its content is passed in and out.  Colours and column layout are not modelled.
\<close>

section \<open>State and commands\<close>

record events_tab =
  events :: "unified_event list"
  eventsCursor :: int
  eventsScroll :: int
  eventsFiltersRaw :: string
  eventsFilters :: "Filter list"
  eventsLoading :: bool
  eventsHasMore :: bool
  eventsCount :: int
  eventsDetail :: "unified_event option"
  eventsRelated :: "unified_event list"
  eventsRelatedLoading :: bool
  eventsPendingFilterAt :: "int option"
  eventsFocusFilter :: bool

definition new_events_tab :: events_tab where
  "new_events_tab =
     \<lparr>events = [], eventsCursor = 0, eventsScroll = 0, eventsFiltersRaw = [], eventsFilters = [], eventsLoading = False,
      eventsHasMore = False, eventsCount = 0, eventsDetail = None, eventsRelated = [], eventsRelatedLoading = False,
      eventsPendingFilterAt = None, eventsFocusFilter = False\<rparr>"

definition eventsPageSize :: int where
  "eventsPageSize = 100"

datatype events_cmd =
    LoadEvents "Filter list"
  | LoadMore "Filter list" int
  | LoadRelated int string string \<comment> \<open>around, handle, address\<close>
  | FilterTick

datatype events_msg =
    EventsLoaded "unified_event list" int bool \<comment> \<open>rows, count, whether there are more\<close>
  | EventsFailed string
  | RelatedLoaded "unified_event list option"

definition loadEventsCmd :: "events_tab \<Rightarrow> events_cmd option \<times> events_tab" where
  "loadEventsCmd m = (Some (LoadEvents (eventsFilters m)), m\<lparr>eventsLoading := True\<rparr>)"

definition loadMoreEventsCmd :: "events_tab \<Rightarrow> events_cmd option \<times> events_tab" where
  "loadMoreEventsCmd m =
     (if events m = [] \<or> \<not> eventsHasMore m \<or> eventsLoading m then (None, m)
      else (Some (LoadMore (eventsFilters m) (At (last (events m)))), m\<lparr>eventsLoading := True\<rparr>))"

definition loadRelatedEventsCmd :: "unified_event \<Rightarrow> events_tab \<Rightarrow> events_cmd option \<times> events_tab" where
  "loadRelatedEventsCmd row m =
     (let handle = (case SubjectHandle row of
                      Some h \<Rightarrow> h
                    | None \<Rightarrow> if Actor row \<noteq> [] \<and> Actor row \<noteq> ''<system>'' then Actor row else []);
          ip = (case SubjectIp row of Some i \<Rightarrow> i | None \<Rightarrow> [])
      in (Some (LoadRelated (At row) handle ip), m\<lparr>eventsRelatedLoading := True, eventsRelated := []\<rparr>))"

text \<open>What the queries of a command answer on the events \<open>es\<close>; \<open>shown\<close> is the count the screen has.\<close>

definition load_page :: "(string \<Rightarrow> string \<Rightarrow> bool) \<Rightarrow> Filter list \<Rightarrow> int option \<Rightarrow> unified_event list \<Rightarrow> unified_event list" where
  "load_page ilike fs before es =
     (if fs = [] then ListUnifiedEvents before eventsPageSize es
      else ListUnifiedEventsFiltered ilike fs eventsPageSize before es)"

fun run_events_cmd :: "(string \<Rightarrow> string \<Rightarrow> bool) \<Rightarrow> unified_event list \<Rightarrow> int \<Rightarrow> events_cmd \<Rightarrow> events_msg option" where
  "run_events_cmd ilike es shown (LoadEvents fs) =
     (let rows = load_page ilike fs None es in Some (EventsLoaded rows (int (length es)) (int (length rows) = eventsPageSize)))"
| "run_events_cmd ilike es shown (LoadMore fs before) =
     (let rows = load_page ilike fs (Some before) es in Some (EventsLoaded rows shown (int (length rows) = eventsPageSize)))"
| "run_events_cmd ilike es shown (LoadRelated around handle ip) =
     Some (RelatedLoaded (Some (ListUnifiedEventsRelated around 300 handle ip es)))"
| "run_events_cmd ilike es shown FilterTick = None"

section \<open>Messages\<close>

definition isFreshLoad :: "unified_event list \<Rightarrow> unified_event list \<Rightarrow> bool" where
  "isFreshLoad existing incoming =
     (if existing = [] \<or> incoming = [] then True else \<not> At (hd incoming) < At (hd existing))"

definition clampIndex :: "int \<Rightarrow> int \<Rightarrow> int" where
  "clampIndex v n = (if v < 0 \<or> v \<ge> n then 0 else v)"

definition event_key :: "unified_event \<Rightarrow> string" where
  "event_key e = Source e @ '':'' @ Itoa (ID e)"

fun handleEventsLoaded :: "events_msg \<Rightarrow> events_tab \<Rightarrow> events_tab" where
  "handleEventsLoaded (EventsFailed err) m = m\<lparr>eventsLoading := False\<rparr>"
| "handleEventsLoaded (EventsLoaded rows n has) m =
     (let m = m\<lparr>eventsLoading := False, eventsCount := n, eventsHasMore := has\<rparr> in
      if events m = [] \<or> isFreshLoad (events m) rows
      then m\<lparr>events := rows, eventsCursor := clampIndex (eventsCursor m) (int (length rows)), eventsScroll := 0\<rparr>
      else m\<lparr>events := events m @ filter (\<lambda>r. event_key r \<notin> event_key ` set (events m)) rows\<rparr>)"
| "handleEventsLoaded (RelatedLoaded got) m =
     (case got of None \<Rightarrow> m\<lparr>eventsRelatedLoading := False\<rparr>
      | Some rows \<Rightarrow> m\<lparr>eventsRelatedLoading := False, eventsRelated := rows\<rparr>)"

text \<open>The debounce: \<open>raw\<close> is the content of the text field.\<close>

definition maybeFireFilterReload ::
  "(string \<Rightarrow> string) \<Rightarrow> time_parsers \<Rightarrow> int \<Rightarrow> string \<Rightarrow> events_tab \<Rightarrow> events_cmd option \<times> events_tab" where
  "maybeFireFilterReload u T now raw m =
     (case eventsPendingFilterAt m of
        None \<Rightarrow> (None, m)
      | Some t \<Rightarrow>
          if now < t then (Some FilterTick, m)
          else let m = m\<lparr>eventsPendingFilterAt := None\<rparr> in
            if raw = eventsFiltersRaw m then (None, m)
            else loadEventsCmd (m\<lparr>eventsFiltersRaw := raw, eventsFilters := parseFilters u T now raw\<rparr>))"

section \<open>Keys\<close>

definition isPrintableKey :: "string \<Rightarrow> bool" where
  "isPrintableKey s \<longleftrightarrow> length s = 1
     \<or> s \<in> set [''backspace'', ''ctrl+u'', ''ctrl+w'', ''ctrl+a'', ''ctrl+e'', ''left'', ''right'']"

definition fetch_at_end :: "events_tab \<Rightarrow> events_cmd option \<times> events_tab" where
  "fetch_at_end m =
     (if eventsCursor m \<ge> int (length (events m)) - 3 \<and> eventsHasMore m \<and> \<not> eventsLoading m
      then loadMoreEventsCmd m else (None, m))"

text \<open>
  Whether the key was handled, the command, the state and the content of the text field.
\<close>

definition handleEventsKey :: "string \<Rightarrow> string \<Rightarrow> events_tab \<Rightarrow> bool \<times> events_cmd option \<times> events_tab \<times> string" where
  "handleEventsKey key input m =
     (let n = int (length (events m)); c = eventsCursor m;
          move = (\<lambda>c. m\<lparr>eventsCursor := c, eventsFocusFilter := False\<rparr>);
          fetch = (\<lambda>m. case fetch_at_end m of (cmd, m) \<Rightarrow> (True, cmd, m, input)) in
      if key = ''up'' then (True, None, move (max 0 (c - 1)), input)
      else if key = ''down'' then fetch (move (if c < n - 1 then c + 1 else c))
      else if key = ''pgup'' then (True, None, move (max 0 (c - 20)), input)
      else if key = ''pgdown'' then fetch (move (min (n - 1) (c + 20)))
      else if key = ''home'' then (True, None, move 0, input)
      else if key = ''end'' then (True, None, move (max 0 (n - 1)), input)
      else if \<not> eventsFocusFilter m then
        (if key = ''enter'' then
           (case (if 0 \<le> c \<and> c < n then slice_get (events m) c else None) of
              None \<Rightarrow> (True, None, m, input)
            | Some row \<Rightarrow> (case loadRelatedEventsCmd row (m\<lparr>eventsDetail := Some row\<rparr>) of (cmd, m) \<Rightarrow> (True, cmd, m, input)))
         else if key = ''/'' then (True, None, m\<lparr>eventsFocusFilter := True\<rparr>, input)
         else if key = ''esc'' then
           (if input \<noteq> [] then
              (case loadEventsCmd (m\<lparr>eventsFiltersRaw := [], eventsFilters := [], eventsFocusFilter := False\<rparr>) of
                 (cmd, m) \<Rightarrow> (True, cmd, m, []))
            else (False, None, m, input))
         else if isPrintableKey key then (False, None, m\<lparr>eventsFocusFilter := True\<rparr>, input)
         else (False, None, m, input))
      else if key = ''esc'' then (True, None, m\<lparr>eventsFocusFilter := False\<rparr>, input)
      else (False, None, m, input))"

section \<open>What is drawn\<close>

text \<open>The rows from \<open>i\<close> on, before \<open>stop\<close>; \<open>None\<close> is an index out of range, which panics.\<close>

function window :: "unified_event list \<Rightarrow> int \<Rightarrow> int \<Rightarrow> unified_event list option" where
  "window es i stop =
     (if i \<ge> stop then Some []
      else case slice_get es i of
        None \<Rightarrow> None
      | Some e \<Rightarrow> map_option (\<lambda>rows. e # rows) (window es (i + 1) stop))"
  by auto
termination
  by (relation "measure (\<lambda>(es, i, stop). nat (stop - i))") auto

declare window.simps [simp del]

text \<open>The list part of the body of height \<open>h\<close>: the rows, and the state with the scroll position moved.\<close>

definition renderEvents :: "int \<Rightarrow> events_tab \<Rightarrow> unified_event list option \<times> events_tab" where
  "renderEvents h m =
     (if eventsLoading m \<and> events m = [] then (Some [], m)
      else let listH = (if h - 3 < 4 then 4 else h - 3);
               scroll = (if eventsCursor m < eventsScroll m then eventsCursor m
                         else if eventsCursor m \<ge> eventsScroll m + listH then eventsCursor m - listH + 1
                         else eventsScroll m);
               stop = min (scroll + listH) (int (length (events m)))
           in (window (events m) scroll stop, m\<lparr>eventsScroll := scroll\<rparr>))"

definition padOrTrunc :: "string \<Rightarrow> nat \<Rightarrow> string" where
  "padOrTrunc s n = (if length s \<ge> n then take n s else s @ replicate (n - length s) CHR '' '')"

section \<open>Loading page after page\<close>

text \<open>A load-more command carried out on the events \<open>es\<close>, and its message handled.\<close>

definition load_more :: "(string \<Rightarrow> string \<Rightarrow> bool) \<Rightarrow> unified_event list \<Rightarrow> events_tab \<Rightarrow> events_tab" where
  "load_more ilike es m =
     (case loadMoreEventsCmd m of
        (None, m) \<Rightarrow> m
      | (Some cmd, m) \<Rightarrow> (case run_events_cmd ilike es (eventsCount m) cmd of None \<Rightarrow> m | Some msg \<Rightarrow> handleEventsLoaded msg m))"

definition more_ready :: "events_tab \<Rightarrow> bool" where
  "more_ready m \<longleftrightarrow> events m \<noteq> [] \<and> eventsHasMore m \<and> \<not> eventsLoading m"

lemma load_more_events:
  assumes "more_ready m" and "rows = load_page ilike (eventsFilters m) (Some (At (last (events m)))) es"
  shows "events (load_more ilike es m) = (if rows = [] \<or> \<not> At (hd rows) < At (hd (events m)) then rows
      else events m @ filter (\<lambda>r. event_key r \<notin> event_key ` set (events m)) rows)"
    and "eventsFilters (load_more ilike es m) = eventsFilters m"
  using assms by (simp_all add: load_more_def loadMoreEventsCmd_def more_ready_def isFreshLoad_def Let_def)

definition by_age :: "unified_event list \<Rightarrow> unified_event list" where
  "by_age es = sort_key (\<lambda>e. - At e) es"

lemma newest_by_age: "newest n es = take n (by_age es)"
  by (simp add: newest_def by_age_def)

lemma by_age_set [simp]: "set (by_age es) = set es" "length (by_age es) = length es" "mset (by_age es) = mset es"
  by (simp_all add: by_age_def)

lemma by_age_Nil [simp]: "by_age es = [] \<longleftrightarrow> es = []"
  using by_age_set(2) [of es] by (metis length_0_conv)

lemma by_age_sorted: "sorted (map (\<lambda>e. - At e) (by_age es))"
  by (simp add: by_age_def)

lemma by_age_filter: "by_age (filter P es) = filter P (by_age es)"
  by (simp add: by_age_def filter_sort)

lemma by_age_last: "e \<in> set es \<Longrightarrow> At (last (by_age es)) \<le> At e"
proof -
  assume "e \<in> set es"
  then have "e \<in> set (by_age es)" "by_age es \<noteq> []" by auto
  then obtain i where i: "i < length (by_age es)" "e = by_age es ! i" by (metis in_set_conv_nth)
  then have "- At (by_age es ! i) \<le> - At (by_age es ! (length (by_age es) - 1))"
    using sorted_nth_mono [OF by_age_sorted [of es], of i "length (by_age es) - 1"] by simp
  then show ?thesis using i \<open>by_age es \<noteq> []\<close> by (simp add: last_conv_nth)
qed

lemma page_before: "r \<in> set (load_page ilike fs (Some t) es) \<Longrightarrow> At r < t"
  by (auto simp: load_page_def ListUnifiedEvents_def ListUnifiedEventsFiltered_def query_meaning newest_by_age wanted_def
      dest!: in_set_takeD split: if_splits)

text \<open>
  With a timestamp per event, loading more shows the next hundred of the events, none twice and none left
  out.
\<close>

theorem load_more_next_page:
  assumes "events m = newest n es" and "0 < n" and "n < length es" and "eventsFilters m = []" and "more_ready m"
    and "distinct (map At es)" and "distinct (map event_key es)"
  shows "events (load_more ilike es m) = newest (n + 100) es"
proof -
  let ?L = "by_age es" and ?t = "At (last (events m))"
  have L: "length ?L = length es" "distinct (map At ?L)" "distinct (map event_key ?L)"
    using assms(6,7) by (metis by_age_set(2)) (metis assms(6) by_age_set(3) mset_map distinct_count_le, metis assms(7) by_age_set(3) mset_map distinct_count_le)
  have ev: "events m = take n ?L" using assms(1) by (simp add: newest_by_age)
  have t: "?t = At (?L ! (n - 1))" using ev assms(2,3) L(1) by (subst ev, subst last_conv_nth) auto
  have strict: "At (?L ! j) < At (?L ! i)" if "i < j" "j < length es" for i j
  proof -
    have "- At (?L ! i) \<le> - At (?L ! j)"
      using sorted_nth_mono [OF by_age_sorted [of es], of i j] that by simp
    moreover have "At (?L ! i) \<noteq> At (?L ! j)" using L(2) that by (simp add: distinct_conv_nth)
    ultimately show ?thesis by simp
  qed
  have "\<not> At e < ?t" if "e \<in> set (take n ?L)" for e
  proof -
    obtain i where "i < n" "e = ?L ! i" using \<open>e \<in> set (take n ?L)\<close> assms(3) L(1) by (auto simp: in_set_conv_nth)
    moreover have "i < n - 1 \<or> i = n - 1" "n - 1 < length es" using \<open>i < n\<close> assms(3) by arith+
    ultimately show ?thesis using strict [of i "n - 1"] assms(2,3) t by auto
  qed
  then have old: "filter (\<lambda>e. At e < ?t) (take n ?L) = []" by (simp add: filter_empty_conv)
  have new: "filter (\<lambda>e. At e < ?t) (drop n ?L) = drop n ?L"
    using strict assms(2,3) L(1) unfolding t by (intro filter_True) (auto simp: in_set_conv_nth)
  have rows: "load_page ilike [] (Some ?t) es = take 100 (drop n ?L)"
    using old new by (simp add: load_page_def ListUnifiedEvents_def eventsPageSize_def newest_by_age by_age_filter)
      (metis append_take_drop_id filter_append self_append_conv2)
  have hd: "hd (take 100 (drop n ?L)) = ?L ! n" "hd (events m) = ?L ! 0" "drop n ?L \<noteq> []"
    using ev assms(2,3) L(1) hd_conv_nth [of ?L] by (fastforce simp: hd_drop_conv_nth)+
  have "event_key r \<notin> event_key ` set (take n ?L)" if "r \<in> set (drop n ?L)" for r
    using L(3) that by (metis append_take_drop_id disjoint_iff distinct_append image_eqI map_append set_map)
  then have "filter (\<lambda>r. event_key r \<notin> event_key ` set (events m)) (take 100 (drop n ?L)) = take 100 (drop n ?L)"
    using ev by (intro filter_True) (auto dest: in_set_takeD)
  then show ?thesis
    using load_more_events(1) [OF assms(5) refl, of ilike es] assms(2-4) rows hd strict [of 0 n] ev
    by (simp add: newest_by_age take_add)
qed

lemma more_at_end:
  assumes "events m = newest (length es) es" and "eventsFilters m = []" and "more_ready m"
  shows "events (load_more ilike es m) = []"
proof -
  have "events m = by_age es" "es \<noteq> []" using assms(1,3) by (auto simp: newest_by_age more_ready_def)
  then have "At (last (events m)) \<le> At e" if "e \<in> set es" for e using by_age_last [OF that] by simp
  then have "filter (\<lambda>e. At e < At (last (events m))) es = []" by (force simp: filter_empty_conv)
  then have "load_page ilike [] (Some (At (last (events m)))) es = []"
    by (simp add: load_page_def ListUnifiedEvents_def newest_def)
  then show ?thesis using load_more_events(1) [OF assms(3) refl, of ilike es] assms(2) by simp
qed

text \<open>
  When there are exactly as many events as a page holds, all of them are shown, more are announced, and loading
  them empties the list: an empty page is taken for a new first page.
\<close>

theorem full_page_then_more_empties:
  assumes "int (length es) = eventsPageSize" and "run_events_cmd ilike es n (LoadEvents []) = Some msg"
    and "m = handleEventsLoaded msg new_events_tab"
  shows "set (events m) = set es \<and> eventsHasMore m \<and> events (load_more ilike es m) = []"
proof -
  have len: "length es = 100" using assms(1) by (simp add: eventsPageSize_def)
  have m: "m = new_events_tab\<lparr>events := newest 100 es, eventsCount := int (length es), eventsHasMore := True\<rparr>"
    using assms(2,3) len
    by (auto simp: load_page_def ListUnifiedEvents_def eventsPageSize_def newest_by_age new_events_tab_def clampIndex_def)
  have "events m = newest (length es) es" "more_ready m" "eventsFilters m = []" "set (newest 100 es) = set es"
    using len by (auto simp: m more_ready_def new_events_tab_def newest_by_age)
  then show ?thesis using more_at_end [of m es ilike] by (simp add: m)
qed

definition demo_event :: "int \<Rightarrow> int \<Rightarrow> unified_event" where
  "demo_event i t =
     of_security \<lparr>seID = i, seAt = t, seType = ''auth_failure'', seSeverity = ''warn'', seHandle = None, seIP = None, seDetails = None\<rparr>"

lemma demo_event_simps [simp]: "At (demo_event i t) = t" "event_key (demo_event i t) = ''security:'' @ Itoa i"
  by (simp_all add: demo_event_def of_security_def event_key_def)

theorem full_page_then_more_empties_witness:
  "\<exists>(es :: unified_event list) msg. run_events_cmd (\<lambda>x p. True) es 0 (LoadEvents []) = Some msg \<and> set es \<noteq> {}
     \<and> set (events (handleEventsLoaded msg new_events_tab)) = set es
     \<and> events (load_more (\<lambda>x p. True) es (handleEventsLoaded msg new_events_tab)) = []"
proof -
  let ?es = "map (\<lambda>i. demo_event (int i) (int i)) [0..<100]"
  obtain msg where "run_events_cmd (\<lambda>x p. True) ?es 0 (LoadEvents []) = Some msg" by (simp add: Let_def)
  moreover have "int (length ?es) = eventsPageSize" by (simp add: eventsPageSize_def)
  ultimately show ?thesis
    using full_page_then_more_empties [of ?es "\<lambda>x p. True" 0 msg] by (intro exI [of _ ?es] exI [of _ msg]) auto
qed

definition demo_tab :: "unified_event list \<Rightarrow> events_tab" where
  "demo_tab es = new_events_tab\<lparr>events := es, eventsHasMore := True\<rparr>"

lemma demo_tab_simps [simp]:
  "events (demo_tab es) = es" "eventsFilters (demo_tab es) = []" "more_ready (demo_tab es) = (es \<noteq> [])"
  by (auto simp: demo_tab_def new_events_tab_def more_ready_def)

theorem load_more_next_page_witness:
  "events (load_more (\<lambda>x p. True) [demo_event 3 10, demo_event 1 30, demo_event 2 20] (demo_tab [demo_event 1 30, demo_event 2 20]))
     = [demo_event 1 30, demo_event 2 20, demo_event 3 10]"
proof -
  let ?es = "[demo_event 3 10, demo_event 1 30, demo_event 2 20]"
  have "newest 2 ?es = [demo_event 1 30, demo_event 2 20]" "newest 102 ?es = [demo_event 1 30, demo_event 2 20, demo_event 3 10]"
    by (simp_all add: newest_def)
  moreover have "distinct (map event_key ?es)" using Itoa_inject by (auto dest!: Itoa_inject)
  ultimately show ?thesis
    using load_more_next_page [of "demo_tab [demo_event 1 30, demo_event 2 20]" 2 ?es "\<lambda>x p. True"] by simp
qed

text \<open>
  The cursor of the pages is a time: an event of the same time as the last one shown, which is not shown
  itself, is on no later page, however often more is loaded.
\<close>

theorem same_time_event_lost:
  assumes "e \<notin> set (events m)" and "events m \<noteq> []" and "At e = At (last (events m))"
  shows "e \<notin> set (events ((load_more ilike es ^^ n) m))"
proof -
  let ?past = "\<lambda>m. e \<notin> set (events m) \<and> (events m \<noteq> [] \<longrightarrow> At (last (events m)) \<le> At e)"
  have step: "?past (load_more ilike es m)" if "?past m" for m
  proof (cases "more_ready m")
    case False
    then have "load_more ilike es m = m" by (simp add: load_more_def loadMoreEventsCmd_def more_ready_def)
    then show ?thesis using that by simp
  next
    case True
    let ?rows = "load_page ilike (eventsFilters m) (Some (At (last (events m)))) es"
    have old: "At r < At e" if "r \<in> set ?rows" for r
      using page_before [OF that] \<open>?past m\<close> True by (fastforce simp: more_ready_def)
    have "events (load_more ilike es m) = ?rows
        \<or> events (load_more ilike es m) = events m @ filter (\<lambda>r. event_key r \<notin> event_key ` set (events m)) ?rows"
      using load_more_events(1) [OF True refl] by simp
    moreover have "e \<notin> set ?rows" using old by blast
    moreover have late: "At (last (filter P ?rows)) \<le> At e" if "filter P ?rows \<noteq> []" for P
      using old last_in_set [OF that] by (auto simp: less_imp_le)
    ultimately show ?thesis using that late [of "\<lambda>r. True"] by (auto simp: last_append)
  qed
  have "?past ((load_more ilike es ^^ n) m)"
  proof (induction n)
    case 0
    show ?case using assms by simp
  next
    case (Suc n)
    show ?case using step [OF Suc.IH] by simp
  qed
  then show ?thesis by blast
qed

text \<open>
  A filter whose newest match is older than the newest event shown adds its matches to the list instead of
  replacing it: the events that do not match stay.
\<close>

theorem filter_keeps_other_events:
  assumes "events m \<noteq> []" and "rows = load_page ilike fs None es" and "rows \<noteq> []" and "At (hd rows) < At (hd (events m))"
    and "run_events_cmd ilike es n (LoadEvents fs) = Some msg"
  shows "events (handleEventsLoaded msg m) = events m @ filter (\<lambda>r. event_key r \<notin> event_key ` set (events m)) rows"
  using assms by (auto simp: isFreshLoad_def Let_def)

section \<open>The list can be drawn\<close>

datatype events_input = Pressed string string | Arrived events_msg | Checked int string | Drawn int

fun events_step :: "(string \<Rightarrow> string) \<Rightarrow> time_parsers \<Rightarrow> events_input \<Rightarrow> events_tab \<Rightarrow> events_tab" where
  "events_step u T (Pressed key input) m = fst (snd (snd (handleEventsKey key input m)))"
| "events_step u T (Arrived msg) m = handleEventsLoaded msg m"
| "events_step u T (Checked now raw) m = snd (maybeFireFilterReload u T now raw m)"
| "events_step u T (Drawn h) m = snd (renderEvents h m)"

definition pages_down_on_nothing :: "events_input \<Rightarrow> events_tab \<Rightarrow> bool" where
  "pages_down_on_nothing x m \<longleftrightarrow> events m = [] \<and> (case x of Pressed key input \<Rightarrow> key = ''pgdown'' | _ \<Rightarrow> False)"

inductive events_reach :: "(string \<Rightarrow> string) \<Rightarrow> time_parsers \<Rightarrow> events_tab \<Rightarrow> bool" for u T where
  fresh: "events_reach u T new_events_tab"
| further: "events_reach u T m \<Longrightarrow> \<not> pages_down_on_nothing x m \<Longrightarrow> events_reach u T (events_step u T x m)"

definition view_ok :: "events_tab \<Rightarrow> bool" where
  "view_ok m \<longleftrightarrow> 0 \<le> eventsCursor m \<and> 0 \<le> eventsScroll m \<and> eventsCursor m \<le> max 0 (int (length (events m)) - 1)"

lemma load_cmds_view [simp]:
  "view_ok (snd (loadEventsCmd m)) = view_ok m" "view_ok (snd (loadMoreEventsCmd m)) = view_ok m"
  "view_ok (snd (loadRelatedEventsCmd row m)) = view_ok m" "view_ok (snd (fetch_at_end m)) = view_ok m"
  by (simp_all add: view_ok_def loadEventsCmd_def loadMoreEventsCmd_def loadRelatedEventsCmd_def fetch_at_end_def Let_def)

lemma view_ok_fields [simp]:
  "view_ok (m\<lparr>eventsFocusFilter := b\<rparr>) = view_ok m" "view_ok (m\<lparr>eventsDetail := d\<rparr>) = view_ok m"
  "view_ok (m\<lparr>eventsFiltersRaw := r\<rparr>) = view_ok m" "view_ok (m\<lparr>eventsFilters := f\<rparr>) = view_ok m"
  "view_ok (m\<lparr>eventsPendingFilterAt := t\<rparr>) = view_ok m"
  by (simp_all add: view_ok_def)

lemma view_ok_key:
  assumes "view_ok m" and "key = ''pgdown'' \<Longrightarrow> events m \<noteq> []"
  shows "view_ok (fst (snd (snd (handleEventsKey key input m))))"
proof -
  have move: "view_ok (m\<lparr>eventsCursor := c\<rparr>)"
    if "0 \<le> c" "c \<le> max 0 (int (length (events m)) - 1)" for c
    using assms(1) that by (simp add: view_ok_def)
  have fetch: "fst (snd (snd (case fetch_at_end k of (cmd, m) \<Rightarrow> (True, cmd, m, input)))) = snd (fetch_at_end k)" for k
    by (simp split: prod.split)
  have c: "0 \<le> eventsCursor m" "eventsCursor m \<le> max 0 (int (length (events m)) - 1)"
    using assms(1) by (simp_all add: view_ok_def)
  consider "key = ''up''" | "key = ''down''" | "key = ''pgup''" | "key = ''pgdown''" | "key = ''home''" | "key = ''end''"
    | "key \<notin> {''up'', ''down'', ''pgup'', ''pgdown'', ''home'', ''end''}" by auto
  then show ?thesis
  proof cases
    case 4
    then have "0 < length (events m)" using assms(2) by simp
    then have "view_ok (m\<lparr>eventsCursor := min (int (length (events m)) - 1) (eventsCursor m + 20)\<rparr>)"
      using c by (intro move) auto
    then show ?thesis using 4 by (simp add: handleEventsKey_def Let_def fetch)
  next
    case 7
    then show ?thesis using assms(1)
      by (auto simp: handleEventsKey_def Let_def loadEventsCmd_def loadRelatedEventsCmd_def view_ok_def split: option.splits)
  qed (use c assms(1) in \<open>auto simp: handleEventsKey_def Let_def fetch intro!: move\<close>)
qed

lemma view_ok_step:
  assumes "view_ok m" and "\<not> pages_down_on_nothing x m"
  shows "view_ok (events_step u T x m)"
proof (cases x)
  case (Pressed key input)
  then show ?thesis using assms view_ok_key [of m key input] by (auto simp: pages_down_on_nothing_def)
next
  case (Arrived msg)
  then show ?thesis using assms(1)
    by (cases msg) (auto simp: view_ok_def clampIndex_def Let_def split: option.split)
next
  case (Checked now raw)
  then show ?thesis using assms(1)
    by (auto simp: maybeFireFilterReload_def Let_def split: option.split)
next
  case (Drawn h)
  then show ?thesis using assms(1) by (auto simp: renderEvents_def view_ok_def Let_def)
qed

lemma window_in_range:
  "0 \<le> i \<Longrightarrow> stop \<le> int (length es) \<Longrightarrow> window es i stop = Some (take (nat (stop - i)) (drop (nat i) es))"
proof (induction es i stop rule: window.induct)
  case (1 es i stop)
  show ?case
  proof (cases "i < stop")
    case True
    then have n: "nat i < length es" "nat (stop - i) = Suc (nat (stop - (i + 1)))" "nat (i + 1) = Suc (nat i)"
      using "1.prems" by auto
    have "slice_get es i = Some (es ! nat i)" using n(1) "1.prems"(1) slice_get_nat [of "nat i" es] by simp
    then show ?thesis using "1.IH" [of "es ! nat i"] "1.prems" True n
      by (subst window.simps) (simp add: Cons_nth_drop_Suc [symmetric])
  qed (use "1.prems" in \<open>simp add: window.simps [of es i stop]\<close>)
qed

text \<open>
  Unless page-down is pressed on an empty list, the list can always be drawn, no larger than its part of the
  screen, with the row of the cursor in it.
\<close>

theorem events_list_shows_cursor:
  assumes "events_reach u T m" and "renderEvents h m = (r, m')"
  shows "\<exists>rows. r = Some rows \<and> int (length rows) \<le> max 4 (h - 3)
    \<and> (events m = [] \<or> events m ! nat (eventsCursor m) \<in> set rows)"
proof -
  have ok: "view_ok m" using assms(1)
    by (induction rule: events_reach.induct) (simp_all add: view_ok_step, simp add: view_ok_def new_events_tab_def)
  define H where "H = (if h - 3 < 4 then 4 else h - 3)"
  define n where "n = int (length (events m))"
  define s where "s = (if eventsCursor m < eventsScroll m then eventsCursor m
    else if eventsCursor m \<ge> eventsScroll m + H then eventsCursor m - H + 1 else eventsScroll m)"
  show ?thesis
  proof (cases "eventsLoading m \<and> events m = []")
    case True
    then show ?thesis using assms(2) by (auto simp: renderEvents_def)
  next
    case False
    let ?rows = "take (nat (min (s + H) n - s)) (drop (nat s) (events m))"
    have s: "0 \<le> s" "s \<le> eventsCursor m" "eventsCursor m < s + H" using ok by (auto simp: view_ok_def s_def H_def)
    have "renderEvents h m = (window (events m) s (min (s + H) n), m\<lparr>eventsScroll := s\<rparr>)"
      using False by (simp only: renderEvents_def Let_def H_def n_def s_def if_False)
    then have "r = Some ?rows" using assms(2) window_in_range [OF s(1), of "min (s + H) n" "events m"] by (simp add: n_def)
    moreover have "int (length ?rows) \<le> max 4 (h - 3)" by (auto simp: H_def)
    moreover have "events m ! nat (eventsCursor m) \<in> set ?rows" if "events m \<noteq> []"
    proof -
      have "eventsCursor m < n" using ok that by (cases "events m") (auto simp: view_ok_def n_def)
      then have "nat (eventsCursor m - s) < length ?rows" "nat s + nat (eventsCursor m - s) = nat (eventsCursor m)"
        "nat s \<le> length (events m)"
        using s by (auto simp: n_def)
      then show ?thesis by (metis length_take min_less_iff_conj nth_drop nth_mem nth_take)
    qed
    ultimately show ?thesis by blast
  qed
qed

text \<open>C23: Page-down on an empty list puts the cursor before the list, and drawing it indexes there and panics.\<close>

theorem pgdown_on_empty_list_panics:
  assumes "events m = []" and "\<not> eventsLoading m" and "0 \<le> eventsScroll m"
  shows "fst (renderEvents h (fst (snd (snd (handleEventsKey ''pgdown'' input m))))) = None"
proof -
  let ?m = "m\<lparr>eventsCursor := min (- 1) (eventsCursor m + 20), eventsFocusFilter := False\<rparr>"
  have "fst (snd (snd (handleEventsKey ''pgdown'' input m))) = ?m"
    using assms by (simp add: handleEventsKey_def fetch_at_end_def loadMoreEventsCmd_def Let_def)
  moreover have "window [] i stop = None" if "i < stop" for i stop
    using that by (subst window.simps) (auto simp: slice_get_def)
  ultimately show ?thesis using assms by (auto simp: renderEvents_def Let_def min_def)
qed

theorem same_time_event_lost_witness:
  "demo_event 2 5 \<in> set [demo_event 1 5, demo_event 2 5] \<and> demo_event 2 5 \<notin> set (events ((load_more (\<lambda>x p. True)
     [demo_event 1 5, demo_event 2 5] ^^ 3) (demo_tab [demo_event 1 5])))"
proof -
  have "Itoa 1 \<noteq> Itoa 2" by (auto dest: Itoa_inject)
  then have "demo_event 2 5 \<noteq> demo_event 1 5" by (metis demo_event_simps(2) same_append_eq)
  then show ?thesis using same_time_event_lost [where e = "demo_event 2 5" and m = "demo_tab [demo_event 1 5]" and ilike = "\<lambda>x p. True"
      and es = "[demo_event 1 5, demo_event 2 5]" and n = 3]
    by simp
qed

theorem filter_keeps_other_events_witness:
  "let old = demo_event 1 5; new = (demo_event 2 9)\<lparr>Kind := ''auth_success''\<rparr>; fs = [text_filter ''kind'' ''auth_failure''] in
   \<exists>msg. run_events_cmd (\<lambda>x p. True) [old, new] 2 (LoadEvents fs) = Some msg
     \<and> \<not> wanted (\<lambda>x p. True) fs None new \<and> new \<in> set (events (handleEventsLoaded msg (demo_tab [new])))"
proof -
  let ?old = "demo_event 1 5" and ?new = "(demo_event 2 9)\<lparr>Kind := ''auth_success''\<rparr>" and ?fs = "[text_filter ''kind'' ''auth_failure'']"
  have w: "wanted (\<lambda>x p. True) ?fs None ?old" "\<not> wanted (\<lambda>x p. True) ?fs None ?new"
    by (simp_all add: wanted_def event_matches_def text_filter_def demo_event_def of_security_def)
  then have rows: "load_page (\<lambda>x p. True) ?fs None [?old, ?new] = [?old]"
    by (simp add: load_page_def ListUnifiedEventsFiltered_def query_meaning eventsPageSize_def newest_def)
  obtain msg where msg: "run_events_cmd (\<lambda>x p. True) [?old, ?new] 2 (LoadEvents ?fs) = Some msg" by (simp add: Let_def)
  have "?new \<in> set (events (handleEventsLoaded msg (demo_tab [?new])))"
    using filter_keeps_other_events [of "demo_tab [?new]" "[?old]" "\<lambda>x p. True" ?fs "[?old, ?new]" 2 msg] rows msg by simp
  then show ?thesis using w msg by auto
qed

theorem events_list_shows_cursor_witness:
  "\<exists>rows m'. renderEvents 10 (demo_tab [demo_event 1 5, demo_event 2 4]) = (Some rows, m') \<and> demo_event 1 5 \<in> set rows"
proof -
  let ?es = "[demo_event 1 5, demo_event 2 4]"
  have "events_step id undefined (Arrived (EventsLoaded ?es 0 True)) new_events_tab = demo_tab ?es"
    by (simp add: demo_tab_def new_events_tab_def clampIndex_def)
  moreover have "\<not> pages_down_on_nothing (Arrived (EventsLoaded ?es 0 True)) new_events_tab" by (simp add: pages_down_on_nothing_def)
  ultimately have reach: "events_reach id undefined (demo_tab ?es)" by (metis events_reach.intros)
  obtain r m' where "renderEvents 10 (demo_tab ?es) = (r, m')" by fastforce
  then show ?thesis using events_list_shows_cursor [OF reach, of 10 r m'] by (auto simp: demo_tab_def new_events_tab_def)
qed

theorem pgdown_on_empty_list_panics_witness:
  "fst (renderEvents 20 (fst (snd (snd (handleEventsKey ''pgdown'' [] new_events_tab))))) = None"
  by (rule pgdown_on_empty_list_panics) (simp_all add: new_events_tab_def)

end
