(* ===== verification/Raster.thy ===== *)
theory Raster
  imports Prelude
begin

text \<open>
  Drawing on an image (\<^verbatim>\<open>src/internal/imaging/polyline.go\<close>): Bresenham lines, polylines, disks.
  An image has a rectangle and the colours of its pixels; a pixel outside the rectangle is not set.
  Coordinates are unbounded integers: the code's wrap only beyond \<open>2 ^ 61\<close>.  The loop that traces
  a line is a \<open>partial_function\<close>, so that it returns is a theorem.
\<close>

section \<open>Images and strokes\<close>

record 'c image =
  minX :: int
  minY :: int
  maxX :: int
  maxY :: int
  pixel :: "int \<times> int \<Rightarrow> 'c"

definition inside :: "'c image \<Rightarrow> int \<times> int \<Rightarrow> bool" where
  "inside img p = (case p of (x, y) \<Rightarrow> minX img \<le> x \<and> x < maxX img \<and> minY img \<le> y \<and> y < maxY img)"

definition set_pixel :: "'c \<Rightarrow> int \<times> int \<Rightarrow> 'c image \<Rightarrow> 'c image" where
  "set_pixel c p img = (if inside img p then img\<lparr>pixel := (pixel img)(p := c)\<rparr> else img)"

text \<open>The loop of a line; \<open>stamp\<close> is what it does at each point.\<close>

partial_function (option) trace ::
  "(int \<times> int \<Rightarrow> 'i \<Rightarrow> 'i) \<Rightarrow> int \<Rightarrow> int \<Rightarrow> int \<Rightarrow> int \<Rightarrow> int \<Rightarrow> int \<Rightarrow> int \<Rightarrow> int \<Rightarrow> int \<Rightarrow> 'i \<Rightarrow> 'i option" where
  "trace stamp dx dy sx sy x1 y1 x y err img =
     (let img = stamp (x, y) img in
      if x = x1 \<and> y = y1 then Some img
      else
        let e2 = 2 * err in
        if e2 \<ge> dy \<and> x = x1 then Some img
        else
          let ex = (if e2 \<ge> dy then (err + dy, x + sx) else (err, x)) in
          if e2 \<le> dx \<and> y = y1 then Some img
          else
            let ey = (if e2 \<le> dx then (fst ex + dx, y + sy) else (fst ex, y)) in
            trace stamp dx dy sx sy x1 y1 (snd ex) (snd ey) (fst ey) img)"

definition draw_line :: "(int \<times> int \<Rightarrow> 'i \<Rightarrow> 'i) \<Rightarrow> int \<Rightarrow> int \<Rightarrow> int \<Rightarrow> int \<Rightarrow> 'i \<Rightarrow> 'i option" where
  "draw_line stamp x0 y0 x1 y1 img =
     (let dx = \<bar>x1 - x0\<bar>; dy = - \<bar>y1 - y0\<bar>; sx = (if x0 \<ge> x1 then -1 else 1); sy = (if y0 \<ge> y1 then -1 else 1)
      in trace stamp dx dy sx sy x1 y1 x0 y0 (dx + dy) img)"

definition DrawLine :: "'c \<Rightarrow> int \<Rightarrow> int \<Rightarrow> int \<Rightarrow> int \<Rightarrow> 'c image \<Rightarrow> 'c image option" where
  "DrawLine c x0 y0 x1 y1 img = draw_line (set_pixel c) x0 y0 x1 y1 img"

text \<open>A filled disk, row by row; a thick line stamps it at every point.\<close>

definition stamp_disk :: "'c \<Rightarrow> int \<Rightarrow> int \<times> int \<Rightarrow> 'c image \<Rightarrow> 'c image" where
  "stamp_disk c radius p img =
     (case p of (x, y) \<Rightarrow>
        fold (\<lambda>dy. fold (\<lambda>dx img. if dx * dx + dy * dy \<le> radius * radius then set_pixel c (x + dx, y + dy) img else img)
                     [-radius..radius]) [-radius..radius] img)"

definition DrawMarker :: "'c \<Rightarrow> int \<Rightarrow> int \<Rightarrow> int \<Rightarrow> 'c image \<Rightarrow> 'c image" where
  "DrawMarker c x y radius img =
     (if radius \<le> 0 then set_pixel c (x, y) img else stamp_disk c radius (x, y) img)"

definition drawThickLine :: "'c \<Rightarrow> int \<Rightarrow> int \<Rightarrow> int \<Rightarrow> int \<Rightarrow> int \<Rightarrow> 'c image \<Rightarrow> 'c image option" where
  "drawThickLine c radius x0 y0 x1 y1 img = draw_line (stamp_disk c radius) x0 y0 x1 y1 img"

definition DrawCrosshair :: "'c \<Rightarrow> int \<Rightarrow> int \<Rightarrow> int \<Rightarrow> 'c image \<Rightarrow> 'c image option" where
  "DrawCrosshair c x y halfLen img =
     Option.bind (DrawLine c (x - halfLen) y (x + halfLen) y img) (DrawLine c x (y - halfLen) x (y + halfLen))"

fun segments :: "(int \<Rightarrow> int \<Rightarrow> int \<Rightarrow> int \<Rightarrow> 'i \<Rightarrow> 'i option) \<Rightarrow> (int \<times> int) list \<Rightarrow> 'i \<Rightarrow> 'i option" where
  "segments line (p # q # ps) img =
     Option.bind (line (fst p) (snd p) (fst q) (snd q) img) (segments line (q # ps))"
| "segments line ps img = Some img"

definition DrawPolyline :: "'c \<Rightarrow> int \<Rightarrow> (int \<times> int) list \<Rightarrow> 'c image \<Rightarrow> 'c image option" where
  "DrawPolyline c radius pts img =
     (if length pts < 2 then Some img
      else if radius \<le> 0 then segments (DrawLine c) pts img
      else segments (drawThickLine c radius) pts img)"

section \<open>The points of a line\<close>

text \<open>
  Of the \<open>a\<close> steps to go across and the \<open>b\<close> steps to go up, \<open>i\<close> and \<open>j\<close> are done.  What the loop
  keeps: the point is at most half a pixel off the line, counted in the longer direction.
\<close>

definition near :: "int \<Rightarrow> int \<Rightarrow> int \<Rightarrow> int \<Rightarrow> bool" where
  "near a b i j \<longleftrightarrow> 0 \<le> i \<and> i \<le> a \<and> 0 \<le> j \<and> j \<le> b \<and> 2 * \<bar>i * b - j * a\<bar> \<le> max a b"

definition steps_done :: "int \<Rightarrow> int \<Rightarrow> int \<Rightarrow> int \<Rightarrow> int" where
  "steps_done a b i j = (if b \<le> a then i else j)"

lemma small_multiple:
  assumes "0 < m" "2 * \<bar>m * k\<bar> \<le> m"
  shows "k = (0::int)"
proof (rule ccontr)
  assume "k \<noteq> 0"
  then have "m * 1 \<le> m * \<bar>k\<bar>" using assms(1) by (intro mult_left_mono) auto
  then show False using assms by (simp add: abs_mult)
qed

lemma near_end:
  assumes "near a b i j" "steps_done a b i j = max a b"
  shows "i = a \<and> j = b"
proof (cases "b \<le> a")
  case True
  then have i: "i = a" using assms(2) by (simp add: steps_done_def)
  have "a * b - j * a = a * (b - j)" by (simp add: algebra_simps)
  moreover have "2 * \<bar>a * b - j * a\<bar> \<le> a" using assms(1) True unfolding near_def i by linarith
  ultimately have "2 * \<bar>a * (b - j)\<bar> \<le> a" by simp
  then show ?thesis using small_multiple [of a "b - j"] assms(1) True i by (cases "0 < a") (auto simp: near_def)
next
  case False
  then have j: "j = b" using assms(2) by (simp add: steps_done_def)
  have "i * b - b * a = b * (i - a)" by (simp add: algebra_simps)
  moreover have "2 * \<bar>i * b - b * a\<bar> \<le> b" using assms(1) False unfolding near_def j by linarith
  ultimately have "2 * \<bar>b * (i - a)\<bar> \<le> b" by simp
  then show ?thesis using small_multiple [of b "i - a"] assms(1) False j by (auto simp: near_def)
qed

lemma near_bounds:
  fixes a b d :: int
  assumes "0 \<le> a" "0 \<le> b" "2 * \<bar>d\<bar> \<le> max a b"
  shows "- 2 * d + 2 * a - 2 * b \<ge> - b \<Longrightarrow> - 2 * d + 2 * a - 2 * b \<le> a \<Longrightarrow> 2 * \<bar>d + b - a\<bar> \<le> max a b"
    "\<not> - 2 * d + 2 * a - 2 * b \<ge> - b \<Longrightarrow> 2 * \<bar>d - a\<bar> \<le> max a b"
    "\<not> - 2 * d + 2 * a - 2 * b \<le> a \<Longrightarrow> 2 * \<bar>d + b\<bar> \<le> max a b"
    "b \<le> a \<Longrightarrow> - 2 * d + 2 * a - 2 * b \<ge> - b" "\<not> b \<le> a \<Longrightarrow> - 2 * d + 2 * a - 2 * b \<le> a"
proof -
  have abs2: "2 * \<bar>z\<bar> \<le> m \<longleftrightarrow> - m \<le> 2 * z \<and> 2 * z \<le> m" for z m :: int by arith
  show "- 2 * d + 2 * a - 2 * b \<ge> - b \<Longrightarrow> - 2 * d + 2 * a - 2 * b \<le> a \<Longrightarrow> 2 * \<bar>d + b - a\<bar> \<le> max a b"
    "\<not> - 2 * d + 2 * a - 2 * b \<ge> - b \<Longrightarrow> 2 * \<bar>d - a\<bar> \<le> max a b"
    "\<not> - 2 * d + 2 * a - 2 * b \<le> a \<Longrightarrow> 2 * \<bar>d + b\<bar> \<le> max a b"
    "b \<le> a \<Longrightarrow> - 2 * d + 2 * a - 2 * b \<ge> - b" "\<not> b \<le> a \<Longrightarrow> - 2 * d + 2 * a - 2 * b \<le> a"
    using assms unfolding abs2 by (auto simp: max_def split: if_splits)
qed

text \<open>The decisions of the loop, with its error variable written out.\<close>

lemma near_step:
  assumes "near a b i j" "steps_done a b i j < max a b"
  defines "err \<equiv> (j + 1) * a - (i + 1) * b"
  defines "i' \<equiv> (if 2 * err \<ge> - b then i + 1 else i)"
  defines "j' \<equiv> (if 2 * err \<le> a then j + 1 else j)"
  shows "near a b i' j'" "steps_done a b i' j' = steps_done a b i j + 1"
    "2 * err \<ge> - b \<Longrightarrow> i \<noteq> a" "2 * err \<le> a \<Longrightarrow> j \<noteq> b"
proof -
  have b: "0 \<le> i" "i \<le> a" "0 \<le> j" "j \<le> b" and D: "2 * \<bar>i * b - j * a\<bar> \<le> max a b"
    using assms(1) by (simp_all add: near_def)
  have "- m \<le> 2 * x \<and> 2 * x \<le> m" if "2 * \<bar>x\<bar> \<le> m" for x m :: int using that by linarith
  from this [OF D] have d: "- max a b \<le> 2 * (i * b - j * a)" "2 * (i * b - j * a) \<le> max a b" by simp_all
  have e: "2 * err = - 2 * (i * b - j * a) + 2 * a - 2 * b" unfolding err_def by (simp add: algebra_simps)
  have s: "(i + 1) * b - (j + 1) * a = (i * b - j * a) + b - a" "(i + 1) * b - j * a = (i * b - j * a) + b"
    "i * b - (j + 1) * a = (i * b - j * a) - a" by (simp_all add: algebra_simps)
  have ends: "i < a" if "2 * err \<ge> - b"
  proof (rule ccontr)
    assume "\<not> i < a"
    then have i: "i = a" using b by simp
    have f: "a * b - j * a = a * (b - j)" by (simp add: algebra_simps)
    show False
    proof (cases "b \<le> a")
      case True
      then show False using assms(2) i by (simp add: steps_done_def)
    next
      case False
      then have "j < b" using assms(2) by (simp add: steps_done_def)
      then have "a * 1 \<le> a * (b - j)" using b by (intro mult_left_mono) auto
      then show False using that False b unfolding e i f by linarith
    qed
  qed
  have ends': "j < b" if "2 * err \<le> a"
  proof (rule ccontr)
    assume "\<not> j < b"
    then have j: "j = b" using b by simp
    have f: "i * b - b * a = - (b * (a - i))" by (simp add: algebra_simps)
    show False
    proof (cases "b \<le> a")
      case True
      then have "i < a" using assms(2) by (simp add: steps_done_def)
      then have "b * 1 \<le> b * (a - i)" using b by (intro mult_left_mono) auto
      then show False using that b \<open>i < a\<close> unfolding e j f by linarith
    next
      case False
      then show False using assms(2) j by (simp add: steps_done_def)
    qed
  qed
  have ab: "0 \<le> a" "0 \<le> b" using b by auto
  note nb = near_bounds [OF ab D, folded e]
  have "2 * \<bar>i' * b - j' * a\<bar> \<le> max a b"
    using nb D unfolding i'_def j'_def by (cases "b \<le> a") (auto simp only: s if_True if_False split: if_split)
  then show "near a b i' j'"
    using b ends ends' unfolding near_def i'_def j'_def by auto
  show "steps_done a b i' j' = steps_done a b i j + 1"
    using nb(4,5) unfolding steps_done_def i'_def j'_def by auto
  show "2 * err \<ge> - b \<Longrightarrow> i \<noteq> a" "2 * err \<le> a \<Longrightarrow> j \<noteq> b" using ends ends' by auto
qed

text \<open>The point after \<open>i\<close> steps across and \<open>j\<close> up, and the points to come.\<close>

definition toward :: "int \<Rightarrow> int \<Rightarrow> int \<Rightarrow> int" where
  "toward a0 a1 n = (if a0 \<ge> a1 then a0 - n else a0 + n)"

definition king_path :: "(int \<times> int) list \<Rightarrow> bool" where
  "king_path ps = successively (\<lambda>(x, y) (x', y'). \<bar>x' - x\<bar> \<le> 1 \<and> \<bar>y' - y\<bar> \<le> 1 \<and> (x', y') \<noteq> (x, y)) ps"

lemma trace_line:
  fixes x0 y0 x1 y1 :: int
  defines "a \<equiv> \<bar>x1 - x0\<bar>" and "b \<equiv> \<bar>y1 - y0\<bar>"
  assumes "near a b i j" "n = nat (max a b - steps_done a b i j)"
  shows "\<exists>ps. trace stamp a (- b) (if x0 \<ge> x1 then -1 else 1) (if y0 \<ge> y1 then -1 else 1) x1 y1 (toward x0 x1 i) (toward y0 y1 j)
            ((j + 1) * a - (i + 1) * b) img = Some (fold stamp ps img)
      \<and> length ps = Suc n \<and> hd ps = (toward x0 x1 i, toward y0 y1 j) \<and> last ps = (x1, y1) \<and> king_path ps
      \<and> (\<forall>p \<in> set ps. \<exists>i j. near a b i j \<and> p = (toward x0 x1 i, toward y0 y1 j))"
  using assms(3,4)
proof (induction n arbitrary: i j img)
  case 0
  then have "steps_done a b i j = max a b" by (auto simp: near_def steps_done_def)
  then have ij: "i = a" "j = b" using near_end [OF 0(1)] by auto
  then have "toward x0 x1 i = x1" "toward y0 y1 j = y1" by (auto simp: toward_def a_def b_def)
  with 0(1) have "\<exists>i j. near a b i j \<and> (x1, y1) = (toward x0 x1 i, toward y0 y1 j)" "toward x0 x1 i = x1" "toward y0 y1 j = y1"
    by metis+
  then show ?case by (intro exI [of _ "[(x1, y1)]"]) (simp add: trace.simps king_path_def)
next
  case (Suc n)
  let ?err = "(j + 1) * a - (i + 1) * b"
  define i' where "i' = (if 2 * ?err \<ge> - b then i + 1 else i)"
  define j' where "j' = (if 2 * ?err \<le> a then j + 1 else j)"
  have lt: "steps_done a b i j < max a b" using Suc.prems(2) by linarith
  note st = near_step [OF Suc.prems(1) lt, folded i'_def j'_def]
  have "n = nat (max a b - steps_done a b i' j')" using Suc.prems(2) st(2) by linarith
  from Suc.IH [OF st(1) this, of "stamp (toward x0 x1 i, toward y0 y1 j) img"] obtain ps where
    ps: "trace stamp a (- b) (if x0 \<ge> x1 then -1 else 1) (if y0 \<ge> y1 then -1 else 1) x1 y1 (toward x0 x1 i') (toward y0 y1 j')
      ((j' + 1) * a - (i' + 1) * b) (stamp (toward x0 x1 i, toward y0 y1 j) img)
        = Some (fold stamp ps (stamp (toward x0 x1 i, toward y0 y1 j) img))"
    "length ps = Suc n" "hd ps = (toward x0 x1 i', toward y0 y1 j')" "last ps = (x1, y1)" "king_path ps"
    "\<forall>p \<in> set ps. \<exists>i j. near a b i j \<and> p = (toward x0 x1 i, toward y0 y1 j)" by blast
  have pos: "0 \<le> i" "i \<le> a" "0 \<le> j" "j \<le> b" using Suc.prems(1) by (auto simp: near_def)
  have x: "toward x0 x1 i = x1 \<longleftrightarrow> i = a" "toward y0 y1 j = y1 \<longleftrightarrow> j = b"
    using pos by (auto simp: toward_def a_def b_def)
  have nx: "i' \<noteq> i \<longrightarrow> i \<noteq> a" "j' \<noteq> j \<longrightarrow> j \<noteq> b" using st(3,4) by (auto simp: i'_def j'_def)
  have moved: "i' \<noteq> i \<or> j' \<noteq> j" using st(2) by auto
  have t: "trace stamp a (- b) (if x0 \<ge> x1 then -1 else 1) (if y0 \<ge> y1 then -1 else 1) x1 y1 (toward x0 x1 i) (toward y0 y1 j) ?err img
      = trace stamp a (- b) (if x0 \<ge> x1 then -1 else 1) (if y0 \<ge> y1 then -1 else 1) x1 y1 (toward x0 x1 i') (toward y0 y1 j')
          ((j' + 1) * a - (i' + 1) * b) (stamp (toward x0 x1 i, toward y0 y1 j) img)"
  proof -
    have e: "(if 2 * ?err \<le> a then (if 2 * ?err \<ge> - b then ?err - b else ?err) + a else (if 2 * ?err \<ge> - b then ?err - b else ?err))
        = (j' + 1) * a - (i' + 1) * b" by (simp add: i'_def j'_def algebra_simps)
    have s: "toward x0 x1 i' = (if 2 * ?err \<ge> - b then toward x0 x1 i + (if x0 \<ge> x1 then -1 else 1) else toward x0 x1 i)"
      "toward y0 y1 j' = (if 2 * ?err \<le> a then toward y0 y1 j + (if y0 \<ge> y1 then -1 else 1) else toward y0 y1 j)"
      by (simp_all add: toward_def i'_def j'_def)
    show ?thesis
      by (subst trace.simps) (use moved nx x st(3,4) in \<open>simp add: Let_def s flip: e, auto simp: i'_def j'_def split: if_splits\<close>)
  qed
  show ?case
  proof (intro exI [of _ "(toward x0 x1 i, toward y0 y1 j) # ps"] conjI)
    show "king_path ((toward x0 x1 i, toward y0 y1 j) # ps)"
      using ps(2,3,5) moved by (cases ps) (auto simp: king_path_def toward_def i'_def j'_def split: if_splits)
  qed (use t ps Suc.prems(1) in auto)
qed

section \<open>What is painted\<close>

definition paint :: "'c \<Rightarrow> (int \<times> int) set \<Rightarrow> 'c image \<Rightarrow> 'c image" where
  "paint c S img = img\<lparr>pixel := \<lambda>p. if inside img p \<and> p \<in> S then c else pixel img p\<rparr>"

definition disk :: "int \<Rightarrow> int \<times> int \<Rightarrow> (int \<times> int) set" where
  "disk r p = {(x, y). (x - fst p)\<^sup>2 + (y - snd p)\<^sup>2 \<le> r\<^sup>2}"

lemma inside_paint [simp]: "inside (paint c S img) p = inside img p"
  by (simp add: inside_def paint_def)

lemma paint_empty [simp]: "paint c {} img = img"
  by (simp add: paint_def)

lemma paint_paint [simp]: "paint c S (paint c T img) = paint c (T \<union> S) img"
  by (cases img) (auto simp: paint_def inside_def fun_eq_iff)

lemma fold_paint: "fold (\<lambda>d. paint c (S d)) ds img = paint c (\<Union>d \<in> set ds. S d) img"
  by (induction ds arbitrary: img) simp_all

lemma set_pixel_paint: "set_pixel c p = paint c {p}"
proof
  show "set_pixel c p img = paint c {p} img" for img :: "'a image"
    by (cases img) (auto simp: set_pixel_def paint_def inside_def fun_eq_iff)
qed

lemma stamp_disk_paint: "0 \<le> r \<Longrightarrow> stamp_disk c r p = paint c (disk r p)"
proof (cases p)
  case (Pair x y)
  assume r: "0 \<le> r"
  have one: "(if q then set_pixel c p img else img) = paint c (if q then {p} else {}) img" for q p img
    by (simp add: set_pixel_paint)
  have sq: "\<bar>d\<bar> \<le> r" if "d * d + e * e \<le> r * r" for d e :: int
  proof -
    have "d\<^sup>2 \<le> r\<^sup>2" using that zero_le_square [of e] unfolding power2_eq_square by linarith
    then show ?thesis using r by (simp add: abs_le_square_iff [symmetric])
  qed
  have "(\<Union>dy \<in> {-r..r}. \<Union>dx \<in> {-r..r}. if dx * dx + dy * dy \<le> r * r then {(x + dx, y + dy)} else {}) = disk r (x, y)"
  proof (intro set_eqI iffI)
    fix q assume "q \<in> disk r (x, y)"
    then have "(fst q - x) * (fst q - x) + (snd q - y) * (snd q - y) \<le> r * r"
      by (auto simp: disk_def power2_eq_square)
    moreover from this sq [of "fst q - x" "snd q - y"] sq [of "snd q - y" "fst q - x"]
    have "fst q - x \<in> {-r..r}" "snd q - y \<in> {-r..r}" by auto
    ultimately show "q \<in> (\<Union>dy \<in> {-r..r}. \<Union>dx \<in> {-r..r}. if dx * dx + dy * dy \<le> r * r then {(x + dx, y + dy)} else {})"
      by (intro UN_I [of "snd q - y"] UN_I [of "fst q - x"]) auto
  qed (auto simp: disk_def power2_eq_square split: if_splits)
  then show "stamp_disk c r p = paint c (disk r p)"
    unfolding stamp_disk_def Pair prod.case one fold_paint by (simp add: fun_eq_iff)
qed

lemma line_points:
  "\<exists>ps. draw_line stamp x0 y0 x1 y1 img = Some (fold stamp ps img)
    \<and> length ps = Suc (nat (max \<bar>x1 - x0\<bar> \<bar>y1 - y0\<bar>)) \<and> hd ps = (x0, y0) \<and> last ps = (x1, y1) \<and> king_path ps
    \<and> (\<forall>p \<in> set ps. \<exists>i j. near \<bar>x1 - x0\<bar> \<bar>y1 - y0\<bar> i j \<and> p = (toward x0 x1 i, toward y0 y1 j))"
proof -
  let ?a = "\<bar>x1 - x0\<bar>" and ?b = "\<bar>y1 - y0\<bar>"
  have n: "near ?a ?b 0 0" "nat (max ?a ?b) = nat (max ?a ?b - steps_done ?a ?b 0 0)"
    by (auto simp: near_def steps_done_def)
  have t: "toward x0 x1 0 = x0" "toward y0 y1 0 = y0" by (simp_all add: toward_def)
  have "draw_line stamp x0 y0 x1 y1 img =
      trace stamp ?a (- ?b) (if x0 \<ge> x1 then -1 else 1) (if y0 \<ge> y1 then -1 else 1) x1 y1 x0 y0 ((0 + 1) * ?a - (0 + 1) * ?b) img"
    by (simp add: draw_line_def Let_def)
  with trace_line [OF n, of stamp img] show ?thesis unfolding t by simp
qed

lemma toward_sign: "\<exists>s. \<bar>s\<bar> = 1 \<and> toward u v n - u = s * n \<and> v - u = s * \<bar>v - u\<bar>"
  by (rule exI [of _ "if u \<ge> v then -1 else 1"]) (simp add: toward_def)

lemma near_line:
  assumes "near \<bar>x1 - x0\<bar> \<bar>y1 - y0\<bar> i j" "(x, y) = (toward x0 x1 i, toward y0 y1 j)"
  shows "min x0 x1 \<le> x \<and> x \<le> max x0 x1 \<and> min y0 y1 \<le> y \<and> y \<le> max y0 y1
    \<and> 2 * \<bar>(x - x0) * (y1 - y0) - (y - y0) * (x1 - x0)\<bar> \<le> max \<bar>x1 - x0\<bar> \<bar>y1 - y0\<bar>"
proof -
  define a b where "a = \<bar>x1 - x0\<bar>" and "b = \<bar>y1 - y0\<bar>"
  obtain s t where s: "\<bar>s\<bar> = 1" "x - x0 = s * i" "x1 - x0 = s * a" and t: "\<bar>t\<bar> = 1" "y - y0 = t * j" "y1 - y0 = t * b"
    using toward_sign [of x0 x1 i] toward_sign [of y0 y1 j] assms(2) by (auto simp: a_def b_def)
  have "(x - x0) * (y1 - y0) - (y - y0) * (x1 - x0) = (s * t) * (i * b - j * a)"
    unfolding s t by (simp add: algebra_simps)
  then have "\<bar>(x - x0) * (y1 - y0) - (y - y0) * (x1 - x0)\<bar> = \<bar>i * b - j * a\<bar>" using s(1) t(1) by (simp add: abs_mult)
  with assms show ?thesis by (auto simp: near_def toward_def a_def b_def split: if_splits)
qed


lemma stamped_line:
  assumes "stamp = (\<lambda>p. paint c (T p))" "\<And>p. p \<in> T p"
  shows "\<exists>S. draw_line stamp x0 y0 x1 y1 img = Some (paint c S img) \<and> {(x0, y0), (x1, y1)} \<subseteq> S"
proof -
  obtain ps where ps: "draw_line stamp x0 y0 x1 y1 img = Some (fold stamp ps img)" "hd ps = (x0, y0)" "last ps = (x1, y1)" "ps \<noteq> []"
    using line_points [of stamp x0 y0 x1 y1 img] by fastforce
  have "fold stamp ps img = paint c (\<Union>p \<in> set ps. T p) img" by (simp add: assms(1) fold_paint)
  moreover have "{hd ps, last ps} \<subseteq> (\<Union>p \<in> set ps. T p)" using assms(2) hd_in_set [OF ps(4)] last_in_set [OF ps(4)] by blast
  ultimately show ?thesis using ps(1-3) by metis
qed

lemma painted_segments:
  assumes "\<And>x0 y0 x1 y1 img. \<exists>S. line x0 y0 x1 y1 img = Some (paint c S img) \<and> {(x0, y0), (x1, y1)} \<subseteq> S"
  shows "\<exists>S. segments line pts img = Some (paint c S img) \<and> (2 \<le> length pts \<longrightarrow> set pts \<subseteq> S)"
  using assms
proof (induction line pts img rule: segments.induct)
  case (1 line p q ps img)
  obtain S where S: "line (fst p) (snd p) (fst q) (snd q) img = Some (paint c S img)" "{p, q} \<subseteq> S"
    using 1(2) [of "fst p" "snd p" "fst q" "snd q" img] by auto
  obtain T where "segments line (q # ps) (paint c S img) = Some (paint c T (paint c S img))"
      "2 \<le> length (q # ps) \<longrightarrow> set (q # ps) \<subseteq> T" using 1(1) [OF S(1) 1(2)] by blast
  with S show ?case by (intro exI [of _ "S \<union> T"]) (cases ps; auto)
qed (auto intro: exI [of _ "{}"])

text \<open>
  Drawing a polyline of any thickness always returns, keeps the rectangle of the image, and sets
  the colour of a set of pixels that contains all its points, as far as they are inside.
\<close>

theorem polyline_drawn:
  "\<exists>S. DrawPolyline c radius pts img = Some (paint c S img) \<and> (2 \<le> length pts \<longrightarrow> set pts \<subseteq> S)"
proof (cases "length pts < 2")
  case True
  then show ?thesis by (intro exI [of _ "{}"]) (simp add: DrawPolyline_def)
next
  case False
  have thin: "\<exists>S. DrawLine c x0 y0 x1 y1 img = Some (paint c S img) \<and> {(x0, y0), (x1, y1)} \<subseteq> S" for x0 y0 x1 y1 and img :: "'a image"
    unfolding DrawLine_def by (rule stamped_line [where T = "\<lambda>p. {p}"]) (auto simp: set_pixel_paint)
  have thick: "\<exists>S. drawThickLine c radius x0 y0 x1 y1 img = Some (paint c S img) \<and> {(x0, y0), (x1, y1)} \<subseteq> S"
    if "0 < radius" for x0 y0 x1 y1 and img :: "'a image"
    unfolding drawThickLine_def using that
    by (intro stamped_line [where T = "disk radius"]) (auto simp: stamp_disk_paint disk_def)
  show ?thesis
    using False painted_segments [of "DrawLine c" c pts img, OF thin]
      painted_segments [of "drawThickLine c radius" c pts img, OF thick] by (simp add: DrawPolyline_def)
qed

text \<open>
  A marker is a filled disk: exactly the pixels of the image within its radius of the centre get
  its colour; with a radius of zero or less it is the centre alone.
\<close>

theorem marker_is_disk:
  "pixel (DrawMarker c x y radius img) p =
     (if inside img p \<and> (fst p - x)\<^sup>2 + (snd p - y)\<^sup>2 \<le> (max 0 radius)\<^sup>2 then c else pixel img p)"
proof (cases "radius \<le> 0")
  case True
  have "(fst p - x)\<^sup>2 + (snd p - y)\<^sup>2 \<le> 0 \<longleftrightarrow> p = (x, y)"
    using sum_power2_le_zero_iff [of "fst p - x" "snd p - y"] by (auto simp: prod_eq_iff)
  with True show ?thesis by (simp add: DrawMarker_def set_pixel_paint paint_def)
next
  case False
  then show ?thesis by (simp add: DrawMarker_def stamp_disk_paint paint_def disk_def case_prod_unfold)
qed


lemma polyline_drawn_witness:
  "\<exists>S. DrawPolyline True 1 [(0, 0), (3, 1), (3, 5)] \<lparr>minX = 0, minY = 0, maxX = 4, maxY = 4, pixel = \<lambda>_. False\<rparr>
      = Some (paint True S \<lparr>minX = 0, minY = 0, maxX = 4, maxY = 4, pixel = \<lambda>_. False\<rparr>) \<and> (3, 1) \<in> S"
  using polyline_drawn [of True 1 "[(0, 0), (3, 1), (3, 5)]" "\<lparr>minX = 0, minY = 0, maxX = 4, maxY = 4, pixel = \<lambda>_. False\<rparr>"]
  by auto

end
