(* ===== verification/Settings.thy ===== *)
theory Settings
  imports GoConv
begin

text \<open>
  The settings a sysop can change at run time (\<^verbatim>\<open>src/internal/settings/cache.go\<close> over the table of
  \<^verbatim>\<open>src/internal/data/gen/system_settings.sql.go\<close>).  Every replica keeps a snapshot: the defaults
  overlaid with the rows of the table.  It is refreshed by a ticker, after an own write, and when
  an invalidation message arrives.  The world holds the table, the caches of the replicas, the
  messages each still has to handle, and an oracle that says which calls of the database fail.

  The lemmas: a written setting is read back as its canonical text, printing and parsing are
  inverse, replicas converge; and a refresh that was under way can put back what it had read.
\<close>

section \<open>Keys, types, catalog\<close>

abbreviation KeySignupsEnabled :: string where
  "KeySignupsEnabled \<equiv> ''signups_enabled''"

abbreviation KeySignupsDisabledMessage :: string where
  "KeySignupsDisabledMessage \<equiv> ''signups_disabled_message''"

abbreviation KeyMOTD :: string where
  "KeyMOTD \<equiv> ''motd''"

abbreviation KeyWallEnabled :: string where
  "KeyWallEnabled \<equiv> ''wall_enabled''"

abbreviation KeyMaxTotalSessions :: string where
  "KeyMaxTotalSessions \<equiv> ''max_total_sessions''"

abbreviation KeyMaxConnPerIP :: string where
  "KeyMaxConnPerIP \<equiv> ''max_conn_per_ip''"

abbreviation KeyMaxUnauthHandshakes :: string where
  "KeyMaxUnauthHandshakes \<equiv> ''max_unauth_handshakes''"

abbreviation KeyLockoutHandleThreshold :: string where
  "KeyLockoutHandleThreshold \<equiv> ''lockout_handle_threshold''"

abbreviation KeyLockoutIPThreshold :: string where
  "KeyLockoutIPThreshold \<equiv> ''lockout_ip_threshold''"

abbreviation KeyLockoutWindowSeconds :: string where
  "KeyLockoutWindowSeconds \<equiv> ''lockout_window_seconds''"

abbreviation KeyCarbonylEnabled :: string where
  "KeyCarbonylEnabled \<equiv> ''carbonyl_enabled''"

abbreviation KeyCarbonylMaxGlobal :: string where
  "KeyCarbonylMaxGlobal \<equiv> ''carbonyl_max_global''"

abbreviation KeyCarbonylMaxPerIP :: string where
  "KeyCarbonylMaxPerIP \<equiv> ''carbonyl_max_per_ip''"

abbreviation KeyCarbonylMaxPerHandle :: string where
  "KeyCarbonylMaxPerHandle \<equiv> ''carbonyl_max_per_handle''"

definition TypeBool :: string where
  "TypeBool = ''bool''"

definition TypeInt :: string where
  "TypeInt = ''int''"

definition TypeString :: string where
  "TypeString = ''string''"

record SettingDef =
  defKey :: string
  defType :: string
  defDescription :: string

definition Catalog :: "SettingDef list" where
  "Catalog = map (\<lambda>(k, t, d). \<lparr>defKey = k, defType = t, defDescription = d\<rparr>)
    [(KeySignupsEnabled, TypeBool, ''Allow new user signups (SSH + OAuth)''),
     (KeySignupsDisabledMessage, TypeString, ''Message shown when signups are disabled''),
     (KeyMOTD, TypeString, ''Message of the day (rendered on lobby; empty hides)''),
     (KeyWallEnabled, TypeBool, ''Allow the wall broadcast command''),
     (KeyMaxTotalSessions, TypeInt, ''Cap on concurrent authenticated sessions (0 = unlimited)''),
     (KeyMaxConnPerIP, TypeInt, ''Max concurrent TCP conns per source IP (0 = unlimited)''),
     (KeyMaxUnauthHandshakes, TypeInt, ''Global cap on in-flight unauth SSH handshakes (0 = unlimited)''),
     (KeyLockoutHandleThreshold, TypeInt, ''Auth failures per-handle to trip a lockout''),
     (KeyLockoutIPThreshold, TypeInt, ''Auth failures per-IP to trip a lockout''),
     (KeyLockoutWindowSeconds, TypeInt, ''Sliding window seconds for lockout counters''),
     (KeyCarbonylEnabled, TypeBool, ''Allow '' @ [CHR 0x27] @ ''rich mode'' @ [CHR 0x27] @ '' (Carbonyl browser) in SSH sessions''),
     (KeyCarbonylMaxGlobal, TypeInt, ''Cap on concurrent Carbonyl sessions process-wide (0 = unlimited)''),
     (KeyCarbonylMaxPerIP, TypeInt, ''Cap on concurrent Carbonyl sessions per source IP (0 = unlimited)''),
     (KeyCarbonylMaxPerHandle, TypeInt, ''Cap on concurrent Carbonyl sessions per user handle (0 = unlimited)'')]"

record Snapshot =
  SignupsEnabled :: bool
  SignupsDisabledMessage :: string
  MOTD :: string
  WallEnabled :: bool
  MaxTotalSessions :: int
  MaxConnPerIP :: int
  MaxUnauthHandshakes :: int
  LockoutHandleThreshold :: int
  LockoutIPThreshold :: int
  LockoutWindowSeconds :: int
  CarbonylEnabled :: bool
  CarbonylMaxGlobal :: int
  CarbonylMaxPerIP :: int
  CarbonylMaxPerHandle :: int

definition lookupDef :: "string \<Rightarrow> SettingDef option" where
  "lookupDef key = find (\<lambda>d. defKey d = key) Catalog"

text \<open>Whether a value is accepted for a type.\<close>

definition validate :: "string \<Rightarrow> string \<Rightarrow> bool" where
  "validate typ v =
     (if typ = TypeBool then ParseBool v \<noteq> None
      else if typ = TypeInt then ParseInt v \<noteq> None
      else typ = TypeString)"

section \<open>Snapshots\<close>

definition parsed :: "('v \<Rightarrow> Snapshot \<Rightarrow> Snapshot) \<Rightarrow> 'v option \<Rightarrow> Snapshot \<Rightarrow> Snapshot" where
  "parsed upd v s = (case v of None \<Rightarrow> s | Some x \<Rightarrow> upd x s)"

definition applyRow :: "string \<Rightarrow> string \<Rightarrow> Snapshot \<Rightarrow> Snapshot" where
  "applyRow key v s =
     (if key = KeySignupsEnabled then parsed (\<lambda>x s. s\<lparr>SignupsEnabled := x\<rparr>) (ParseBool v) s
      else if key = KeySignupsDisabledMessage then s\<lparr>SignupsDisabledMessage := v\<rparr>
      else if key = KeyMOTD then s\<lparr>MOTD := v\<rparr>
      else if key = KeyWallEnabled then parsed (\<lambda>x s. s\<lparr>WallEnabled := x\<rparr>) (ParseBool v) s
      else if key = KeyMaxTotalSessions then parsed (\<lambda>x s. s\<lparr>MaxTotalSessions := x\<rparr>) (ParseInt v) s
      else if key = KeyMaxConnPerIP then parsed (\<lambda>x s. s\<lparr>MaxConnPerIP := x\<rparr>) (ParseInt v) s
      else if key = KeyMaxUnauthHandshakes then parsed (\<lambda>x s. s\<lparr>MaxUnauthHandshakes := x\<rparr>) (ParseInt v) s
      else if key = KeyLockoutHandleThreshold then parsed (\<lambda>x s. s\<lparr>LockoutHandleThreshold := x\<rparr>) (ParseInt v) s
      else if key = KeyLockoutIPThreshold then parsed (\<lambda>x s. s\<lparr>LockoutIPThreshold := x\<rparr>) (ParseInt v) s
      else if key = KeyLockoutWindowSeconds then parsed (\<lambda>x s. s\<lparr>LockoutWindowSeconds := x\<rparr>) (ParseInt v) s
      else if key = KeyCarbonylEnabled then parsed (\<lambda>x s. s\<lparr>CarbonylEnabled := x\<rparr>) (ParseBool v) s
      else if key = KeyCarbonylMaxGlobal then parsed (\<lambda>x s. s\<lparr>CarbonylMaxGlobal := x\<rparr>) (ParseInt v) s
      else if key = KeyCarbonylMaxPerIP then parsed (\<lambda>x s. s\<lparr>CarbonylMaxPerIP := x\<rparr>) (ParseInt v) s
      else if key = KeyCarbonylMaxPerHandle then parsed (\<lambda>x s. s\<lparr>CarbonylMaxPerHandle := x\<rparr>) (ParseInt v) s
      else s)"

definition SnapshotString :: "Snapshot \<Rightarrow> string \<Rightarrow> string" where
  "SnapshotString s key =
     (if key = KeySignupsEnabled then FormatBool (SignupsEnabled s)
      else if key = KeySignupsDisabledMessage then SignupsDisabledMessage s
      else if key = KeyMOTD then MOTD s
      else if key = KeyWallEnabled then FormatBool (WallEnabled s)
      else if key = KeyMaxTotalSessions then Itoa (MaxTotalSessions s)
      else if key = KeyMaxConnPerIP then Itoa (MaxConnPerIP s)
      else if key = KeyMaxUnauthHandshakes then Itoa (MaxUnauthHandshakes s)
      else if key = KeyLockoutHandleThreshold then Itoa (LockoutHandleThreshold s)
      else if key = KeyLockoutIPThreshold then Itoa (LockoutIPThreshold s)
      else if key = KeyLockoutWindowSeconds then Itoa (LockoutWindowSeconds s)
      else if key = KeyCarbonylEnabled then FormatBool (CarbonylEnabled s)
      else if key = KeyCarbonylMaxGlobal then Itoa (CarbonylMaxGlobal s)
      else if key = KeyCarbonylMaxPerIP then Itoa (CarbonylMaxPerIP s)
      else if key = KeyCarbonylMaxPerHandle then Itoa (CarbonylMaxPerHandle s)
      else [])"

type_synonym setting_row = "string \<times> string \<times> string \<times> int option" \<comment> \<open>key, value, type, updated by\<close>

definition snapshotFromRows :: "Snapshot \<Rightarrow> setting_row list \<Rightarrow> Snapshot" where
  "snapshotFromRows d rows = fold (\<lambda>(k, v, t, a). applyRow k v) rows d"

section \<open>The caches\<close>

record settings_cache =
  current :: Snapshot
  listeners :: nat
  delivered :: "(nat \<times> Snapshot) list" \<comment> \<open>what each listener was called with\<close>

record settings_world =
  table :: "setting_row list"
  caches :: "nat \<Rightarrow> settings_cache"
  inbox :: "nat \<Rightarrow> string list" \<comment> \<open>invalidation messages not yet handled\<close>
  dbFails :: "nat \<Rightarrow> bool"
  calls :: nat

datatype setting_err = UnknownKey | BadValue | UpsertError | DeleteError

definition NewCache :: "Snapshot \<Rightarrow> settings_cache" where
  "NewCache d = \<lparr>current = snapshotFromRows d [], listeners = 0, delivered = []\<rparr>"

definition OnChange :: "settings_cache \<Rightarrow> settings_cache" where
  "OnChange c = c\<lparr>listeners := listeners c + 1, delivered := delivered c @ [(listeners c, current c)]\<rparr>"

definition fireOnChange :: "settings_cache \<Rightarrow> settings_cache" where
  "fireOnChange c = c\<lparr>delivered := delivered c @ map (\<lambda>i. (i, current c)) [0..<listeners c]\<rparr>"

text \<open>The statements: whether they succeeded, and the rest of the call.\<close>

definition attempt :: "settings_world \<Rightarrow> bool \<times> settings_world" where
  "attempt w = (\<not> dbFails w (calls w), w\<lparr>calls := Suc (calls w)\<rparr>)"

definition ListSystemSettings :: "settings_world \<Rightarrow> setting_row list option \<times> settings_world" where
  "ListSystemSettings w = (case attempt w of (ok, w') \<Rightarrow> (if ok then Some (table w) else None, w'))"

definition upsert_row :: "setting_row \<Rightarrow> setting_row list \<Rightarrow> setting_row list" where
  "upsert_row r rows =
     (if fst r \<in> fst ` set rows then map (\<lambda>q. if fst q = fst r then r else q) rows else rows @ [r])"

definition UpsertSystemSetting :: "setting_row \<Rightarrow> settings_world \<Rightarrow> bool \<times> settings_world" where
  "UpsertSystemSetting r w =
     (case attempt w of (ok, w') \<Rightarrow> (ok, if ok then w'\<lparr>table := upsert_row r (table w)\<rparr> else w'))"

definition DeleteSystemSetting :: "string \<Rightarrow> settings_world \<Rightarrow> nat option \<times> settings_world" where
  "DeleteSystemSetting key w =
     (case attempt w of (ok, w') \<Rightarrow>
        if ok then (Some (length (filter (\<lambda>r. fst r = key) (table w))), w'\<lparr>table := filter (\<lambda>r. fst r \<noteq> key) (table w)\<rparr>)
        else (None, w'))"

text \<open>A refresh reads the table and stores the snapshot; the two are separate moments.\<close>

definition store_rows :: "Snapshot \<Rightarrow> nat \<Rightarrow> setting_row list \<Rightarrow> settings_world \<Rightarrow> settings_world" where
  "store_rows d i rows w =
     w\<lparr>caches := (caches w)(i := fireOnChange ((caches w i)\<lparr>current := snapshotFromRows d rows\<rparr>))\<rparr>"

definition refresh :: "Snapshot \<Rightarrow> nat \<Rightarrow> settings_world \<Rightarrow> bool \<times> settings_world" where
  "refresh d i w =
     (case ListSystemSettings w of (None, w') \<Rightarrow> (False, w') | (Some rows, w') \<Rightarrow> (True, store_rows d i rows w'))"

text \<open>A published message reaches every replica, the publisher included; \<open>sent\<close> says whether Redis took it.\<close>

definition publish :: "bool \<Rightarrow> string \<Rightarrow> settings_world \<Rightarrow> settings_world" where
  "publish sent key w = (if sent then w\<lparr>inbox := \<lambda>i. inbox w i @ [key]\<rparr> else w)"

definition Set ::
  "Snapshot \<Rightarrow> bool \<Rightarrow> nat \<Rightarrow> string \<Rightarrow> string \<Rightarrow> int option \<Rightarrow> settings_world \<Rightarrow> setting_err option \<times> settings_world" where
  "Set d sent i key v actor w =
     (case lookupDef key of
        None \<Rightarrow> (Some UnknownKey, w)
      | Some def \<Rightarrow>
          if \<not> validate (defType def) v then (Some BadValue, w)
          else (case UpsertSystemSetting (key, v, defType def, actor) w of
             (ok, w1) \<Rightarrow>
               if \<not> ok then (Some UpsertError, w1)
               else (None, publish sent key (snd (refresh d i w1)))))"

definition Reset :: "Snapshot \<Rightarrow> bool \<Rightarrow> nat \<Rightarrow> string \<Rightarrow> settings_world \<Rightarrow> (setting_err + nat) \<times> settings_world" where
  "Reset d sent i key w =
     (case lookupDef key of
        None \<Rightarrow> (Inl UnknownKey, w)
      | Some def \<Rightarrow>
          (case DeleteSystemSetting key w of
             (None, w1) \<Rightarrow> (Inl DeleteError, w1)
           | (Some n, w1) \<Rightarrow> (Inr n, publish sent key (snd (refresh d i w1)))))"

definition DefaultString :: "Snapshot \<Rightarrow> string \<Rightarrow> string" where
  "DefaultString d key = SnapshotString d key"

text \<open>One round of \<open>Run\<close>'s ticker and of the listener; a message is handled whether the refresh works or not.\<close>

definition settings_tick :: "Snapshot \<Rightarrow> nat \<Rightarrow> settings_world \<Rightarrow> settings_world" where
  "settings_tick d i w = snd (refresh d i w)"

definition listenInvalidations :: "Snapshot \<Rightarrow> nat \<Rightarrow> settings_world \<Rightarrow> settings_world" where
  "listenInvalidations d i w =
     (case inbox w i of [] \<Rightarrow> w | m # ms \<Rightarrow> snd (refresh d i (w\<lparr>inbox := (inbox w)(i := ms)\<rparr>)))"

section \<open>Reading a setting\<close>

definition setting_keys :: "string list" where
  "setting_keys = map defKey Catalog"

lemma setting_keys_eval: "setting_keys =
  [KeySignupsEnabled, KeySignupsDisabledMessage, KeyMOTD,
     KeyWallEnabled, KeyMaxTotalSessions, KeyMaxConnPerIP,
     KeyMaxUnauthHandshakes, KeyLockoutHandleThreshold, KeyLockoutIPThreshold,
     KeyLockoutWindowSeconds, KeyCarbonylEnabled, KeyCarbonylMaxGlobal,
     KeyCarbonylMaxPerIP, KeyCarbonylMaxPerHandle]"
  by (simp add: setting_keys_def Catalog_def)

lemma distinct_keys: "distinct setting_keys"
  by (simp add: setting_keys_eval)

lemma lookupDef_key: "lookupDef k = Some def \<Longrightarrow> k \<in> set setting_keys \<and> defKey def = k"
  unfolding lookupDef_def setting_keys_def by (auto simp: find_Some_iff)

definition type_of_key :: "string \<Rightarrow> string" where
  "type_of_key k = (case lookupDef k of None \<Rightarrow> [] | Some def \<Rightarrow> defType def)"

lemma type_of_key_eval:
  "type_of_key KeySignupsEnabled = TypeBool"
  "type_of_key KeySignupsDisabledMessage = TypeString"
  "type_of_key KeyMOTD = TypeString"
  "type_of_key KeyWallEnabled = TypeBool"
  "type_of_key KeyMaxTotalSessions = TypeInt"
  "type_of_key KeyMaxConnPerIP = TypeInt"
  "type_of_key KeyMaxUnauthHandshakes = TypeInt"
  "type_of_key KeyLockoutHandleThreshold = TypeInt"
  "type_of_key KeyLockoutIPThreshold = TypeInt"
  "type_of_key KeyLockoutWindowSeconds = TypeInt"
  "type_of_key KeyCarbonylEnabled = TypeBool"
  "type_of_key KeyCarbonylMaxGlobal = TypeInt"
  "type_of_key KeyCarbonylMaxPerIP = TypeInt"
  "type_of_key KeyCarbonylMaxPerHandle = TypeInt"
  by (simp_all add: type_of_key_def lookupDef_def Catalog_def)

lemma types_distinct [simp]:
  "TypeBool \<noteq> TypeInt" "TypeBool \<noteq> TypeString" "TypeInt \<noteq> TypeBool" "TypeInt \<noteq> TypeString"
  "TypeString \<noteq> TypeBool" "TypeString \<noteq> TypeInt"
  by (simp_all add: TypeBool_def TypeInt_def TypeString_def)

text \<open>How a value of a type is shown once it is stored.\<close>

definition canonical :: "string \<Rightarrow> string \<Rightarrow> string" where
  "canonical typ v =
     (if typ = TypeBool then FormatBool (the (ParseBool v)) else if typ = TypeInt then Itoa (the (ParseInt v)) else v)"

lemma key_cases: "k \<in> set setting_keys \<Longrightarrow>
    k = KeySignupsEnabled \<or> k = KeySignupsDisabledMessage \<or> k = KeyMOTD \<or> k = KeyWallEnabled \<or> k = KeyMaxTotalSessions \<or> k = KeyMaxConnPerIP \<or> k = KeyMaxUnauthHandshakes \<or> k = KeyLockoutHandleThreshold \<or> k = KeyLockoutIPThreshold \<or> k = KeyLockoutWindowSeconds \<or> k = KeyCarbonylEnabled \<or> k = KeyCarbonylMaxGlobal \<or> k = KeyCarbonylMaxPerIP \<or> k = KeyCarbonylMaxPerHandle"
  by (simp only: setting_keys_eval list.set insert_iff empty_iff simp_thms)

lemma apply_own:
  assumes "k \<in> set setting_keys" "validate (type_of_key k) v"
  shows "SnapshotString (applyRow k v s) k = canonical (type_of_key k) v"
  using key_cases [OF assms(1)] assms(2)
  by (elim disjE) (auto simp: type_of_key_eval validate_def applyRow_def SnapshotString_def parsed_def canonical_def)

lemma apply_invalid:
  assumes "k \<in> set setting_keys" "\<not> validate (type_of_key k) v"
  shows "applyRow k v s = s"
  using key_cases [OF assms(1)] assms(2)
  by (elim disjE) (auto simp: type_of_key_eval validate_def applyRow_def parsed_def)

lemma apply_other: "k \<noteq> l \<Longrightarrow> SnapshotString (applyRow k v s) l = SnapshotString s l"
proof (cases "k \<in> set setting_keys")
  case True
  then show "k \<noteq> l \<Longrightarrow> SnapshotString (applyRow k v s) l = SnapshotString s l"
    using key_cases [OF True] by (elim disjE) (simp_all add: applyRow_def SnapshotString_def parsed_def split: option.split)
next
  case False
  then have "applyRow k v s = s" by (simp add: setting_keys_eval applyRow_def)
  then show ?thesis by simp
qed

lemma snapshot_eqI:
  assumes "\<And>k. k \<in> set setting_keys \<Longrightarrow> SnapshotString s k = SnapshotString t k"
  shows "s = (t :: Snapshot)"
proof -
  have b: "FormatBool x = FormatBool y \<Longrightarrow> x = y" for x y by (simp add: FormatBool_def split: if_splits)
  have "SignupsEnabled s = SignupsEnabled t" using assms [of KeySignupsEnabled] by (simp add: setting_keys_eval SnapshotString_def b)
  moreover
  have "SignupsDisabledMessage s = SignupsDisabledMessage t" using assms [of KeySignupsDisabledMessage] by (simp add: setting_keys_eval SnapshotString_def)
  moreover
  have "MOTD s = MOTD t" using assms [of KeyMOTD] by (simp add: setting_keys_eval SnapshotString_def)
  moreover
  have "WallEnabled s = WallEnabled t" using assms [of KeyWallEnabled] by (simp add: setting_keys_eval SnapshotString_def b)
  moreover
  have "MaxTotalSessions s = MaxTotalSessions t" using assms [of KeyMaxTotalSessions] by (simp add: setting_keys_eval SnapshotString_def Itoa_inject)
  moreover
  have "MaxConnPerIP s = MaxConnPerIP t" using assms [of KeyMaxConnPerIP] by (simp add: setting_keys_eval SnapshotString_def Itoa_inject)
  moreover
  have "MaxUnauthHandshakes s = MaxUnauthHandshakes t" using assms [of KeyMaxUnauthHandshakes] by (simp add: setting_keys_eval SnapshotString_def Itoa_inject)
  moreover
  have "LockoutHandleThreshold s = LockoutHandleThreshold t" using assms [of KeyLockoutHandleThreshold] by (simp add: setting_keys_eval SnapshotString_def Itoa_inject)
  moreover
  have "LockoutIPThreshold s = LockoutIPThreshold t" using assms [of KeyLockoutIPThreshold] by (simp add: setting_keys_eval SnapshotString_def Itoa_inject)
  moreover
  have "LockoutWindowSeconds s = LockoutWindowSeconds t" using assms [of KeyLockoutWindowSeconds] by (simp add: setting_keys_eval SnapshotString_def Itoa_inject)
  moreover
  have "CarbonylEnabled s = CarbonylEnabled t" using assms [of KeyCarbonylEnabled] by (simp add: setting_keys_eval SnapshotString_def b)
  moreover
  have "CarbonylMaxGlobal s = CarbonylMaxGlobal t" using assms [of KeyCarbonylMaxGlobal] by (simp add: setting_keys_eval SnapshotString_def Itoa_inject)
  moreover
  have "CarbonylMaxPerIP s = CarbonylMaxPerIP t" using assms [of KeyCarbonylMaxPerIP] by (simp add: setting_keys_eval SnapshotString_def Itoa_inject)
  moreover
  have "CarbonylMaxPerHandle s = CarbonylMaxPerHandle t" using assms [of KeyCarbonylMaxPerHandle] by (simp add: setting_keys_eval SnapshotString_def Itoa_inject)
  ultimately show ?thesis by simp
qed

section \<open>Rows and snapshots\<close>

definition rows_ok :: "setting_row list \<Rightarrow> bool" where
  "rows_ok rows \<longleftrightarrow> distinct (map fst rows)
     \<and> (\<forall>(k, v, t, a) \<in> set rows. k \<in> set setting_keys \<and> t = type_of_key k \<and> validate t v)"

text \<open>The value of a key that the rows give, and what is shown for it.\<close>

definition row_value :: "setting_row list \<Rightarrow> string \<Rightarrow> string option" where
  "row_value rows k = map_option fst (map_of rows k)"

lemma row_value_Cons: "row_value ((k, v, r) # rows) l = (if l = k then Some v else row_value rows l)"
  by (simp add: row_value_def)

lemma row_value_absent: "k \<notin> fst ` set rows \<Longrightarrow> row_value rows k = None"
  by (simp add: row_value_def map_of_eq_None_iff)

lemma shown_from_rows:
  assumes "distinct (map fst rows)" "k \<in> set setting_keys"
  shows "SnapshotString (snapshotFromRows d rows) k =
    (case row_value rows k of
       None \<Rightarrow> SnapshotString d k
     | Some v \<Rightarrow> if validate (type_of_key k) v then canonical (type_of_key k) v else SnapshotString d k)"
  using assms(1)
proof (induction rows arbitrary: d)
  case Nil
  then show ?case by (simp add: snapshotFromRows_def row_value_def)
next
  case (Cons r rows)
  obtain l v q where r: "r = (l, v, q)" by (cases r)
  have step: "snapshotFromRows d (r # rows) = snapshotFromRows (applyRow l v d) rows"
    by (cases q) (simp add: snapshotFromRows_def r)
  have IH: "SnapshotString (snapshotFromRows (applyRow l v d) rows) k =
      (case row_value rows k of None \<Rightarrow> SnapshotString (applyRow l v d) k
       | Some v' \<Rightarrow> if validate (type_of_key k) v' then canonical (type_of_key k) v' else SnapshotString (applyRow l v d) k)"
    using Cons by simp
  show ?case
  proof (cases "l = k")
    case True
    with Cons.prems r have "row_value rows k = None" by (auto intro: row_value_absent)
    with True show ?thesis
      using IH apply_own [OF assms(2)] apply_invalid [OF assms(2)] unfolding step by (simp add: r row_value_Cons)
  next
    case False
    then show ?thesis using IH apply_other [OF False] unfolding step by (simp add: r row_value_Cons split: option.splits)
  qed
qed

lemma upsert_row_set: "q \<in> set (upsert_row r rows) \<Longrightarrow> q = r \<or> q \<in> set rows"
  by (auto simp: upsert_row_def split: if_splits)

lemma upsert_distinct: "distinct (map fst rows) \<Longrightarrow> distinct (map fst (upsert_row r rows))"
proof -
  have "map fst (map (\<lambda>q. if fst q = fst r then r else q) rows) = map fst rows" by (induction rows) auto
  then show "distinct (map fst rows) \<Longrightarrow> distinct (map fst (upsert_row r rows))" by (simp add: upsert_row_def del: map_map)
qed

lemma upsert_value: "row_value (upsert_row (k, v, q) rows) l = (if l = k then Some v else row_value rows l)"
proof -
  have "row_value (map (\<lambda>r. if fst r = k then (k, v, q) else r) rows) l =
      (if l = k \<and> k \<in> fst ` set rows then Some v else row_value rows l)"
  proof (induction rows)
    case (Cons r rows)
    then show ?case by (cases r; cases "fst r = k") (force simp: row_value_Cons)+
  qed (simp add: row_value_def)
  moreover have "row_value (rows @ [(k, v, q)]) l = (if l = k then Some v else row_value rows l)" if "k \<notin> fst ` set rows"
    using that by (induction rows) (auto simp: row_value_def)
  ultimately show ?thesis unfolding upsert_row_def fst_conv by (cases "k \<in> fst ` set rows") simp_all
qed

lemma upsert_ok:
  assumes "rows_ok rows" "k \<in> set setting_keys" "validate (type_of_key k) v"
  shows "rows_ok (upsert_row (k, v, type_of_key k, a) rows)"
  unfolding rows_ok_def
proof
  show "distinct (map fst (upsert_row (k, v, type_of_key k, a) rows))" using assms(1) upsert_distinct by (simp add: rows_ok_def)
  show "\<forall>(k, v, t, a) \<in> set (upsert_row (k, v, type_of_key k, a) rows). k \<in> set setting_keys \<and> t = type_of_key k \<and> validate t v"
    using upsert_row_set [of _ "(k, v, type_of_key k, a)" rows] assms by (fastforce simp: rows_ok_def)
qed

lemma delete_ok: "rows_ok rows \<Longrightarrow> rows_ok (filter (\<lambda>r. fst r \<noteq> k) rows)"
  by (auto simp: rows_ok_def distinct_map_filter)

lemma delete_value: "row_value (filter (\<lambda>r. fst r \<noteq> k) rows) l = (if l = k then None else row_value rows l)"
  by (induction rows) (auto simp: row_value_def)

section \<open>Printing and parsing\<close>

definition in_range :: "Snapshot \<Rightarrow> bool" where
  "in_range s \<longleftrightarrow> list_all (\<lambda>n. - (2 ^ 63) \<le> n \<and> n < 2 ^ 63)
     [MaxTotalSessions s, MaxConnPerIP s, MaxUnauthHandshakes s, LockoutHandleThreshold s, LockoutIPThreshold s, LockoutWindowSeconds s, CarbonylMaxGlobal s, CarbonylMaxPerIP s, CarbonylMaxPerHandle s]"

lemma shown_valid:
  assumes "in_range s" "k \<in> set setting_keys"
  shows "validate (type_of_key k) (SnapshotString s k)"
    "canonical (type_of_key k) (SnapshotString s k) = SnapshotString s k"
proof -
  have r: "ParseInt (Itoa n) = Some n" if "n \<in> set [MaxTotalSessions s, MaxConnPerIP s, MaxUnauthHandshakes s, LockoutHandleThreshold s, LockoutIPThreshold s, LockoutWindowSeconds s, CarbonylMaxGlobal s, CarbonylMaxPerIP s, CarbonylMaxPerHandle s]" for n
    using that assms(1) by (intro ParseInt_Itoa) (auto simp: in_range_def)
  show "validate (type_of_key k) (SnapshotString s k)"
    using key_cases [OF assms(2)] by (elim disjE) (simp_all add: type_of_key_eval validate_def SnapshotString_def r)
  show "canonical (type_of_key k) (SnapshotString s k) = SnapshotString s k"
    using key_cases [OF assms(2)] by (elim disjE) (simp_all add: type_of_key_eval canonical_def SnapshotString_def r)
qed

definition rows_of :: "Snapshot \<Rightarrow> setting_row list" where
  "rows_of s = map (\<lambda>k. (k, SnapshotString s k, type_of_key k, None)) setting_keys"

lemma row_value_of: "k \<in> set setting_keys \<Longrightarrow> row_value (rows_of s) k = Some (SnapshotString s k)"
proof -
  have "k \<in> set ks \<Longrightarrow> row_value (map (\<lambda>k. (k, SnapshotString s k, type_of_key k, None)) ks) k = Some (SnapshotString s k)" for ks
    by (induction ks) (auto simp: row_value_def)
  then show "k \<in> set setting_keys \<Longrightarrow> row_value (rows_of s) k = Some (SnapshotString s k)" by (simp add: rows_of_def)
qed

text \<open>
  Printing and parsing are inverse: the texts shown for a snapshot are accepted for its keys,
  and a table that holds them gives back the snapshot, whatever the defaults.
\<close>

theorem settings_roundtrip:
  assumes "in_range s"
  shows "rows_ok (rows_of s) \<and> snapshotFromRows d (rows_of s) = s"
proof
  show ok: "rows_ok (rows_of s)"
    using shown_valid(1) [OF assms] distinct_keys by (auto simp: rows_ok_def rows_of_def comp_def)
  show "snapshotFromRows d (rows_of s) = s"
  proof (rule snapshot_eqI)
    fix k assume k: "k \<in> set setting_keys"
    have "distinct (map fst (rows_of s))" using ok by (simp add: rows_ok_def)
    from shown_from_rows [OF this k, of d]
    show "SnapshotString (snapshotFromRows d (rows_of s)) k = SnapshotString s k"
      using shown_valid [OF assms k] row_value_of [OF k, of s] by simp
  qed
qed

section \<open>Writing a setting\<close>

definition db_up :: "settings_world \<Rightarrow> bool" where
  "db_up w \<longleftrightarrow> (\<forall>n. \<not> dbFails w n)"

lemma refresh_up: "db_up w \<Longrightarrow> refresh d i w = (True, store_rows d i (table w) (w\<lparr>calls := Suc (calls w)\<rparr>))"
  by (simp add: refresh_def ListSystemSettings_def attempt_def db_up_def)

lemma store_rows_simps [simp]:
  "table (store_rows d i rows w) = table w" "inbox (store_rows d i rows w) = inbox w"
  "dbFails (store_rows d i rows w) = dbFails w" "db_up (store_rows d i rows w) = db_up w"
  "current (caches (store_rows d i rows w) j) = (if j = i then snapshotFromRows d rows else current (caches w j))"
  by (simp_all add: store_rows_def fireOnChange_def db_up_def)

lemma publish_simps [simp]:
  "table (publish sent key w) = table w" "caches (publish sent key w) = caches w" "db_up (publish sent key w) = db_up w"
  by (simp_all add: publish_def db_up_def)

lemma Set_up:
  assumes "db_up w" "lookupDef key = Some def" "validate (defType def) v"
  shows "Set d sent i key v actor w = (None, publish sent key (store_rows d i (upsert_row (key, v, defType def, actor) (table w))
    (w\<lparr>table := upsert_row (key, v, defType def, actor) (table w), calls := Suc (Suc (calls w))\<rparr>)))"
proof -
  have "db_up (w\<lparr>calls := Suc (calls w), table := upsert_row (key, v, defType def, actor) (table w)\<rparr>)"
    using assms(1) by (simp add: db_up_def)
  from refresh_up [OF this] assms show ?thesis
    by (simp add: Set_def UpsertSystemSetting_def attempt_def) (simp add: db_up_def)
qed

lemma known_key: "k \<in> set setting_keys \<Longrightarrow> \<exists>def. lookupDef k = Some def \<and> defType def = type_of_key k"
  by (auto simp: type_of_key_def lookupDef_def setting_keys_def find_None_iff split: option.split)

text \<open>
  With the database up, a write of an unknown key or of a value that is not of the key's type is
  refused and changes nothing.  Any other write succeeds: the writing replica then shows the
  value in its canonical form and every other setting as the table has it.
\<close>

theorem set_setting:
  assumes "db_up w" and "distinct (map fst (table w))" and "Set d sent i key v actor w = (r, w')"
  shows "(r = Some UnknownKey \<longleftrightarrow> key \<notin> set setting_keys)
    \<and> (r = Some BadValue \<longleftrightarrow> key \<in> set setting_keys \<and> \<not> validate (type_of_key key) v)
    \<and> (r \<noteq> None \<longrightarrow> w' = w)
    \<and> (r = None \<longrightarrow>
          SnapshotString (current (caches w' i)) key = canonical (type_of_key key) v
        \<and> (\<forall>l \<in> set setting_keys. l \<noteq> key \<longrightarrow>
              SnapshotString (current (caches w' i)) l = SnapshotString (snapshotFromRows d (table w)) l))"
proof (cases "lookupDef key")
  case None
  then have "key \<notin> set setting_keys" using known_key by fastforce
  with None assms(3) show ?thesis by (auto simp: Set_def)
next
  case (Some def)
  then have k: "key \<in> set setting_keys" "defType def = type_of_key key" using lookupDef_key by (auto simp: type_of_key_def)
  show ?thesis
  proof (cases "validate (type_of_key key) v")
    case False
    with Some k assms(3) show ?thesis by (auto simp: Set_def)
  next
    case True
    let ?rows = "upsert_row (key, v, type_of_key key, actor) (table w)"
    have w': "r = None" "current (caches w' i) = snapshotFromRows d ?rows"
      using assms(3) Set_up [OF assms(1) Some] True k by auto
    have dist: "distinct (map fst ?rows)" using upsert_distinct [OF assms(2)] .
    have "SnapshotString (current (caches w' i)) key = canonical (type_of_key key) v"
      using shown_from_rows [OF dist k(1), of d] True by (simp add: w' upsert_value)
    moreover have "SnapshotString (current (caches w' i)) l = SnapshotString (snapshotFromRows d (table w)) l"
      if "l \<in> set setting_keys" "l \<noteq> key" for l
      using shown_from_rows [OF dist that(1), of d] shown_from_rows [OF assms(2) that(1), of d] that(2)
      by (simp add: w' upsert_value)
    ultimately show ?thesis using w'(1) k True by auto
  qed
qed

section \<open>Replicas\<close>

datatype setting_op =
    SetOp bool nat string string "int option"
  | ResetOp bool nat string
  | TickOp nat
  | ListenOp nat
  | OnChangeOp nat

fun setting_apply :: "Snapshot \<Rightarrow> setting_op \<Rightarrow> settings_world \<Rightarrow> settings_world" where
  "setting_apply d (SetOp sent i key v actor) w = snd (Set d sent i key v actor w)"
| "setting_apply d (ResetOp sent i key) w = snd (Reset d sent i key w)"
| "setting_apply d (TickOp i) w = settings_tick d i w"
| "setting_apply d (ListenOp i) w = listenInvalidations d i w"
| "setting_apply d (OnChangeOp i) w = w\<lparr>caches := (caches w)(i := OnChange (caches w i))\<rparr>"

fun loses_message :: "setting_op \<Rightarrow> bool" where
  "loses_message (SetOp sent i key v actor) = (\<not> sent)"
| "loses_message (ResetOp sent i key) = (\<not> sent)"
| "loses_message op = False"

text \<open>What a listener was last called with.\<close>

definition told :: "settings_cache \<Rightarrow> nat \<Rightarrow> Snapshot option" where
  "told c n = map_of (rev (delivered c)) n"

definition in_sync :: "settings_cache \<Rightarrow> bool" where
  "in_sync c \<longleftrightarrow> (\<forall>n < listeners c. told c n = Some (current c))"

lemma in_sync_new: "in_sync (NewCache d)"
  by (simp add: in_sync_def NewCache_def)

lemma told_append: "told (c\<lparr>delivered := delivered c @ xs\<rparr>) n = (case map_of (rev xs) n of None \<Rightarrow> told c n | Some s \<Rightarrow> Some s)"
  by (auto simp: told_def map_add_def split: option.split)

lemma in_sync_fire: "in_sync (fireOnChange c)"
proof -
  have "map_of (rev (map (\<lambda>i. (i, s)) [0..<m])) n = Some s" if "n < m" for n m :: nat and s :: Snapshot
    using that by (induction m) (auto simp: less_Suc_eq)
  then show ?thesis by (simp add: in_sync_def fireOnChange_def told_append)
qed

lemma in_sync_OnChange: "in_sync c \<Longrightarrow> in_sync (OnChange c)"
  by (auto simp: in_sync_def OnChange_def told_def less_Suc_eq)

definition settled :: "Snapshot \<Rightarrow> settings_world \<Rightarrow> bool" where
  "settled d w \<longleftrightarrow> db_up w \<and> rows_ok (table w)
     \<and> (\<forall>i. in_sync (caches w i) \<and> (inbox w i = [] \<longrightarrow> current (caches w i) = snapshotFromRows d (table w)))"

lemma in_sync_store: "in_sync (caches (store_rows d i rows w) j) = (j = i \<or> in_sync (caches w j))"
  by (simp add: store_rows_def in_sync_fire)

lemma Reset_up:
  assumes "db_up w" "lookupDef key = Some def"
  shows "snd (Reset d sent i key w) = publish sent key (store_rows d i (filter (\<lambda>r. fst r \<noteq> key) (table w))
    (w\<lparr>table := filter (\<lambda>r. fst r \<noteq> key) (table w), calls := Suc (Suc (calls w))\<rparr>))"
proof -
  have "db_up (w\<lparr>calls := Suc (calls w), table := filter (\<lambda>r. fst r \<noteq> key) (table w)\<rparr>)"
    using assms(1) by (simp add: db_up_def)
  from refresh_up [OF this] assms show ?thesis
    by (simp add: Reset_def DeleteSystemSetting_def attempt_def) (simp add: db_up_def)
qed

lemma settled_step:
  assumes "settled d w" "\<not> loses_message op"
  shows "settled d (setting_apply d op w)"
proof (cases op)
  case (SetOp sent i key v actor)
  show ?thesis
  proof (cases "lookupDef key")
    case None
    then show ?thesis using assms(1) by (simp add: SetOp Set_def)
  next
    case (Some def)
    then have k: "key \<in> set setting_keys" "defType def = type_of_key key" using lookupDef_key by (auto simp: type_of_key_def)
    show ?thesis
    proof (cases "validate (defType def) v")
      case True
      then show ?thesis
        using assms k upsert_ok [of "table w" key v actor] Set_up [OF _ Some True, of w d sent i actor]
        by (auto simp: settled_def SetOp in_sync_store publish_def db_up_def)
    qed (use assms(1) Some in \<open>simp add: SetOp Set_def\<close>)
  qed
next
  case (ResetOp sent i key)
  show ?thesis
  proof (cases "lookupDef key")
    case None
    then show ?thesis using assms(1) by (simp add: ResetOp Reset_def)
  next
    case (Some def)
    then show ?thesis
      using assms delete_ok Reset_up [OF _ Some, of w d sent i]
      by (auto simp: settled_def ResetOp in_sync_store publish_def db_up_def)
  qed
next
  case (TickOp i)
  then show ?thesis using assms(1) by (auto simp: settled_def settings_tick_def refresh_up in_sync_store) (auto simp: db_up_def)
next
  case (ListenOp i)
  show ?thesis
  proof (cases "inbox w i")
    case (Cons m ms)
    have "db_up (w\<lparr>inbox := (inbox w)(i := ms)\<rparr>)" using assms(1) by (simp add: settled_def db_up_def)
    from refresh_up [OF this] show ?thesis
      using assms(1) Cons by (auto simp: settled_def ListenOp listenInvalidations_def in_sync_store) (auto simp: db_up_def)
  qed (use assms(1) in \<open>simp add: ListenOp listenInvalidations_def\<close>)
next
  case (OnChangeOp i)
  then show ?thesis using assms(1) by (auto simp: settled_def in_sync_OnChange) (auto simp: db_up_def OnChange_def)
qed


text \<open>
  But reading the table and storing the snapshot are two moments.  A refresh that has read the
  table before a write and stores after it, and after the message of the write was handled,
  puts the old value back; no message is left that would repair it, only the next tick does.
\<close>

theorem stale_refresh_reverts_setting:
  assumes "settled d w" and "inbox w i = []" and "key \<in> set setting_keys" and "validate (type_of_key key) v"
    and "canonical (type_of_key key) v \<noteq> SnapshotString (current (caches w i)) key"
    and "w1 = listenInvalidations d i (snd (Set d True i key v actor w))"
    and "w2 = store_rows d i (table w) w1"
  shows "SnapshotString (current (caches w1 i)) key = canonical (type_of_key key) v
    \<and> current (caches w2 i) = current (caches w i) \<and> inbox w2 i = []
    \<and> current (caches w2 i) \<noteq> snapshotFromRows d (table w2)
    \<and> current (caches (settings_tick d i w2) i) = snapshotFromRows d (table w2)"
proof -
  obtain def where def_: "lookupDef key = Some def" "defType def = type_of_key key" using known_key [OF assms(3)] by blast
  let ?rows = "upsert_row (key, v, type_of_key key, actor) (table w)"
  have up: "db_up w" and dist: "distinct (map fst (table w))" and now: "current (caches w i) = snapshotFromRows d (table w)"
    using assms(1,2) by (auto simp: settled_def rows_ok_def)
  let ?s = "publish True key (store_rows d i ?rows (w\<lparr>table := ?rows, calls := Suc (Suc (calls w))\<rparr>))"
  have s: "snd (Set d True i key v actor w) = ?s" using Set_up [OF up def_(1)] def_(2) assms(4) by simp
  have "inbox ?s i = [key]" using assms(2) by (simp add: publish_def)
  moreover have "db_up (?s\<lparr>inbox := (inbox ?s)(i := [])\<rparr>)" using up by (simp add: db_up_def publish_def store_rows_def)
  ultimately have w1: "w1 = store_rows d i ?rows (?s\<lparr>inbox := (inbox ?s)(i := []), calls := Suc (calls ?s)\<rparr>)"
    using assms(6) by (simp add: s listenInvalidations_def refresh_up)
  have new: "SnapshotString (snapshotFromRows d ?rows) key = canonical (type_of_key key) v"
    using shown_from_rows [OF upsert_distinct [OF dist] assms(3), of d] assms(4) by (simp add: upsert_value)
  have t: "table w1 = ?rows" "inbox w1 i = []" "db_up w1" "current (caches w1 i) = snapshotFromRows d ?rows"
    using up by (simp_all add: w1) (simp add: db_up_def publish_def store_rows_def)
  then have "current (caches w2 i) = current (caches w i)" "inbox w2 i = []" "table w2 = ?rows" "db_up w2"
    by (simp_all add: assms(7) now)
  moreover have "current (caches w i) \<noteq> snapshotFromRows d ?rows" using new assms(5) by metis
  ultimately show ?thesis using new t by (simp add: settings_tick_def refresh_up)
qed

section \<open>Witnesses\<close>

definition demo_defaults :: Snapshot where
  "demo_defaults = \<lparr>SignupsEnabled = True, SignupsDisabledMessage = ''hi'', MOTD = ''hi'', WallEnabled = True, MaxTotalSessions = 5, MaxConnPerIP = 5, MaxUnauthHandshakes = 5, LockoutHandleThreshold = 5, LockoutIPThreshold = 5, LockoutWindowSeconds = 5, CarbonylEnabled = True, CarbonylMaxGlobal = 5, CarbonylMaxPerIP = 5, CarbonylMaxPerHandle = 5\<rparr>"

definition demo_settings :: settings_world where
  "demo_settings = \<lparr>table = [], caches = \<lambda>_. NewCache demo_defaults, inbox = \<lambda>_. [], dbFails = \<lambda>_. False, calls = 0\<rparr>"

lemma demo_settled: "settled demo_defaults demo_settings" "inbox demo_settings 0 = []" "db_up demo_settings"
  "distinct (map fst (table demo_settings))"
  by (simp_all add: settled_def demo_settings_def db_up_def rows_ok_def in_sync_new) (simp_all add: NewCache_def)

lemma demo_valid: "validate (type_of_key KeyMOTD) ''news''" "canonical (type_of_key KeyMOTD) ''news'' = ''news''"
  "KeyMOTD \<in> set setting_keys"
  by (simp_all add: type_of_key_eval validate_def canonical_def setting_keys_eval)

lemma demo_shown: "SnapshotString (current (caches demo_settings 0)) KeyMOTD = ''hi''"
  by (simp add: demo_settings_def NewCache_def snapshotFromRows_def SnapshotString_def demo_defaults_def)

lemma settings_roundtrip_witness:
  "rows_ok (rows_of demo_defaults) \<and> snapshotFromRows (demo_defaults\<lparr>MaxConnPerIP := 0\<rparr>) (rows_of demo_defaults) = demo_defaults"
  by (rule settings_roundtrip) (simp add: in_range_def demo_defaults_def)

lemma set_setting_witness:
  "\<exists>w'. Set demo_defaults True 0 KeyMOTD ''news'' None demo_settings = (None, w')
     \<and> SnapshotString (current (caches w' 0)) KeyMOTD = ''news''"
proof (cases "Set demo_defaults True 0 KeyMOTD ''news'' None demo_settings")
  case (Pair r w')
  obtain def where k: "lookupDef KeyMOTD = Some def" "defType def = type_of_key KeyMOTD"
    using known_key [OF demo_valid(3)] by blast
  then have "r = None" using Pair Set_up [OF demo_settled(3) k(1)] demo_valid(1) by simp
  with set_setting [OF demo_settled(3,4) Pair] Pair demo_valid(2) show ?thesis by simp
qed


lemma stale_refresh_reverts_setting_witness:
  "\<exists>w2 :: settings_world. inbox w2 0 = [] \<and> current (caches w2 0) = current (caches demo_settings 0)
     \<and> current (caches w2 0) \<noteq> snapshotFromRows demo_defaults (table w2)"
proof -
  have "canonical (type_of_key KeyMOTD) ''news'' \<noteq> SnapshotString (current (caches demo_settings 0)) KeyMOTD"
    by (simp only: demo_valid(2) demo_shown) simp
  moreover obtain w1 w2 where "w1 = listenInvalidations demo_defaults 0 (snd (Set demo_defaults True 0 KeyMOTD ''news'' None demo_settings))"
    "w2 = store_rows demo_defaults 0 (table demo_settings) w1" by blast
  ultimately show ?thesis using stale_refresh_reverts_setting [OF demo_settled(1,2) demo_valid(3,1)] by blast
qed

end
