(* ===== verification/Registration.thy ===== *)
theory Registration
  imports AuthLookup Settings
begin

text \<open>
  How accounts come to be: the registration form (\<^verbatim>\<open>src/internal/auth/register.go\<close>) and the sysop
  account of the environment (\<^verbatim>\<open>src/internal/auth/sysop.go\<close>).  Both write in one transaction.  The
  state holds the tables, the sequences (which a rollback does not restore) and an oracle that says
  which statement fails.  The salt of a new hash is an argument, \<open>None\<close> when it cannot be drawn;
  a result is \<open>None\<close> for a panic of the key derivation.
\<close>

section \<open>Tables and transactions\<close>

record reg_state =
  rDB :: auth_db
  rAudit :: "(string \<times> int) list" \<comment> \<open>action and target user\<close>
  rNextUser :: int
  rNextCred :: int
  rFails :: "nat \<Rightarrow> bool"
  rCalls :: nat

definition step :: "reg_state \<Rightarrow> bool \<times> reg_state" where
  "step st = (\<not> rFails st (rCalls st), st\<lparr>rCalls := Suc (rCalls st)\<rparr>)"

text \<open>The state after a rollback to \<open>st0\<close>: the sequences and the calls go on.\<close>

definition Rollback :: "reg_state \<Rightarrow> reg_state \<Rightarrow> reg_state" where
  "Rollback st0 st = st\<lparr>rDB := rDB st0, rAudit := rAudit st0\<rparr>"

datatype insert_error = UniqueHandle | UniqueCredential | OtherError

definition insert_user ::
  "(string \<Rightarrow> string) \<Rightarrow> string \<Rightarrow> bool \<Rightarrow> string \<Rightarrow> string option \<Rightarrow> reg_state \<Rightarrow> (insert_error + int) \<times> reg_state" where
  "insert_user u h sysop hash algo st =
     (case step st of (okay, st1) \<Rightarrow>
        if \<not> okay then (Inl OtherError, st1)
        else (let i = rNextUser st1; st2 = st1\<lparr>rNextUser := i + 1\<rparr> in
          if list_ex (\<lambda>x. ToLower u (uHandle x) = ToLower u h) (users (rDB st2)) then (Inl UniqueHandle, st2)
          else (Inr i, st2\<lparr>rDB := (rDB st2)\<lparr>users := users (rDB st2) @
                 [\<lparr>uID = i, uHandle = h, uSysop = sysop, uBanned = False, uHash = hash, uAlgo = algo,
                   uRequireKey = False\<rparr>]\<rparr>\<rparr>)))"

definition insert_credential :: "int \<Rightarrow> string \<Rightarrow> reg_state \<Rightarrow> insert_error option \<times> reg_state" where
  "insert_credential usr sub st =
     (case step st of (okay, st1) \<Rightarrow>
        if \<not> okay \<or> 255 < length sub then (Some OtherError, st1)
        else (let i = rNextCred st1; st2 = st1\<lparr>rNextCred := i + 1\<rparr> in
          if list_ex (\<lambda>x. cProvider x = CredentialProviderSSH \<and> cSubject x = sub) (credentials (rDB st2))
          then (Some UniqueCredential, st2)
          else (None, st2\<lparr>rDB := (rDB st2)\<lparr>credentials := credentials (rDB st2) @
                 [\<lparr>cID = i, cUser = usr, cProvider = CredentialProviderSSH, cSubject = sub\<rparr>]\<rparr>\<rparr>)))"

definition insertAuditLog :: "string \<Rightarrow> int \<Rightarrow> reg_state \<Rightarrow> bool \<times> reg_state" where
  "insertAuditLog action target st =
     (case step st of (okay, st1) \<Rightarrow> (okay, if okay then st1\<lparr>rAudit := rAudit st1 @ [(action, target)]\<rparr> else st1))"

text \<open>An update of the rows of \<open>users\<close> with an id.\<close>

definition update_user :: "int \<Rightarrow> (user \<Rightarrow> user) \<Rightarrow> reg_state \<Rightarrow> bool \<times> reg_state" where
  "update_user i f st =
     (case step st of (okay, st1) \<Rightarrow>
        (okay, if okay then st1\<lparr>rDB := (rDB st1)\<lparr>users := map (\<lambda>x. if uID x = i then f x else x) (users (rDB st1))\<rparr>\<rparr>
               else st1))"

section \<open>Registration\<close>

datatype RegistrationErrKind =
    HandleInvalid | PasswordTooShort | HandleTaken | KeyAlreadyUsed | SignupsDisabled | RegInternal

record RegisterInput =
  inHandle :: string
  inPassword :: string
  AdoptKey :: bool
  OfferedFingerprint :: string
  OfferedAlgorithm :: string
  OfferedBlob :: string

record RegisterDeps =
  dKdf :: kdf
  dParams :: Argon2Params
  BootstrapSysopHandle :: string
  MinPasswordLength :: int
  dSettings :: "Snapshot option"

definition handle_char :: "char \<Rightarrow> bool" where
  "handle_char c \<longleftrightarrow>
     97 \<le> code c \<and> code c \<le> 122 \<or> 65 \<le> code c \<and> code c \<le> 90 \<or> 48 \<le> code c \<and> code c \<le> 57
     \<or> c = CHR ''_'' \<or> c = CHR ''-''"

definition IsValidHandle :: "string \<Rightarrow> bool" where
  "IsValidHandle h \<longleftrightarrow> \<not> (length h < 3 \<or> length h > 32) \<and> list_all handle_char h"

definition classifyInsertError :: "insert_error \<Rightarrow> RegistrationErrKind" where
  "classifyInsertError e =
     (case e of UniqueHandle \<Rightarrow> HandleTaken | UniqueCredential \<Rightarrow> KeyAlreadyUsed | OtherError \<Rightarrow> RegInternal)"

text \<open>The pointer to the algorithm: nil for the empty text.\<close>

definition algo_ptr :: "string \<Rightarrow> string option" where
  "algo_ptr a = (if a = [] then None else Some a)"

definition register_tx ::
  "(string \<Rightarrow> string) \<Rightarrow> string \<Rightarrow> bool \<Rightarrow> string option \<Rightarrow> string \<times> string \<Rightarrow> reg_state
   \<Rightarrow> (RegistrationErrKind + Decision) \<times> reg_state" where
  "register_tx u h promote adopt hash st =
     (case step st of (begun, st0) \<Rightarrow>
        if \<not> begun then (Inl RegInternal, st0)
        else case insert_user u h promote (fst hash) (algo_ptr (snd hash)) st0 of
          (Inl e, st1) \<Rightarrow> (Inl (classifyInsertError e), Rollback st0 st1)
        | (Inr i, st1) \<Rightarrow>
            (case (case adopt of None \<Rightarrow> (None, st1) | Some fp \<Rightarrow> insert_credential i fp st1) of
               (Some e, st2) \<Rightarrow> (Inl (classifyInsertError e), Rollback st0 st2)
             | (None, st2) \<Rightarrow>
                 (case insertAuditLog ''user.registered'' i st2 of (okay, st3) \<Rightarrow>
                    if \<not> okay then (Inl RegInternal, Rollback st0 st3)
                    else (case step st3 of (committed, st4) \<Rightarrow>
                      if \<not> committed then (Inl RegInternal, Rollback st0 st4)
                      else (Inr (Known i h promote no_offer), st4)))))"

definition CreateAccount ::
  "(string \<Rightarrow> string) \<Rightarrow> (string \<Rightarrow> string \<Rightarrow> bool) \<Rightarrow> RegisterDeps \<Rightarrow> string option \<Rightarrow> RegisterInput \<Rightarrow> reg_state
   \<Rightarrow> (RegistrationErrKind + Decision) option \<times> reg_state" where
  "CreateAccount u ef D salt inp st =
     (if (case dSettings D of None \<Rightarrow> False | Some s \<Rightarrow> \<not> SignupsEnabled s) then (Some (Inl SignupsDisabled), st)
      else let h = TrimSpace (inHandle inp) in
        if \<not> IsValidHandle h then (Some (Inl HandleInvalid), st)
        else let minLen = (if MinPasswordLength D \<le> 0 then 8 else MinPasswordLength D) in
          if int (length (inPassword inp)) < minLen then (Some (Inl PasswordTooShort), st)
          else case salt of
            None \<Rightarrow> (Some (Inl RegInternal), st)
          | Some s \<Rightarrow>
              (case Hash (dKdf D) (dParams D) s (inPassword inp) of
                 None \<Rightarrow> (None, st)
               | Some hash \<Rightarrow>
                   (let promote = (BootstrapSysopHandle D \<noteq> [] \<and> EqualFold ef (BootstrapSysopHandle D) h);
                        adopt = (if AdoptKey inp \<and> OfferedFingerprint inp \<noteq> [] \<and> OfferedBlob inp \<noteq> []
                                 then Some (OfferedFingerprint inp) else None) in
                    case register_tx u h promote adopt hash st of (r, st') \<Rightarrow> (Some r, st'))))"

section \<open>The sysop of the environment\<close>

datatype boot_error = BootSql | BootHash

definition bootstrap_new ::
  "(string \<Rightarrow> string) \<Rightarrow> RegisterDeps \<Rightarrow> string option \<Rightarrow> string \<Rightarrow> string \<Rightarrow> reg_state \<Rightarrow> reg_state
   \<Rightarrow> boot_error option option \<times> reg_state" where
  "bootstrap_new u D salt h pw st0 st =
     (case salt of
        None \<Rightarrow> (Some (Some BootHash), Rollback st0 st)
      | Some s \<Rightarrow>
          (case Hash (dKdf D) (dParams D) s pw of
             None \<Rightarrow> (None, Rollback st0 st)
           | Some hash \<Rightarrow>
               (case insert_user u h True (fst hash) (algo_ptr (snd hash)) st of
                  (Inl e, st1) \<Rightarrow> (Some (Some BootSql), Rollback st0 st1)
                | (Inr i, st1) \<Rightarrow>
                    (case insertAuditLog ''sysop.bootstrap_seeded'' i st1 of (okay, st2) \<Rightarrow>
                       if \<not> okay then (Some (Some BootSql), Rollback st0 st2)
                       else (case step st2 of (committed, st3) \<Rightarrow>
                         if committed then (Some None, st3) else (Some (Some BootSql), Rollback st0 st3))))))"

text \<open>One of the two changes to an existing account with its audit row; whether both went through.\<close>

definition change_user :: "int \<Rightarrow> (user \<Rightarrow> user) \<Rightarrow> string \<Rightarrow> reg_state \<Rightarrow> bool \<times> reg_state" where
  "change_user i f action st =
     (case update_user i f st of (okay, st1) \<Rightarrow> if \<not> okay then (False, st1) else insertAuditLog action i st1)"

definition seed_password ::
  "RegisterDeps \<Rightarrow> string option \<Rightarrow> user \<Rightarrow> string \<Rightarrow> reg_state \<Rightarrow> boot_error option option \<times> reg_state" where
  "seed_password D salt x pw st =
     (if pw = [] \<or> uHash x \<noteq> [] then (Some None, st)
      else case salt of
        None \<Rightarrow> (Some (Some BootHash), st)
      | Some s \<Rightarrow>
          (case Hash (dKdf D) (dParams D) s pw of
             None \<Rightarrow> (None, st)
           | Some hash \<Rightarrow>
               (case change_user (uID x) (\<lambda>x. x\<lparr>uHash := fst hash, uAlgo := algo_ptr (snd hash)\<rparr>)
                       ''sysop.bootstrap_seeded_password'' st of
                  (okay, st1) \<Rightarrow> (Some (if okay then None else Some BootSql), st1))))"

definition BootstrapSysop ::
  "(string \<Rightarrow> string) \<Rightarrow> RegisterDeps \<Rightarrow> string option \<Rightarrow> string \<Rightarrow> string \<Rightarrow> reg_state
   \<Rightarrow> boot_error option option \<times> reg_state" where
  "BootstrapSysop u D salt h pw st =
     (if h = [] then (Some None, st)
      else case step st of (begun, st0) \<Rightarrow>
        if \<not> begun then (Some (Some BootSql), st0)
        else case step st0 of (selected, st1) \<Rightarrow>
          if \<not> selected then (Some (Some BootSql), Rollback st0 st1)
          else case find (\<lambda>x. ToLower u (uHandle x) = ToLower u h) (users (rDB st1)) of
            None \<Rightarrow>
              if pw = [] then (case step st1 of (committed, st2) \<Rightarrow> (Some (if committed then None else Some BootSql), st2))
              else bootstrap_new u D salt h pw st0 st1
          | Some x \<Rightarrow>
              (case (if uSysop x then (True, st1) else change_user (uID x) (\<lambda>x. x\<lparr>uSysop := True\<rparr>) ''sysop.bootstrap'' st1) of
                 (okay, st2) \<Rightarrow>
                   if \<not> okay then (Some (Some BootSql), Rollback st0 st2)
                   else (case seed_password D salt x pw st2 of
                     (Some None, st3) \<Rightarrow>
                       (case step st3 of (committed, st4) \<Rightarrow>
                          if committed then (Some None, st4) else (Some (Some BootSql), Rollback st0 st4))
                   | (r, st3) \<Rightarrow> (r, Rollback st0 st3))))"

section \<open>All or nothing\<close>

definition reg_ok :: "(string \<Rightarrow> string) \<Rightarrow> reg_state \<Rightarrow> bool" where
  "reg_ok u st \<longleftrightarrow>
     distinct (map (\<lambda>x. ToLower u (uHandle x)) (users (rDB st))) \<and> distinct (map uID (users (rDB st)))
     \<and> (\<forall>x \<in> set (users (rDB st)). uID x < rNextUser st)
     \<and> distinct (map (\<lambda>c. (cProvider c, cSubject c)) (credentials (rDB st)))
     \<and> (\<forall>c \<in> set (credentials (rDB st)). cUser c \<in> uID ` set (users (rDB st)))"

definition new_user :: "int \<Rightarrow> string \<Rightarrow> bool \<Rightarrow> string \<Rightarrow> string option \<Rightarrow> user" where
  "new_user i h sysop hash algo =
     \<lparr>uID = i, uHandle = h, uSysop = sysop, uBanned = False, uHash = hash, uAlgo = algo, uRequireKey = False\<rparr>"

definition ssh_credential :: "int \<Rightarrow> int \<Rightarrow> string \<Rightarrow> credential" where
  "ssh_credential i usr sub = \<lparr>cID = i, cUser = usr, cProvider = CredentialProviderSSH, cSubject = sub\<rparr>"

definition with_user :: "user \<Rightarrow> reg_state \<Rightarrow> auth_db" where
  "with_user x st = (rDB st)\<lparr>users := users (rDB st) @ [x]\<rparr>"

text \<open>What a step leaves: the tables change as said, the sequence of users only grows.\<close>

lemma step_cases: "step st = (b, st') \<Longrightarrow> rDB st' = rDB st \<and> rAudit st' = rAudit st \<and> rNextUser st' = rNextUser st
    \<and> rFails st' = rFails st"
  by (auto simp: step_def)

lemma Rollback_simps [simp]:
  "rDB (Rollback a b) = rDB a" "rAudit (Rollback a b) = rAudit a" "rNextUser (Rollback a b) = rNextUser b"
  "rFails (Rollback a b) = rFails b"
  by (simp_all add: Rollback_def)

lemma insert_user_cases:
  assumes "insert_user u h sysop hash algo st = (r, st')"
  shows "rAudit st' = rAudit st \<and> rNextUser st \<le> rNextUser st' \<and> rFails st' = rFails st
    \<and> (case r of
         Inl e \<Rightarrow> rDB st' = rDB st
       | Inr i \<Rightarrow> i = rNextUser st \<and> rNextUser st' = i + 1
           \<and> rDB st' = with_user (new_user i h sysop hash algo) st
           \<and> (\<forall>x \<in> set (users (rDB st)). ToLower u (uHandle x) \<noteq> ToLower u h))"
  using assms step_cases
  by (fastforce simp: insert_user_def Let_def with_user_def new_user_def list_ex_iff split: prod.splits if_splits)

lemma insert_credential_cases:
  assumes "insert_credential usr sub st = (r, st')"
  shows "rAudit st' = rAudit st \<and> rNextUser st' = rNextUser st \<and> rFails st' = rFails st
    \<and> (case r of
         Some e \<Rightarrow> rDB st' = rDB st
       | None \<Rightarrow> \<exists>i. rDB st' = (rDB st)\<lparr>credentials := credentials (rDB st) @ [ssh_credential i usr sub]\<rparr>
           \<and> (\<forall>c \<in> set (credentials (rDB st)). (cProvider c, cSubject c) \<noteq> (CredentialProviderSSH, sub)))"
  using assms step_cases
  by (fastforce simp: insert_credential_def Let_def ssh_credential_def list_ex_iff split: prod.splits if_splits)

lemma insertAuditLog_cases:
  "insertAuditLog action i st = (b, st') \<Longrightarrow> rDB st' = rDB st \<and> rNextUser st' = rNextUser st \<and> rFails st' = rFails st
    \<and> rAudit st' = (if b then rAudit st @ [(action, i)] else rAudit st)"
  using step_cases by (fastforce simp: insertAuditLog_def split: prod.splits if_splits)

text \<open>The tables after a registration.\<close>

definition registered :: "reg_state \<Rightarrow> user \<Rightarrow> string option \<Rightarrow> reg_state \<Rightarrow> bool" where
  "registered st x adopt st' \<longleftrightarrow>
     users (rDB st') = users (rDB st) @ [x]
     \<and> (case adopt of None \<Rightarrow> credentials (rDB st') = credentials (rDB st)
        | Some fp \<Rightarrow> \<exists>i. credentials (rDB st') = credentials (rDB st) @ [ssh_credential i (uID x) fp]
            \<and> (\<forall>c \<in> set (credentials (rDB st)). (cProvider c, cSubject c) \<noteq> (CredentialProviderSSH, fp)))
     \<and> usersFail (rDB st') = usersFail (rDB st) \<and> credsFail (rDB st') = credsFail (rDB st)
     \<and> rAudit st' = rAudit st @ [(''user.registered'', uID x)] \<and> rNextUser st' = uID x + 1 \<and> uID x = rNextUser st"

lemma register_tx_cases:
  assumes "register_tx u h promote adopt hash st = (r, st')"
  shows "(\<exists>e. r = Inl e \<and> rDB st' = rDB st \<and> rAudit st' = rAudit st \<and> rNextUser st \<le> rNextUser st')
    \<or> (\<exists>x. x = new_user (rNextUser st) h promote (fst hash) (algo_ptr (snd hash))
         \<and> r = Inr (Known (uID x) h promote no_offer) \<and> registered st x adopt st'
         \<and> (\<forall>y \<in> set (users (rDB st)). ToLower u (uHandle y) \<noteq> ToLower u h))"
proof -
  obtain b0 st0 where s0: "step st = (b0, st0)" by fastforce
  note c0 = step_cases [OF s0]
  show ?thesis
  proof (cases b0)
    case False
    with assms s0 c0 show ?thesis by (auto simp: register_tx_def)
  next
    case True
    obtain r1 st1 where s1: "insert_user u h promote (fst hash) (algo_ptr (snd hash)) st0 = (r1, st1)" by fastforce
    note c1 = insert_user_cases [OF s1]
    show ?thesis
    proof (cases r1)
      case (Inl e)
      with assms s0 True s1 c0 c1 show ?thesis by (auto simp: register_tx_def)
    next
      case (Inr i)
      obtain r2 st2 where s2: "(case adopt of None \<Rightarrow> (None, st1) | Some fp \<Rightarrow> insert_credential i fp st1) = (r2, st2)"
        by fastforce
      have c2: "rAudit st2 = rAudit st1 \<and> rNextUser st2 = rNextUser st1
        \<and> (case r2 of Some e \<Rightarrow> rDB st2 = rDB st1 | None \<Rightarrow>
              (case adopt of None \<Rightarrow> rDB st2 = rDB st1
               | Some fp \<Rightarrow> \<exists>j. rDB st2 = (rDB st1)\<lparr>credentials := credentials (rDB st1) @ [ssh_credential j i fp]\<rparr>
                   \<and> (\<forall>c \<in> set (credentials (rDB st1)). (cProvider c, cSubject c) \<noteq> (CredentialProviderSSH, fp))))"
      proof (cases adopt)
        case (Some fp)
        with s2 have "insert_credential i fp st1 = (r2, st2)" by simp
        from insert_credential_cases [OF this] Some show ?thesis by (cases r2) simp_all
      qed (use s2 in auto)
      show ?thesis
      proof (cases r2)
        case (Some e)
        with assms s0 True s1 Inr s2 c0 c1 c2 show ?thesis by (auto simp: register_tx_def)
      next
        case None
        obtain b3 st3 where s3: "insertAuditLog ''user.registered'' i st2 = (b3, st3)" by fastforce
        note c3 = insertAuditLog_cases [OF s3]
        obtain b4 st4 where s4: "step st3 = (b4, st4)" by fastforce
        note c4 = step_cases [OF s4]
        show ?thesis
        proof (cases "b3 \<and> b4")
          case False
          with assms s0 True s1 Inr s2 None s3 s4
          have "r = Inl RegInternal" "st' = Rollback st0 st3 \<or> st' = Rollback st0 st4"
            by (cases b3; simp add: register_tx_def)+
          with c0 c1 c2 c3 c4 show ?thesis by auto
        next
          case both: True
          then have "r = Inr (Known i h promote no_offer)" "st' = st4"
            using assms s0 True s1 Inr s2 None s3 s4 by (simp_all add: register_tx_def)
          moreover have "registered st (new_user i h promote (fst hash) (algo_ptr (snd hash))) adopt st4"
            using both Inr None c0 c1 c2 c3 c4
            by (cases adopt) (auto simp: registered_def with_user_def new_user_def)
          ultimately show ?thesis using Inr c0 c1 by (auto simp: new_user_def)
        qed
      qed
    qed
  qed
qed

lemma registered_ok:
  assumes "reg_ok u st" "registered st x adopt st'" "\<forall>y \<in> set (users (rDB st)). ToLower u (uHandle y) \<noteq> ToLower u (uHandle x)"
  shows "reg_ok u st'"
proof -
  have "uID x \<notin> uID ` set (users (rDB st))" using assms(1,2) by (auto simp: reg_ok_def registered_def)
  with assms show ?thesis
    unfolding reg_ok_def registered_def by (cases adopt) (fastforce simp: ssh_credential_def)+
qed


section \<open>Registering, then logging in\<close>

lemma find_new:
  assumes "\<forall>y \<in> set xs. \<not> p y" "p x"
  shows "find p (xs @ [x]) = Some x"
  using assms by (induction xs) auto


section \<open>The sysop of the environment\<close>

text \<open>What a run does to an account that exists: it becomes sysop, and gets a password if it has none.\<close>

definition promoted :: "string \<Rightarrow> (string \<times> string) \<Rightarrow> user \<Rightarrow> user" where
  "promoted pw hash x =
     (let y = x\<lparr>uSysop := True\<rparr> in
      if pw = [] \<or> uHash x \<noteq> [] then y else y\<lparr>uHash := fst hash, uAlgo := algo_ptr (snd hash)\<rparr>)"

definition db_works :: "reg_state \<Rightarrow> bool" where
  "db_works st \<longleftrightarrow> (\<forall>n. \<not> rFails st n)"

lemma step_works: "db_works st \<Longrightarrow> step st = (True, st\<lparr>rCalls := Suc (rCalls st)\<rparr>)"
  by (simp add: step_def db_works_def)

definition at_handle :: "(string \<Rightarrow> string) \<Rightarrow> string \<Rightarrow> reg_state \<Rightarrow> user option" where
  "at_handle u h st = find (\<lambda>x. ToLower u (uHandle x) = ToLower u h) (users (rDB st))"

lemma map_id_twice:
  "map (\<lambda>x. if uID x = i then g x else x) (map (\<lambda>x. if uID x = i then f x else x) xs)
     = map (\<lambda>x. if uID x = i then (if uID (f x) = i then g (f x) else f x) else x) xs"
  by auto

lemma change_user_works:
  assumes "db_works st"
  shows "\<exists>st'. change_user i f action st = (True, st') \<and> db_works st'
    \<and> rDB st' = (rDB st)\<lparr>users := map (\<lambda>x. if uID x = i then f x else x) (users (rDB st))\<rparr>
    \<and> rAudit st' = rAudit st @ [(action, i)]"
  using assms by (simp add: change_user_def update_user_def insertAuditLog_def step_def db_works_def)

lemma find_mapped:
  assumes "find p xs = Some x" "\<And>y. p (if uID y = i then f y else y) = p y"
  shows "find p (map (\<lambda>y. if uID y = i then f y else y) xs) = Some (if uID x = i then f x else x)"
  using assms by (induction xs) (auto split: if_splits)

lemma seed_password_works:
  assumes "db_works st" "Hash (dKdf D) (dParams D) s pw = Some hash"
  shows "\<exists>st'. seed_password D (Some s) x pw st = (Some None, st') \<and> db_works st'
    \<and> rDB st' = (if pw = [] \<or> uHash x \<noteq> [] then rDB st
        else (rDB st)\<lparr>users := map (\<lambda>y. if uID y = uID x then y\<lparr>uHash := fst hash, uAlgo := algo_ptr (snd hash)\<rparr> else y) (users (rDB st))\<rparr>)
    \<and> (\<exists>log. rAudit st' = rAudit st @ log \<and> (log = [] \<longleftrightarrow> pw = [] \<or> uHash x \<noteq> []))"
  using assms(1) change_user_works [OF assms(1), of "uID x" "\<lambda>y. y\<lparr>uHash := fst hash, uAlgo := algo_ptr (snd hash)\<rparr>" "''sysop.bootstrap_seeded_password''"]
  by (auto simp: seed_password_def assms(2))

definition boot_done :: "(string \<Rightarrow> string) \<Rightarrow> string \<Rightarrow> string \<Rightarrow> reg_state \<Rightarrow> bool" where
  "boot_done u h pw st \<longleftrightarrow>
     (case at_handle u h st of None \<Rightarrow> pw = [] | Some x \<Rightarrow> uSysop x \<and> (pw = [] \<or> uHash x \<noteq> []))"

lemma boot_done_stays:
  assumes "db_works st" "boot_done u h pw st" "h \<noteq> []"
  shows "\<exists>st'. BootstrapSysop u D salt h pw st = (Some None, st') \<and> rDB st' = rDB st \<and> rAudit st' = rAudit st"
  using assms
  by (auto simp: BootstrapSysop_def step_def db_works_def boot_done_def at_handle_def seed_password_def
      split: option.splits)

lemma boot_new:
  assumes "db_works st" "at_handle u h st = None" "h \<noteq> []" "pw \<noteq> []" "Hash (dKdf D) (dParams D) s pw = Some hash"
  shows "\<exists>st'. BootstrapSysop u D (Some s) h pw st = (Some None, st')
    \<and> rDB st' = with_user (new_user (rNextUser st) h True (fst hash) (algo_ptr (snd hash))) st
    \<and> rAudit st' = rAudit st @ [(''sysop.bootstrap_seeded'', rNextUser st)] \<and> db_works st'"
proof -
  have "\<not> list_ex (\<lambda>x. ToLower u (uHandle x) = ToLower u h) (users (rDB st))"
    using assms(2) by (auto simp: at_handle_def find_None_iff list_ex_iff)
  then show ?thesis
    using assms unfolding at_handle_def
    by (simp add: BootstrapSysop_def bootstrap_new_def step_def db_works_def insert_user_def insertAuditLog_def
        Let_def with_user_def new_user_def)
qed

lemma boot_old:
  assumes "db_works st" "at_handle u h st = Some x" "h \<noteq> []" "Hash (dKdf D) (dParams D) s pw = Some hash"
    and "distinct (map uID (users (rDB st)))"
  shows "\<exists>st' log. BootstrapSysop u D (Some s) h pw st = (Some None, st') \<and> db_works st'
    \<and> rDB st' = (rDB st)\<lparr>users := map (\<lambda>y. if uID y = uID x then promoted pw hash x else y) (users (rDB st))\<rparr>
    \<and> rAudit st' = rAudit st @ log"
proof -
  define st1 where "st1 = st\<lparr>rCalls := Suc (Suc (rCalls st))\<rparr>"
  have w: "db_works st1" using assms(1) by (simp add: st1_def db_works_def)
  have st: "step st = (True, st\<lparr>rCalls := Suc (rCalls st)\<rparr>)" "step (st\<lparr>rCalls := Suc (rCalls st)\<rparr>) = (True, st1)"
    "rDB st1 = rDB st"
    using assms(1) by (simp_all add: step_def db_works_def st1_def)
  obtain st2 log where s2: "(if uSysop x then (True, st1) else change_user (uID x) (\<lambda>x. x\<lparr>uSysop := True\<rparr>) ''sysop.bootstrap'' st1) = (True, st2)"
    "db_works st2" "rAudit st2 = rAudit st @ log"
    "rDB st2 = (if uSysop x then rDB st else (rDB st)\<lparr>users := map (\<lambda>y. if uID y = uID x then y\<lparr>uSysop := True\<rparr> else y) (users (rDB st))\<rparr>)"
    using change_user_works [OF w, of "uID x" "\<lambda>x. x\<lparr>uSysop := True\<rparr>" "''sysop.bootstrap''"] w
    by (cases "uSysop x") (auto simp: st1_def)
  obtain st3 log' where s3: "seed_password D (Some s) x pw st2 = (Some None, st3)" "db_works st3" "rAudit st3 = rAudit st2 @ log'"
    "rDB st3 = (if pw = [] \<or> uHash x \<noteq> [] then rDB st2
        else (rDB st2)\<lparr>users := map (\<lambda>y. if uID y = uID x then y\<lparr>uHash := fst hash, uAlgo := algo_ptr (snd hash)\<rparr> else y) (users (rDB st2))\<rparr>)"
    using seed_password_works [OF s2(2) assms(4), of x] by blast
  have x: "x \<in> set (users (rDB st))" using assms(2) unfolding at_handle_def by (metis find_Some_iff nth_mem)
  then have one: "uID y = uID x \<longleftrightarrow> y = x" if "y \<in> set (users (rDB st))" for y
    using assms(5) that by (metis distinct_map inj_onD)
  have "promoted pw hash x = x" if "uSysop x" "pw = [] \<or> uHash x \<noteq> []"
    using that by (cases x) (auto simp: promoted_def Let_def)
  then have id: "map (\<lambda>y. if uID y = uID x then promoted pw hash x else y) (users (rDB st)) = users (rDB st)"
    if "uSysop x" "pw = [] \<or> uHash x \<noteq> []"
    using that one by (intro map_idI) auto
  have db: "rDB st3 = (rDB st)\<lparr>users := map (\<lambda>y. if uID y = uID x then promoted pw hash x else y) (users (rDB st))\<rparr>"
    unfolding s3(4) s2(4)
    using id by (cases "rDB st") (auto simp: promoted_def Let_def one split: if_splits intro!: map_cong)
  have "BootstrapSysop u D (Some s) h pw st = (Some None, st3\<lparr>rCalls := Suc (rCalls st3)\<rparr>)"
    using assms(2,3) by (simp add: BootstrapSysop_def at_handle_def st s2(1) s3(1) step_works [OF s3(2)])
  then show ?thesis using db s2(3) s3(2,3) by (auto simp: db_works_def)
qed

text \<open>
  With a working database, booting with the sysop's handle creates the account (given a
  password), or promotes it and sets a password only where there was none: a stored password is never
  replaced and no other account is touched.  Booting again, with whatever salt, changes nothing.
\<close>

theorem bootstrap_idempotent:
  assumes "db_works st" and "distinct (map uID (users (rDB st)))" and "h \<noteq> []"
    and "Hash (dKdf D) (dParams D) s pw = Some hash" and "BootstrapSysop u D (Some s) h pw st = (r, st1)"
    and "BootstrapSysop u D salt h pw st1 = (r2, st2)"
  shows "r = Some None
    \<and> (case at_handle u h st of
         None \<Rightarrow> rDB st1 = (if pw = [] then rDB st
                           else with_user (new_user (rNextUser st) h True (fst hash) (algo_ptr (snd hash))) st)
       | Some x \<Rightarrow> rDB st1 = (rDB st)\<lparr>users := map (\<lambda>y. if uID y = uID x then promoted pw hash x else y) (users (rDB st))\<rparr>
            \<and> (uHash x \<noteq> [] \<longrightarrow> uHash (promoted pw hash x) = uHash x))
    \<and> r2 = Some None \<and> rDB st2 = rDB st1 \<and> rAudit st2 = rAudit st1"
proof -
  have hash: "fst hash \<noteq> []" using assms(4) by (auto simp: Hash_def phc_def)
  have again: "r2 = Some None \<and> rDB st2 = rDB st1 \<and> rAudit st2 = rAudit st1" if "db_works st1" "boot_done u h pw st1"
    using boot_done_stays [OF that assms(3), of D salt] assms(6) by auto
  show ?thesis
  proof (cases "at_handle u h st")
    case None
    show ?thesis
    proof (cases "pw = []")
      case True
      with None assms(1,3,5) have "r = Some None" "rDB st1 = rDB st" "db_works st1"
        by (auto simp: BootstrapSysop_def at_handle_def step_def db_works_def)
      moreover from this None True have "boot_done u h pw st1" by (simp add: boot_done_def at_handle_def)
      ultimately show ?thesis using again None True by simp
    next
      case False
      from boot_new [OF assms(1) None assms(3) False assms(4)] assms(5)
      have n: "r = Some None" "rDB st1 = with_user (new_user (rNextUser st) h True (fst hash) (algo_ptr (snd hash))) st" "db_works st1"
        by auto
      let ?x = "new_user (rNextUser st) h True (fst hash) (algo_ptr (snd hash))"
      have "at_handle u h st1 = Some ?x"
        using None n(2) find_new [of "users (rDB st)" "\<lambda>y. ToLower u (uHandle y) = ToLower u h" ?x]
        by (auto simp: at_handle_def with_user_def find_None_iff new_user_def)
      then have "boot_done u h pw st1" using hash by (simp add: boot_done_def new_user_def)
      with again n None False show ?thesis by simp
    qed
  next
    case (Some x)
    from boot_old [OF assms(1) Some assms(3,4,2)] assms(5)
    have n: "r = Some None" "db_works st1"
      "rDB st1 = (rDB st)\<lparr>users := map (\<lambda>y. if uID y = uID x then promoted pw hash x else y) (users (rDB st))\<rparr>" by auto
    have x: "x \<in> set (users (rDB st))" "ToLower u (uHandle x) = ToLower u h"
      using Some unfolding at_handle_def by (auto simp: find_Some_iff)
    have keeps: "uHandle (promoted pw hash x) = uHandle x" "uSysop (promoted pw hash x)" "pw = [] \<or> uHash (promoted pw hash x) \<noteq> []"
      using hash by (simp_all add: promoted_def Let_def)
    have "(\<lambda>y. if uID y = uID x then promoted pw hash x else y) x = promoted pw hash x" by simp
    have "find (\<lambda>y. ToLower u (uHandle y) = ToLower u h) (map (\<lambda>y. if uID y = uID x then promoted pw hash x else y) ys)
        = Some (promoted pw hash x)"
      if "find (\<lambda>y. ToLower u (uHandle y) = ToLower u h) ys = Some x" "\<forall>y \<in> set ys. uID y = uID x \<longrightarrow> y = x" for ys
      using that x(2) keeps(1) by (induction ys) (auto split: if_splits)
    moreover have "\<forall>y \<in> set (users (rDB st)). uID y = uID x \<longrightarrow> y = x"
      using assms(2) x(1) by (metis distinct_map inj_onD)
    ultimately have "at_handle u h st1 = Some (promoted pw hash x)" using Some n(3) by (simp add: at_handle_def)
    then have "boot_done u h pw st1" using keeps by (simp add: boot_done_def)
    with again n Some show ?thesis by (simp add: promoted_def Let_def)
  qed
qed

section \<open>Witnesses\<close>

definition demo_reg :: reg_state where
  "demo_reg =
     \<lparr>rDB = \<lparr>users = [new_user 1 ''Bob'' False [] None], credentials = [], usersFail = False, credsFail = False\<rparr>,
      rAudit = [], rNextUser = 2, rNextCred = 1, rFails = \<lambda>_. False, rCalls = 0\<rparr>"

definition demo_deps :: RegisterDeps where
  "demo_deps = \<lparr>dKdf = demo_kdf, dParams = demo_params, BootstrapSysopHandle = ''Ann'', MinPasswordLength = 0, dSettings = None\<rparr>"

definition demo_form :: RegisterInput where
  "demo_form = \<lparr>inHandle = ''Ann'', inPassword = ''secretpw'', AdoptKey = True, OfferedFingerprint = ''SHA256:abc'',
     OfferedAlgorithm = ''ed25519'', OfferedBlob = ''k''\<rparr>"

lemma demo_form_name: "TrimSpace (inHandle demo_form) = ''Ann''"
  by (simp add: demo_form_def TrimSpace_plain)

lemma demo_digest: "demo_kdf ''secretpw'' ''salt'' 2 64 1 8 = Some ''secretpw''"
  by (simp add: demo_kdf_def)

lemma demo_hashed: "Hash demo_kdf demo_params ''salt'' ''secretpw'' = Some (phc demo_params ''salt'' ''secretpw'', [])"
  using demo_digest by (simp add: Hash_def demo_params_def)

lemmas lower_ascii = ToLower_def is_ascii_def lower_byte_def char_of_def bit_Suc_0_iff

lemma demo_created: "\<exists>st'. CreateAccount id (\<lambda>a b. False) demo_deps (Some ''salt'') demo_form demo_reg
    = (Some (Inr (Known 2 ''Ann'' True no_offer)), st')"
proof -
  have "EqualFold (\<lambda>a b. False) ''Ann'' ''Ann''" by (simp add: EqualFold_def is_ascii_def)
  moreover have "IsValidHandle ''Ann''" by (simp add: IsValidHandle_def handle_char_def)
  moreover have "inPassword demo_form = ''secretpw''" by (simp add: demo_form_def)
  ultimately show ?thesis
    by (simp add: CreateAccount_def demo_form_name demo_deps_def demo_hashed register_tx_def step_def insert_user_def
        insert_credential_def insertAuditLog_def Let_def)
      (simp add: demo_reg_def demo_form_def new_user_def lower_ascii)
qed

lemma demo_reg_ok: "reg_ok id demo_reg"
  by (simp add: reg_ok_def demo_reg_def new_user_def)


lemma demo_no_lock: "\<not> LockedOut (fst (Check id mem_redis demo_limiter h None (store (world demo_state))))"
  using demo_free by (simp add: demo_parts)


lemma bootstrap_idempotent_witness:
  "\<exists>st1 st2. BootstrapSysop id demo_deps (Some ''salt'') ''BOB'' ''secretpw'' demo_reg = (Some None, st1)
     \<and> BootstrapSysop id demo_deps None ''BOB'' ''secretpw'' st1 = (Some None, st2) \<and> rDB st2 = rDB st1"
proof -
  obtain r st1 where b1: "BootstrapSysop id demo_deps (Some ''salt'') ''BOB'' ''secretpw'' demo_reg = (r, st1)" by fastforce
  obtain r2 st2 where b2: "BootstrapSysop id demo_deps None ''BOB'' ''secretpw'' st1 = (r2, st2)" by fastforce
  have w: "db_works demo_reg" "distinct (map uID (users (rDB demo_reg)))" by (simp_all add: db_works_def demo_reg_def)
  have "Hash (dKdf demo_deps) (dParams demo_deps) ''salt'' ''secretpw'' = Some (phc demo_params ''salt'' ''secretpw'', [])"
    using demo_hashed by (simp add: demo_deps_def)
  from bootstrap_idempotent [OF w _ this b1 b2] b1 b2 show ?thesis by auto
qed

end
